(* ===== verification/Prelude.thy ===== *)
theory Prelude
  imports Complex_Main "HOL-Library.AList" "HOL-Library.List_Lexorder" "HOL-Library.Char_ord"
begin

text \<open>
  What every component of the development shares: exceptions as values, the universe of
  Python values that flow through the engines as \<^verbatim>\<open>Any\<close>, insertion-ordered dictionaries, and the
  generic lemmas and theorem collections the component theories rest on.
\<close>

section \<open>Collections of facts\<close>

named_theorems dict_simps \<open>lookups and key lists of insertion-ordered dictionaries\<close>
named_theorems step_simps \<open>unfolding of one operation of a component\<close>
named_theorems inv_intros \<open>preservation of component invariants\<close>

section \<open>Insertion-ordered dictionaries\<close>

text \<open>
  A Python \<^verbatim>\<open>dict\<close> keeps the order in which its keys were first inserted; assigning to a key that
  is present keeps its position, and a new key goes to the end. This is what
  \<^verbatim>\<open>AList.update\<close> does on an association list, so \<^verbatim>\<open>d[k] = v\<close> is \<open>dput k v d\<close>,
  \<^verbatim>\<open>d.get(k)\<close> is \<open>dget d k\<close>, and \<^verbatim>\<open>d.keys()\<close> is \<open>dkeys d\<close>.
\<close>

type_synonym ('k, 'v) dict = "('k \<times> 'v) list"

abbreviation dget :: "('k, 'v) dict \<Rightarrow> 'k \<Rightarrow> 'v option" where
  "dget d k \<equiv> map_of d k"

abbreviation dput :: "'k \<Rightarrow> 'v \<Rightarrow> ('k, 'v) dict \<Rightarrow> ('k, 'v) dict" where
  "dput k v d \<equiv> AList.update k v d"

abbreviation dkeys :: "('k, 'v) dict \<Rightarrow> 'k list" where
  "dkeys d \<equiv> map fst d"

abbreviation dvals :: "('k, 'v) dict \<Rightarrow> 'v list" where
  "dvals d \<equiv> map snd d"

abbreviation ddel :: "'k \<Rightarrow> ('k, 'v) dict \<Rightarrow> ('k, 'v) dict" where
  "ddel k d \<equiv> AList.delete k d"

text \<open>\<^verbatim>\<open>d.get(k, default)\<close>, \<^verbatim>\<open>k in d\<close> and \<^verbatim>\<open>d.update(e)\<close>.\<close>

definition dget_default :: "('k, 'v) dict \<Rightarrow> 'k \<Rightarrow> 'v \<Rightarrow> 'v" where
  "dget_default d k v = (case dget d k of None \<Rightarrow> v | Some x \<Rightarrow> x)"

definition dmem :: "'k \<Rightarrow> ('k, 'v) dict \<Rightarrow> bool" where
  "dmem k d = (dget d k \<noteq> None)"

fun dupdate :: "('k, 'v) dict \<Rightarrow> ('k, 'v) dict \<Rightarrow> ('k, 'v) dict" where
  "dupdate d [] = d"
| "dupdate d ((k, v) # e) = dupdate (dput k v d) e"

text \<open>A dictionary is well formed when no key occurs twice.\<close>

abbreviation dict_ok :: "('k, 'v) dict \<Rightarrow> bool" where
  "dict_ok d \<equiv> distinct (dkeys d)"

lemma dget_dput [simp, dict_simps]: "dget (dput k v d) k' = (if k' = k then Some v else dget d k')"
  by (simp add: update_conv')

lemma dkeys_dput [dict_simps]:
  "dkeys (dput k v d) = (if k \<in> set (dkeys d) then dkeys d else dkeys d @ [k])"
  by (rule update_keys)

lemma dkeys_dput_set [simp, dict_simps]: "set (dkeys (dput k v d)) = insert k (set (dkeys d))"
  by (auto simp: update_keys)

lemma dict_ok_dput [simp, inv_intros]: "dict_ok d \<Longrightarrow> dict_ok (dput k v d)"
  by (rule distinct_update)

lemma dget_ddel [simp, dict_simps]: "dget (ddel k d) k' = (if k' = k then None else dget d k')"
  by (simp add: delete_conv')

lemma dict_ok_ddel [simp, inv_intros]: "dict_ok d \<Longrightarrow> dict_ok (ddel k d)"
  by (rule distinct_delete)

lemma fst_set_dput [simp]: "fst ` set (dput k v d) = insert k (fst ` set d)"
  by (simp add: dom_update)

lemma fst_set_ddel [simp]: "fst ` set (ddel k d) = fst ` set d - {k}"
  by (metis delete_keys list.set_map set_removeAll)

lemma dget_in_keys: "dget d k = Some v \<Longrightarrow> k \<in> set (dkeys d)"
  by (force dest: map_of_SomeD)

lemma in_keys_dget: "k \<in> set (dkeys d) \<Longrightarrow> \<exists>v. dget d k = Some v"
  by (metis list.set_map map_of_eq_None_iff not_None_eq)

lemma dget_None_iff: "dget d k = None \<longleftrightarrow> k \<notin> set (dkeys d)"
  by (simp add: map_of_eq_None_iff)

lemma dmem_iff [dict_simps]: "dmem k d \<longleftrightarrow> k \<in> set (dkeys d)"
  by (simp add: dmem_def dget_None_iff)

lemma dget_default_dput [simp, dict_simps]:
  "dget_default (dput k v d) k' w = (if k' = k then v else dget_default d k' w)"
  by (simp add: dget_default_def)

lemma dget_default_Nil [simp]: "dget_default [] k v = v"
  by (simp add: dget_default_def)

lemma in_dict_dget: "dict_ok d \<Longrightarrow> (k, v) \<in> set d \<longleftrightarrow> dget d k = Some v"
  by (simp add: map_of_eq_Some_iff)

lemma dput_all:
  assumes "\<forall>e \<in> set d. P e" "P (k, v)"
  shows "\<forall>e \<in> set (dput k v d). P e"
  using assms by (induction d) auto

lemma dget_dupdate: "dget (dupdate d e) k = (case dget (rev e) k of None \<Rightarrow> dget d k | Some v \<Rightarrow> Some v)"
  by (induction d e rule: dupdate.induct) (auto simp: map_add_def split: option.splits)

lemma dput_new: "k \<notin> fst ` set d \<Longrightarrow> dput k v d = d @ [(k, v)]"
  by (induction d) auto

lemma dget_tabulate: "k \<in> set ks \<Longrightarrow> dget (map (\<lambda>k. (k, f k)) ks) k = Some (f k)"
  by (simp add: map_of_map_restrict)

section \<open>Exceptions\<close>

text \<open>
  Python's exceptions as values. The classes are the built-in ones the modelled code raises or
  catches, those of \<^verbatim>\<open>kernel/exceptions.py\<close>, the two validation errors of the registries, and
  classes a user derives from one of these. An exception carries its class, the text of its message with a
  hole for every interpolated value, and those values.
\<close>

datatype exc_class =
    ExceptionC | ValueErrorC | TypeErrorC | LookupErrorC | KeyErrorC | AttributeErrorC
  | RuntimeErrorC | TimeoutErrorC
  | PyFlyException
  | BusinessException | ValidationException | ResourceNotFoundException | ConflictException
  | PreconditionFailedException | GoneException | InvalidRequestException
  | DataIntegrityException | ConcurrencyException | LockedResourceException
  | MethodNotAllowedException | UnsupportedMediaTypeException | PayloadTooLargeException
  | SecurityException | UnauthorizedException | ForbiddenException | AuthorizationException
  | InfrastructureException | ServiceUnavailableException | CircuitBreakerException
  | RateLimitException | BulkheadException | OperationTimeoutException
  | RetryExhaustedException | DegradedServiceException | NotImplementedException
  | ExternalServiceException | ThirdPartyServiceException | BadGatewayException
  | GatewayTimeoutException | QuotaExceededException
  | SagaValidationErrorC | TccValidationErrorC
  | UserExc string exc_class

section \<open>Python values\<close>

text \<open>
  The values that user code hands to the engines and gets back. \<open>VObj n fields\<close> is an object
  with identity \<open>n\<close> and attributes; \<open>VCtx\<close> stands for a reference to the running execution context,
  which the argument resolvers inject, and \<open>VCoroutine i\<close> for a coroutine object that a call of the
  method with identity \<open>i\<close> returned and nobody has awaited. Exceptions are values too, and their arguments are values.
\<close>

text \<open>An aware UTC \<^verbatim>\<open>datetime\<close>; its operations are in theory \<open>Datetime\<close>.\<close>

record datetime =
  dt_year :: nat
  dt_month :: nat
  dt_day :: nat
  dt_hour :: nat
  dt_minute :: nat
  dt_second :: nat
  dt_micro :: nat

datatype exn = Exn (exc_cls: exc_class) (exc_msg: string) (exc_args: "pyval list")
and pyval =
    VNone
  | VBool bool
  | VInt int
  | VFloat rat
  | VTime datetime
  | VStr string
  | VList "pyval list"
  | VDict "(string \<times> pyval) list"
  | VObj nat "(string \<times> pyval) list"
  | VExn exn
  | VCoroutine nat
  | VCtx

definition opt_val :: "pyval option \<Rightarrow> pyval" where
  "opt_val x = (case x of None \<Rightarrow> VNone | Some v \<Rightarrow> v)"

section \<open>Results\<close>

lemma sum_case_eq_Inr:
  "(case x of Inl e \<Rightarrow> Inl e | Inr v \<Rightarrow> f v) = Inr w \<longleftrightarrow> (\<exists>v. x = Inr v \<and> f v = Inr w)"
  by (cases x) auto

lemma sum_case_eq_Inl:
  "(case x of Inl e \<Rightarrow> Inl e | Inr v \<Rightarrow> f v) = Inl d \<longleftrightarrow> x = Inl d \<or> (\<exists>v. x = Inr v \<and> f v = Inl d)"
  by (cases x) auto

definition is_ok :: "'e + 'a \<Rightarrow> bool" where
  "is_ok r = (case r of Inl _ \<Rightarrow> False | Inr _ \<Rightarrow> True)"

lemma is_ok_simps [simp]: "is_ok (Inr v)" "\<not> is_ok (Inl e)"
  by (simp_all add: is_ok_def)

lemma is_ok_iff: "is_ok r \<longleftrightarrow> (\<exists>v. r = Inr v)"
  by (cases r) auto

text \<open>What follows a call that may raise.\<close>

definition res_bind :: "'e + 'a \<Rightarrow> ('a \<Rightarrow> 'e + 'b) \<Rightarrow> 'e + 'b" where
  "res_bind r f = (case r of Inl e \<Rightarrow> Inl e | Inr v \<Rightarrow> f v)"

lemma res_bind_simps [simp]: "res_bind (Inl e) f = Inl e" "res_bind (Inr v) f = f v"
  by (simp_all add: res_bind_def)

lemma res_bind_eq_Inr: "res_bind r f = Inr w \<longleftrightarrow> (\<exists>v. r = Inr v \<and> f v = Inr w)"
  by (cases r) auto

end
