(* ===== verification/Datetime.thy ===== *)
theory Datetime
  imports Prelude
begin

text \<open>
  The part of Python's \<^verbatim>\<open>datetime\<close> module the transactional code uses: UTC instants, their order,
  subtraction of a duration, and the ISO-8601 text that \<^verbatim>\<open>isoformat\<close> writes and
  \<^verbatim>\<open>fromisoformat\<close> reads. \<^verbatim>\<open>fromisoformat\<close> accepts more shapes than \<^verbatim>\<open>isoformat\<close> writes; the
  model reads the two that \<^verbatim>\<open>isoformat\<close> writes for an aware UTC value and raises on the others.
\<close>

definition leap_year :: "nat \<Rightarrow> bool" where
  "leap_year y \<longleftrightarrow> (4 dvd y \<and> \<not> 100 dvd y) \<or> 400 dvd y"

definition days_in_month :: "nat \<Rightarrow> nat \<Rightarrow> nat" where
  "days_in_month y m =
     (if m = 2 then (if leap_year y then 29 else 28)
      else if m = 4 \<or> m = 6 \<or> m = 9 \<or> m = 11 then 30 else 31)"

text \<open>The values a \<^verbatim>\<open>datetime\<close> object can hold.\<close>

definition dt_ok :: "datetime \<Rightarrow> bool" where
  "dt_ok d \<longleftrightarrow> 1 \<le> dt_year d \<and> dt_year d \<le> 9999 \<and> 1 \<le> dt_month d \<and> dt_month d \<le> 12 \<and>
     1 \<le> dt_day d \<and> dt_day d \<le> days_in_month (dt_year d) (dt_month d) \<and>
     dt_hour d < 24 \<and> dt_minute d < 60 \<and> dt_second d < 60 \<and> dt_micro d < 1000000"

section \<open>Order and subtraction\<close>

definition dt_key :: "datetime \<Rightarrow> nat list" where
  "dt_key d = [dt_year d, dt_month d, dt_day d, dt_hour d, dt_minute d, dt_second d, dt_micro d]"

definition dt_less :: "datetime \<Rightarrow> datetime \<Rightarrow> bool" where
  "dt_less a b \<longleftrightarrow> dt_key a < dt_key b"

lemma dt_less_irrefl [simp]: "\<not> dt_less a a"
  by (simp add: dt_less_def)

lemma dt_less_trans: "dt_less a b \<Longrightarrow> dt_less b c \<Longrightarrow> dt_less a c"
  by (auto simp: dt_less_def)

lemma dt_key_inject: "dt_key a = dt_key b \<Longrightarrow> a = b"
  by (rule datetime.equality) (simp_all add: dt_key_def)

lemma dt_less_linear: "dt_less a b \<or> a = b \<or> dt_less b a"
  using less_linear [of "dt_key a" "dt_key b"] dt_key_inject by (auto simp: dt_less_def)

text \<open>
  The proleptic Gregorian calendar as a count of days (day 0 is 1970-01-01) and back, and with it
  the subtraction of a number of seconds.
\<close>

definition days_from_civil :: "datetime \<Rightarrow> int" where
  "days_from_civil d =
     (let y = int (dt_year d) - (if dt_month d \<le> 2 then 1 else 0);
          era = y div 400; yoe = y mod 400;
          mp = (int (dt_month d) + 9) mod 12;
          doy = (153 * mp + 2) div 5 + int (dt_day d) - 1;
          doe = yoe * 365 + yoe div 4 - yoe div 100 + doy
      in era * 146097 + doe - 719468)"

definition civil_from_days :: "int \<Rightarrow> int \<times> int \<times> int" where
  "civil_from_days n =
     (let z = n + 719468; era = z div 146097; doe = z mod 146097;
          yoe = (doe - doe div 1460 + doe div 36524 - doe div 146096) div 365;
          doy = doe - (365 * yoe + yoe div 4 - yoe div 100);
          mp = (5 * doy + 2) div 153;
          day = doy - (153 * mp + 2) div 5 + 1;
          month = (if mp < 10 then mp + 3 else mp - 9)
      in (yoe + era * 400 + (if month \<le> 2 then 1 else 0), month, day))"

definition dt_minus_seconds :: "datetime \<Rightarrow> int \<Rightarrow> datetime" where
  "dt_minus_seconds d s =
     (let t = days_from_civil d * 86400 + int (dt_hour d) * 3600 + int (dt_minute d) * 60
              + int (dt_second d) - s;
          (y, m, day) = civil_from_days (t div 86400); r = t mod 86400
      in \<lparr>dt_year = nat y, dt_month = nat m, dt_day = nat day, dt_hour = nat (r div 3600),
          dt_minute = nat (r div 60 mod 60), dt_second = nat (r mod 60), dt_micro = dt_micro d\<rparr>)"

section \<open>ISO-8601 text\<close>

definition digit_char :: "nat \<Rightarrow> char" where
  "digit_char n = char_of (48 + n)"

definition char_digit :: "char \<Rightarrow> nat option" where
  "char_digit c = (let n = of_char c :: nat in if 48 \<le> n \<and> n \<le> 57 then Some (n - 48) else None)"

text \<open>A number in a fixed width, as the formatting \<^verbatim>\<open>{:04d}\<close> writes it, and its reading.\<close>

fun pad :: "nat \<Rightarrow> nat \<Rightarrow> string" where
  "pad 0 n = []"
| "pad (Suc w) n = pad w (n div 10) @ [digit_char (n mod 10)]"

fun read_digits :: "nat \<Rightarrow> string \<Rightarrow> nat option" where
  "read_digits acc [] = Some acc"
| "read_digits acc (c # cs) =
     (case char_digit c of None \<Rightarrow> None | Some k \<Rightarrow> read_digits (acc * 10 + k) cs)"

definition isoformat :: "datetime \<Rightarrow> string" where
  "isoformat d =
     pad 4 (dt_year d) @ ''-'' @ pad 2 (dt_month d) @ ''-'' @ pad 2 (dt_day d) @ ''T'' @
     pad 2 (dt_hour d) @ '':'' @ pad 2 (dt_minute d) @ '':'' @ pad 2 (dt_second d) @
     (if dt_micro d = 0 then [] else ''.'' @ pad 6 (dt_micro d)) @ ''+00:00''"

definition read_fields :: "string list \<Rightarrow> datetime option" where
  "read_fields fs =
     (case map (read_digits 0) fs of
        [Some y, Some mo, Some d, Some h, Some mi, Some s, Some us] \<Rightarrow>
          (let t = \<lparr>dt_year = y, dt_month = mo, dt_day = d, dt_hour = h, dt_minute = mi,
                    dt_second = s, dt_micro = us\<rparr>
           in if dt_ok t then Some t else None)
      | _ \<Rightarrow> None)"

definition slice :: "nat \<Rightarrow> nat \<Rightarrow> 'a list \<Rightarrow> 'a list" where
  "slice i n xs = take n (drop i xs)"

definition fromisoformat :: "string \<Rightarrow> exn + datetime" where
  "fromisoformat s =
     (let parts = [slice 0 4 s, slice 5 2 s, slice 8 2 s, slice 11 2 s, slice 14 2 s, slice 17 2 s];
          seps = slice 4 1 s @ slice 7 1 s @ slice 10 1 s @ slice 13 1 s @ slice 16 1 s;
          bad = Inl (Exn ValueErrorC ''Invalid isoformat string: {}'' [VStr s])
      in if seps \<noteq> ''--T::'' then bad
         else if drop 19 s = ''+00:00'' then
           (case read_fields (parts @ [''0'']) of None \<Rightarrow> bad | Some d \<Rightarrow> Inr d)
         else if slice 19 1 s = ''.'' \<and> drop 26 s = ''+00:00'' then
           (case read_fields (parts @ [slice 20 6 s]) of None \<Rightarrow> bad | Some d \<Rightarrow> Inr d)
         else bad)"

section \<open>Reading back what was written\<close>

lemma char_digit_digit_char: "n < 10 \<Longrightarrow> char_digit (digit_char n) = Some n"
  by (simp add: char_digit_def digit_char_def)

lemma length_pad [simp]: "length (pad w n) = w"
  by (induction w arbitrary: n) auto

lemma read_digits_append:
  "read_digits acc (xs @ ys) =
     (case read_digits acc xs of None \<Rightarrow> None | Some a \<Rightarrow> read_digits a ys)"
  by (induction xs arbitrary: acc) (auto split: option.splits)

lemma read_digits_pad: "n < 10 ^ w \<Longrightarrow> read_digits acc (pad w n) = Some (acc * 10 ^ w + n)"
proof (induction w arbitrary: n)
  case (Suc w)
  then have "n div 10 < 10 ^ w" by (simp add: less_mult_imp_div_less mult.commute)
  with Suc.IH [of "n div 10"] show ?case
    by (simp add: read_digits_append char_digit_digit_char algebra_simps)
qed simp

lemma read_digits_pad0: "n < 10 ^ w \<Longrightarrow> read_digits 0 (pad w n) = Some n"
  by (simp add: read_digits_pad)

lemma pad_split2: "\<exists>a b. pad 2 n = [a, b]"
proof -
  have "length (pad 2 n) = Suc (Suc 0)" by simp
  then show ?thesis unfolding length_Suc_conv by blast
qed

lemma pad_split4: "\<exists>a b c d. pad 4 n = [a, b, c, d]"
proof -
  have "length (pad 4 n) = Suc (Suc (Suc (Suc 0)))" by simp
  then show ?thesis unfolding length_Suc_conv by blast
qed

lemma pad_split6: "\<exists>a b c d e f. pad 6 n = [a, b, c, d, e, f]"
proof -
  have "length (pad 6 n) = Suc (Suc (Suc (Suc (Suc (Suc 0)))))" by simp
  then show ?thesis unfolding length_Suc_conv by blast
qed

lemma fromisoformat_isoformat [simp]:
  assumes "dt_ok d"
  shows "fromisoformat (isoformat d) = Inr d"
proof -
  have bounds: "dt_year d < 10 ^ 4" "dt_month d < 10 ^ 2" "dt_day d < 10 ^ 2" "dt_hour d < 10 ^ 2"
    "dt_minute d < 10 ^ 2" "dt_second d < 10 ^ 2" "dt_micro d < 10 ^ 6"
    using assms by (auto simp: dt_ok_def days_in_month_def split: if_splits)
  note rd = bounds [THEN read_digits_pad0]
  obtain y1 y2 y3 y4 where y: "pad 4 (dt_year d) = [y1, y2, y3, y4]" using pad_split4 by blast
  obtain m1 m2 where m: "pad 2 (dt_month d) = [m1, m2]" using pad_split2 by blast
  obtain d1 d2 where da: "pad 2 (dt_day d) = [d1, d2]" using pad_split2 by blast
  obtain h1 h2 where h: "pad 2 (dt_hour d) = [h1, h2]" using pad_split2 by blast
  obtain i1 i2 where mi: "pad 2 (dt_minute d) = [i1, i2]" using pad_split2 by blast
  obtain s1 s2 where s: "pad 2 (dt_second d) = [s1, s2]" using pad_split2 by blast
  obtain u1 u2 u3 u4 u5 u6 where u: "pad 6 (dt_micro d) = [u1, u2, u3, u4, u5, u6]"
    using pad_split6 by blast
  have z: "read_digits 0 ''0'' = Some 0" by (simp add: char_digit_def)
  show ?thesis
    using assms rd [unfolded y m da h mi s u]
    by (cases "dt_micro d = 0")
      (simp_all add: dt_ok_def fromisoformat_def isoformat_def y m da h mi s u slice_def read_fields_def z
        Let_def del: read_digits.simps)
qed

text \<open>A value of \<^verbatim>\<open>datetime | None\<close> written with the code's conditional, and read back.\<close>

lemma isoformat_not_empty [simp]: "isoformat d \<noteq> []"
  by (simp add: isoformat_def)

end
