(* ===== verification/Persistence.thy ===== *)
theory Persistence
  imports Datetime
begin

text \<open>
  \<^verbatim>\<open>shared/persistence/memory.py\<close>, the in-memory persistence adapter of the engines, and
  \<^verbatim>\<open>saga/persistence/recovery.py\<close>, which fails sagas that have been in flight too long. A
  transaction is a dictionary of Python values, the store a dictionary from correlation ids to transactions. The
  current time is an argument; the lock only serialises the operations, so each is one function.
\<close>

section \<open>InMemoryPersistenceAdapter\<close>

type_synonym pstate = "(string, pyval) dict"
type_synonym pstore = "(string, pstate) dict"

definition setdefault :: "'k \<Rightarrow> 'v \<Rightarrow> ('k, 'v) dict \<Rightarrow> ('k, 'v) dict" where
  "setdefault k v d = (if dmem k d then d else dput k v d)"

definition key_error :: "string \<Rightarrow> exn" where
  "key_error k = Exn KeyErrorC ''{}'' [VStr k]"

text \<open>
  What \<^verbatim>\<open>persist_state\<close> stores. A correlation id that is not a string is outside the port's
  signature; the model raises on it.
\<close>

definition with_defaults :: "datetime \<Rightarrow> pstate \<Rightarrow> pstate" where
  "with_defaults now state =
     setdefault ''started_at'' (VTime now) (setdefault ''status'' (VStr ''IN_FLIGHT'') state)"

definition persist_state :: "datetime \<Rightarrow> pstate \<Rightarrow> pstore \<Rightarrow> exn + pstore" where
  "persist_state now state store =
     (case dget state ''correlation_id'' of
        None \<Rightarrow> Inl (key_error ''correlation_id'')
      | Some (VStr correlation_id) \<Rightarrow> Inr (dput correlation_id (with_defaults now state) store)
      | Some _ \<Rightarrow> Inl (Exn TypeErrorC ''correlation_id is not a string'' []))"

definition get_state :: "pstore \<Rightarrow> string \<Rightarrow> pstate option" where
  "get_state store correlation_id = dget store correlation_id"

definition update_step_status :: "string \<Rightarrow> string \<Rightarrow> string \<Rightarrow> pstore \<Rightarrow> exn + pstore" where
  "update_step_status correlation_id step_id status store =
     (case dget store correlation_id of
        None \<Rightarrow> Inl (key_error correlation_id)
      | Some state \<Rightarrow>
          (case dget_default state ''steps'' (VDict []) of
             VDict ss \<Rightarrow>
               (case dget_default ss step_id (VDict []) of
                  VDict st \<Rightarrow>
                    Inr (dput correlation_id
                      (dput ''steps'' (VDict (dput step_id (VDict (dput ''status'' (VStr status) st)) ss)) state)
                      store)
                | _ \<Rightarrow> Inl (Exn TypeErrorC ''object does not support item assignment'' []))
           | _ \<Rightarrow> Inl (Exn AttributeErrorC ''object has no attribute setdefault'' [])))"

definition marked :: "datetime \<Rightarrow> bool \<Rightarrow> pstate \<Rightarrow> pstate" where
  "marked now successful state =
     dput ''completed_at'' (VTime now) (dput ''successful'' (VBool successful)
       (dput ''status'' (VStr (if successful then ''COMPLETED'' else ''FAILED'')) state))"

definition mark_completed :: "datetime \<Rightarrow> string \<Rightarrow> bool \<Rightarrow> pstore \<Rightarrow> exn + pstore" where
  "mark_completed now correlation_id successful store =
     (case dget store correlation_id of
        None \<Rightarrow> Inl (key_error correlation_id)
      | Some state \<Rightarrow> Inr (dput correlation_id (marked now successful state) store))"

definition status_is :: "string \<Rightarrow> pstate \<Rightarrow> bool" where
  "status_is s state = (case dget state ''status'' of Some (VStr s') \<Rightarrow> s' = s | _ \<Rightarrow> False)"

definition get_in_flight :: "pstore \<Rightarrow> pstate list" where
  "get_in_flight store = filter (status_is ''IN_FLIGHT'') (dvals store)"

text \<open>\<^verbatim>\<open><\<close> of a stored value and a datetime: only another datetime compares.\<close>

definition less_time :: "pyval \<Rightarrow> datetime \<Rightarrow> exn + bool" where
  "less_time v t =
     (case v of
        VTime s \<Rightarrow> Inr (dt_less s t)
      | _ \<Rightarrow> Inl (Exn TypeErrorC ''< not supported between these instances'' [v, VTime t]))"

fun get_stale_from :: "pstate list \<Rightarrow> datetime \<Rightarrow> exn + pstate list" where
  "get_stale_from [] before = Inr []"
| "get_stale_from (s # ss) before =
     (case opt_val (dget s ''started_at'') of
        VNone \<Rightarrow> get_stale_from ss before
      | v \<Rightarrow>
          (case less_time v before of
             Inl e \<Rightarrow> Inl e
           | Inr older \<Rightarrow>
               (case get_stale_from ss before of
                  Inl e \<Rightarrow> Inl e
                | Inr rest \<Rightarrow> Inr (if older then s # rest else rest))))"

definition get_stale :: "pstore \<Rightarrow> datetime \<Rightarrow> exn + pstate list" where
  "get_stale store before = get_stale_from (dvals store) before"

fun to_remove :: "pstore \<Rightarrow> datetime \<Rightarrow> exn + string list" where
  "to_remove [] cutoff = Inr []"
| "to_remove ((cid, state) # rest) cutoff =
     (if status_is ''COMPLETED'' state \<or> status_is ''FAILED'' state
      then case opt_val (dget state ''completed_at'') of
             VNone \<Rightarrow> to_remove rest cutoff
           | v \<Rightarrow>
               (case less_time v cutoff of
                  Inl e \<Rightarrow> Inl e
                | Inr older \<Rightarrow>
                    (case to_remove rest cutoff of
                       Inl e \<Rightarrow> Inl e
                     | Inr cids \<Rightarrow> Inr (if older then cid # cids else cids)))
      else to_remove rest cutoff)"

definition cleanup :: "datetime \<Rightarrow> int \<Rightarrow> pstore \<Rightarrow> exn + int \<times> pstore" where
  "cleanup now older_than_seconds store =
     (case to_remove store (dt_minus_seconds now older_than_seconds) of
        Inl e \<Rightarrow> Inl e
      | Inr cids \<Rightarrow> Inr (int (length cids), fold ddel cids store))"

definition is_healthy :: "pstore \<Rightarrow> bool" where
  "is_healthy store = True"

section \<open>The interface the engines rely on\<close>

locale persistence_port =
  fixes persist :: "datetime \<Rightarrow> pstate \<Rightarrow> 's \<Rightarrow> exn + 's"
    and lookup :: "'s \<Rightarrow> string \<Rightarrow> pstate option"
    and mark :: "datetime \<Rightarrow> string \<Rightarrow> bool \<Rightarrow> 's \<Rightarrow> exn + 's"
  assumes persist_lookup: "dget state ''correlation_id'' = Some (VStr cid) \<Longrightarrow>
      \<exists>s'. persist now state s = Inr s' \<and>
           (\<forall>c. lookup s' c = (if c = cid then Some (with_defaults now state) else lookup s c))"
    and mark_lookup: "lookup s cid = Some st \<Longrightarrow>
      \<exists>s'. mark now cid ok s = Inr s' \<and>
           (\<forall>c. lookup s' c = (if c = cid then Some (marked now ok st) else lookup s c))"
    and mark_missing: "lookup s cid = None \<Longrightarrow> \<exists>e. mark now cid ok s = Inl e \<and> exc_cls e = KeyErrorC"
begin

text \<open>A transaction that is persisted and then marked is on record, finished, with its other fields.\<close>

lemma persist_then_mark:
  assumes "dget state ''correlation_id'' = Some (VStr cid)"
  shows "\<exists>s1 s2. persist t0 state s = Inr s1 \<and> mark t1 cid ok s1 = Inr s2 \<and>
           (\<forall>c. lookup s2 c = (if c = cid then Some (marked t1 ok (with_defaults t0 state)) else lookup s c))"
proof -
  obtain s1 where s1: "persist t0 state s = Inr s1"
    "\<And>c. lookup s1 c = (if c = cid then Some (with_defaults t0 state) else lookup s c)"
    using persist_lookup [OF assms] by metis
  obtain s2 where "mark t1 cid ok s1 = Inr s2"
    "\<And>c. lookup s2 c = (if c = cid then Some (marked t1 ok (with_defaults t0 state)) else lookup s1 c)"
    using mark_lookup [of s1 cid] s1(2) by metis
  with s1 show ?thesis by auto
qed

end

interpretation memory: persistence_port persist_state get_state mark_completed
  by unfold_locales (auto simp: persist_state_def get_state_def mark_completed_def key_error_def)

section \<open>SagaRecoveryService\<close>

text \<open>
  \<open>notify\<close> is the events port: what \<^verbatim>\<open>on_completed\<close> raises, if anything. The list of stale
  sagas holds the stored dictionaries themselves; as each occurs in it once and marking one changes no other, reading
  a status from the list is reading it from the store.
\<close>

type_synonym notify = "(string \<Rightarrow> string \<Rightarrow> exn option) option"

fun recover_each :: "datetime \<Rightarrow> notify \<Rightarrow> pstate list \<Rightarrow> int \<Rightarrow> pstore \<Rightarrow> (exn + int) \<times> pstore" where
  "recover_each now notify [] recovered store = (Inr recovered, store)"
| "recover_each now notify (s # ss) recovered store =
     (if \<not> status_is ''IN_FLIGHT'' s then recover_each now notify ss recovered store
      else case dget s ''correlation_id'' of
        None \<Rightarrow> (Inl (key_error ''correlation_id''), store)
      | Some (VStr correlation_id) \<Rightarrow>
          (let saga_name = (case dget s ''saga_name'' of Some (VStr n) \<Rightarrow> n | _ \<Rightarrow> ''unknown'')
           in case mark_completed now correlation_id False store of
                Inl e \<Rightarrow> (Inl e, store)
              | Inr store' \<Rightarrow>
                  (case notify of
                     None \<Rightarrow> recover_each now notify ss (recovered + 1) store'
                   | Some f \<Rightarrow>
                       (case f saga_name correlation_id of
                          Some e \<Rightarrow> (Inl e, store')
                        | None \<Rightarrow> recover_each now notify ss (recovered + 1) store')))
      | Some _ \<Rightarrow> (Inl (Exn KeyErrorC ''{}'' [opt_val (dget s ''correlation_id'')]), store))"

definition recover_stale :: "datetime \<Rightarrow> notify \<Rightarrow> int \<Rightarrow> pstore \<Rightarrow> (exn + int) \<times> pstore" where
  "recover_stale now notify stale_threshold_seconds store =
     (case get_stale store (dt_minus_seconds now stale_threshold_seconds) of
        Inl e \<Rightarrow> (Inl e, store)
      | Inr stale_sagas \<Rightarrow> recover_each now notify stale_sagas 0 store)"

definition recovery_cleanup :: "datetime \<Rightarrow> int \<Rightarrow> pstore \<Rightarrow> exn + int \<times> pstore" where
  "recovery_cleanup now older_than_hours store = cleanup now (older_than_hours * 3600) store"

section \<open>The invariant of the store\<close>

definition store_ok :: "pstore \<Rightarrow> bool" where
  "store_ok store \<longleftrightarrow> dict_ok store \<and>
     (\<forall>(cid, s) \<in> set store. dget s ''correlation_id'' = Some (VStr cid) \<and> dmem ''status'' s)"

lemma store_ok_dput:
  "store_ok store \<Longrightarrow> dget s ''correlation_id'' = Some (VStr cid) \<Longrightarrow> dmem ''status'' s \<Longrightarrow>
     store_ok (dput cid s store)"
  unfolding store_ok_def by (intro conjI dput_all) simp_all

lemma setdefault_get: "dget (setdefault k v d) k' = (if k' = k \<and> dget d k = None then Some v else dget d k')"
  by (auto simp: setdefault_def dmem_def)

lemma store_ok_persist [inv_intros]:
  "store_ok store \<Longrightarrow> persist_state now s store = Inr store' \<Longrightarrow> store_ok store'"
  by (auto simp: persist_state_def with_defaults_def setdefault_get dmem_def
      intro!: store_ok_dput split: option.splits pyval.splits)

lemma store_ok_get: "store_ok store \<Longrightarrow> dget store cid = Some s \<Longrightarrow>
    dget s ''correlation_id'' = Some (VStr cid) \<and> dmem ''status'' s"
  by (auto simp: store_ok_def dest!: map_of_SomeD)

lemma marked_get:
  "dget (marked now ok s) k = (if k = ''completed_at'' then Some (VTime now)
     else if k = ''successful'' then Some (VBool ok)
     else if k = ''status'' then Some (VStr (if ok then ''COMPLETED'' else ''FAILED'')) else dget s k)"
  by (simp add: marked_def)

lemma store_ok_mark [inv_intros]:
  "store_ok store \<Longrightarrow> mark_completed now cid ok store = Inr store' \<Longrightarrow> store_ok store'"
  by (auto simp: mark_completed_def marked_get dmem_def
      intro!: store_ok_dput dest: store_ok_get split: option.splits)

lemma store_ok_update [inv_intros]:
  "store_ok store \<Longrightarrow> update_step_status cid sid st store = Inr store' \<Longrightarrow> store_ok store'"
  by (auto simp: update_step_status_def dmem_def
      intro!: store_ok_dput dest: store_ok_get split: option.splits pyval.splits)

section \<open>Stale and expired transactions\<close>

definition comparable :: "string \<Rightarrow> pstate \<Rightarrow> bool" where
  "comparable k s = (case opt_val (dget s k) of VNone \<Rightarrow> True | VTime _ \<Rightarrow> True | _ \<Rightarrow> False)"

definition older :: "string \<Rightarrow> datetime \<Rightarrow> pstate \<Rightarrow> bool" where
  "older k t s = (case opt_val (dget s k) of VTime t' \<Rightarrow> dt_less t' t | _ \<Rightarrow> False)"

lemma get_stale_ok:
  "\<forall>s \<in> set ss. comparable ''started_at'' s \<Longrightarrow> get_stale_from ss before = Inr (filter (older ''started_at'' before) ss)"
  by (induction ss) (auto simp: comparable_def older_def less_time_def split: pyval.splits)

lemma get_stale_bad:
  "s \<in> set ss \<Longrightarrow> \<not> comparable ''started_at'' s \<Longrightarrow> \<exists>e. get_stale_from ss before = Inl e \<and> exc_cls e = TypeErrorC"
proof (induction ss)
  case (Cons x ss)
  show ?case
  proof (cases "comparable ''started_at'' x")
    case True
    with Cons.prems have "s \<in> set ss" by auto
    with Cons obtain e where "get_stale_from ss before = Inl e" "exc_cls e = TypeErrorC" by auto
    with True show ?thesis by (auto simp: comparable_def less_time_def split: pyval.splits)
  next
    case False
    then show ?thesis by (auto simp: comparable_def less_time_def split: pyval.splits)
  qed
qed simp

lemma get_stale_Inr:
  assumes "get_stale store before = Inr stale"
  shows "stale = filter (older ''started_at'' before) (dvals store)"
proof -
  have "\<forall>s \<in> set (dvals store). comparable ''started_at'' s"
    using assms get_stale_bad [of _ "dvals store" before] by (force simp: get_stale_def)
  then show ?thesis using assms get_stale_ok [of "dvals store" before] by (simp add: get_stale_def)
qed

definition notify_ok :: "notify \<Rightarrow> bool" where
  "notify_ok notify = (case notify of None \<Rightarrow> True | Some f \<Rightarrow> (\<forall>n c. f n c = None))"

definition cid_of :: "pstate \<Rightarrow> string" where
  "cid_of s = (case dget s ''correlation_id'' of Some (VStr c) \<Rightarrow> c | _ \<Rightarrow> [])"

lemma cid_of_eq: "dget s ''correlation_id'' = Some (VStr c) \<Longrightarrow> cid_of s = c"
  by (simp add: cid_of_def)

lemma recover_each_ok:
  assumes "notify_ok notify" "\<forall>s \<in> set ss. \<exists>c. dget s ''correlation_id'' = Some (VStr c) \<and> get_state store c = Some s"
    and "distinct (map cid_of ss)"
  shows "\<exists>store'. recover_each now notify ss n store =
             (Inr (n + int (length (filter (status_is ''IN_FLIGHT'') ss))), store') \<and>
           (\<forall>c. get_state store' c = (if c \<in> set (map cid_of (filter (status_is ''IN_FLIGHT'') ss))
                                       then map_option (marked now False) (get_state store c) else get_state store c))"
  using assms(2,3)
proof (induction ss arbitrary: n store)
  case (Cons s ss)
  then obtain c where c: "dget s ''correlation_id'' = Some (VStr c)" "get_state store c = Some s" by auto
  have id: "cid_of s = c" using c(1) by (rule cid_of_eq)
  have new: "c \<notin> set (map cid_of ss)" and dis: "distinct (map cid_of ss)" using Cons.prems(2) id by auto
  show ?case
  proof (cases "status_is ''IN_FLIGHT'' s")
    case False
    with Cons.IH [OF _ dis, of store n] Cons.prems(1) show ?thesis by simp
  next
    case True
    obtain st' where st': "mark_completed now c False store = Inr st'"
      "\<And>d. get_state st' d = (if d = c then Some (marked now False s) else get_state store d)"
      using memory.mark_lookup [OF c(2)] by metis
    have "\<exists>d. dget r ''correlation_id'' = Some (VStr d) \<and> get_state st' d = Some r" if r: "r \<in> set ss" for r
    proof -
      obtain d where d: "dget r ''correlation_id'' = Some (VStr d)" "get_state store d = Some r"
        using Cons.prems(1) r by auto
      have "cid_of r \<in> set (map cid_of ss)" using r by simp
      with new d cid_of_eq [OF d(1)] show ?thesis by (auto simp: st'(2))
    qed
    with Cons.IH [OF _ dis, of st' "n + 1"] obtain st2 where st2: "recover_each now notify ss (n + 1) st' =
        (Inr (n + 1 + int (length (filter (status_is ''IN_FLIGHT'') ss))), st2)"
      "\<And>d. get_state st2 d = (if d \<in> set (map cid_of (filter (status_is ''IN_FLIGHT'') ss))
         then map_option (marked now False) (get_state st' d) else get_state st' d)"
      by blast
    have "recover_each now notify (s # ss) n store = recover_each now notify ss (n + 1) st'"
      using True c(1) st'(1) assms(1) by (cases notify) (simp_all add: Let_def notify_ok_def)
    moreover have "c \<notin> set (map cid_of (filter (status_is ''IN_FLIGHT'') ss))" using new by auto
    ultimately show ?thesis using True id c(2) st2 st'(2) by (intro exI [of _ st2]) simp
  qed
qed simp

lemma ids_of_store: "store_ok store \<Longrightarrow> map cid_of (dvals store) = dkeys store"
  by (fastforce simp: store_ok_def intro: cid_of_eq)

lemma recover_stale_ok:
  assumes ok: "store_ok store" and n: "notify_ok notify"
    and stale: "get_stale store (dt_minus_seconds now secs) = Inr stale"
  shows "\<exists>store'. recover_stale now notify secs store =
             (Inr (int (length (filter (status_is ''IN_FLIGHT'') stale))), store') \<and>
           (\<forall>c. get_state store' c =
              map_option (\<lambda>s. if status_is ''IN_FLIGHT'' s \<and> older ''started_at'' (dt_minus_seconds now secs) s
                              then marked now False s else s) (get_state store c))"
proof -
  let ?old = "older ''started_at'' (dt_minus_seconds now secs)"
  have st: "stale = filter ?old (dvals store)" using stale by (rule get_stale_Inr)
  have val: "\<exists>c. dget s ''correlation_id'' = Some (VStr c) \<and> get_state store c = Some s"
    if "s \<in> set (dvals store)" for s
    using that ok by (fastforce simp: store_ok_def get_state_def)
  have "distinct (map cid_of (filter P (dvals store)))" for P
  proof -
    have "distinct (map cid_of (dvals store))" unfolding ids_of_store [OF ok] using ok by (simp add: store_ok_def)
    then show ?thesis by (rule distinct_map_filter)
  qed
  with st val recover_each_ok [OF n, of stale store now 0] obtain store' where
    r: "recover_each now notify stale 0 store = (Inr (int (length (filter (status_is ''IN_FLIGHT'') stale))), store')"
    and g: "\<And>c. get_state store' c = (if c \<in> set (map cid_of (filter (status_is ''IN_FLIGHT'') stale))
               then map_option (marked now False) (get_state store c) else get_state store c)"
    by auto
  have "get_state store' c = map_option (\<lambda>s. if status_is ''IN_FLIGHT'' s \<and> ?old s then marked now False s else s)
      (get_state store c)" for c
  proof (cases "get_state store c")
    case (Some s)
    then have id: "dget s ''correlation_id'' = Some (VStr c)" "(c, s) \<in> set store"
      using store_ok_get [OF ok] by (auto simp: get_state_def dest: map_of_SomeD)
    have "c \<in> set (map cid_of (filter (status_is ''IN_FLIGHT'') stale)) \<longleftrightarrow> status_is ''IN_FLIGHT'' s \<and> ?old s"
    proof
      assume "c \<in> set (map cid_of (filter (status_is ''IN_FLIGHT'') stale))"
      then obtain r where r: "r \<in> set (dvals store)" "status_is ''IN_FLIGHT'' r" "?old r" "c = cid_of r"
        unfolding st by auto
      with val [OF r(1)] Some show "status_is ''IN_FLIGHT'' s \<and> ?old s" by (metis cid_of_eq option.inject)
    next
      assume "status_is ''IN_FLIGHT'' s \<and> ?old s"
      then have "s \<in> set (filter (status_is ''IN_FLIGHT'') stale)" using id(2) unfolding st by force
      then show "c \<in> set (map cid_of (filter (status_is ''IN_FLIGHT'') stale))"
        unfolding set_map using cid_of_eq [OF id(1)] by (metis imageI)
    qed
    with Some g show ?thesis by simp
  qed (use g in simp)
  with r stale show ?thesis by (auto simp: recover_stale_def)
qed

lemma older_marked [simp]: "older ''started_at'' t (marked now ok s) = older ''started_at'' t s"
  by (simp add: older_def marked_get)

lemma status_marked [simp]: "status_is st (marked now ok s) = (st = (if ok then ''COMPLETED'' else ''FAILED''))"
  by (auto simp: status_is_def marked_get)

lemma dget_fold_ddel: "dget (fold ddel cids store) c = (if c \<in> set cids then None else dget store c)"
  by (induction cids arbitrary: store) auto

definition expired :: "datetime \<Rightarrow> pstate \<Rightarrow> bool" where
  "expired cutoff s \<longleftrightarrow> (status_is ''COMPLETED'' s \<or> status_is ''FAILED'' s) \<and> older ''completed_at'' cutoff s"

lemma to_remove_eq:
  "to_remove store cutoff = Inr cids \<Longrightarrow> cids = map fst (filter (\<lambda>(c, s). expired cutoff s) store)"
proof (induction store arbitrary: cids)
  case (Cons e store)
  obtain cid state where e: "e = (cid, state)" by (cases e)
  show ?case
  proof (cases "status_is ''COMPLETED'' state \<or> status_is ''FAILED'' state")
    case True
    show ?thesis
    proof (cases "opt_val (dget state ''completed_at'')")
      case (VTime t)
      with True Cons.prems e obtain cs where "to_remove store cutoff = Inr cs"
        "cids = (if dt_less t cutoff then cid # cs else cs)"
        by (auto simp: less_time_def split: sum.splits)
      with Cons.IH [of cs] VTime True e show ?thesis by (simp add: less_time_def expired_def older_def)
    qed (use Cons True e in \<open>simp_all add: less_time_def expired_def older_def\<close>)
  next
    case False
    with Cons e show ?thesis by (simp add: expired_def)
  qed
qed simp

section \<open>Properties\<close>

text \<open>
  Claim C10. Recovery: on a store the adapter's operations build, with a listener that does not raise, when the stale
  transactions can be listed, exactly those of them that are still in flight are marked failed, everything else is
  unchanged, their number is returned, and recovering again at the same time recovers nothing.
\<close>

theorem recovery_correct:
  assumes "store_ok store" "notify_ok notify"
    and "get_stale store (dt_minus_seconds now secs) = Inr stale"
  shows "\<exists>store'. recover_stale now notify secs store =
             (Inr (int (length (filter (status_is ''IN_FLIGHT'') stale))), store') \<and>
           (\<forall>c. get_state store' c =
              map_option (\<lambda>s. if status_is ''IN_FLIGHT'' s \<and> older ''started_at'' (dt_minus_seconds now secs) s
                              then marked now False s else s) (get_state store c)) \<and>
           (\<forall>c s. get_state store' c = Some s \<longrightarrow>
              \<not> (status_is ''IN_FLIGHT'' s \<and> older ''started_at'' (dt_minus_seconds now secs) s))"
proof -
  obtain store' where store': "recover_stale now notify secs store =
      (Inr (int (length (filter (status_is ''IN_FLIGHT'') stale))), store')"
    "\<And>c. get_state store' c =
       map_option (\<lambda>s. if status_is ''IN_FLIGHT'' s \<and> older ''started_at'' (dt_minus_seconds now secs) s
                       then marked now False s else s) (get_state store c)"
    using recover_stale_ok [OF assms] by blast
  moreover have "\<not> (status_is ''IN_FLIGHT'' s \<and> older ''started_at'' (dt_minus_seconds now secs) s)"
    if "get_state store' c = Some s" for c s
  proof -
    from that obtain r where "s = (if status_is ''IN_FLIGHT'' r \<and> older ''started_at'' (dt_minus_seconds now secs) r
        then marked now False r else r)" unfolding store'(2) by auto
    then show ?thesis
      by (cases "status_is ''IN_FLIGHT'' r \<and> older ''started_at'' (dt_minus_seconds now secs) r") simp_all
  qed
  ultimately show ?thesis by blast
qed

definition noon :: "nat \<Rightarrow> datetime" where
  "noon day = \<lparr>dt_year = 2026, dt_month = 3, dt_day = day, dt_hour = 12, dt_minute = 0, dt_second = 0, dt_micro = 0\<rparr>"

definition two_sagas :: pstore where
  "two_sagas =
     [(''c1'', [(''correlation_id'', VStr ''c1''), (''saga_name'', VStr ''order''),
                (''status'', VStr ''IN_FLIGHT''), (''started_at'', VTime (noon 1))]),
      (''c2'', [(''correlation_id'', VStr ''c2''), (''status'', VStr ''COMPLETED''), (''started_at'', VTime (noon 1)),
                (''completed_at'', VTime (noon 2))])]"

theorem recovery_correct_witness:
  "\<exists>store'. recover_stale (noon 3) None 600 two_sagas = (Inr 1, store') \<and>
     map_option (status_is ''FAILED'') (get_state store' ''c1'') = Some True \<and>
     get_state store' ''c2'' = get_state two_sagas ''c2''"
proof -
  have eval: "get_stale two_sagas (dt_minus_seconds (noon 3) 600) = Inr (dvals two_sagas)" by code_simp
  have n: "length (filter (status_is ''IN_FLIGHT'') (dvals two_sagas)) = 1" by code_simp
  obtain s1 s2 where s: "get_state two_sagas ''c1'' = Some s1" "get_state two_sagas ''c2'' = Some s2"
    by (simp add: two_sagas_def get_state_def)
  have "map_option (\<lambda>s. status_is ''IN_FLIGHT'' s \<and> older ''started_at'' (dt_minus_seconds (noon 3) 600) s)
      (get_state two_sagas ''c1'') = Some True"
    "map_option (status_is ''IN_FLIGHT'') (get_state two_sagas ''c2'') = Some False" by code_simp+
  with s have f: "status_is ''IN_FLIGHT'' s1 \<and> older ''started_at'' (dt_minus_seconds (noon 3) 600) s1"
    "\<not> status_is ''IN_FLIGHT'' s2" by simp_all
  have ok: "store_ok two_sagas" by (simp add: store_ok_def two_sagas_def dmem_def)
  have no: "notify_ok None" by (simp add: notify_ok_def)
  obtain store' where r: "recover_stale (noon 3) None 600 two_sagas = (Inr (int 1), store')"
    "\<And>c. get_state store' c = map_option (\<lambda>s. if status_is ''IN_FLIGHT'' s \<and>
        older ''started_at'' (dt_minus_seconds (noon 3) 600) s then marked (noon 3) False s else s)
        (get_state two_sagas c)"
    using recovery_correct [OF ok no eval] unfolding n by blast
  show ?thesis by (intro exI [of _ store']) (simp add: r s f)
qed

text \<open>
  Cleanup removes exactly the finished transactions that completed before the cut-off and returns their
  number; a transaction in flight is never removed.
\<close>

theorem cleanup_correct:
  assumes "store_ok store" "cleanup now secs store = Inr (n, store')"
  shows "(\<forall>c. get_state store' c = (case get_state store c of
            None \<Rightarrow> None
          | Some s \<Rightarrow> if expired (dt_minus_seconds now secs) s then None else Some s)) \<and>
         n = int (length (filter (expired (dt_minus_seconds now secs)) (dvals store)))"
proof -
  let ?x = "expired (dt_minus_seconds now secs)"
  obtain cids where cids: "to_remove store (dt_minus_seconds now secs) = Inr cids" "n = int (length cids)"
    "store' = fold ddel cids store"
    using assms(2) by (auto simp: cleanup_def split: sum.splits)
  have eq: "cids = map fst (filter (\<lambda>(c, s). ?x s) store)" by (rule to_remove_eq [OF cids(1)])
  have d: "dict_ok store" using assms(1) by (simp add: store_ok_def)
  have "c \<in> set cids \<longleftrightarrow> (\<exists>s. dget store c = Some s \<and> ?x s)" for c
    using in_dict_dget [OF d] unfolding eq by force
  moreover have "length cids = length (filter ?x (dvals store))"
    unfolding eq by (simp add: filter_map comp_def case_prod_unfold)
  ultimately show ?thesis
    by (auto simp: cids(2,3) get_state_def dget_fold_ddel split: option.splits)
qed

theorem cleanup_correct_witness:
  "\<exists>store'. cleanup (noon 4) 3600 two_sagas = Inr (1, store') \<and> get_state store' ''c2'' = None \<and>
     get_state store' ''c1'' = get_state two_sagas ''c1''"
proof -
  have "(case cleanup (noon 4) 3600 two_sagas of Inl _ \<Rightarrow> False | Inr (n, _) \<Rightarrow> n = 1)" by code_simp
  then obtain store' where c: "cleanup (noon 4) 3600 two_sagas = Inr (1, store')" by (auto split: sum.splits)
  have x: "expired (dt_minus_seconds (noon 4) 3600) (snd (two_sagas ! 1))"
    "\<not> expired (dt_minus_seconds (noon 4) 3600) (snd (two_sagas ! 0))" by code_simp+
  have "store_ok two_sagas" by (simp add: store_ok_def two_sagas_def dmem_def)
  from cleanup_correct [OF this c] x c show ?thesis
    by (intro exI [of _ store']) (simp add: get_state_def two_sagas_def)
qed

end
