(* ===== verification/SagaState.thy ===== *)
theory SagaState
  imports Persistence
begin

text \<open>
  \<^verbatim>\<open>saga/persistence/state.py\<close> and \<^verbatim>\<open>tcc/persistence/state.py\<close>: the serialisable states of a saga
  and of a TCC execution and their conversion to and from dictionaries of plain values. Fields that
  the code passes through unread hold any Python value, as \<^verbatim>\<open>from_dict\<close> does not check them;
  \<open>saga_state_ok\<close> and \<open>tcc_state_ok\<close> say which states are of the declared types. The theorems are the
  round trip in both directions and what \<^verbatim>\<open>from_dict\<close> does with the states an engine stores.
\<close>

section \<open>Reading dictionaries\<close>

text \<open>\<^verbatim>\<open>d[k]\<close>, \<^verbatim>\<open>d.get(k)\<close> and \<^verbatim>\<open>d.get(k, v)\<close>, the truth of a value and \<^verbatim>\<open>v.items()\<close>.\<close>

definition getitem :: "(string, pyval) dict \<Rightarrow> string \<Rightarrow> exn + pyval" where
  "getitem d k = (case dget d k of None \<Rightarrow> Inl (key_error k) | Some v \<Rightarrow> Inr v)"

definition get_or_none :: "(string, pyval) dict \<Rightarrow> string \<Rightarrow> pyval" where
  "get_or_none d k = opt_val (dget d k)"

fun truthy :: "pyval \<Rightarrow> bool" where
  "truthy VNone = False"
| "truthy (VBool b) = b"
| "truthy (VInt n) = (n \<noteq> 0)"
| "truthy (VFloat x) = (x \<noteq> 0)"
| "truthy (VStr s) = (s \<noteq> [])"
| "truthy (VList vs) = (vs \<noteq> [])"
| "truthy (VDict d) = (d \<noteq> [])"
| "truthy v = True"

definition as_dict :: "string \<Rightarrow> pyval \<Rightarrow> exn + (string, pyval) dict" where
  "as_dict attr v =
     (case v of VDict d \<Rightarrow> Inr d
      | _ \<Rightarrow> Inl (Exn AttributeErrorC ''object has no attribute {}'' [VStr attr]))"

text \<open>\<^verbatim>\<open>datetime.fromisoformat\<close> on a value, and the two ways the code guards it.\<close>

definition parse_time :: "pyval \<Rightarrow> exn + datetime" where
  "parse_time v =
     (case v of VStr s \<Rightarrow> fromisoformat s
      | _ \<Rightarrow> Inl (Exn TypeErrorC ''fromisoformat: argument must be str'' []))"

definition time_if_true :: "pyval \<Rightarrow> exn + datetime option" where
  "time_if_true v = (if truthy v then res_bind (parse_time v) (\<lambda>t. Inr (Some t)) else Inr None)"

definition time_if_given :: "pyval \<Rightarrow> exn + datetime option" where
  "time_if_given v = (if v = VNone then Inr None else res_bind (parse_time v) (\<lambda>t. Inr (Some t)))"

definition iso_or_none :: "datetime option \<Rightarrow> pyval" where
  "iso_or_none t = (case t of None \<Rightarrow> VNone | Some d \<Rightarrow> VStr (isoformat d))"

definition time_ok :: "datetime option \<Rightarrow> bool" where
  "time_ok t = (case t of None \<Rightarrow> True | Some d \<Rightarrow> dt_ok d)"

lemma parse_time_iso [simp]: "dt_ok d \<Longrightarrow> parse_time (VStr (isoformat d)) = Inr d"
  by (simp add: parse_time_def)

lemma time_if_true_iso [simp]: "time_ok t \<Longrightarrow> time_if_true (iso_or_none t) = Inr t"
  by (cases t) (simp_all add: time_if_true_def time_ok_def iso_or_none_def)

lemma time_if_given_iso [simp]: "time_ok t \<Longrightarrow> time_if_given (iso_or_none t) = Inr t"
  by (cases t) (simp_all add: time_if_given_def time_ok_def iso_or_none_def)

text \<open>
  \<^verbatim>\<open>dict(v)\<close>: a copy of a dictionary. Of the other iterables only the empty ones and strings are
  modelled; a list of pairs, which \<^verbatim>\<open>dict\<close> also accepts, gives the error of its first entry.
\<close>

definition dict_copy :: "pyval \<Rightarrow> exn + (string, pyval) dict" where
  "dict_copy v =
     (case v of
        VDict d \<Rightarrow> Inr d
      | VStr s \<Rightarrow> if s = [] then Inr [] else Inl (Exn ValueErrorC ''dictionary update sequence element #0'' [])
      | VList vs \<Rightarrow> if vs = [] then Inr [] else Inl (Exn ValueErrorC ''dictionary update sequence element #0'' [])
      | _ \<Rightarrow> Inl (Exn TypeErrorC ''object is not iterable'' []))"

section \<open>Saga states\<close>

datatype saga_exec_status = SX_IN_FLIGHT | SX_COMPLETED | SX_FAILED | SX_COMPENSATING | SX_COMPENSATED

fun saga_status_value :: "saga_exec_status \<Rightarrow> string" where
  "saga_status_value SX_IN_FLIGHT = ''IN_FLIGHT''"
| "saga_status_value SX_COMPLETED = ''COMPLETED''"
| "saga_status_value SX_FAILED = ''FAILED''"
| "saga_status_value SX_COMPENSATING = ''COMPENSATING''"
| "saga_status_value SX_COMPENSATED = ''COMPENSATED''"

text \<open>An enumeration class called with a value: the first member with this value.\<close>

definition enum_of :: "('a \<Rightarrow> string) \<Rightarrow> 'a list \<Rightarrow> string \<Rightarrow> pyval \<Rightarrow> exn + 'a" where
  "enum_of val members cls v =
     (case find (\<lambda>m. v = VStr (val m)) members of
        Some m \<Rightarrow> Inr m
      | None \<Rightarrow> Inl (Exn ValueErrorC ''{} is not a valid {}'' [v, VStr cls]))"

definition saga_status_of :: "pyval \<Rightarrow> exn + saga_exec_status" where
  "saga_status_of =
     enum_of saga_status_value [SX_IN_FLIGHT, SX_COMPLETED, SX_FAILED, SX_COMPENSATING, SX_COMPENSATED]
       ''SagaExecutionStatus''"

record step_state =
  ss_step_id :: pyval
  ss_status :: pyval
  ss_attempts :: pyval
  ss_latency_ms :: pyval
  ss_started_at :: "datetime option"
  ss_completed_at :: "datetime option"
  ss_error_message :: pyval
  ss_compensated :: pyval

record saga_state =
  sx_correlation_id :: pyval
  sx_saga_name :: pyval
  sx_status :: saga_exec_status
  sx_started_at :: datetime
  sx_completed_at :: "datetime option"
  sx_headers :: pyval
  sx_steps :: "(string, step_state) dict"
  sx_error_message :: pyval

definition step_to_dict :: "step_state \<Rightarrow> (string, pyval) dict" where
  "step_to_dict s =
     [(''step_id'', ss_step_id s),
      (''status'', ss_status s),
      (''attempts'', ss_attempts s),
      (''latency_ms'', ss_latency_ms s),
      (''started_at'', iso_or_none (ss_started_at s)),
      (''completed_at'', iso_or_none (ss_completed_at s)),
      (''error_message'', ss_error_message s),
      (''compensated'', ss_compensated s)]"

definition saga_to_dict :: "saga_state \<Rightarrow> exn + (string, pyval) dict" where
  "saga_to_dict x =
     res_bind (dict_copy (sx_headers x)) (\<lambda>hs. Inr
       [(''correlation_id'', sx_correlation_id x),
        (''saga_name'', sx_saga_name x),
        (''status'', VStr (saga_status_value (sx_status x))),
        (''started_at'', VStr (isoformat (sx_started_at x))),
        (''completed_at'', iso_or_none (sx_completed_at x)),
        (''headers'', VDict hs),
        (''steps'', VDict (map (\<lambda>(sid, s). (sid, VDict (step_to_dict s))) (sx_steps x))),
        (''error_message'', sx_error_message x)])"

definition step_of_dict :: "(string, pyval) dict \<Rightarrow> exn + step_state" where
  "step_of_dict sd =
     res_bind (getitem sd ''step_id'') (\<lambda>step_id.
     res_bind (getitem sd ''status'') (\<lambda>status.
     res_bind (time_if_true (get_or_none sd ''started_at'')) (\<lambda>started.
     res_bind (time_if_true (get_or_none sd ''completed_at'')) (\<lambda>completed. Inr
       \<lparr>ss_step_id = step_id, ss_status = status,
        ss_attempts = dget_default sd ''attempts'' (VInt 0),
        ss_latency_ms = dget_default sd ''latency_ms'' (VFloat 0),
        ss_started_at = started, ss_completed_at = completed,
        ss_error_message = get_or_none sd ''error_message'',
        ss_compensated = dget_default sd ''compensated'' (VBool False)\<rparr>))))"

fun steps_of_dict :: "(string, pyval) dict \<Rightarrow> (string, step_state) dict \<Rightarrow> exn + (string, step_state) dict" where
  "steps_of_dict [] acc = Inr acc"
| "steps_of_dict ((sid, sd) # items) acc =
     res_bind (as_dict ''get'' sd) (\<lambda>sd.
     res_bind (step_of_dict sd) (\<lambda>s. steps_of_dict items (dput sid s acc)))"

definition saga_from_dict :: "(string, pyval) dict \<Rightarrow> exn + saga_state" where
  "saga_from_dict data =
     res_bind (as_dict ''items'' (dget_default data ''steps'' (VDict []))) (\<lambda>items.
     res_bind (steps_of_dict items []) (\<lambda>ss.
     res_bind (getitem data ''correlation_id'') (\<lambda>cid.
     res_bind (getitem data ''saga_name'') (\<lambda>name.
     res_bind (res_bind (getitem data ''status'') saga_status_of) (\<lambda>status.
     res_bind (res_bind (getitem data ''started_at'') parse_time) (\<lambda>started.
     res_bind (time_if_true (get_or_none data ''completed_at'')) (\<lambda>completed. Inr
       \<lparr>sx_correlation_id = cid, sx_saga_name = name, sx_status = status, sx_started_at = started,
        sx_completed_at = completed, sx_headers = dget_default data ''headers'' (VDict []),
        sx_steps = ss, sx_error_message = get_or_none data ''error_message''\<rparr>)))))))"

section \<open>TCC states\<close>

datatype tcc_exec_status = TX_IN_FLIGHT | TX_CONFIRMED | TX_CANCELLED | TX_FAILED

fun tcc_status_value :: "tcc_exec_status \<Rightarrow> string" where
  "tcc_status_value TX_IN_FLIGHT = ''IN_FLIGHT''"
| "tcc_status_value TX_CONFIRMED = ''CONFIRMED''"
| "tcc_status_value TX_CANCELLED = ''CANCELLED''"
| "tcc_status_value TX_FAILED = ''FAILED''"

definition tcc_status_of :: "pyval \<Rightarrow> exn + tcc_exec_status" where
  "tcc_status_of =
     enum_of tcc_status_value [TX_IN_FLIGHT, TX_CONFIRMED, TX_CANCELLED, TX_FAILED] ''TccExecutionStatus''"

record participant_state =
  ps_participant_id :: pyval
  ps_phase :: pyval
  ps_try_result_key :: pyval
  ps_latency_ms :: pyval
  ps_error_message :: pyval

record tcc_state =
  tcs_correlation_id :: pyval
  tcs_tcc_name :: pyval
  tcs_status :: tcc_exec_status
  tcs_started_at :: datetime
  tcs_completed_at :: "datetime option"
  tcs_participants :: "(string, participant_state) dict"
  tcs_error_message :: pyval
  tcs_failed_participant_id :: pyval

definition participant_to_dict :: "participant_state \<Rightarrow> (string, pyval) dict" where
  "participant_to_dict p =
     [(''participant_id'', ps_participant_id p),
      (''phase'', ps_phase p),
      (''try_result_key'', ps_try_result_key p),
      (''latency_ms'', ps_latency_ms p),
      (''error_message'', ps_error_message p)]"

definition tcc_to_dict :: "tcc_state \<Rightarrow> (string, pyval) dict" where
  "tcc_to_dict x =
     [(''correlation_id'', tcs_correlation_id x),
      (''tcc_name'', tcs_tcc_name x),
      (''status'', VStr (tcc_status_value (tcs_status x))),
      (''started_at'', VStr (isoformat (tcs_started_at x))),
      (''completed_at'', iso_or_none (tcs_completed_at x)),
      (''participants'', VDict (map (\<lambda>(pid, p). (pid, VDict (participant_to_dict p))) (tcs_participants x))),
      (''error_message'', tcs_error_message x),
      (''failed_participant_id'', tcs_failed_participant_id x)]"

definition participant_of_dict :: "pyval \<Rightarrow> exn + participant_state" where
  "participant_of_dict v =
     (case v of
        VDict pd \<Rightarrow>
          res_bind (getitem pd ''participant_id'') (\<lambda>pid.
          res_bind (getitem pd ''phase'') (\<lambda>phase. Inr
            \<lparr>ps_participant_id = pid, ps_phase = phase,
             ps_try_result_key = get_or_none pd ''try_result_key'',
             ps_latency_ms = dget_default pd ''latency_ms'' (VFloat 0),
             ps_error_message = get_or_none pd ''error_message''\<rparr>))
      | _ \<Rightarrow> Inl (Exn TypeErrorC ''object is not subscriptable with a string'' []))"

fun participants_of_dict ::
  "(string, pyval) dict \<Rightarrow> (string, participant_state) dict \<Rightarrow> exn + (string, participant_state) dict" where
  "participants_of_dict [] acc = Inr acc"
| "participants_of_dict ((pid, pdata) # items) acc =
     res_bind (participant_of_dict pdata) (\<lambda>p. participants_of_dict items (dput pid p acc))"

definition tcc_from_dict :: "(string, pyval) dict \<Rightarrow> exn + tcc_state" where
  "tcc_from_dict data =
     res_bind (time_if_given (get_or_none data ''completed_at'')) (\<lambda>completed.
     res_bind (as_dict ''items'' (dget_default data ''participants'' (VDict []))) (\<lambda>items.
     res_bind (participants_of_dict items []) (\<lambda>ps.
     res_bind (getitem data ''correlation_id'') (\<lambda>cid.
     res_bind (getitem data ''tcc_name'') (\<lambda>name.
     res_bind (res_bind (getitem data ''status'') tcc_status_of) (\<lambda>status.
     res_bind (res_bind (getitem data ''started_at'') parse_time) (\<lambda>started. Inr
       \<lparr>tcs_correlation_id = cid, tcs_tcc_name = name, tcs_status = status, tcs_started_at = started,
        tcs_completed_at = completed, tcs_participants = ps,
        tcs_error_message = get_or_none data ''error_message'',
        tcs_failed_participant_id = get_or_none data ''failed_participant_id''\<rparr>)))))))"

section \<open>Well-formed states\<close>

text \<open>Values that JSON can write.\<close>

fun plain :: "pyval \<Rightarrow> bool" where
  "plain VNone = True"
| "plain (VBool b) = True"
| "plain (VInt n) = True"
| "plain (VFloat x) = True"
| "plain (VStr s) = True"
| "plain (VList vs) = list_all plain vs"
| "plain (VDict d) = list_all (\<lambda>(k, v). plain v) d"
| "plain v = False"

definition step_state_ok :: "step_state \<Rightarrow> bool" where
  "step_state_ok s \<longleftrightarrow> time_ok (ss_started_at s) \<and> time_ok (ss_completed_at s)"

definition saga_state_ok :: "saga_state \<Rightarrow> bool" where
  "saga_state_ok x \<longleftrightarrow> dt_ok (sx_started_at x) \<and> time_ok (sx_completed_at x) \<and>
     (\<exists>hs. sx_headers x = VDict hs) \<and> dict_ok (sx_steps x) \<and> list_all step_state_ok (dvals (sx_steps x))"

definition tcc_state_ok :: "tcc_state \<Rightarrow> bool" where
  "tcc_state_ok x \<longleftrightarrow> dt_ok (tcs_started_at x) \<and> time_ok (tcs_completed_at x) \<and> dict_ok (tcs_participants x)"

definition step_plain :: "step_state \<Rightarrow> bool" where
  "step_plain s \<longleftrightarrow> list_all plain [ss_step_id s, ss_status s, ss_attempts s, ss_latency_ms s,
     ss_error_message s, ss_compensated s]"

definition saga_plain :: "saga_state \<Rightarrow> bool" where
  "saga_plain x \<longleftrightarrow>
     list_all plain [sx_correlation_id x, sx_saga_name x, sx_headers x, sx_error_message x] \<and>
     list_all step_plain (dvals (sx_steps x))"

lemma plain_iso [simp]: "plain (iso_or_none t)"
  by (cases t) (simp_all add: iso_or_none_def)

lemma fromisoformat_ok:
  assumes "fromisoformat s = Inr d"
  shows "dt_ok d"
  using assms
  by (auto simp: fromisoformat_def Let_def read_fields_def split: if_splits option.splits list.splits)

lemma parse_time_ok: "parse_time v = Inr d \<Longrightarrow> dt_ok d"
  by (auto simp: parse_time_def fromisoformat_ok split: pyval.splits)

lemma time_if_true_ok: "time_if_true v = Inr t \<Longrightarrow> time_ok t"
  by (auto simp: time_if_true_def time_ok_def res_bind_eq_Inr parse_time_ok split: if_splits)

lemma time_if_given_ok: "time_if_given v = Inr t \<Longrightarrow> time_ok t"
  by (auto simp: time_if_given_def time_ok_def res_bind_eq_Inr parse_time_ok split: if_splits)

lemma saga_status_of_value [simp]: "saga_status_of (VStr (saga_status_value m)) = Inr m"
  by (cases m) (simp_all add: saga_status_of_def enum_of_def)

lemma tcc_status_of_value [simp]: "tcc_status_of (VStr (tcc_status_value m)) = Inr m"
  by (cases m) (simp_all add: tcc_status_of_def enum_of_def)

lemma step_of_dict_to_dict [simp]: "step_state_ok s \<Longrightarrow> step_of_dict (step_to_dict s) = Inr s"
  by (simp add: step_of_dict_def step_to_dict_def step_state_ok_def getitem_def get_or_none_def
      dget_default_def opt_val_def)

lemma step_of_dict_ok: "step_of_dict sd = Inr s \<Longrightarrow> step_state_ok s"
  by (auto simp: step_of_dict_def res_bind_eq_Inr step_state_ok_def time_if_true_ok)

lemma participant_of_dict_to_dict [simp]: "participant_of_dict (VDict (participant_to_dict p)) = Inr p"
  by (simp add: participant_of_dict_def participant_to_dict_def getitem_def get_or_none_def
      dget_default_def opt_val_def)


lemma steps_of_dict_to_dict:
  "\<lbrakk>dict_ok (acc @ xs); list_all step_state_ok (dvals xs)\<rbrakk> \<Longrightarrow>
     steps_of_dict (map (\<lambda>(sid, s). (sid, VDict (step_to_dict s))) xs) acc = Inr (acc @ xs)"
proof (induction xs arbitrary: acc)
  case (Cons x xs)
  obtain sid s where x: "x = (sid, s)" by (cases x)
  from Cons.prems have "sid \<notin> fst ` set acc" by (auto simp: x)
  then have "dput sid s acc = acc @ [(sid, s)]" by (rule dput_new)
  with Cons.IH [of "acc @ [(sid, s)]"] Cons.prems show ?case by (simp add: x as_dict_def)
qed simp

lemma steps_of_dict_ok:
  "\<lbrakk>steps_of_dict items acc = Inr xs; dict_ok acc; list_all step_state_ok (dvals acc)\<rbrakk> \<Longrightarrow>
     dict_ok xs \<and> list_all step_state_ok (dvals xs)"
proof (induction items acc rule: steps_of_dict.induct)
  case (2 sid sd items acc)
  from "2.prems"(1) obtain d s where
    d: "as_dict ''get'' sd = Inr d" "step_of_dict d = Inr s" "steps_of_dict items (dput sid s acc) = Inr xs"
    by (auto simp: res_bind_eq_Inr)
  have "\<forall>e \<in> set (dput sid s acc). step_state_ok (snd e)"
    by (rule dput_all) (use "2.prems"(3) step_of_dict_ok [OF d(2)] in \<open>auto simp: list_all_iff\<close>)
  with "2.IH" [OF d(3)] "2.prems"(2) show ?case by (simp add: list_all_iff)
qed auto

lemma participants_of_dict_to_dict:
  "dict_ok (acc @ xs) \<Longrightarrow>
     participants_of_dict (map (\<lambda>(pid, p). (pid, VDict (participant_to_dict p))) xs) acc = Inr (acc @ xs)"
proof (induction xs arbitrary: acc)
  case (Cons x xs)
  obtain pid p where x: "x = (pid, p)" by (cases x)
  from Cons.prems have "pid \<notin> fst ` set acc" by (auto simp: x)
  then have "dput pid p acc = acc @ [(pid, p)]" by (rule dput_new)
  with Cons.IH [of "acc @ [(pid, p)]"] Cons.prems show ?case by (simp add: x)
qed simp

lemma participants_of_dict_ok:
  "\<lbrakk>participants_of_dict items acc = Inr xs; dict_ok acc\<rbrakk> \<Longrightarrow> dict_ok xs"
  by (induction items acc rule: participants_of_dict.induct) (auto simp: res_bind_eq_Inr)

lemma step_plain_dict: "step_plain s \<Longrightarrow> plain (VDict (step_to_dict s))"
  by (simp add: step_plain_def step_to_dict_def)

lemma saga_roundtrip:
  assumes "saga_state_ok x"
  shows "\<exists>d. saga_to_dict x = Inr d \<and> saga_from_dict d = Inr x \<and> (saga_plain x \<longrightarrow> plain (VDict d))"
proof -
  from assms obtain hs where hs: "sx_headers x = VDict hs" by (auto simp: saga_state_ok_def)
  have "steps_of_dict (map (\<lambda>(sid, s). (sid, VDict (step_to_dict s))) (sx_steps x)) [] = Inr (sx_steps x)"
    using steps_of_dict_to_dict [of "[]" "sx_steps x"] assms by (simp add: saga_state_ok_def)
  moreover have "list_all step_plain (dvals (sx_steps x)) \<Longrightarrow>
      list_all (\<lambda>(k, v). plain v) (map (\<lambda>(sid, s). (sid, VDict (step_to_dict s))) (sx_steps x))"
    using step_plain_dict by (fastforce simp: list_all_iff)
  ultimately show ?thesis
    using assms hs
    by (auto simp: saga_to_dict_def saga_from_dict_def dict_copy_def as_dict_def getitem_def get_or_none_def
        dget_default_def opt_val_def saga_state_ok_def saga_plain_def)
qed

section \<open>The round trips\<close>

text \<open>
  Claim C18. Saga states survive storage. A state of the declared types is written to a dictionary, of values JSON can write if its own
  are, and reading it gives the state back; and whatever \<^verbatim>\<open>from_dict\<close> reads, with missing fields
  filled in, is such a state, so writing it and reading it again changes nothing.
\<close>

theorem saga_state_roundtrip:
  "(saga_state_ok x \<longrightarrow>
      (\<exists>d. saga_to_dict x = Inr d \<and> saga_from_dict d = Inr x \<and> (saga_plain x \<longrightarrow> plain (VDict d)))) \<and>
   (saga_from_dict data = Inr y \<and> (\<forall>hs. dget data ''headers'' = Some hs \<longrightarrow> is_ok (as_dict ''items'' hs)) \<longrightarrow>
      saga_state_ok y \<and> (\<exists>d. saga_to_dict y = Inr d \<and> saga_from_dict d = Inr y))"
proof (rule conjI; rule impI)
  assume "saga_state_ok x"
  then show "\<exists>d. saga_to_dict x = Inr d \<and> saga_from_dict d = Inr x \<and> (saga_plain x \<longrightarrow> plain (VDict d))"
    by (rule saga_roundtrip)
next
  assume a: "saga_from_dict data = Inr y \<and> (\<forall>hs. dget data ''headers'' = Some hs \<longrightarrow> is_ok (as_dict ''items'' hs))"
  then have "dict_ok (sx_steps y) \<and> list_all step_state_ok (dvals (sx_steps y))"
    by (auto simp: saga_from_dict_def res_bind_eq_Inr dest!: steps_of_dict_ok)
  moreover have "dt_ok (sx_started_at y)" "time_ok (sx_completed_at y)"
    using a by (auto simp: saga_from_dict_def res_bind_eq_Inr parse_time_ok time_if_true_ok)
  moreover have "\<exists>hs. sx_headers y = VDict hs"
    using a by (auto simp: saga_from_dict_def res_bind_eq_Inr dget_default_def as_dict_def
        split: option.splits pyval.splits)
  ultimately have "saga_state_ok y" by (simp add: saga_state_ok_def)
  with saga_roundtrip [OF this]
  show "saga_state_ok y \<and> (\<exists>d. saga_to_dict y = Inr d \<and> saga_from_dict d = Inr y)" by blast
qed

definition shipped :: saga_state where
  "shipped = \<lparr>sx_correlation_id = VStr ''u7'', sx_saga_name = VStr ''order'', sx_status = SX_COMPENSATING,
     sx_started_at = noon 1, sx_completed_at = None, sx_headers = VDict [(''tenant'', VStr ''t1'')],
     sx_steps =
       [(''pay'', \<lparr>ss_step_id = VStr ''pay'', ss_status = VStr ''DONE'', ss_attempts = VInt 2,
           ss_latency_ms = VFloat 3, ss_started_at = Some (noon 1), ss_completed_at = Some (noon 2),
           ss_error_message = VNone, ss_compensated = VBool True\<rparr>),
        (''ship'', \<lparr>ss_step_id = VStr ''ship'', ss_status = VStr ''FAILED'', ss_attempts = VInt 1,
           ss_latency_ms = VFloat 0, ss_started_at = Some (noon 2), ss_completed_at = None,
           ss_error_message = VStr ''out of stock'', ss_compensated = VBool False\<rparr>)],
     sx_error_message = VNone\<rparr>"

definition bare_state :: "(string, pyval) dict" where
  "bare_state =
     [(''correlation_id'', VStr ''u8''), (''saga_name'', VStr ''order''), (''status'', VStr ''IN_FLIGHT''),
      (''started_at'', VStr (isoformat (noon 3)))]"

definition bare_read :: saga_state where
  "bare_read = \<lparr>sx_correlation_id = VStr ''u8'', sx_saga_name = VStr ''order'', sx_status = SX_IN_FLIGHT,
     sx_started_at = noon 3, sx_completed_at = None, sx_headers = VDict [], sx_steps = [], sx_error_message = VNone\<rparr>"

theorem saga_state_roundtrip_witness:
  "(\<exists>d. saga_to_dict shipped = Inr d \<and> saga_from_dict d = Inr shipped \<and> plain (VDict d)) \<and>
   (\<exists>d. saga_to_dict bare_read = Inr d \<and> saga_from_dict d = Inr bare_read \<and> d \<noteq> bare_state)"
proof -
  have noon: "dt_ok (noon n)" if "n \<in> {1, 2, 3}" for n
    using that by (auto simp: dt_ok_def noon_def days_in_month_def)
  have "saga_state_ok shipped" "saga_plain shipped"
    by (simp_all add: saga_state_ok_def shipped_def step_state_ok_def time_ok_def noon saga_plain_def step_plain_def)
  then have "\<exists>d. saga_to_dict shipped = Inr d \<and> saga_from_dict d = Inr shipped \<and> plain (VDict d)"
    using saga_state_roundtrip [of shipped] by blast
  moreover have "saga_from_dict bare_state = Inr bare_read"
    by (simp add: saga_from_dict_def bare_state_def bare_read_def dget_default_def as_dict_def getitem_def
        get_or_none_def opt_val_def time_if_true_def saga_status_of_def enum_of_def noon)
  then have "\<exists>d. saga_to_dict bare_read = Inr d \<and> saga_from_dict d = Inr bare_read"
    using saga_state_roundtrip [of shipped bare_state bare_read] by (simp add: bare_state_def)
  moreover have "saga_to_dict bare_read \<noteq> Inr bare_state"
    by (simp add: saga_to_dict_def bare_read_def bare_state_def dict_copy_def)
  ultimately show ?thesis by metis
qed

lemma tcc_roundtrip: "tcc_state_ok x \<Longrightarrow> tcc_from_dict (tcc_to_dict x) = Inr x"
  using participants_of_dict_to_dict [of "[]" "tcs_participants x"]
  by (simp add: tcc_to_dict_def tcc_from_dict_def as_dict_def getitem_def get_or_none_def
      dget_default_def opt_val_def tcc_state_ok_def)

text \<open>
  TCC states survive storage: reading what a well-formed state is written as gives the state back, and what \<^verbatim>\<open>from_dict\<close> reads
  is well formed and stays as it is when it is written and read again.
\<close>

theorem tcc_state_roundtrip:
  "(tcc_state_ok x \<longrightarrow> tcc_from_dict (tcc_to_dict x) = Inr x) \<and>
   (tcc_from_dict data = Inr y \<longrightarrow> tcc_state_ok y \<and> tcc_from_dict (tcc_to_dict y) = Inr y)"
proof (intro conjI impI)
  assume a: "tcc_from_dict data = Inr y"
  then show ok: "tcc_state_ok y"
    by (auto simp: tcc_from_dict_def res_bind_eq_Inr tcc_state_ok_def parse_time_ok time_if_given_ok
        intro: participants_of_dict_ok)
  show "tcc_from_dict (tcc_to_dict y) = Inr y" by (rule tcc_roundtrip [OF ok])
qed (rule tcc_roundtrip)

definition booked :: tcc_state where
  "booked = \<lparr>tcs_correlation_id = VStr ''t1'', tcs_tcc_name = VStr ''trip'', tcs_status = TX_CANCELLED,
     tcs_started_at = noon 1, tcs_completed_at = Some (noon 2),
     tcs_participants = [(''hotel'', \<lparr>ps_participant_id = VStr ''hotel'', ps_phase = VStr ''CANCEL'',
        ps_try_result_key = VNone, ps_latency_ms = VFloat 4, ps_error_message = VStr ''full''\<rparr>)],
     tcs_error_message = VStr ''full'', tcs_failed_participant_id = VStr ''hotel''\<rparr>"

theorem tcc_state_roundtrip_witness:
  "tcc_from_dict (tcc_to_dict booked) = Inr booked \<and> tcc_state_ok booked"
proof -
  have "tcc_state_ok booked"
    by (simp add: booked_def tcc_state_ok_def time_ok_def dt_ok_def noon_def days_in_month_def)
  with tcc_state_roundtrip [of booked "tcc_to_dict booked" booked] show ?thesis by blast
qed

end
