(* ===== verification/Exceptions.thy ===== *)
theory Exceptions
  imports Prelude
begin

text \<open>
  \<^verbatim>\<open>kernel/exceptions.py\<close>: the exception hierarchy. \<open>exc_parent\<close> is the base class each
  class statement names (for Python's own classes, the nearest base that is itself modelled), and
  \<open>isinstance_exc\<close> what an \<^verbatim>\<open>except\<close> clause tests.
\<close>

fun exc_parent :: "exc_class \<Rightarrow> exc_class option" where
  "exc_parent ExceptionC = None"
| "exc_parent KeyErrorC = Some LookupErrorC"
| "exc_parent BusinessException = Some PyFlyException"
| "exc_parent ValidationException = Some BusinessException"
| "exc_parent ResourceNotFoundException = Some BusinessException"
| "exc_parent ConflictException = Some BusinessException"
| "exc_parent PreconditionFailedException = Some BusinessException"
| "exc_parent GoneException = Some BusinessException"
| "exc_parent InvalidRequestException = Some BusinessException"
| "exc_parent DataIntegrityException = Some BusinessException"
| "exc_parent ConcurrencyException = Some BusinessException"
| "exc_parent LockedResourceException = Some BusinessException"
| "exc_parent MethodNotAllowedException = Some BusinessException"
| "exc_parent UnsupportedMediaTypeException = Some BusinessException"
| "exc_parent PayloadTooLargeException = Some BusinessException"
| "exc_parent SecurityException = Some PyFlyException"
| "exc_parent UnauthorizedException = Some SecurityException"
| "exc_parent ForbiddenException = Some SecurityException"
| "exc_parent AuthorizationException = Some SecurityException"
| "exc_parent InfrastructureException = Some PyFlyException"
| "exc_parent ServiceUnavailableException = Some InfrastructureException"
| "exc_parent CircuitBreakerException = Some InfrastructureException"
| "exc_parent RateLimitException = Some InfrastructureException"
| "exc_parent BulkheadException = Some InfrastructureException"
| "exc_parent OperationTimeoutException = Some InfrastructureException"
| "exc_parent RetryExhaustedException = Some InfrastructureException"
| "exc_parent DegradedServiceException = Some InfrastructureException"
| "exc_parent NotImplementedException = Some InfrastructureException"
| "exc_parent ExternalServiceException = Some InfrastructureException"
| "exc_parent ThirdPartyServiceException = Some ExternalServiceException"
| "exc_parent BadGatewayException = Some ExternalServiceException"
| "exc_parent GatewayTimeoutException = Some ExternalServiceException"
| "exc_parent QuotaExceededException = Some RateLimitException"
| "exc_parent (UserExc name base) = Some base"
| "exc_parent _ = Some ExceptionC"

fun exc_rank :: "exc_class \<Rightarrow> nat" where
  "exc_rank ExceptionC = 0"
| "exc_rank (UserExc name base) = Suc (exc_rank base)"
| "exc_rank KeyErrorC = 2"
| "exc_rank BusinessException = 2"
| "exc_rank SecurityException = 2"
| "exc_rank InfrastructureException = 2"
| "exc_rank ThirdPartyServiceException = 4"
| "exc_rank BadGatewayException = 4"
| "exc_rank GatewayTimeoutException = 4"
| "exc_rank QuotaExceededException = 4"
| "exc_rank ValueErrorC = 1"
| "exc_rank TypeErrorC = 1"
| "exc_rank LookupErrorC = 1"
| "exc_rank AttributeErrorC = 1"
| "exc_rank RuntimeErrorC = 1"
| "exc_rank TimeoutErrorC = 1"
| "exc_rank PyFlyException = 1"
| "exc_rank SagaValidationErrorC = 1"
| "exc_rank TccValidationErrorC = 1"
| "exc_rank _ = 3"

lemma exc_parent_rank: "exc_parent c = Some d \<Longrightarrow> exc_rank d < exc_rank c"
  by (cases c rule: exc_parent.cases) auto

text \<open>The class itself and its bases, nearest first (\<^verbatim>\<open>__mro__\<close>).\<close>

function exc_mro :: "exc_class \<Rightarrow> exc_class list" where
  "exc_mro c = c # (case exc_parent c of None \<Rightarrow> [] | Some d \<Rightarrow> exc_mro d)"
  by pat_completeness auto
termination
  by (relation "measure exc_rank") (simp_all add: exc_parent_rank)

declare exc_mro.simps [simp del]

definition isinstance_exc :: "exn \<Rightarrow> exc_class \<Rightarrow> bool" where
  "isinstance_exc e c = (c \<in> set (exc_mro (exc_cls e)))"

text \<open>\<^verbatim>\<open>except on:\<close> with a tuple of classes.\<close>

definition caught_by :: "exc_class list \<Rightarrow> exn \<Rightarrow> bool" where
  "caught_by on e = list_ex (isinstance_exc e) on"

lemma exc_mro_iff:
  "x \<in> set (exc_mro c) \<longleftrightarrow> x = c \<or> (\<exists>p. exc_parent c = Some p \<and> x \<in> set (exc_mro p))"
  by (cases "exc_parent c") (simp_all add: exc_mro.simps [of c])

lemma exc_mro_self: "c \<in> set (exc_mro c)"
  by (subst exc_mro_iff) simp

lemma exc_parent_None: "exc_parent c = None \<longleftrightarrow> c = ExceptionC"
  by (cases c rule: exc_parent.cases) auto

lemma exc_mro_Exception: "ExceptionC \<in> set (exc_mro c)"
proof (induction c rule: exc_mro.induct)
  case (1 c)
  then show ?case by (cases "exc_parent c") (auto simp: exc_mro_iff [of _ c] exc_parent_None exc_mro_self)
qed

lemma exc_mro_trans:
  "\<lbrakk>d \<in> set (exc_mro c); e \<in> set (exc_mro d)\<rbrakk> \<Longrightarrow> e \<in> set (exc_mro c)"
proof (induction c rule: exc_mro.induct)
  case (1 c)
  then show ?case by (cases "exc_parent c") (auto simp: exc_mro_iff [of _ c])
qed

lemma isinstance_Exception [simp]: "isinstance_exc e ExceptionC"
  by (simp add: isinstance_exc_def exc_mro_Exception)

lemma isinstance_self [simp]: "isinstance_exc e (exc_cls e)"
  by (simp add: isinstance_exc_def exc_mro_self)

lemma caught_by_all [simp]: "caught_by [ExceptionC] e"
  by (simp add: caught_by_def)

text \<open>
  Catching a base class catches the framework's errors of its category: whatever derives from one
  of its classes, and nothing of the other categories.
\<close>

lemma isinstance_base:
  "\<lbrakk>isinstance_exc e c; d \<in> set (exc_mro c)\<rbrakk> \<Longrightarrow> isinstance_exc e d"
  by (auto simp: isinstance_exc_def intro: exc_mro_trans)

end
