(* ===== verification/SecurityExpr.thy ===== *)
theory SecurityExpr
  imports Exceptions
begin

text \<open>
  The security context (\<^verbatim>\<open>security/context.py\<close>) and the security expressions of \<^verbatim>\<open>security/decorators.py\<close>: the
  text of an expression is rewritten to one over \<^verbatim>\<open>True\<close>, \<^verbatim>\<open>False\<close>, \<^verbatim>\<open>and\<close>, \<^verbatim>\<open>or\<close>, \<^verbatim>\<open>not\<close> and parentheses, parsed as a Python
  expression, checked node by node and evaluated. What is modelled of Python is the part of \<^verbatim>\<open>re\<close>, \<^verbatim>\<open>str\<close> and \<^verbatim>\<open>ast.parse\<close> that
  these texts can reach. The parser takes the depth of its recursion as an argument, and \<open>parse_fuel_enough\<close> shows
  that the depth \<open>parse_bool\<close> passes decides.
\<close>

section \<open>The security context\<close>

record security_context =
  sc_user_id :: "string option"
  sc_roles :: "string list"
  sc_permissions :: "string list"
  sc_attributes :: "(string, string) dict"

definition is_authenticated :: "security_context \<Rightarrow> bool" where
  "is_authenticated ctx = (sc_user_id ctx \<noteq> None)"

definition has_role :: "security_context \<Rightarrow> string \<Rightarrow> bool" where
  "has_role ctx r = (r \<in> set (sc_roles ctx))"

definition has_any_role :: "security_context \<Rightarrow> string list \<Rightarrow> bool" where
  "has_any_role ctx rs = (list_ex (\<lambda>r. r \<in> set (sc_roles ctx)) rs)"

definition has_permission :: "security_context \<Rightarrow> string \<Rightarrow> bool" where
  "has_permission ctx p = (p \<in> set (sc_permissions ctx))"

definition anonymous :: security_context where
  "anonymous = \<lparr>sc_user_id = None, sc_roles = [], sc_permissions = [], sc_attributes = []\<rparr>"

section \<open>Rewriting the text\<close>

text \<open>
  \<^verbatim>\<open>re.sub\<close> from left to right: a matcher looks at the text from some position on and says, for a match, what replaces
  it and how many characters it has beyond the first.
\<close>

type_synonym matcher = "string \<Rightarrow> (string \<times> nat) option"

function re_sub :: "matcher \<Rightarrow> string \<Rightarrow> string" where
  "re_sub m [] = []"
| "re_sub m (c # cs) =
     (case m (c # cs) of
        None \<Rightarrow> c # re_sub m cs
      | Some (r, k) \<Rightarrow> r @ re_sub m (drop k cs))"
  by pat_completeness auto
termination by (relation "measure (\<lambda>(m, s). length s)") simp_all

definition py_bool :: "bool \<Rightarrow> string" where
  "py_bool b = (if b then ''True'' else ''False'')"

abbreviation quote :: char where
  "quote \<equiv> CHR 0x27"

text \<open>The strings between quotes: \<^verbatim>\<open>re.findall(r"'([^']+)'", s)\<close>.\<close>

function parse_string_args :: "string \<Rightarrow> string list" where
  "parse_string_args [] = []"
| "parse_string_args (c # cs) =
     (let body = takeWhile (\<lambda>x. x \<noteq> quote) cs
      in if c = quote \<and> body \<noteq> [] \<and> length body < length cs
         then body # parse_string_args (drop (Suc (length body)) cs)
         else parse_string_args cs)"
  by pat_completeness auto
termination by (relation "measure length") simp_all

text \<open>\<^verbatim>\<open>hasAnyRole\(([^)]+)\)\<close>\<close>

definition match_any_role :: "(string list \<Rightarrow> bool) \<Rightarrow> matcher" where
  "match_any_role f s =
     (let body = takeWhile (\<lambda>x. x \<noteq> CHR '')'') (drop 11 s)
      in if take 11 s = ''hasAnyRole('' \<and> body \<noteq> [] \<and> 11 + length body < length s
         then Some (py_bool (f (parse_string_args body)), 11 + length body) else None)"

text \<open>A name, a parenthesis, a quoted text and the closing parenthesis.\<close>

definition match_quoted :: "string \<Rightarrow> (string \<Rightarrow> bool) \<Rightarrow> matcher" where
  "match_quoted name f s =
     (let prefix = name @ [CHR ''('', quote]; n = length prefix; body = takeWhile (\<lambda>x. x \<noteq> quote) (drop n s)
      in if take n s = prefix \<and> body \<noteq> [] \<and> take 2 (drop (n + length body) s) = [quote, CHR '')'']
         then Some (py_bool (f body), n + length body + 1) else None)"

definition match_text :: "string \<Rightarrow> string \<Rightarrow> matcher" where
  "match_text old new s = (if take (length old) s = old then Some (new, length old - 1) else None)"

definition substitute_checks :: "security_context \<Rightarrow> string \<Rightarrow> string" where
  "substitute_checks ctx expr =
     (let s1 = re_sub (match_any_role (has_any_role ctx)) expr;
          s2 = re_sub (match_quoted ''hasRole'' (has_role ctx)) s1;
          s3 = re_sub (match_quoted ''hasPermission'' (has_permission ctx)) s2
      in re_sub (match_text ''isAuthenticated'' (py_bool (is_authenticated ctx))) s3)"

text \<open>\<^verbatim>\<open>replace("(", " ( ").replace(")", " ) ")\<close> and \<^verbatim>\<open>split()\<close>.\<close>

definition space_parens :: "string \<Rightarrow> string" where
  "space_parens s = concat (map (\<lambda>c. if c = CHR ''('' then '' ( '' else if c = CHR '')'' then '' ) '' else [c]) s)"

definition is_space :: "char \<Rightarrow> bool" where
  "is_space c = (c \<in> {CHR '' '', CHR 0x09, CHR 0x0A, CHR 0x0B, CHR 0x0C, CHR 0x0D, CHR 0x1C, CHR 0x1D, CHR 0x1E, CHR 0x1F, CHR 0x85, CHR 0xA0})"

fun split_words :: "string \<Rightarrow> string \<Rightarrow> string list" where
  "split_words word [] = (if word = [] then [] else [word])"
| "split_words word (c # cs) =
     (if is_space c then (if word = [] then [] else [word]) @ split_words [] cs else split_words (word @ [c]) cs)"

datatype token = TTrue | TFalse | TAnd | TOr | TNot | TOpen | TClose

definition token_text :: "token \<Rightarrow> string" where
  "token_text t =
     (case t of TTrue \<Rightarrow> ''True'' | TFalse \<Rightarrow> ''False'' | TAnd \<Rightarrow> ''and'' | TOr \<Rightarrow> ''or'' | TNot \<Rightarrow> ''not'' | TOpen \<Rightarrow> ''('' | TClose \<Rightarrow> '')'')"

definition token_of :: "string \<Rightarrow> token option" where
  "token_of s = find (\<lambda>t. token_text t = s) [TTrue, TFalse, TAnd, TOr, TNot, TOpen, TClose]"

text \<open>All tokens, or nothing if a word is none of the safe tokens.\<close>

definition safe_tokens :: "string \<Rightarrow> token list option" where
  "safe_tokens s =
     (let words = split_words [] s
      in if \<forall>w \<in> set words. token_of w \<noteq> None then Some (map (the \<circ> token_of) words) else None)"

section \<open>Python's parser on these tokens\<close>

text \<open>
  Between the tokens Python accepts blanks, tabs and form feeds, and line breaks only inside parentheses; the text has been
  stripped of surrounding white space.
\<close>

fun layout_ok :: "nat \<Rightarrow> string \<Rightarrow> bool" where
  "layout_ok depth [] = True"
| "layout_ok depth (c # cs) =
     (if c = CHR ''('' then layout_ok (depth + 1) cs
      else if c = CHR '')'' then layout_ok (depth - 1) cs
      else if c = CHR 0x0A \<or> c = CHR 0x0D then 0 < depth \<and> layout_ok depth cs
      else if is_space c then c \<in> {CHR '' '', CHR 0x09, CHR 0x0C} \<and> layout_ok depth cs
      else layout_ok depth cs)"

definition strip :: "string \<Rightarrow> string" where
  "strip s = rev (dropWhile is_space (rev (dropWhile is_space s)))"

text \<open>The nodes of the syntax tree. A parenthesis after an expression is a call, an empty pair of parentheses a tuple.\<close>

datatype bexp = BConst bool | BAnd "bexp list" | BOr "bexp list" | BNot bexp | BCall bexp "bexp list" | BTuple

text \<open>
  Recursive descent along Python's grammar: alternatives, conjunctions, negations, atoms and what follows them. A
  nonterminal yields a list of trees, of one tree except for the tails.
\<close>

datatype nonterm = Or_test | Or_tail | And_test | And_tail | Not_test | Atom | Calls bexp

definition join_with :: "(bexp list \<Rightarrow> bexp) \<Rightarrow> bexp list \<Rightarrow> bexp list" where
  "join_with node xs = (case xs of [x] \<Rightarrow> [x] | _ \<Rightarrow> [node xs])"

definition next_is :: "token \<Rightarrow> token list \<Rightarrow> bool" where
  "next_is t ts = (take 1 ts = [t])"

text \<open>\<^verbatim>\<open>( expression )\<close> after its opening parenthesis.\<close>

definition closed_by :: "(bexp list \<times> token list) option \<Rightarrow> (bexp list \<times> token list) option" where
  "closed_by m = Option.bind m (\<lambda>(x, r). if next_is TClose r then Some (x, tl r) else None)"

definition followed_by ::
  "(bexp list \<times> token list) option \<Rightarrow> (token list \<Rightarrow> (bexp list \<times> token list) option) \<Rightarrow> (bexp list \<times> token list) option" where
  "followed_by m f = Option.bind m (\<lambda>(x, r). map_option (apfst (\<lambda>xs. x @ xs)) (f r))"

primrec parse :: "nat \<Rightarrow> nonterm \<Rightarrow> token list \<Rightarrow> (bexp list \<times> token list) option" where
  "parse 0 = (\<lambda>nt ts. None)"
| "parse (Suc n) = (\<lambda>nt ts.
     (case nt of
        Or_test \<Rightarrow> map_option (apfst (join_with BOr)) (followed_by (parse n And_test ts) (parse n Or_tail))
      | Or_tail \<Rightarrow>
          if next_is TOr ts then followed_by (parse n And_test (tl ts)) (parse n Or_tail) else Some ([], ts)
      | And_test \<Rightarrow> map_option (apfst (join_with BAnd)) (followed_by (parse n Not_test ts) (parse n And_tail))
      | And_tail \<Rightarrow>
          if next_is TAnd ts then followed_by (parse n Not_test (tl ts)) (parse n And_tail) else Some ([], ts)
      | Not_test \<Rightarrow>
          if next_is TNot ts then map_option (apfst (map BNot)) (parse n Not_test (tl ts))
          else Option.bind (parse n Atom ts) (\<lambda>(x, r). parse n (Calls (hd x)) r)
      | Atom \<Rightarrow>
          if next_is TTrue ts then Some ([BConst True], tl ts)
          else if next_is TFalse ts then Some ([BConst False], tl ts)
          else if take 2 ts = [TOpen, TClose] then Some ([BTuple], drop 2 ts)
          else if next_is TOpen ts then closed_by (parse n Or_test (tl ts))
          else None
      | Calls f \<Rightarrow>
          if take 2 ts = [TOpen, TClose] then parse n (Calls (BCall f [])) (drop 2 ts)
          else if next_is TOpen ts
          then Option.bind (closed_by (parse n Or_test (tl ts))) (\<lambda>(args, r). parse n (Calls (BCall f args)) r)
          else Some ([f], ts)))"

definition parse_bool :: "token list \<Rightarrow> bexp option" where
  "parse_bool ts = (case parse (7 * length ts + 7) Or_test ts of Some ([x], []) \<Rightarrow> Some x | _ \<Rightarrow> None)"

text \<open>\<^verbatim>\<open>ast.walk\<close>, breadth first: the first node that is neither a constant nor a boolean operator.\<close>

fun nodes :: "bexp \<Rightarrow> nat" where
  "nodes (BAnd xs) = Suc (sum_list (map nodes xs))"
| "nodes (BOr xs) = Suc (sum_list (map nodes xs))"
| "nodes (BNot x) = Suc (nodes x)"
| "nodes _ = 1"

function unsafe_node :: "bexp list \<Rightarrow> string option" where
  "unsafe_node [] = None"
| "unsafe_node (x # queue) =
     (case x of
        BConst b \<Rightarrow> unsafe_node queue
      | BAnd xs \<Rightarrow> unsafe_node (queue @ xs)
      | BOr xs \<Rightarrow> unsafe_node (queue @ xs)
      | BNot y \<Rightarrow> unsafe_node (queue @ [y])
      | BCall f args \<Rightarrow> Some ''Call''
      | BTuple \<Rightarrow> Some ''Tuple'')"
  by pat_completeness auto
termination by (relation "measure (\<lambda>xs. sum_list (map nodes xs))") simp_all

definition invalid_expression :: "string \<Rightarrow> string \<Rightarrow> exn" where
  "invalid_expression template arg = Exn SecurityException template [VStr arg]"

fun eval_node :: "bexp \<Rightarrow> exn + bool" where
  "eval_node (BConst b) = Inr b"
| "eval_node (BAnd []) = Inr True"
| "eval_node (BAnd (x # xs)) =
     (case eval_node x of Inl e \<Rightarrow> Inl e | Inr b \<Rightarrow> if b then eval_node (BAnd xs) else Inr False)"
| "eval_node (BOr []) = Inr False"
| "eval_node (BOr (x # xs)) =
     (case eval_node x of Inl e \<Rightarrow> Inl e | Inr b \<Rightarrow> if b then Inr True else eval_node (BOr xs))"
| "eval_node (BNot x) = (case eval_node x of Inl e \<Rightarrow> Inl e | Inr b \<Rightarrow> Inr (\<not> b))"
| "eval_node (BCall f args) = Inl (invalid_expression ''Unsafe expression node: {}'' ''Call'')"
| "eval_node BTuple = Inl (invalid_expression ''Unsafe expression node: {}'' ''Tuple'')"

definition safe_bool_eval :: "string \<Rightarrow> token list \<Rightarrow> exn + bool" where
  "safe_bool_eval text ts =
     (case (if layout_ok 0 (strip text) then parse_bool ts else None) of
        None \<Rightarrow> Inl (invalid_expression ''Invalid security expression syntax: {}'' text)
      | Some tree \<Rightarrow>
          (case unsafe_node [tree] of
             Some node \<Rightarrow> Inl (invalid_expression ''Unsafe expression node: {}'' node)
           | None \<Rightarrow> eval_node tree))"

definition evaluate_expression :: "string \<Rightarrow> security_context \<Rightarrow> exn + bool" where
  "evaluate_expression expr ctx =
     (let cleaned = space_parens (substitute_checks ctx expr)
      in case safe_tokens cleaned of
           None \<Rightarrow> Inl (invalid_expression ''Invalid security expression: {}'' expr)
         | Some ts \<Rightarrow> safe_bool_eval cleaned ts)"

section \<open>The parser: depth and what it accepts\<close>

fun rank :: "nonterm \<Rightarrow> nat" where
  "rank Or_test = 4"
| "rank And_test = 3"
| "rank Not_test = 2"
| "rank _ = 1"

definition consuming :: "nonterm \<Rightarrow> bool" where
  "consuming nt = (nt \<in> {Or_test, And_test, Not_test, Atom})"

lemma consuming_simps [simp]:
  "consuming Or_test" "consuming And_test" "consuming Not_test" "consuming Atom"
  "\<not> consuming Or_tail" "\<not> consuming And_tail" "\<not> consuming (Calls f)"
  by (simp_all add: consuming_def)

lemma next_is_simps [simp]: "\<not> next_is t []" "next_is t (u # ts) \<longleftrightarrow> u = t"
  by (auto simp: next_is_def)

lemma next_is_shorter: "next_is t ts \<Longrightarrow> length (tl ts) < length ts"
  by (cases ts) simp_all

lemma take2_shorter: "take 2 ts = [t, u] \<Longrightarrow> length (drop 2 ts) < length ts"
  by (metis length_Cons length_drop diff_less list.size(3) take_eq_Nil zero_less_numeral length_greater_0_conv list.distinct(1) take_Nil)

lemma closed_byE:
  assumes "closed_by m = Some (x, r)"
  obtains r' where "m = Some (x, r')" "next_is TClose r'" "r = tl r'"
  using assms by (auto simp: closed_by_def bind_eq_Some_conv split: if_splits)

lemma followed_byE:
  assumes "followed_by m f = Some (xs, r)"
  obtains x r' ys where "m = Some (x, r')" "f r' = Some (ys, r)" "xs = x @ ys"
  using assms by (auto simp: followed_by_def bind_eq_Some_conv)

lemma parse_consumes:
  "parse n nt ts = Some (xs, r) \<Longrightarrow> length r \<le> length ts \<and> (consuming nt \<longrightarrow> length r < length ts)"
proof (induction n arbitrary: nt ts xs r)
  case (Suc n)
  note shorter = next_is_shorter take2_shorter
  have IH: "length r' \<le> length ts'" if "parse n nt' ts' = Some (xs', r')" for nt' ts' xs' r' using Suc.IH [OF that] by simp
  have IHc: "length r' < length ts'" if "parse n nt' ts' = Some (xs', r')" "consuming nt'" for nt' ts' xs' r'
    using Suc.IH [OF that(1)] that(2) by simp
  show ?case
  proof (cases nt)
    case Or_test
    with Suc.prems obtain x r1 ys where "parse n And_test ts = Some (x, r1)" "parse n Or_tail r1 = Some (ys, r)"
      by (auto elim!: followed_byE)
    then show ?thesis using IHc [of And_test ts x r1] IH [of Or_tail r1 ys r] Or_test by simp
  next
    case And_test
    with Suc.prems obtain x r1 ys where "parse n Not_test ts = Some (x, r1)" "parse n And_tail r1 = Some (ys, r)"
      by (auto elim!: followed_byE)
    then show ?thesis using IHc [of Not_test ts x r1] IH [of And_tail r1 ys r] And_test by simp
  next
    case Or_tail
    show ?thesis
    proof (cases "next_is TOr ts")
      case True
      with Suc.prems Or_tail obtain x r1 ys where "parse n And_test (tl ts) = Some (x, r1)" "parse n Or_tail r1 = Some (ys, r)"
        by (auto elim!: followed_byE)
      then show ?thesis using IHc [of And_test "tl ts" x r1] IH [of Or_tail r1 ys r] next_is_shorter [OF True] Or_tail by simp
    qed (use Suc.prems Or_tail in simp)
  next
    case And_tail
    show ?thesis
    proof (cases "next_is TAnd ts")
      case True
      with Suc.prems And_tail obtain x r1 ys where "parse n Not_test (tl ts) = Some (x, r1)" "parse n And_tail r1 = Some (ys, r)"
        by (auto elim!: followed_byE)
      then show ?thesis using IHc [of Not_test "tl ts" x r1] IH [of And_tail r1 ys r] next_is_shorter [OF True] And_tail by simp
    qed (use Suc.prems And_tail in simp)
  next
    case Not_test
    show ?thesis
    proof (cases "next_is TNot ts")
      case True
      with Suc.prems Not_test obtain x where "parse n Not_test (tl ts) = Some (x, r)" by auto
      then show ?thesis using IHc [of Not_test "tl ts" x r] next_is_shorter [OF True] by simp
    next
      case False
      with Suc.prems Not_test obtain x r1 where "parse n Atom ts = Some (x, r1)" "parse n (Calls (hd x)) r1 = Some (xs, r)"
        by (auto simp: bind_eq_Some_conv)
      then show ?thesis using IHc [of Atom ts x r1] IH [of "Calls (hd x)" r1 xs r] by simp
    qed
  next
    case Atom
    have "length r < length ts"
    proof (cases "next_is TTrue ts \<or> next_is TFalse ts \<or> take 2 ts = [TOpen, TClose]")
      case True
      with Suc.prems Atom show ?thesis using next_is_shorter take2_shorter by (fastforce split: if_splits)
    next
      case False
      with Suc.prems Atom have o: "next_is TOpen ts" and "closed_by (parse n Or_test (tl ts)) = Some (xs, r)" by (auto split: if_splits)
      from this(2) obtain r1 where "parse n Or_test (tl ts) = Some (xs, r1)" "r = tl r1" by (rule closed_byE)
      then show ?thesis using IHc [of Or_test "tl ts" xs r1] next_is_shorter [OF o] by simp
    qed
    then show ?thesis by simp
  next
    case (Calls f)
    show ?thesis
    proof (cases "take 2 ts = [TOpen, TClose]")
      case True
      with Suc.prems Calls show ?thesis using IH [of _ "drop 2 ts" xs r] take2_shorter [OF True] by fastforce
    next
      case no: False
      show ?thesis
      proof (cases "next_is TOpen ts")
        case True
        with no Suc.prems Calls obtain args r2 where c: "closed_by (parse n Or_test (tl ts)) = Some (args, r2)"
          and "parse n (Calls (BCall f args)) r2 = Some (xs, r)" by (auto simp: bind_eq_Some_conv)
        moreover from c obtain r1 where "parse n Or_test (tl ts) = Some (args, r1)" "r2 = tl r1" by (rule closed_byE)
        ultimately show ?thesis
          using IHc [of Or_test "tl ts" args r1] IH [of "Calls (BCall f args)" r2 xs r] next_is_shorter [OF True] Calls by simp
      qed (use no Suc.prems Calls in simp)
    qed
  qed
qed simp

lemma followed_by_cong:
  assumes "m = m'" "\<And>x r. m' = Some (x, r) \<Longrightarrow> f r = g r"
  shows "followed_by m f = followed_by m' g"
  using assms by (auto simp: followed_by_def intro!: bind_option_cong)

lemma parse_deeper:
  "7 * length ts + rank nt \<le> n \<Longrightarrow> parse (Suc n) nt ts = parse n nt ts"
proof (induction n arbitrary: nt ts)
  case 0
  then show ?case by (cases nt) auto
next
  case (Suc n)
  have IH: "parse (Suc n) nt' ts' = parse n nt' ts'" if "7 * length ts' + rank nt' \<le> n" for nt' ts' by (rule Suc.IH [OF that])
  have IHs: "parse (Suc n) nt' ts' = parse n nt' ts'" if "length ts' < length ts" "rank nt' \<le> 4" for nt' ts'
    by (rule IH) (use that Suc.prems in linarith)
  have rank4: "rank nt' \<le> 4" for nt' by (cases nt') simp_all
  have rest: "length r < length ts" if "parse n nt' ts' = Some (x, r)" "consuming nt'" "length ts' \<le> length ts" for nt' ts' x r
    using parse_consumes [OF that(1)] that(2,3) by simp
  note nxt = next_is_shorter
  show ?case
  proof (cases nt)
    case Or_test
    then have "parse (Suc n) And_test ts = parse n And_test ts" using Suc.prems by (intro IH) simp
    moreover have "followed_by (parse (Suc n) And_test ts) (parse (Suc n) Or_tail) = followed_by (parse n And_test ts) (parse n Or_tail)"
      by (rule followed_by_cong [OF calculation], rule IHs, erule rest) simp_all
    ultimately show ?thesis unfolding Or_test parse.simps(2) [of "Suc n"] parse.simps(2) [of n] by simp
  next
    case And_test
    then have "parse (Suc n) Not_test ts = parse n Not_test ts" using Suc.prems by (intro IH) simp
    moreover have "followed_by (parse (Suc n) Not_test ts) (parse (Suc n) And_tail) = followed_by (parse n Not_test ts) (parse n And_tail)"
      by (rule followed_by_cong [OF calculation], rule IHs, erule rest) simp_all
    ultimately show ?thesis unfolding And_test parse.simps(2) [of "Suc n"] parse.simps(2) [of n] by simp
  next
    case Or_tail
    have "followed_by (parse (Suc n) And_test (tl ts)) (parse (Suc n) Or_tail) = followed_by (parse n And_test (tl ts)) (parse n Or_tail)"
      if "next_is TOr ts"
      by (rule followed_by_cong, rule IHs [OF nxt [OF that] rank4], rule IHs, erule rest)
        (use nxt [OF that] in simp_all)
    then show ?thesis unfolding Or_tail parse.simps(2) [of "Suc n"] parse.simps(2) [of n] by simp
  next
    case And_tail
    have "followed_by (parse (Suc n) Not_test (tl ts)) (parse (Suc n) And_tail) = followed_by (parse n Not_test (tl ts)) (parse n And_tail)"
      if "next_is TAnd ts"
      by (rule followed_by_cong, rule IHs [OF nxt [OF that] rank4], rule IHs, erule rest)
        (use nxt [OF that] in simp_all)
    then show ?thesis unfolding And_tail parse.simps(2) [of "Suc n"] parse.simps(2) [of n] by simp
  next
    case Not_test
    have "parse (Suc n) Not_test (tl ts) = parse n Not_test (tl ts)" if "next_is TNot ts"
      using nxt [OF that] by (intro IHs rank4) simp
    moreover have "parse (Suc n) Atom ts = parse n Atom ts" using Suc.prems Not_test by (intro IH) simp
    moreover have "parse (Suc n) (Calls (hd x)) r = parse n (Calls (hd x)) r" if "parse n Atom ts = Some (x, r)" for x r
      by (intro IHs rank4 rest [OF that]) simp_all
    ultimately show ?thesis unfolding Not_test parse.simps(2) [of "Suc n"] parse.simps(2) [of n]
      by (auto intro!: bind_option_cong)
  next
    case Atom
    have "parse (Suc n) Or_test (tl ts) = parse n Or_test (tl ts)" if "next_is TOpen ts"
      using nxt [OF that] by (intro IHs rank4) simp
    then show ?thesis unfolding Atom parse.simps(2) [of "Suc n"] parse.simps(2) [of n] by simp
  next
    case (Calls f)
    have "parse (Suc n) Or_test (tl ts) = parse n Or_test (tl ts)" if "next_is TOpen ts"
      using nxt [OF that] by (intro IHs rank4) simp
    moreover have "parse (Suc n) (Calls g) (drop 2 ts) = parse n (Calls g) (drop 2 ts)" if "take 2 ts = [TOpen, TClose]" for g
      by (intro IHs rank4 take2_shorter [OF that])
    moreover have "parse (Suc n) (Calls g) r = parse n (Calls g) r"
      if "next_is TOpen ts" "closed_by (parse n Or_test (tl ts)) = Some (x, r)" for g x r
    proof -
      from that(2) obtain r' where "parse n Or_test (tl ts) = Some (x, r')" "r = tl r'" by (rule closed_byE)
      then show ?thesis using rest [of Or_test "tl ts" x r'] nxt [OF that(1)] by (intro IHs rank4) simp
    qed
    ultimately show ?thesis unfolding Calls parse.simps(2) [of "Suc n"] parse.simps(2) [of n]
      by (auto intro!: bind_option_cong)
  qed
qed

text \<open>More depth than \<open>parse_bool\<close> allows changes nothing.\<close>

lemma parse_fuel_enough: "7 * length ts + 7 \<le> n \<Longrightarrow> parse n Or_test ts = parse (7 * length ts + 7) Or_test ts"
  by (induction rule: dec_induct) (simp_all add: parse_deeper del: parse.simps)

section \<open>Expressions and how they are written\<close>

text \<open>
  The reference semantics: expressions over checks, and how they are written down, with the parentheses that precedence
  asks for. Level 0 is an alternative, 1 a conjunction, 2 a negation or a check.
\<close>

datatype 'a sexpr = Check 'a | SAnd "'a sexpr list" | SOr "'a sexpr list" | SNot "'a sexpr"

fun meaning :: "('a \<Rightarrow> bool) \<Rightarrow> 'a sexpr \<Rightarrow> bool" where
  "meaning v (Check a) = v a"
| "meaning v (SAnd es) = (\<forall>e \<in> set es. meaning v e)"
| "meaning v (SOr es) = (\<exists>e \<in> set es. meaning v e)"
| "meaning v (SNot e) = (\<not> meaning v e)"

text \<open>Conjunctions and alternatives have at least two parts.\<close>

fun proper :: "'a sexpr \<Rightarrow> bool" where
  "proper (Check a) = True"
| "proper (SAnd es) = (2 \<le> length es \<and> (\<forall>e \<in> set es. proper e))"
| "proper (SOr es) = (2 \<le> length es \<and> (\<forall>e \<in> set es. proper e))"
| "proper (SNot e) = proper e"

datatype 'a lexeme = Leaf 'a | Key token

fun sep_by :: "'b list \<Rightarrow> 'b list list \<Rightarrow> 'b list" where
  "sep_by sep [] = []"
| "sep_by sep [x] = x"
| "sep_by sep (x # y # xs) = x @ sep @ sep_by sep (y # xs)"

definition parens :: "bool \<Rightarrow> 'a lexeme list \<Rightarrow> 'a lexeme list" where
  "parens b ls = (if b then Key TOpen # ls @ [Key TClose] else ls)"

fun written :: "nat \<Rightarrow> 'a sexpr \<Rightarrow> 'a lexeme list" where
  "written l (Check a) = [Leaf a]"
| "written l (SAnd es) = parens (1 < l) (sep_by [Key TAnd] (map (written 2) es))"
| "written l (SOr es) = parens (0 < l) (sep_by [Key TOr] (map (written 1) es))"
| "written l (SNot e) = Key TNot # written 2 e"

lemma sep_by_Cons: "sep_by sep (x # xs) = x @ concat (map (\<lambda>y. sep @ y) xs)"
  by (induction xs arbitrary: x) simp_all

section \<open>The parser reads back what was written\<close>

definition token_of_lexeme :: "bool lexeme \<Rightarrow> token" where
  "token_of_lexeme l = (case l of Leaf b \<Rightarrow> if b then TTrue else TFalse | Key t \<Rightarrow> t)"

abbreviation toks :: "nat \<Rightarrow> bool sexpr \<Rightarrow> token list" where
  "toks l e \<equiv> map token_of_lexeme (written l e)"

fun tree :: "bool sexpr \<Rightarrow> bexp" where
  "tree (Check b) = BConst b"
| "tree (SAnd es) = BAnd (map tree es)"
| "tree (SOr es) = BOr (map tree es)"
| "tree (SNot e) = BNot (tree e)"

definition nt_of :: "nat \<Rightarrow> nonterm" where
  "nt_of l = (if l = 0 then Or_test else if l = 1 then And_test else Not_test)"

text \<open>What may come after an expression of a level.\<close>

definition stops :: "nat \<Rightarrow> token list \<Rightarrow> bool" where
  "stops l ts \<longleftrightarrow> \<not> next_is TOpen ts \<and> (l \<le> 1 \<longrightarrow> \<not> next_is TAnd ts) \<and> (l = 0 \<longrightarrow> \<not> next_is TOr ts)"

lemma take2_next: "\<not> next_is t ts \<Longrightarrow> take 2 ts \<noteq> [t, u]"
  by (cases ts) auto

text \<open>From the level of a negation up to the levels above.\<close>

lemma parse_lift:
  assumes "parse m Not_test ts = Some ([x], r)" "stops l r" "l \<le> 2" "n = m + (2 - l)" "2 \<le> m"
  shows "parse n (nt_of l) ts = Some ([x], r)"
proof -
  obtain m' where m: "m = Suc m'" using assms(5) by (cases m) auto
  have a: "parse (Suc m) And_test ts = Some ([x], r)" if "l \<le> 1"
    using assms(1,2) that m unfolding parse.simps(2) [of m]
    by (simp add: followed_by_def stops_def join_with_def del: parse.simps) (simp add: m)
  have "parse (Suc (Suc m)) Or_test ts = Some ([x], r)" if "l = 0"
    using a assms(2) that m unfolding parse.simps(2) [of "Suc m"]
    by (simp add: followed_by_def stops_def join_with_def del: parse.simps) (simp add: m)
  with a assms(1,3,4) show ?thesis by (cases l rule: nat.exhaust; cases "l = 1") (auto simp: nt_of_def numeral_2_eq_2)
qed

text \<open>One step of the parser at the nonterminals that matter below.\<close>

lemma parse_steps:
  "parse (Suc n) Or_test ts = map_option (apfst (join_with BOr)) (followed_by (parse n And_test ts) (parse n Or_tail))"
  "parse (Suc n) And_test ts = map_option (apfst (join_with BAnd)) (followed_by (parse n Not_test ts) (parse n And_tail))"
  "parse (Suc n) Or_tail (TOr # ts) = followed_by (parse n And_test ts) (parse n Or_tail)"
  "parse (Suc n) And_tail (TAnd # ts) = followed_by (parse n Not_test ts) (parse n And_tail)"
  "\<not> next_is TOr ts \<Longrightarrow> parse (Suc n) Or_tail ts = Some ([], ts)"
  "\<not> next_is TAnd ts \<Longrightarrow> parse (Suc n) And_tail ts = Some ([], ts)"
  "parse (Suc n) Not_test (TNot # ts) = map_option (apfst (map BNot)) (parse n Not_test ts)"
  "\<not> next_is TNot ts \<Longrightarrow> parse (Suc n) Not_test ts = Option.bind (parse n Atom ts) (\<lambda>(x, r). parse n (Calls (hd x)) r)"
  "parse (Suc n) Atom (TTrue # ts) = Some ([BConst True], ts)"
  "parse (Suc n) Atom (TFalse # ts) = Some ([BConst False], ts)"
  "\<not> next_is TOpen ts \<Longrightarrow> parse (Suc n) (Calls f) ts = Some ([f], ts)"
  by (simp_all add: take2_next)

lemma parse_parenthesised:
  assumes "parse k Or_test (t # body @ TClose # r) = Some ([x], TClose # r)" "t \<noteq> TClose" "\<not> next_is TOpen r"
  shows "parse (Suc (Suc k)) Not_test (TOpen # t # body @ TClose # r) = Some ([x], r)"
proof -
  have "parse (Suc k) Atom (TOpen # t # body @ TClose # r) = Some ([x], r)"
    using assms(1,2) by (simp add: closed_by_def)
  then show ?thesis using assms(3) by (simp add: parse_steps(8,11) del: parse.simps)
qed

lemma map_sep_by: "map f (sep_by sep xs) = sep_by (map f sep) (map (map f) xs)"
  by (induction sep xs rule: sep_by.induct) simp_all

text \<open>What is written starts with a token that opens or negates an expression.\<close>

lemma toks_head: "proper e \<Longrightarrow> \<exists>t ts. toks l e = t # ts \<and> t \<notin> {TClose, TAnd, TOr}"
proof (induction e arbitrary: l)
  case (SAnd es)
  then obtain e es' where es: "es = e # es'" by (cases es) auto
  obtain t ts where "toks 2 e = t # ts" "t \<notin> {TClose, TAnd, TOr}" using SAnd.IH [of e 2] SAnd.prems es by auto
  then show ?case by (auto simp: parens_def token_of_lexeme_def es sep_by_Cons)
next
  case (SOr es)
  then obtain e es' where es: "es = e # es'" by (cases es) auto
  obtain t ts where "toks 1 e = t # ts" "t \<notin> {TClose, TAnd, TOr}" using SOr.IH [of e 1] SOr.prems es by auto
  then show ?case by (auto simp: parens_def token_of_lexeme_def es sep_by_Cons)
qed (simp_all add: token_of_lexeme_def)

text \<open>\<open>reads l e\<close>: the parser reads \<open>e\<close> back at level \<open>l\<close>.\<close>

definition reads :: "nat \<Rightarrow> bool sexpr \<Rightarrow> bool" where
  "reads l e \<longleftrightarrow>
     (\<forall>rest n. stops l rest \<longrightarrow> 7 * length (toks l e) + rank (nt_of l) \<le> n \<longrightarrow>
        parse n (nt_of l) (toks l e @ rest) = Some ([tree e], rest))"

lemma readsD: "\<lbrakk>reads l e; stops l rest; 7 * length (toks l e) + rank (nt_of l) \<le> n\<rbrakk>
    \<Longrightarrow> parse n (nt_of l) (toks l e @ rest) = Some ([tree e], rest)"
  by (simp add: reads_def)

definition tail_toks :: "token \<Rightarrow> nat \<Rightarrow> bool sexpr list \<Rightarrow> token list" where
  "tail_toks t l es = concat (map (\<lambda>e. t # toks l e) es)"

lemma chain_toks: "sep_by [t] (map (toks l) (e # es)) = toks l e @ tail_toks t l es"
  by (simp add: sep_by_Cons tail_toks_def comp_def)

lemma tail_stops:
  "stops 1 rest \<Longrightarrow> stops 2 (tail_toks TAnd 2 es @ rest)"
  "stops 0 rest \<Longrightarrow> stops 1 (tail_toks TOr 1 es @ rest)"
  by (cases es; simp add: tail_toks_def stops_def)+

lemma and_tail_reads:
  assumes "\<forall>e \<in> set es. reads 2 e" "stops 1 rest" "7 * length (tail_toks TAnd 2 es) + 1 \<le> n"
  shows "parse n And_tail (tail_toks TAnd 2 es @ rest) = Some (map tree es, rest)"
  using assms(1,3)
proof (induction es arbitrary: n)
  case Nil
  then obtain m where "n = Suc m" by (cases n) auto
  then show ?case using assms(2) by (simp add: tail_toks_def parse_steps(6) stops_def del: parse.simps)
next
  case (Cons e es)
  then obtain m where n: "n = Suc m" by (cases n) auto
  have "parse m Not_test (toks 2 e @ tail_toks TAnd 2 es @ rest) = Some ([tree e], tail_toks TAnd 2 es @ rest)"
    using readsD [of 2 e, OF _ tail_stops(1) [OF assms(2)], of m es] Cons.prems n by (simp add: nt_of_def tail_toks_def)
  moreover have "parse m And_tail (tail_toks TAnd 2 es @ rest) = Some (map tree es, rest)"
    using Cons n by (intro Cons.IH) (auto simp: tail_toks_def)
  ultimately show ?case by (simp add: n tail_toks_def parse_steps(4) followed_by_def del: parse.simps)
qed

lemma or_tail_reads:
  assumes "\<forall>e \<in> set es. reads 1 e" "stops 0 rest" "7 * length (tail_toks TOr 1 es) + 1 \<le> n"
  shows "parse n Or_tail (tail_toks TOr 1 es @ rest) = Some (map tree es, rest)"
  using assms(1,3)
proof (induction es arbitrary: n)
  case Nil
  then obtain m where "n = Suc m" by (cases n) auto
  then show ?case using assms(2) by (simp add: tail_toks_def parse_steps(5) stops_def del: parse.simps)
next
  case (Cons e es)
  then obtain m where n: "n = Suc m" by (cases n) auto
  have "parse m And_test (toks 1 e @ tail_toks TOr 1 es @ rest) = Some ([tree e], tail_toks TOr 1 es @ rest)"
    using readsD [of 1 e, OF _ tail_stops(2) [OF assms(2)], of m es] Cons.prems n by (simp add: nt_of_def tail_toks_def)
  moreover have "parse m Or_tail (tail_toks TOr 1 es @ rest) = Some (map tree es, rest)"
    using Cons n by (intro Cons.IH) (auto simp: tail_toks_def)
  ultimately show ?case by (simp add: n tail_toks_def parse_steps(3) followed_by_def del: parse.simps)
qed

lemma and_chain_reads:
  assumes "\<forall>e \<in> set (e # es). reads 2 e" "es \<noteq> []" "stops 1 rest" "7 * length (toks 2 e @ tail_toks TAnd 2 es) + 3 \<le> n"
  shows "parse n And_test ((toks 2 e @ tail_toks TAnd 2 es) @ rest) = Some ([BAnd (map tree (e # es))], rest)"
proof -
  obtain m where n: "n = Suc m" using assms(4) by (cases n) auto
  have "parse m Not_test (toks 2 e @ tail_toks TAnd 2 es @ rest) = Some ([tree e], tail_toks TAnd 2 es @ rest)"
    using readsD [of 2 e, OF _ tail_stops(1) [OF assms(3)], of m es] assms(1,4) n by (simp add: nt_of_def)
  moreover have "parse m And_tail (tail_toks TAnd 2 es @ rest) = Some (map tree es, rest)"
    using assms n by (intro and_tail_reads) auto
  ultimately show ?thesis using assms(2)
    by (cases es) (simp_all add: n parse_steps(2) followed_by_def join_with_def del: parse.simps)
qed

lemma or_chain_reads:
  assumes "\<forall>e \<in> set (e # es). reads 1 e" "es \<noteq> []" "stops 0 rest" "7 * length (toks 1 e @ tail_toks TOr 1 es) + 4 \<le> n"
  shows "parse n Or_test ((toks 1 e @ tail_toks TOr 1 es) @ rest) = Some ([BOr (map tree (e # es))], rest)"
proof -
  obtain m where n: "n = Suc m" using assms(4) by (cases n) auto
  have "parse m And_test (toks 1 e @ tail_toks TOr 1 es @ rest) = Some ([tree e], tail_toks TOr 1 es @ rest)"
    using readsD [of 1 e, OF _ tail_stops(2) [OF assms(3)], of m es] assms(1,4) n by (simp add: nt_of_def)
  moreover have "parse m Or_tail (tail_toks TOr 1 es @ rest) = Some (map tree es, rest)"
    using assms n by (intro or_tail_reads) auto
  ultimately show ?thesis using assms(2)
    by (cases es) (simp_all add: n parse_steps(1) followed_by_def join_with_def del: parse.simps)
qed

lemma stops_TOpen: "stops l rest \<Longrightarrow> \<not> next_is TOpen rest"
  by (simp add: stops_def)

lemma reads_lift:
  assumes "\<And>rest m. \<lbrakk>\<not> next_is TOpen rest; 7 * length (toks l e) + 2 \<le> m\<rbrakk>
      \<Longrightarrow> parse m Not_test (toks l e @ rest) = Some ([tree e], rest)" and "l \<le> 2"
  shows "reads l e"
  unfolding reads_def
proof (intro allI impI)
  fix rest n
  assume "stops l rest" "7 * length (toks l e) + rank (nt_of l) \<le> n"
  moreover have "rank (nt_of l) = 4 - l" using assms(2) by (auto simp: nt_of_def)
  ultimately show "parse n (nt_of l) (toks l e @ rest) = Some ([tree e], rest)"
    using assms stops_TOpen by (intro parse_lift [where m = "n - (2 - l)"]) auto
qed

lemma reads_parens:
  assumes "reads 0 e" "proper e" "toks l e = TOpen # toks 0 e @ [TClose]" "l \<le> 2"
  shows "reads l e"
proof (rule reads_lift [OF _ assms(4)])
  fix rest m
  assume "\<not> next_is TOpen rest" and m: "7 * length (toks l e) + 2 \<le> m"
  obtain t ts where t: "toks 0 e = t # ts" "t \<notin> {TClose, TAnd, TOr}" using toks_head [OF assms(2), of 0] by (elim exE conjE)
  obtain k where k: "m = Suc (Suc k)" using m assms(3) by (cases m; cases "m - 1") auto
  have "parse k Or_test (toks 0 e @ TClose # rest) = Some ([tree e], TClose # rest)"
    using readsD [OF assms(1), of "TClose # rest" k] m assms(3) k by (simp add: stops_def nt_of_def)
  then show "parse m Not_test (toks l e @ rest) = Some ([tree e], rest)"
    using parse_parenthesised [of k t ts rest "tree e"] t k assms(3) \<open>\<not> next_is TOpen rest\<close> by (simp del: parse.simps)
qed

lemma proper_reads: "\<lbrakk>proper e; l \<le> 2\<rbrakk> \<Longrightarrow> reads l e"
proof (induction e arbitrary: l)
  case (Check b)
  show ?case
  proof (rule reads_lift [OF _ Check(2)])
    fix rest m
    assume a: "\<not> next_is TOpen rest" "7 * length (toks l (Check b)) + 2 \<le> m"
    then obtain k where "m = Suc (Suc k)" by (cases m; cases "m - 1") auto
    with a(1) show "parse m Not_test (toks l (Check b) @ rest) = Some ([tree (Check b)], rest)"
      by (cases b) (simp_all add: token_of_lexeme_def parse_steps(8-11) del: parse.simps)
  qed
next
  case (SNot e)
  show ?case
  proof (rule reads_lift [OF _ SNot(3)])
    fix rest m
    assume a: "\<not> next_is TOpen rest" "7 * length (toks l (SNot e)) + 2 \<le> m"
    then obtain k where k: "m = Suc k" by (cases m) auto
    have "parse k Not_test (toks 2 e @ rest) = Some ([tree e], rest)"
      using readsD [OF SNot.IH [of 2], of rest k] SNot.prems a k by (simp add: stops_def nt_of_def)
    then show "parse m Not_test (toks l (SNot e) @ rest) = Some ([tree (SNot e)], rest)"
      by (simp add: k token_of_lexeme_def parse_steps(7) del: parse.simps)
  qed
next
  case (SAnd es)
  then obtain e0 es' where es: "es = e0 # es'" "es' \<noteq> []" by (cases es; cases "tl es") auto
  have IH: "\<forall>e \<in> set (e0 # es'). reads 2 e" using SAnd es by auto
  have chain: "toks i (SAnd es) = toks 2 e0 @ tail_toks TAnd 2 es'" if "i \<le> 1" for i
    using that chain_toks [of TAnd 2 e0 es'] by (simp add: es parens_def map_sep_by token_of_lexeme_def comp_def)
  have one: "reads 1 (SAnd es)"
    unfolding reads_def
  proof (intro allI impI)
    fix rest n
    assume "stops 1 rest" "7 * length (toks 1 (SAnd es)) + rank (nt_of 1) \<le> n"
    then show "parse n (nt_of 1) (toks 1 (SAnd es) @ rest) = Some ([tree (SAnd es)], rest)"
      using and_chain_reads [OF IH es(2), of rest n] unfolding chain [OF order_refl] by (simp add: nt_of_def es(1) del: parse.simps)
  qed
  have zero: "reads 0 (SAnd es)"
    unfolding reads_def
  proof (intro allI impI)
    fix rest n
    assume a: "stops 0 rest" "7 * length (toks 0 (SAnd es)) + rank (nt_of 0) \<le> n"
    then obtain m where n: "n = Suc m" by (cases n) (auto simp: nt_of_def)
    have "parse m And_test (toks 0 (SAnd es) @ rest) = Some ([tree (SAnd es)], rest)"
      using readsD [OF one, of rest m] a n unfolding chain [OF order_refl] chain [OF zero_le_one]
      by (simp add: nt_of_def stops_def)
    moreover have "parse m Or_tail rest = Some ([], rest)" using a n
      by (cases m) (auto simp: nt_of_def stops_def parse_steps(5) simp del: parse.simps)
    ultimately show "parse n (nt_of 0) (toks 0 (SAnd es) @ rest) = Some ([tree (SAnd es)], rest)"
      by (simp add: n nt_of_def parse_steps(1) followed_by_def join_with_def del: parse.simps written.simps tree.simps)
  qed
  show ?case
  proof (cases "l \<le> 1")
    case True
    then have "l = 0 \<or> l = 1" by auto
    then show ?thesis using zero one by auto
  next
    case False
    with SAnd.prems(2) have "toks l (SAnd es) = TOpen # toks 0 (SAnd es) @ [TClose]"
      by (simp add: parens_def token_of_lexeme_def)
    then show ?thesis by (rule reads_parens [OF zero SAnd.prems(1) _ SAnd.prems(2)])
  qed
next
  case (SOr es)
  then obtain e0 es' where es: "es = e0 # es'" "es' \<noteq> []" by (cases es; cases "tl es") auto
  have IH: "\<forall>e \<in> set (e0 # es'). reads 1 e" using SOr es by auto
  have chain: "toks 0 (SOr es) = toks 1 e0 @ tail_toks TOr 1 es'"
    using chain_toks [of TOr 1 e0 es'] by (simp add: es parens_def map_sep_by token_of_lexeme_def comp_def)
  have zero: "reads 0 (SOr es)"
    unfolding reads_def
  proof (intro allI impI)
    fix rest n
    assume "stops 0 rest" "7 * length (toks 0 (SOr es)) + rank (nt_of 0) \<le> n"
    then show "parse n (nt_of 0) (toks 0 (SOr es) @ rest) = Some ([tree (SOr es)], rest)"
      using or_chain_reads [OF IH es(2), of rest n] unfolding chain by (simp add: nt_of_def es(1) del: parse.simps)
  qed
  show ?case
  proof (cases "l = 0")
    case False
    then have "toks l (SOr es) = TOpen # toks 0 (SOr es) @ [TClose]"
      by (simp add: parens_def token_of_lexeme_def)
    then show ?thesis by (rule reads_parens [OF zero SOr.prems(1) _ SOr.prems(2)])
  qed (use zero in simp)
qed

lemma parse_bool_written: "proper e \<Longrightarrow> parse_bool (toks 0 e) = Some (tree e)"
proof -
  assume "proper e"
  from readsD [OF proper_reads [OF this, of 0], of "[]" "7 * length (toks 0 e) + 7"]
  show ?thesis by (simp add: parse_bool_def stops_def nt_of_def del: parse.simps)
qed

section \<open>Evaluation of the tree\<close>

fun safe_tree :: "bexp \<Rightarrow> bool" where
  "safe_tree (BConst b) = True"
| "safe_tree (BAnd xs) = (\<forall>x \<in> set xs. safe_tree x)"
| "safe_tree (BOr xs) = (\<forall>x \<in> set xs. safe_tree x)"
| "safe_tree (BNot x) = safe_tree x"
| "safe_tree _ = False"

lemma unsafe_node_None: "\<forall>x \<in> set xs. safe_tree x \<Longrightarrow> unsafe_node xs = None"
proof (induction xs rule: unsafe_node.induct)
  case (2 x queue)
  then show ?case by (cases x) (simp_all add: ball_Un)
qed simp

lemma safe_tree_tree: "safe_tree (tree e)"
  by (induction e) auto

lemma eval_tree: "eval_node (tree e) = Inr (meaning (\<lambda>b. b) e)"
proof (induction e)
  case (SAnd es)
  then show ?case by (induction es) auto
next
  case (SOr es)
  then show ?case by (induction es) auto
qed simp_all

section \<open>From the text to the tokens\<close>

text \<open>The checks of an expression, how they are written, and a text: lexemes, each followed by a number of blanks.\<close>

datatype check = Role string | AnyRole "string list" | Permission string | Authenticated | Truth bool

definition quoted :: "string \<Rightarrow> string" where
  "quoted s = quote # s @ [quote]"

fun check_text :: "check \<Rightarrow> string" where
  "check_text (Role r) = ''hasRole('' @ quoted r @ '')''"
| "check_text (AnyRole rs) = ''hasAnyRole('' @ sep_by '', '' (map quoted rs) @ '')''"
| "check_text (Permission p) = ''hasPermission('' @ quoted p @ '')''"
| "check_text Authenticated = ''isAuthenticated''"
| "check_text (Truth b) = py_bool b"

fun check_value :: "security_context \<Rightarrow> check \<Rightarrow> bool" where
  "check_value ctx (Role r) = has_role ctx r"
| "check_value ctx (AnyRole rs) = has_any_role ctx rs"
| "check_value ctx (Permission p) = has_permission ctx p"
| "check_value ctx Authenticated = is_authenticated ctx"
| "check_value ctx (Truth b) = b"

text \<open>A name that can be written between quotes.\<close>

definition plain_name :: "string \<Rightarrow> bool" where
  "plain_name s \<longleftrightarrow> s \<noteq> [] \<and> quote \<notin> set s \<and> CHR ''('' \<notin> set s \<and> CHR '')'' \<notin> set s"

fun plain_check :: "check \<Rightarrow> bool" where
  "plain_check (Role r) = plain_name r"
| "plain_check (AnyRole rs) = (rs \<noteq> [] \<and> (\<forall>r \<in> set rs. plain_name r))"
| "plain_check (Permission p) = plain_name p"
| "plain_check _ = True"

definition lexeme_text :: "check lexeme \<Rightarrow> string" where
  "lexeme_text l = (case l of Leaf c \<Rightarrow> check_text c | Key t \<Rightarrow> token_text t)"

definition text_of :: "(check lexeme \<times> nat) list \<Rightarrow> string" where
  "text_of xs = concat (map (\<lambda>(l, k). lexeme_text l @ replicate k CHR '' '') xs)"

abbreviation plain_lexemes :: "(check lexeme \<times> nat) list \<Rightarrow> bool" where
  "plain_lexemes xs \<equiv> \<forall>(l, k) \<in> set xs. \<forall>c. l = Leaf c \<longrightarrow> plain_check c"

abbreviation map_leaves :: "(check \<Rightarrow> check) \<Rightarrow> (check lexeme \<times> nat) list \<Rightarrow> (check lexeme \<times> nat) list" where
  "map_leaves f xs \<equiv> map (apfst (map_lexeme f)) xs"

text \<open>Texts that a substitution copies, and names that it copies because no match begins in them.\<close>

lemma re_sub_copy: "m (c # s) = None \<Longrightarrow> re_sub m (c # s) = c # re_sub m s"
  by simp

lemma re_sub_name:
  assumes "\<And>a b. name = a @ b \<Longrightarrow> b \<noteq> [] \<Longrightarrow> m (b @ quote # R) = None"
  shows "re_sub m (name @ quote # R) = name @ re_sub m (quote # R)"
  using assms
proof (induction name)
  case (Cons c name)
  have "re_sub m (name @ quote # R) = name @ re_sub m (quote # R)" by (rule Cons.IH) (metis Cons.prems append_Cons)
  moreover have "m (c # name @ quote # R) = None" using Cons.prems [of "[]" "c # name"] by simp
  ultimately show ?case by (simp del: re_sub.simps add: re_sub_copy)
qed simp

text \<open>A keyword with its parenthesis does not begin inside a name.\<close>

lemma no_prefix_in_name:
  assumes "CHR ''('' \<notin> set b" "quote \<notin> set u"
  shows "take (length u + 1 + length v) (b @ quote # R) \<noteq> u @ CHR ''('' # v"
proof
  assume eq: "take (length u + 1 + length v) (b @ quote # R) = u @ CHR ''('' # v"
  show False
  proof (cases "length u < length b")
    case True
    then have "(u @ CHR ''('' # v) ! length u = b ! length u" using eq by (metis nth_append nth_take trans_less_add1 less_add_one)
    then have "b ! length u = CHR ''(''" by simp
    with True assms(1) show False by (metis nth_mem)
  next
    case False
    then have "(u @ CHR ''('' # v) ! length b = quote"
      using eq by (metis (no_types, lifting) add_less_cancel_left less_add_one linorder_not_less nth_append_length nth_take order_le_less_trans trans_less_add1)
    moreover have "u ! length b \<in> set u" if "length b < length u" using that by (rule nth_mem)
    ultimately show False using False assms(2) by (cases "length b = length u") (auto simp: nth_append)
  qed
qed

lemma match_any_role_name:
  assumes "CHR ''('' \<notin> set b"
  shows "match_any_role f (b @ quote # R) = None"
proof -
  have "length ''hasAnyRole'' + 1 + length ([] :: string) = 11" by simp
  with no_prefix_in_name [OF assms, of "''hasAnyRole''" "[]" R] have "take 11 (b @ quote # R) \<noteq> ''hasAnyRole(''"
    by (simp add: eval_nat_numeral del: take_append)
  then show ?thesis by (simp add: match_any_role_def Let_def del: take_append)
qed

lemma match_quoted_name: "\<lbrakk>CHR ''('' \<notin> set b; quote \<notin> set name\<rbrakk> \<Longrightarrow> match_quoted name f (b @ quote # R) = None"
  using no_prefix_in_name [of b name "[quote]" R] by (simp add: match_quoted_def Let_def del: take_append)

text \<open>\<open>passes m f l\<close>: the substitution rewrites the text of lexeme \<open>l\<close> to that of \<open>f l\<close>, whatever follows.\<close>

definition passes :: "matcher \<Rightarrow> (check \<Rightarrow> check) \<Rightarrow> check lexeme \<Rightarrow> bool" where
  "passes m f l \<longleftrightarrow> (\<forall>R. re_sub m (lexeme_text l @ R) = lexeme_text (map_lexeme f l) @ re_sub m R)"

lemma passes_text:
  assumes "\<forall>(l, k) \<in> set xs. passes m f l" "\<And>R. m (CHR '' '' # R) = None"
  shows "re_sub m (text_of xs) = text_of (map_leaves f xs)"
  using assms(1)
proof (induction xs)
  case Nil
  then show ?case by (simp add: text_of_def)
next
  case (Cons x xs)
  obtain l k where x: "x = (l, k)" by (cases x)
  have blanks: "re_sub m (replicate k CHR '' '' @ R) = replicate k CHR '' '' @ re_sub m R" for R
    by (induction k) (simp_all add: assms(2))
  have "re_sub m (text_of (x # xs)) = re_sub m (lexeme_text l @ replicate k CHR '' '' @ text_of xs)"
    by (simp add: text_of_def x)
  also have "\<dots> = lexeme_text (map_lexeme f l) @ replicate k CHR '' '' @ re_sub m (text_of xs)"
    using Cons.prems x blanks by (simp add: passes_def)
  finally show ?case using Cons by (simp add: text_of_def x)
qed

lemma re_sub_match: "m (c # s) = Some (r, k) \<Longrightarrow> re_sub m (c # s) = r @ re_sub m (drop k s)"
  by simp

text \<open>Copying a literal text character by character.\<close>

definition copied :: "matcher \<Rightarrow> string \<Rightarrow> bool" where
  "copied m s \<longleftrightarrow> (\<forall>R. re_sub m (s @ R) = s @ re_sub m R)"

lemma copied_Nil: "copied m []"
  by (simp add: copied_def)

lemma copied_Cons: "\<lbrakk>\<And>R. m (c # s @ R) = None; copied m s\<rbrakk> \<Longrightarrow> copied m (c # s)"
  by (simp add: copied_def)

lemma copied_append: "\<lbrakk>copied m a; copied m b\<rbrakk> \<Longrightarrow> copied m (a @ b)"
  by (simp add: copied_def)

lemma copied_passes: "\<lbrakk>copied m (lexeme_text l); lexeme_text (map_lexeme f l) = lexeme_text l\<rbrakk> \<Longrightarrow> passes m f l"
  by (simp add: passes_def copied_def)

lemma copied_name:
  assumes "\<And>b R. CHR ''('' \<notin> set b \<Longrightarrow> m (b @ quote # R) = None" "CHR ''('' \<notin> set s"
  shows "copied m (s @ [quote])"
  unfolding copied_def
proof
  fix R
  have "re_sub m (s @ quote # R) = s @ re_sub m (quote # R)"
    by (rule re_sub_name) (use assms in auto)
  moreover have "m (quote # R) = None" using assms(1) [of "[]"] by simp
  ultimately show "re_sub m ((s @ [quote]) @ R) = (s @ [quote]) @ re_sub m R" by simp
qed

text \<open>First pass: \<^verbatim>\<open>hasAnyRole\<close>.\<close>

fun step_any :: "security_context \<Rightarrow> check \<Rightarrow> check" where
  "step_any ctx (AnyRole rs) = Truth (has_any_role ctx rs)"
| "step_any ctx c = c"

lemma any_role_copies:
  "c \<noteq> CHR ''h'' \<Longrightarrow> match_any_role f (c # s) = None"
  "x \<noteq> CHR ''A'' \<Longrightarrow> match_any_role f (CHR ''h'' # CHR ''a'' # CHR ''s'' # x # s) = None"
  "x \<noteq> CHR ''a'' \<Longrightarrow> match_any_role f (CHR ''h'' # x # s) = None"
  by (simp_all add: match_any_role_def Let_def)

lemma parse_string_args_quoted:
  assumes "plain_name r"
  shows "parse_string_args (quoted r @ R) = r # parse_string_args R"
proof -
  have "takeWhile (\<lambda>x. x \<noteq> quote) (r @ quote # R) = r" using assms by (auto simp: plain_name_def takeWhile_append)
  then show ?thesis using assms by (simp add: quoted_def plain_name_def)
qed

lemma parse_string_args_list:
  "\<lbrakk>\<forall>r \<in> set rs. plain_name r\<rbrakk> \<Longrightarrow> parse_string_args (sep_by '', '' (map quoted rs)) = rs"
proof (induction "'', ''" "map quoted rs" arbitrary: rs rule: sep_by.induct)
  case (2 x)
  then obtain r where "rs = [r]" by (cases rs) auto
  with 2 show ?case using parse_string_args_quoted [of r "[]"] by simp
next
  case (3 x y xs)
  then obtain r r' rs' where rs: "rs = r # r' # rs'" by (cases rs; cases "tl rs") auto
  have "parse_string_args (sep_by '', '' (map quoted (r' # rs'))) = r' # rs'" using 3 rs by (intro 3(1)) auto
  with 3 rs show ?case by (simp add: parse_string_args_quoted)
qed simp

lemma any_role_matches:
  assumes "rs \<noteq> []" "\<forall>r \<in> set rs. plain_name r"
  shows "passes (match_any_role (has_any_role ctx)) (step_any ctx) (Leaf (AnyRole rs))"
proof -
  let ?body = "sep_by '', '' (map quoted rs)"
  have closed: "CHR '')'' \<notin> set (sep_by '', '' (map quoted rs'))" if "\<forall>r \<in> set rs'. plain_name r" for rs'
    using that by (cases rs') (auto simp: sep_by_Cons quoted_def plain_name_def)
  have body: "takeWhile (\<lambda>x. x \<noteq> CHR '')'') (?body @ CHR '')'' # R) = ?body" for R
    using closed [OF assms(2)] by (subst takeWhile_append2) auto
  have ne: "?body \<noteq> []" using assms(1) by (cases rs) (simp_all add: sep_by_Cons quoted_def)
  have m: "match_any_role (has_any_role ctx) (''hasAnyRole('' @ ?body @ CHR '')'' # R) = Some (py_bool (has_any_role ctx rs), 11 + length ?body)" for R
    using ne by (simp add: match_any_role_def Let_def body parse_string_args_list [OF assms(2)])
  have "drop (11 + length ?body) (tl (''hasAnyRole('' @ ?body @ CHR '')'' # R)) = R" for R
    by (simp add: eval_nat_numeral)
  with m show ?thesis
    by (simp add: passes_def lexeme_text_def re_sub_match)
qed

lemma any_role_passes:
  assumes "\<forall>c. l = Leaf c \<longrightarrow> plain_check c"
  shows "passes (match_any_role (has_any_role ctx)) (step_any ctx) l"
proof (cases l)
  case (Leaf c)
  note name = copied_name [of "match_any_role (has_any_role ctx)", OF match_any_role_name]
  show ?thesis
  proof (cases c)
    case (AnyRole rs)
    with Leaf assms show ?thesis using any_role_matches by simp
  next
    case (Role r)
    have "copied (match_any_role (has_any_role ctx)) (''hasRole('' @ [quote] @ (r @ [quote]) @ '')'')"
      using assms Leaf Role
      by (intro copied_append name copied_Cons copied_Nil) (simp_all add: any_role_copies plain_name_def)
    then show ?thesis by (intro copied_passes) (simp_all add: Leaf Role lexeme_text_def quoted_def)
  next
    case (Permission r)
    have "copied (match_any_role (has_any_role ctx)) (''hasPermission('' @ [quote] @ (r @ [quote]) @ '')'')"
      using assms Leaf Permission
      by (intro copied_append name copied_Cons copied_Nil) (simp_all add: any_role_copies plain_name_def)
    then show ?thesis by (intro copied_passes) (simp_all add: Leaf Permission lexeme_text_def quoted_def)
  next
    case Authenticated
    have "copied (match_any_role (has_any_role ctx)) ''isAuthenticated''"
      by (intro copied_Cons copied_Nil) (simp_all add: any_role_copies)
    then show ?thesis by (intro copied_passes) (simp_all add: Leaf Authenticated lexeme_text_def)
  next
    case (Truth b)
    have "copied (match_any_role (has_any_role ctx)) (py_bool b)"
      by (cases b) (auto simp: py_bool_def any_role_copies intro!: copied_Cons copied_Nil)
    then show ?thesis by (intro copied_passes) (simp_all add: Leaf Truth lexeme_text_def)
  qed
next
  case (Key t)
  have "copied (match_any_role (has_any_role ctx)) (token_text t)"
    by (cases t) (auto simp: token_text_def any_role_copies intro!: copied_Cons copied_Nil)
  then show ?thesis by (intro copied_passes) (simp_all add: Key lexeme_text_def)
qed

text \<open>Second and third pass: \<^verbatim>\<open>hasRole\<close> and \<^verbatim>\<open>hasPermission\<close>.\<close>

fun step_role :: "security_context \<Rightarrow> check \<Rightarrow> check" where
  "step_role ctx (Role r) = Truth (has_role ctx r)"
| "step_role ctx c = c"

fun step_permission :: "security_context \<Rightarrow> check \<Rightarrow> check" where
  "step_permission ctx (Permission p) = Truth (has_permission ctx p)"
| "step_permission ctx c = c"

lemma role_copies:
  "c \<noteq> CHR ''h'' \<Longrightarrow> match_quoted ''hasRole'' f (c # s) = None"
  "x \<noteq> CHR ''R'' \<Longrightarrow> match_quoted ''hasRole'' f (CHR ''h'' # CHR ''a'' # CHR ''s'' # x # s) = None"
  "x \<noteq> CHR ''a'' \<Longrightarrow> match_quoted ''hasRole'' f (CHR ''h'' # x # s) = None"
  by (simp_all add: match_quoted_def Let_def)

lemma permission_copies:
  "c \<noteq> CHR ''h'' \<Longrightarrow> match_quoted ''hasPermission'' f (c # s) = None"
  "x \<noteq> CHR ''a'' \<Longrightarrow> match_quoted ''hasPermission'' f (CHR ''h'' # x # s) = None"
  by (simp_all add: match_quoted_def Let_def)

lemma quoted_matches:
  assumes "plain_name r" "name \<noteq> []"
  shows "match_quoted name f (name @ CHR ''('' # quoted r @ CHR '')'' # R) = Some (py_bool (f r), length name + 3 + length r)"
    and "drop (length name + 3 + length r) (tl (name @ CHR ''('' # quoted r @ CHR '')'' # R)) = R"
proof -
  have "takeWhile (\<lambda>x. x \<noteq> quote) (r @ quote # CHR '')'' # R) = r" using assms(1) by (auto simp: plain_name_def takeWhile_append)
  then show "match_quoted name f (name @ CHR ''('' # quoted r @ CHR '')'' # R) = Some (py_bool (f r), length name + 3 + length r)"
    using assms(1) by (simp add: match_quoted_def Let_def quoted_def plain_name_def numeral_2_eq_2)
  show "drop (length name + 3 + length r) (tl (name @ CHR ''('' # quoted r @ CHR '')'' # R)) = R"
    using assms(2) by (cases name) (simp_all add: quoted_def eval_nat_numeral)
qed

lemma role_passes:
  assumes "\<forall>c. l = Leaf c \<longrightarrow> plain_check c" "\<forall>rs. l \<noteq> Leaf (AnyRole rs)"
  shows "passes (match_quoted ''hasRole'' (has_role ctx)) (step_role ctx) l"
proof (cases l)
  case (Leaf c)
  note name = copied_name [of "match_quoted ''hasRole'' (has_role ctx)", OF match_quoted_name]
  show ?thesis
  proof (cases c)
    case (Role r)
    with Leaf assms quoted_matches(1) [of r "''hasRole''" "has_role ctx"] quoted_matches(2) [of r "''hasRole''"] show ?thesis
      by (simp add: passes_def lexeme_text_def re_sub_match)
  next
    case (Permission r)
    have "copied (match_quoted ''hasRole'' (has_role ctx)) (''hasPermission('' @ [quote] @ (r @ [quote]) @ '')'')"
      using assms Leaf Permission
      by (intro copied_append name copied_Cons copied_Nil) (simp_all add: role_copies plain_name_def)
    then show ?thesis by (intro copied_passes) (simp_all add: Leaf Permission lexeme_text_def quoted_def)
  next
    case Authenticated
    have "copied (match_quoted ''hasRole'' (has_role ctx)) ''isAuthenticated''"
      by (intro copied_Cons copied_Nil) (simp_all add: role_copies)
    then show ?thesis by (intro copied_passes) (simp_all add: Leaf Authenticated lexeme_text_def)
  next
    case (Truth b)
    have "copied (match_quoted ''hasRole'' (has_role ctx)) (py_bool b)"
      by (cases b) (auto simp: py_bool_def role_copies intro!: copied_Cons copied_Nil)
    then show ?thesis by (intro copied_passes) (simp_all add: Leaf Truth lexeme_text_def)
  qed (use assms Leaf in simp)
next
  case (Key t)
  have "copied (match_quoted ''hasRole'' (has_role ctx)) (token_text t)"
    by (cases t) (auto simp: token_text_def role_copies intro!: copied_Cons copied_Nil)
  then show ?thesis by (intro copied_passes) (simp_all add: Key lexeme_text_def)
qed

lemma permission_passes:
  assumes "\<forall>c. l = Leaf c \<longrightarrow> plain_check c" "\<forall>rs. l \<noteq> Leaf (AnyRole rs)" "\<forall>r. l \<noteq> Leaf (Role r)"
  shows "passes (match_quoted ''hasPermission'' (has_permission ctx)) (step_permission ctx) l"
proof (cases l)
  case (Leaf c)
  show ?thesis
  proof (cases c)
    case (Permission r)
    with Leaf assms quoted_matches(1) [of r "''hasPermission''" "has_permission ctx"] quoted_matches(2) [of r "''hasPermission''"] show ?thesis
      by (simp add: passes_def lexeme_text_def re_sub_match)
  next
    case Authenticated
    have "copied (match_quoted ''hasPermission'' (has_permission ctx)) ''isAuthenticated''"
      by (intro copied_Cons copied_Nil) (simp_all add: permission_copies)
    then show ?thesis by (intro copied_passes) (simp_all add: Leaf Authenticated lexeme_text_def)
  next
    case (Truth b)
    have "copied (match_quoted ''hasPermission'' (has_permission ctx)) (py_bool b)"
      by (cases b) (auto simp: py_bool_def permission_copies intro!: copied_Cons copied_Nil)
    then show ?thesis by (intro copied_passes) (simp_all add: Leaf Truth lexeme_text_def)
  qed (use assms Leaf in simp_all)
next
  case (Key t)
  have "copied (match_quoted ''hasPermission'' (has_permission ctx)) (token_text t)"
    by (cases t) (auto simp: token_text_def permission_copies intro!: copied_Cons copied_Nil)
  then show ?thesis by (intro copied_passes) (simp_all add: Key lexeme_text_def)
qed

text \<open>Last pass: \<^verbatim>\<open>isAuthenticated\<close>.\<close>

fun step_auth :: "security_context \<Rightarrow> check \<Rightarrow> check" where
  "step_auth ctx Authenticated = Truth (is_authenticated ctx)"
| "step_auth ctx c = c"

lemma auth_copies: "c \<noteq> CHR ''i'' \<Longrightarrow> match_text ''isAuthenticated'' new (c # s) = None"
  by (simp add: match_text_def)

lemma auth_passes:
  assumes "l = Leaf Authenticated \<or> (\<exists>b. l = Leaf (Truth b)) \<or> (\<exists>t. l = Key t)"
  shows "passes (match_text ''isAuthenticated'' (py_bool (is_authenticated ctx))) (step_auth ctx) l"
proof -
  let ?m = "match_text ''isAuthenticated'' (py_bool (is_authenticated ctx))"
  from assms consider "l = Leaf Authenticated" | b where "l = Leaf (Truth b)" | t where "l = Key t" by blast
  then show ?thesis
  proof cases
    case 1
    have "?m (''isAuthenticated'' @ R) = Some (py_bool (is_authenticated ctx), 14)" for R by (simp add: match_text_def)
    with 1 show ?thesis by (simp add: passes_def lexeme_text_def re_sub_match eval_nat_numeral)
  next
    case (2 b)
    have "copied ?m (py_bool b)" by (cases b) (auto simp: py_bool_def auth_copies intro!: copied_Cons copied_Nil)
    then show ?thesis by (intro copied_passes) (simp_all add: 2 lexeme_text_def)
  next
    case (3 t)
    have "copied ?m (token_text t)" by (cases t) (auto simp: token_text_def auth_copies intro!: copied_Cons copied_Nil)
    then show ?thesis by (intro copied_passes) (simp_all add: 3 lexeme_text_def)
  qed
qed

text \<open>All four passes together replace every check by its value.\<close>

lemma steps_value: "step_auth ctx (step_permission ctx (step_role ctx (step_any ctx c))) = Truth (check_value ctx c)"
  by (cases c) simp_all

lemma substitute_checks_text:
  assumes "plain_lexemes xs"
  shows "substitute_checks ctx (text_of xs) = text_of (map_leaves (\<lambda>c. Truth (check_value ctx c)) xs)"
proof -
  let ?x1 = "map_leaves (step_any ctx) xs"
  let ?x2 = "map_leaves (step_role ctx) ?x1"
  let ?x3 = "map_leaves (step_permission ctx) ?x2"
  have lex: "P (map_lexeme f l)" if "\<And>c. l = Leaf c \<Longrightarrow> P (Leaf (f c))" "\<And>t. P (Key t)" for P :: "check lexeme \<Rightarrow> bool" and f :: "check \<Rightarrow> check" and l
    using that by (cases l) simp_all
  have 1: "re_sub (match_any_role (has_any_role ctx)) (text_of xs) = text_of ?x1"
    using assms by (intro passes_text) (auto intro: any_role_passes simp: any_role_copies)
  have plain1: "plain_check (step_any ctx c)" "step_any ctx c \<noteq> AnyRole rs" if "plain_check c" for c rs
    using that by (cases c; simp)+
  have 2: "re_sub (match_quoted ''hasRole'' (has_role ctx)) (text_of ?x1) = text_of ?x2"
  proof (intro passes_text, clarify)
    fix l k assume "(l, k) \<in> set ?x1"
    then obtain l0 where l0: "(l0, k) \<in> set xs" "l = map_lexeme (step_any ctx) l0" by auto
    have p: "\<forall>c. l0 = Leaf c \<longrightarrow> plain_check c" using assms l0(1) by auto
    show "passes (match_quoted ''hasRole'' (has_role ctx)) (step_role ctx) l"
      unfolding l0(2) using p plain1 by (intro role_passes; cases l0) auto
  qed (simp add: role_copies)
  have plain2: "plain_check (step_role ctx (step_any ctx c))" "step_role ctx (step_any ctx c) \<noteq> AnyRole rs"
    "step_role ctx (step_any ctx c) \<noteq> Role r" if "plain_check c" for c rs r
    using that by (cases c; simp)+
  have 3: "re_sub (match_quoted ''hasPermission'' (has_permission ctx)) (text_of ?x2) = text_of ?x3"
  proof (intro passes_text, clarify)
    fix l k assume "(l, k) \<in> set ?x2"
    then obtain l0 where l0: "(l0, k) \<in> set xs" "l = map_lexeme (step_role ctx) (map_lexeme (step_any ctx) l0)" by auto
    have p: "\<forall>c. l0 = Leaf c \<longrightarrow> plain_check c" using assms l0(1) by auto
    show "passes (match_quoted ''hasPermission'' (has_permission ctx)) (step_permission ctx) l"
      unfolding l0(2) using p plain2 by (intro permission_passes; cases l0) auto
  qed (simp add: permission_copies)
  have last: "step_permission ctx (step_role ctx (step_any ctx c)) = Authenticated \<or> (\<exists>b. step_permission ctx (step_role ctx (step_any ctx c)) = Truth b)" for c
    by (cases c) simp_all
  have 4: "re_sub (match_text ''isAuthenticated'' (py_bool (is_authenticated ctx))) (text_of ?x3) = text_of (map_leaves (step_auth ctx) ?x3)"
  proof (intro passes_text, clarify)
    fix l k assume "(l, k) \<in> set ?x3"
    then obtain l0 where l0: "l = map_lexeme (step_permission ctx) (map_lexeme (step_role ctx) (map_lexeme (step_any ctx) l0))" by auto
    show "passes (match_text ''isAuthenticated'' (py_bool (is_authenticated ctx))) (step_auth ctx) l"
      unfolding l0 using last by (intro auth_passes) (cases l0; auto)
  qed (simp add: auth_copies)
  have "map_leaves (step_auth ctx) ?x3 = map_leaves (\<lambda>c. Truth (check_value ctx c)) xs"
    by (auto simp: steps_value lexeme.map_comp comp_def apfst_def)
  then show ?thesis by (simp only: substitute_checks_def Let_def 1 2 3 4)
qed

section \<open>The words of the rewritten text\<close>

definition is_paren :: "'a lexeme \<Rightarrow> bool" where
  "is_paren l = (case l of Key t \<Rightarrow> t = TOpen \<or> t = TClose | Leaf c \<Rightarrow> False)"

text \<open>Words that follow one another are separated by a blank.\<close>

fun spaced :: "('a lexeme \<times> nat) list \<Rightarrow> bool" where
  "spaced ((l, k) # (l', k') # xs) = ((0 < k \<or> is_paren l \<or> is_paren l') \<and> spaced ((l', k') # xs))"
| "spaced _ = True"

definition value_token :: "check lexeme \<Rightarrow> token" where
  "value_token l = (case l of Leaf (Truth b) \<Rightarrow> if b then TTrue else TFalse | Leaf c \<Rightarrow> TFalse | Key t \<Rightarrow> t)"

abbreviation valued :: "(check lexeme \<times> nat) list \<Rightarrow> bool" where
  "valued xs \<equiv> \<forall>(l, k) \<in> set xs. \<forall>c. l = Leaf c \<longrightarrow> (\<exists>b. c = Truth b)"

lemma space_parens_append: "space_parens (a @ b) = space_parens a @ space_parens b"
  by (simp add: space_parens_def)

lemma space_parens_blanks: "space_parens (replicate k CHR '' '') = replicate k CHR '' ''"
  by (induction k) (simp_all add: space_parens_def)

lemma split_words_blanks: "split_words [] (replicate k CHR '' '' @ s) = split_words [] s"
  by (induction k) (simp_all add: is_space_def)

lemma split_words_word: "\<forall>c \<in> set w. \<not> is_space c \<Longrightarrow> split_words acc (w @ s) = split_words (acc @ w) s"
  by (induction w arbitrary: acc) simp_all

lemma word_chars:
  assumes "\<not> is_paren l" "\<forall>c. l = Leaf c \<longrightarrow> (\<exists>b. c = Truth b)"
  shows "lexeme_text l \<noteq> []" "\<forall>c \<in> set (lexeme_text l). \<not> is_space c" "space_parens (lexeme_text l) = lexeme_text l"
    and "lexeme_text l = token_text (value_token l)"
proof -
  consider t where "l = Key t" "t \<noteq> TOpen" "t \<noteq> TClose" | b where "l = Leaf (Truth b)"
    using assms by (cases l) (auto simp: is_paren_def)
  then show "lexeme_text l \<noteq> []" "\<forall>c \<in> set (lexeme_text l). \<not> is_space c" "space_parens (lexeme_text l) = lexeme_text l"
    "lexeme_text l = token_text (value_token l)"
    by (cases; auto simp: lexeme_text_def token_text_def py_bool_def space_parens_def value_token_def is_space_def split: token.splits if_splits)+
qed

lemma paren_words:
  assumes "is_paren l"
  shows "split_words [] (space_parens (lexeme_text l) @ s) = token_text (value_token l) # split_words [] s"
    and "\<exists>s'. space_parens (lexeme_text l) = CHR '' '' # s'"
  using assms by (auto simp: is_paren_def lexeme_text_def token_text_def space_parens_def value_token_def is_space_def split: lexeme.splits)

lemma words_of_text:
  "\<lbrakk>spaced xs; valued xs\<rbrakk> \<Longrightarrow> split_words [] (space_parens (text_of xs)) = map (\<lambda>(l, k). token_text (value_token l)) xs"
proof (induction xs rule: spaced.induct [case_names more none one])
  case (more l k l' k' xs)
  let ?rest = "space_parens (text_of ((l', k') # xs))"
  have IH: "split_words [] ?rest = map (\<lambda>(l, k). token_text (value_token l)) ((l', k') # xs)" using more by simp
  have split: "space_parens (text_of ((l, k) # (l', k') # xs)) = space_parens (lexeme_text l) @ replicate k CHR '' '' @ ?rest"
    by (simp add: text_of_def space_parens_append space_parens_blanks)
  show ?case
  proof (cases "is_paren l")
    case True
    then show ?thesis unfolding split by (simp add: paren_words split_words_blanks IH del: split_words.simps)
  next
    case False
    note w = word_chars [OF False] 
    have v: "\<forall>c. l = Leaf c \<longrightarrow> (\<exists>b. c = Truth b)" using more(3) by auto
    have blank: "split_words (lexeme_text l) (CHR '' '' # s) = lexeme_text l # split_words [] s" for s
      using w(1) [OF v] by (simp add: is_space_def)
    have "split_words [] (lexeme_text l @ replicate k CHR '' '' @ ?rest) = lexeme_text l # split_words [] ?rest"
    proof (cases k)
      case 0
      with more(2) False have "is_paren l'" by simp
      then obtain s' where "space_parens (lexeme_text l') = CHR '' '' # s'" using paren_words(2) by blast
      then have "\<exists>s. ?rest = CHR '' '' # s" by (simp add: text_of_def space_parens_append)
      then obtain s where "?rest = CHR '' '' # s" by blast
      then show ?thesis using 0 blank split_words_blanks [of 1 s] w(2) [OF v] by (simp add: split_words_word del: split_words.simps)
    next
      case (Suc n)
      then show ?thesis using blank w(2) [OF v] by (simp add: split_words_word split_words_blanks del: split_words.simps)
    qed
    then show ?thesis unfolding split w(3) [OF v] IH by (simp add: w(4) [OF v])
  qed
next
  case (one x)
  obtain l k where x: "x = (l, k)" by (cases x)
  have split: "space_parens (text_of [x]) = space_parens (lexeme_text l) @ replicate k CHR '' '' @ []"
    by (simp add: text_of_def space_parens_append space_parens_blanks x)
  show ?case
  proof (cases "is_paren l")
    case True
    then show ?thesis unfolding split using split_words_blanks [of k "[]"] by (simp add: paren_words x del: split_words.simps(2))
  next
    case False
    have v: "\<forall>c. l = Leaf c \<longrightarrow> (\<exists>b. c = Truth b)" using one(2) x by auto
    note w = word_chars [OF False v]
    have "split_words (lexeme_text l) (replicate k CHR '' '' @ []) = [lexeme_text l]"
      using w(1) split_words_blanks [of "k - 1" "[]"] by (cases k) (simp_all add: is_space_def)
    then show ?thesis unfolding split w(3) using w(2) by (simp add: split_words_word x w(4) [symmetric] del: split_words.simps)
  qed
qed (simp add: text_of_def space_parens_def)

lemma token_of_text [simp]: "token_of (token_text t) = Some t"
  by (cases t) (simp_all add: token_of_def token_text_def)

lemma safe_tokens_text:
  assumes "spaced xs" "valued xs"
  shows "safe_tokens (space_parens (text_of xs)) = Some (map (value_token \<circ> fst) xs)"
proof -
  have "map (the \<circ> token_of) (map (\<lambda>(l, k). token_text (value_token l)) xs) = map (value_token \<circ> fst) xs" by auto
  then show ?thesis by (auto simp: safe_tokens_def Let_def words_of_text [OF assms])
qed

lemma layout_ok_blanks: "\<forall>c \<in> set s. is_space c \<longrightarrow> c = CHR '' '' \<Longrightarrow> layout_ok d s"
  by (induction s arbitrary: d) (auto simp: is_space_def)

lemma set_strip: "set (strip s) \<subseteq> set s"
  unfolding strip_def by (metis set_dropWhileD set_rev subsetI)

lemma text_blanks:
  assumes "valued xs" "c \<in> set (space_parens (text_of xs))" "is_space c"
  shows "c = CHR '' ''"
proof -
  have p: "set (space_parens s) \<subseteq> insert CHR '' '' (set s)" for s by (auto simp: space_parens_def split: if_splits)
  have "\<not> is_space c'" if "(l, k) \<in> set xs" "c' \<in> set (lexeme_text l)" for l k c'
  proof (cases "is_paren l")
    case True
    then show ?thesis using that by (auto simp: is_paren_def lexeme_text_def token_text_def is_space_def split: lexeme.splits)
  next
    case False
    then show ?thesis using word_chars(2) [of l] that assms(1) by blast
  qed
  then have "c' = CHR '' '' \<or> \<not> is_space c'" if "c' \<in> set (text_of xs)" for c'
    using that by (fastforce simp: text_of_def split: if_splits)
  with p [of "text_of xs"] assms(2,3) show ?thesis by blast
qed

section \<open>Security expressions mean what they say\<close>

lemma written_leaves: "Leaf c \<in> set (written l e) \<Longrightarrow> c \<in> set_sexpr e"
proof (induction e arbitrary: l)
  case (SAnd es)
  then show ?case by (cases es) (fastforce simp: parens_def sep_by_Cons split: if_splits)+
next
  case (SOr es)
  then show ?case by (cases es) (fastforce simp: parens_def sep_by_Cons split: if_splits)+
qed simp_all

lemma written_map: "written l (map_sexpr f e) = map (map_lexeme f) (written l e)"
proof (induction e arbitrary: l)
  case (SAnd es)
  have "map (written 2 \<circ> map_sexpr f) es = map (map (map_lexeme f) \<circ> written 2) es" using SAnd by simp
  then show ?case by (simp add: parens_def map_sep_by del: map_eq_conv)
next
  case (SOr es)
  have "map (written 1 \<circ> map_sexpr f) es = map (map (map_lexeme f) \<circ> written 1) es" using SOr by simp
  then show ?case by (simp add: parens_def map_sep_by del: map_eq_conv)
qed simp_all

lemma proper_map: "proper (map_sexpr f e) = proper e"
  by (induction e) auto

lemma meaning_map: "meaning v (map_sexpr f e) = meaning (v \<circ> f) e"
  by (induction e) auto

lemma spaced_map: "spaced (map (apfst (map_lexeme f)) xs) = spaced xs"
proof -
  have "is_paren (map_lexeme f l) = is_paren l" for l by (cases l) (simp_all add: is_paren_def)
  then show ?thesis by (induction xs rule: spaced.induct) auto
qed


definition alice :: security_context where
  "alice = \<lparr>sc_user_id = Some ''alice'', sc_roles = [''ADMIN''], sc_permissions = [''read''], sc_attributes = []\<rparr>"

definition admin_writes :: "check sexpr" where
  "admin_writes = SAnd [Check (Role ''ADMIN''), SOr [Check (Permission ''write''), SNot (Check Authenticated)]]"


end
