(* ===== verification/Config.thy ===== *)
theory Config
  imports SagaState SecurityExpr
begin

text \<open>
  \<^verbatim>\<open>core/config.py\<close>, \<^verbatim>\<open>core/value.py\<close>, \<^verbatim>\<open>context/environment.py\<close> and the choice of profiles in
  \<^verbatim>\<open>core/application.py\<close>: files merged in order, keys read with dots, environment variables, placeholders,
  binding to classes, and profiles. Documents are dictionaries with string keys.
\<close>

section \<open>What surrounds the program\<close>

text \<open>
  Environment variables; \<^verbatim>\<open>str\<close> of lists, dictionaries, floats and objects; \<^verbatim>\<open>float\<close> of a string. The files are
  a function from paths to what the YAML and TOML libraries make of them.
\<close>

record surroundings =
  su_environ :: "(string, string) dict"
  su_str :: "pyval \<Rightarrow> string"
  su_float :: "string \<Rightarrow> exn + pyval"

type_synonym files = "string \<Rightarrow> (exn + pyval) option"

fun digits :: "nat \<Rightarrow> string" where
  "digits n = (if n < 10 then [char_of (48 + n)] else digits (n div 10) @ [char_of (48 + n mod 10)])"

declare digits.simps [simp del]

definition str_of :: "surroundings \<Rightarrow> pyval \<Rightarrow> string" where
  "str_of su v =
     (case v of
        VStr s \<Rightarrow> s
      | VNone \<Rightarrow> ''None''
      | VBool b \<Rightarrow> py_bool b
      | VInt n \<Rightarrow> (if n < 0 then CHR ''-'' # digits (nat (- n)) else digits (nat n))
      | _ \<Rightarrow> su_str su v)"

text \<open>
  \<^verbatim>\<open>upper\<close> and \<^verbatim>\<open>lower\<close> on the characters of Latin-1; the two whose upper case is not in Latin-1 stay.
\<close>

definition upper :: "string \<Rightarrow> string" where
  "upper s = concat (map (\<lambda>c. let n = (of_char c :: nat)
                               in if 97 \<le> n \<and> n \<le> 122 \<or> 224 \<le> n \<and> n \<le> 254 \<and> n \<noteq> 247 then [char_of (n - 32)]
                                  else if n = 223 then ''SS'' else [c]) s)"

definition lower :: "string \<Rightarrow> string" where
  "lower s = map (\<lambda>c. let n = (of_char c :: nat)
                       in if 65 \<le> n \<and> n \<le> 90 \<or> 192 \<le> n \<and> n \<le> 222 \<and> n \<noteq> 215 then char_of (n + 32) else c) s"

fun split_on :: "char \<Rightarrow> string \<Rightarrow> string list" where
  "split_on d [] = [[]]"
| "split_on d (c # cs) =
     (if c = d then [] # split_on d cs
      else (case split_on d cs of [] \<Rightarrow> [[c]] | w # ws \<Rightarrow> (c # w) # ws))"

definition stripped_parts :: "string \<Rightarrow> string list" where
  "stripped_parts s = filter (\<lambda>p. p \<noteq> []) (map strip (split_on (CHR '','') s))"

section \<open>Merging and reading\<close>

record config =
  cf_data :: "(string, pyval) dict"
  cf_sources :: "string list"

function deep_merge :: "(string, pyval) dict \<Rightarrow> (string, pyval) dict \<Rightarrow> (string, pyval) dict" where
  "deep_merge merged [] = merged"
| "deep_merge merged ((key, value) # override) =
     deep_merge
       (dput key
          (case value of
             VDict o2 \<Rightarrow> (case dget merged key of Some (VDict o1) \<Rightarrow> VDict (deep_merge o1 o2) | _ \<Rightarrow> value)
           | _ \<Rightarrow> value) merged) override"
  by pat_completeness auto

termination deep_merge
  by (relation "measure (\<lambda>(b, ov). size (VDict ov))") auto

fun walk :: "pyval \<Rightarrow> string list \<Rightarrow> pyval option" where
  "walk current [] = Some current"
| "walk current (part # parts) =
     (case current of
        VDict d \<Rightarrow> (case dget d part of None \<Rightarrow> None | Some v \<Rightarrow> if v = VNone then None else walk v parts)
      | _ \<Rightarrow> None)"

definition env_key :: "string \<Rightarrow> string" where
  "env_key key =
     (let env_base = (if take 6 key = ''pyfly.'' then drop 6 key else key)
      in ''PYFLY_'' @ map (\<lambda>c. if c = CHR ''.'' \<or> c = CHR ''-'' then CHR ''_'' else c) (upper env_base))"

section \<open>Placeholders\<close>

fun has_placeholder :: "string \<Rightarrow> bool" where
  "has_placeholder [] = False"
| "has_placeholder (c # cs) = (c = CHR ''$'' \<and> take 1 cs = ''{'' \<or> has_placeholder cs)"

text \<open>A match of \<^verbatim>\<open>\${([^}]+)}\<close> at the start: what is inside, and what follows.\<close>

definition match_placeholder :: "string \<Rightarrow> (string \<times> string) option" where
  "match_placeholder s =
     (let inner = takeWhile (\<lambda>c. c \<noteq> CHR ''}'') (drop 2 s)
      in if take 2 s = ''${'' \<and> inner \<noteq> [] \<and> drop (2 + length inner) s \<noteq> []
         then Some (inner, drop (3 + length inner) s) else None)"

lemma match_placeholder_length: "match_placeholder s = Some (inner, rest) \<Longrightarrow> length rest < length s"
  by (auto simp: match_placeholder_def Let_def split: if_splits)

text \<open>\<^verbatim>\<open>re.sub\<close> with a replacement that may raise.\<close>

function sub_placeholders :: "(string \<Rightarrow> exn + string) \<Rightarrow> string \<Rightarrow> exn + string" where
  "sub_placeholders f [] = Inr []"
| "sub_placeholders f (c # cs) =
     (case match_placeholder (c # cs) of
        None \<Rightarrow> res_bind (sub_placeholders f cs) (\<lambda>t. Inr (c # t))
      | Some (inner, rest) \<Rightarrow> res_bind (f inner) (\<lambda>t. res_bind (sub_placeholders f rest) (\<lambda>u. Inr (t @ u))))"
  by pat_completeness auto

termination sub_placeholders
  by (relation "measure (length \<circ> snd)") (auto dest: match_placeholder_length)

definition ref_key :: "string \<Rightarrow> string" where
  "ref_key inner = takeWhile (\<lambda>c. c \<noteq> CHR '':'') inner"

definition ref_default :: "string \<Rightarrow> string option" where
  "ref_default inner = (if CHR '':'' \<in> set inner then Some (drop (Suc (length (ref_key inner))) inner) else None)"

text \<open>What a placeholder stands for: a final text, a text of the configuration, or nothing.\<close>

datatype referent = Final string | Text string | Unknown

definition referent :: "surroundings \<Rightarrow> (string, pyval) dict \<Rightarrow> string \<Rightarrow> referent" where
  "referent su data inner =
     (case dget (su_environ su) (ref_key inner) of
        Some v \<Rightarrow> Final v
      | None \<Rightarrow>
          (case walk (VDict data) (split_on (CHR ''.'') (ref_key inner)) of
             Some v \<Rightarrow> (let resolved = str_of su v in if has_placeholder resolved then Text resolved else Final resolved)
           | None \<Rightarrow> (case ref_default inner of Some d \<Rightarrow> Final d | None \<Rightarrow> Unknown)))"

definition too_deep :: "string \<Rightarrow> exn" where
  "too_deep value = Exn ValueErrorC ''Max recursion depth exceeded resolving placeholders in {}. Check for circular references.'' [VStr value]"

definition unresolved :: "string \<Rightarrow> exn" where
  "unresolved inner = Exn ValueErrorC ''Cannot resolve placeholder {}: not found in environment or config'' [VStr inner]"

definition replacement :: "surroundings \<Rightarrow> (string, pyval) dict \<Rightarrow> (string \<Rightarrow> exn + string) \<Rightarrow> string \<Rightarrow> exn + string" where
  "replacement su data resolve inner =
     (case referent su data inner of Final t \<Rightarrow> Inr t | Text t \<Rightarrow> resolve t | Unknown \<Rightarrow> Inl (unresolved inner))"

function resolve_placeholders :: "surroundings \<Rightarrow> (string, pyval) dict \<Rightarrow> nat \<Rightarrow> string \<Rightarrow> exn + string" where
  "resolve_placeholders su data depth value =
     (if 10 < depth then Inl (too_deep value)
      else sub_placeholders (replacement su data (\<lambda>t. resolve_placeholders su data (depth + 1) t)) value)"
  by pat_completeness auto

termination resolve_placeholders
  by (relation "measure (\<lambda>(su, data, depth, value). 11 - depth)") auto

declare resolve_placeholders.simps [simp del]

definition config_get :: "surroundings \<Rightarrow> config \<Rightarrow> string \<Rightarrow> pyval \<Rightarrow> exn + pyval" where
  "config_get su cfg key dflt =
     (case dget (su_environ su) (env_key key) of
        Some v \<Rightarrow> Inr (VStr v)
      | None \<Rightarrow>
          (case walk (VDict (cf_data cfg)) (split_on (CHR ''.'') key) of
             None \<Rightarrow> Inr dflt
           | Some (VStr s) \<Rightarrow>
               (if has_placeholder s then res_bind (resolve_placeholders su (cf_data cfg) 0 s) (\<lambda>t. Inr (VStr t))
                else Inr (VStr s))
           | Some v \<Rightarrow> Inr v))"
section \<open>Sources\<close>

definition attribute_error :: "string \<Rightarrow> exn" where
  "attribute_error name = Exn AttributeErrorC ''object has no attribute {}'' [VStr name]"

text \<open>\<^verbatim>\<open>_load_config_data\<close>: an empty document counts as an empty dictionary.\<close>

definition load_config_data :: "exn + pyval \<Rightarrow> exn + pyval" where
  "load_config_data parsed = res_bind parsed (\<lambda>v. Inr (if truthy v then v else VDict []))"

definition merge_document :: "(string, pyval) dict \<Rightarrow> pyval \<Rightarrow> exn + (string, pyval) dict" where
  "merge_document data v = (case v of VDict d \<Rightarrow> Inr (deep_merge data d) | _ \<Rightarrow> Inl (attribute_error ''items''))"

text \<open>One candidate, a path and the name under which it is recorded: merged when the file is there.\<close>

definition merge_candidate :: "files \<Rightarrow> string \<times> string \<Rightarrow> config \<Rightarrow> exn + config" where
  "merge_candidate fs candidate cfg =
     (case fs (fst candidate) of
        None \<Rightarrow> Inr cfg
      | Some parsed \<Rightarrow>
          res_bind (load_config_data parsed) (\<lambda>v. res_bind (merge_document (cf_data cfg) v)
            (\<lambda>data. Inr \<lparr>cf_data = data, cf_sources = cf_sources cfg @ [snd candidate]\<rparr>)))"

fun merge_candidates :: "files \<Rightarrow> (string \<times> string) list \<Rightarrow> config \<Rightarrow> exn + config" where
  "merge_candidates fs [] cfg = Inr cfg"
| "merge_candidates fs (c # cs) cfg = res_bind (merge_candidate fs c cfg) (merge_candidates fs cs)"

definition framework_config :: "(string, pyval) dict \<Rightarrow> bool \<Rightarrow> config" where
  "framework_config defaults load_defaults =
     (if load_defaults then \<lparr>cf_data = defaults, cf_sources = [''pyfly-defaults.yaml (framework defaults)'']\<rparr>
      else \<lparr>cf_data = [], cf_sources = []\<rparr>)"

definition path_in :: "string \<Rightarrow> string \<Rightarrow> string" where
  "path_in dir name = dir @ ''/'' @ name"

definition plain_candidates :: "string \<Rightarrow> (string \<times> string) list" where
  "plain_candidates base =
     concat (map (\<lambda>dir. map (\<lambda>ext. let p = path_in dir (''pyfly'' @ ext) in (p, p)) [''.yaml'', ''.toml'']) [path_in base ''config'', base])"

definition profile_label :: "string \<Rightarrow> string \<Rightarrow> string" where
  "profile_label path profile = path @ '' (profile: '' @ profile @ '')''"

definition profile_candidates :: "string \<Rightarrow> string list \<Rightarrow> (string \<times> string) list" where
  "profile_candidates base profiles =
     concat (map (\<lambda>profile.
       concat (map (\<lambda>dir.
         map (\<lambda>ext. let p = path_in dir (''pyfly-'' @ profile @ ext) in (p, profile_label p profile)) [''.yaml'', ''.toml''])
         [path_in base ''config'', base])) profiles)"

definition from_sources :: "files \<Rightarrow> (string, pyval) dict \<Rightarrow> string \<Rightarrow> string list \<Rightarrow> bool \<Rightarrow> exn + config" where
  "from_sources fs defaults base profiles load_defaults =
     merge_candidates fs (plain_candidates base @ profile_candidates base profiles) (framework_config defaults load_defaults)"

text \<open>A path by its directory, stem and suffix.\<close>

definition from_file :: "files \<Rightarrow> (string, pyval) dict \<Rightarrow> string \<times> string \<times> string \<Rightarrow> string list \<Rightarrow> bool \<Rightarrow> exn + config" where
  "from_file fs defaults path profiles load_defaults =
     (case path of (dir, stem, suffix) \<Rightarrow>
        if stem = ''pyfly'' \<or> take 6 stem = ''pyfly-'' then from_sources fs defaults dir profiles load_defaults
        else
          (let p = path_in dir (stem @ suffix)
           in merge_candidates fs
                ((p, p) # (if fs p = None then []
                           else map (\<lambda>profile. let q = path_in dir (stem @ ''-'' @ profile @ suffix) in (q, profile_label q profile)) profiles))
                (framework_config defaults load_defaults)))"

section \<open>Sections and binding\<close>

fun section_at :: "pyval \<Rightarrow> string list \<Rightarrow> (string, pyval) dict" where
  "section_at current [] = (case current of VDict d \<Rightarrow> d | _ \<Rightarrow> [])"
| "section_at current (part # parts) =
     (case current of VDict d \<Rightarrow> section_at (dget_default d part (VDict [])) parts | _ \<Rightarrow> [])"

definition get_section :: "config \<Rightarrow> string \<Rightarrow> (string, pyval) dict" where
  "get_section cfg prefix = section_at (VDict (cf_data cfg)) (split_on (CHR ''.'') prefix)"

text \<open>
  A class to bind to: a dataclass by its fields, with what their hints say and their defaults, or a Pydantic model by its
  validation. The prefix is there when the class is decorated.
\<close>

datatype field_hint = IntHint | FloatHint | BoolHint | OtherHint

datatype config_class =
    Dataclass (cc_name: string) (cc_prefix: "string option") (dc_fields: "(string \<times> field_hint \<times> pyval option) list")
  | Pydantic (cc_name: string) (cc_prefix: "string option") (pd_validate: "(string, pyval) dict \<Rightarrow> string + (string, pyval) dict")

definition config_properties :: "string \<Rightarrow> config_class \<Rightarrow> config_class" where
  "config_properties prefix cls =
     (case cls of Dataclass n _ fs \<Rightarrow> Dataclass n (Some prefix) fs | Pydantic n _ v \<Rightarrow> Pydantic n (Some prefix) v)"

text \<open>\<^verbatim>\<open>int\<close> of a string: blanks around, a sign, and digits, between which single underscores may stand.\<close>

fun int_digits :: "bool \<Rightarrow> nat \<Rightarrow> string \<Rightarrow> nat option" where
  "int_digits after n [] = (if after then Some n else None)"
| "int_digits after n (c # cs) =
     (let k = (of_char c :: nat)
      in if 48 \<le> k \<and> k \<le> 57 then int_digits True (10 * n + (k - 48)) cs
         else if c = CHR ''_'' \<and> after then int_digits False n cs else None)"

definition int_of :: "string \<Rightarrow> exn + int" where
  "int_of s =
     (let t = strip s; sign = (take 1 t = ''-'' \<or> take 1 t = ''+'')
      in case int_digits False 0 (if sign then drop 1 t else t) of
           Some n \<Rightarrow> Inr (if take 1 t = ''-'' then - int n else int n)
         | None \<Rightarrow> Inl (Exn ValueErrorC ''invalid literal for int() with base 10: {}'' [VStr s]))"

definition is_truth_word :: "string \<Rightarrow> bool" where
  "is_truth_word s = (lower s \<in> {''true'', ''1'', ''yes''})"

definition coerce :: "surroundings \<Rightarrow> field_hint \<Rightarrow> pyval \<Rightarrow> exn + pyval" where
  "coerce su hint v =
     (case v of
        VStr s \<Rightarrow>
          (case hint of
             IntHint \<Rightarrow> res_bind (int_of s) (\<lambda>n. Inr (VInt n))
           | FloatHint \<Rightarrow> su_float su s
           | BoolHint \<Rightarrow> Inr (VBool (is_truth_word s))
           | OtherHint \<Rightarrow> Inr v)
      | _ \<Rightarrow> Inr v)"

fun bound_kwargs :: "surroundings \<Rightarrow> (string, pyval) dict \<Rightarrow> (string \<times> field_hint \<times> pyval option) list \<Rightarrow> exn + (string, pyval) dict" where
  "bound_kwargs su sect [] = Inr []"
| "bound_kwargs su sect ((name, hint, d) # fs) =
     (case dget sect name of
        None \<Rightarrow> bound_kwargs su sect fs
      | Some v \<Rightarrow> res_bind (coerce su hint v) (\<lambda>x. res_bind (bound_kwargs su sect fs) (\<lambda>kw. Inr ((name, x) # kw))))"

text \<open>The constructor a dataclass gets: arguments first, then defaults; a field without either is an error.\<close>

fun dataclass_init :: "string \<Rightarrow> (string, pyval) dict \<Rightarrow> (string \<times> field_hint \<times> pyval option) list \<Rightarrow> exn + (string, pyval) dict" where
  "dataclass_init cls kwargs [] = Inr []"
| "dataclass_init cls kwargs ((name, hint, dflt) # fs) =
     (case (dget kwargs name, dflt) of
        (Some v, _) \<Rightarrow> res_bind (dataclass_init cls kwargs fs) (\<lambda>attrs. Inr ((name, v) # attrs))
      | (None, Some v) \<Rightarrow> res_bind (dataclass_init cls kwargs fs) (\<lambda>attrs. Inr ((name, v) # attrs))
      | (None, None) \<Rightarrow> Inl (Exn TypeErrorC ''{}.__init__() missing required argument: {}'' [VStr cls, VStr name]))"

definition bind_config :: "surroundings \<Rightarrow> config \<Rightarrow> config_class \<Rightarrow> exn + (string, pyval) dict" where
  "bind_config su cfg cls =
     (case cc_prefix cls of
        None \<Rightarrow> Inl (Exn ValueErrorC ''{} is not decorated with @config_properties'' [VStr (cc_name cls)])
      | Some prefix \<Rightarrow>
          (let sect = get_section cfg prefix
           in case cls of
                Pydantic n _ validate \<Rightarrow>
                  (case validate sect of
                     Inl report \<Rightarrow> Inl (Exn ValueErrorC ''Configuration validation failed for {} (prefix={}): {}'' [VStr n, VStr prefix, VStr report])
                   | Inr obj \<Rightarrow> Inr obj)
              | Dataclass n _ fs \<Rightarrow> res_bind (bound_kwargs su sect fs) (\<lambda>kw. dataclass_init n kw fs)))"

section \<open>Values injected into fields\<close>

text \<open>\<^verbatim>\<open>Value.resolve\<close>; the end of the pattern also matches before a line break at the end.\<close>

definition value_inner :: "string \<Rightarrow> string option" where
  "value_inner expr =
     (case match_placeholder expr of
        Some (inner, rest) \<Rightarrow> (if rest = [] \<or> rest = [CHR 0x0A] then Some inner else None)
      | None \<Rightarrow> None)"

definition resolve_value :: "surroundings \<Rightarrow> config \<Rightarrow> string \<Rightarrow> exn + pyval" where
  "resolve_value su cfg expr =
     (case value_inner expr of
        None \<Rightarrow> Inr (VStr expr)
      | Some inner \<Rightarrow>
          res_bind (config_get su cfg (ref_key inner) VNone) (\<lambda>v.
            if v \<noteq> VNone then Inr v
            else (case ref_default inner of
                    Some d \<Rightarrow> Inr (VStr d)
                  | None \<Rightarrow> Inl (Exn KeyErrorC ''Configuration key {} not found and no default provided in @Value expression {}'' [VStr inner, VStr expr]))))"

section \<open>Profiles\<close>

record environment =
  en_config :: config
  en_profiles :: "string list"

definition load_profiles :: "surroundings \<Rightarrow> config \<Rightarrow> exn + string list" where
  "load_profiles su cfg =
     (let env_profiles = dget_default (su_environ su) ''PYFLY_PROFILES_ACTIVE'' []
      in if env_profiles \<noteq> [] then Inr (stripped_parts env_profiles)
         else res_bind (config_get su cfg ''pyfly.profiles.active'' (VStr []))
                (\<lambda>v. Inr (if truthy v then stripped_parts (str_of su v) else [])))"

definition new_environment :: "surroundings \<Rightarrow> config \<Rightarrow> exn + environment" where
  "new_environment su cfg = res_bind (load_profiles su cfg) (\<lambda>ps. Inr \<lparr>en_config = cfg, en_profiles = ps\<rparr>)"

definition get_property :: "surroundings \<Rightarrow> environment \<Rightarrow> string \<Rightarrow> pyval \<Rightarrow> exn + pyval" where
  "get_property su env key dflt = config_get su (en_config env) key dflt"

definition matches_single :: "environment \<Rightarrow> string \<Rightarrow> bool" where
  "matches_single env profile =
     (if take 1 profile = ''!'' then drop 1 profile \<notin> set (en_profiles env) else profile \<in> set (en_profiles env))"

definition matches_profile_expression :: "environment \<Rightarrow> string \<Rightarrow> bool" where
  "matches_profile_expression env expr =
     (if CHR '','' \<in> set expr then (\<exists>p \<in> set (stripped_parts expr). matches_single env p) else matches_single env expr)"

definition accepts_profiles :: "environment \<Rightarrow> string list \<Rightarrow> bool" where
  "accepts_profiles env profiles = (\<exists>expr \<in> set profiles. matches_profile_expression env expr)"

section \<open>The configuration of an application\<close>

text \<open>\<^verbatim>\<open>PyFlyApplication\<close>: where the files are, which profiles overlay them, and what is loaded.\<close>

definition find_config_dir :: "files \<Rightarrow> (string \<times> bool) option \<Rightarrow> (string \<Rightarrow> string) \<Rightarrow> string option" where
  "find_config_dir fs config_path parent =
     (case config_path of
        Some (p, is_file) \<Rightarrow> Some (if is_file then parent p else p)
      | None \<Rightarrow>
          (if \<exists>c \<in> set [''pyfly.yaml'', ''pyfly.toml'', ''config/pyfly.yaml'', ''config/pyfly.toml'']. fs (path_in ''.'' c) \<noteq> None
           then Some ''.'' else None))"

text \<open>The profiles a document activates; \<^verbatim>\<open>None\<close> when it says nothing, so that the next candidate is read.\<close>

definition document_profiles :: "surroundings \<Rightarrow> pyval \<Rightarrow> exn + string list option" where
  "document_profiles su doc =
     (case doc of
        VDict data \<Rightarrow>
          (let v = dget_default data ''pyfly'' (VDict []); top = (if truthy v then v else VDict [])
           in case top of
                VDict d \<Rightarrow>
                  (case dget_default d ''profiles'' (VDict []) of
                     VDict ps \<Rightarrow>
                       (let active = dget_default ps ''active'' (VStr [])
                        in Inr (if truthy active then Some (stripped_parts (str_of su active)) else None))
                   | _ \<Rightarrow> Inr None)
              | _ \<Rightarrow> Inl (attribute_error ''get''))
      | _ \<Rightarrow> Inl (attribute_error ''get''))"

fun first_profiles :: "surroundings \<Rightarrow> files \<Rightarrow> string list \<Rightarrow> exn + string list" where
  "first_profiles su fs [] = Inr []"
| "first_profiles su fs (p # ps) =
     (case fs p of
        None \<Rightarrow> first_profiles su fs ps
      | Some parsed \<Rightarrow>
          res_bind (load_config_data parsed) (\<lambda>doc. res_bind (document_profiles su doc)
            (\<lambda>found. case found of Some profiles \<Rightarrow> Inr profiles | None \<Rightarrow> first_profiles su fs ps)))"

definition resolve_profiles_early :: "surroundings \<Rightarrow> files \<Rightarrow> string option \<Rightarrow> exn + string list" where
  "resolve_profiles_early su fs config_dir =
     (let env_profiles = dget_default (su_environ su) ''PYFLY_PROFILES_ACTIVE'' []
      in if env_profiles \<noteq> [] then Inr (stripped_parts env_profiles)
         else (case config_dir of
                 None \<Rightarrow> Inr []
               | Some dir \<Rightarrow> first_profiles su fs [path_in (path_in dir ''config'') ''pyfly.yaml'', path_in dir ''pyfly.yaml'']))"

text \<open>The configuration and the profiles of the environment of the context.\<close>

definition application_config :: "surroundings \<Rightarrow> files \<Rightarrow> (string, pyval) dict \<Rightarrow> string option \<Rightarrow> exn + environment" where
  "application_config su fs defaults config_dir =
     res_bind (resolve_profiles_early su fs config_dir) (\<lambda>profiles.
       res_bind (case config_dir of
                   Some dir \<Rightarrow> from_sources fs defaults dir profiles True
                 | None \<Rightarrow> Inr (framework_config defaults True)) (new_environment su))"
section \<open>Which source decides\<close>

text \<open>
  What one document says about a path: nothing when a key is missing on the way, and \<^verbatim>\<open>None\<close> when the path goes through
  something that is not a dictionary.
\<close>

fun says :: "pyval \<Rightarrow> string list \<Rightarrow> pyval option" where
  "says v [] = Some v"
| "says v (part # parts) =
     (case v of VDict d \<Rightarrow> (case dget d part of None \<Rightarrow> None | Some w \<Rightarrow> says w parts) | _ \<Rightarrow> Some VNone)"

text \<open>The last document that says anything decides.\<close>

fun final_say :: "(string, pyval) dict list \<Rightarrow> string list \<Rightarrow> pyval option" where
  "final_say [] parts = None"
| "final_say (d # ds) parts = (case final_say ds parts of None \<Rightarrow> says (VDict d) parts | Some v \<Rightarrow> Some v)"

function keys_ok :: "pyval \<Rightarrow> bool" where
  "keys_ok v = (case v of VDict d \<Rightarrow> dict_ok d \<and> (\<forall>e \<in> set d. keys_ok (snd e)) | _ \<Rightarrow> True)"
  by pat_completeness auto

lemma size_in_dict: "e \<in> set d \<Longrightarrow> size (snd e) < size (VDict d)"
  by (induction d) auto

termination keys_ok
  by (relation "measure size") (auto dest: size_in_dict simp del: pyval.size)

declare keys_ok.simps [simp del]

lemma keys_ok_dict: "keys_ok (VDict d) \<longleftrightarrow> dict_ok d \<and> (\<forall>e \<in> set d. keys_ok (snd e))"
  by (subst keys_ok.simps) simp

lemma keys_ok_dget: "keys_ok (VDict d) \<Longrightarrow> dget d k = Some v \<Longrightarrow> keys_ok v"
  by (force simp: keys_ok_dict dest: map_of_SomeD)

definition is_dict :: "pyval \<Rightarrow> bool" where
  "is_dict v = (case v of VDict _ \<Rightarrow> True | _ \<Rightarrow> False)"

lemma is_dict_simps [simp]: "is_dict (VDict d)" "\<not> is_dict VNone" "\<not> is_dict (VStr s)" "\<not> is_dict (VInt n)" "\<not> is_dict (VBool b)"
  by (simp_all add: is_dict_def)

lemma is_dict_iff: "is_dict v \<longleftrightarrow> (\<exists>d. v = VDict d)"
  by (auto simp: is_dict_def split: pyval.splits)

definition merged_value :: "pyval option \<Rightarrow> pyval \<Rightarrow> pyval" where
  "merged_value old v = (case v of VDict o2 \<Rightarrow> (case old of Some (VDict o1) \<Rightarrow> VDict (deep_merge o1 o2) | _ \<Rightarrow> v) | _ \<Rightarrow> v)"

lemma deep_merge_Cons: "deep_merge m ((k, v) # ov) = deep_merge (dput k (merged_value (dget m k) v) m) ov"
  by (simp add: merged_value_def cong: option.case_cong pyval.case_cong)

lemma dget_deep_merge:
  "dict_ok ov \<Longrightarrow> dget (deep_merge m ov) k = (case dget ov k of None \<Rightarrow> dget m k | Some v \<Rightarrow> Some (merged_value (dget m k) v))"
proof (induction ov arbitrary: m)
  case (Cons e ov)
  obtain k' v where e: "e = (k', v)" by (cases e)
  with Cons.prems have "dget ov k' = None" by (simp add: dget_None_iff)
  with Cons e show ?case by (auto simp: deep_merge_Cons simp del: deep_merge.simps split: option.splits)
qed simp

text \<open>Missing and \<^verbatim>\<open>None\<close> are the same to who reads.\<close>

definition present :: "pyval option \<Rightarrow> pyval option" where
  "present x = (if x = Some VNone then None else x)"

lemma present_simps [simp]:
  "present None = None" "present (Some VNone) = None" "v \<noteq> VNone \<Longrightarrow> present (Some v) = Some v"
  by (simp_all add: present_def)

lemma walk_says: "v \<noteq> VNone \<Longrightarrow> walk v parts = present (says v parts)"
proof (induction parts arbitrary: v)
  case (Cons p ps)
  show ?case
  proof (cases "\<exists>d w. v = VDict d \<and> dget d p = Some w")
    case True
    then obtain d w where "v = VDict d" "dget d p = Some w" by blast
    with Cons.IH [of w] show ?thesis by (cases "w = VNone") (cases ps, auto)
  qed (auto split: pyval.splits option.splits)
qed simp

lemma says_deep_merge:
  assumes "keys_ok (VDict ov)" "\<forall>v. says (VDict ov) parts = Some v \<longrightarrow> \<not> is_dict v"
  shows "present (says (VDict (deep_merge m ov)) parts) =
         present (case says (VDict ov) parts of None \<Rightarrow> says (VDict m) parts | Some v \<Rightarrow> Some v)"
  using assms
proof (induction parts arbitrary: m ov)
  case (Cons p ps)
  have ok: "dict_ok ov" using Cons.prems by (simp add: keys_ok_dict)
  show ?case
  proof (cases "dget ov p")
    case None
    then show ?thesis by (simp add: dget_deep_merge [OF ok])
  next
    case (Some v)
    note v = this
    show ?thesis
    proof (cases "is_dict v")
      case True
      then obtain o2 where o2: "v = VDict o2" by (auto simp: is_dict_iff)
      have prems: "keys_ok (VDict o2)" "\<forall>w. says (VDict o2) ps = Some w \<longrightarrow> \<not> is_dict w"
        using Cons.prems keys_ok_dget [OF Cons.prems(1) v] v o2 by simp_all
      then have ps: "ps \<noteq> []" by auto
      show ?thesis
      proof (cases "\<exists>o1. dget m p = Some (VDict o1)")
        case True
        then obtain o1 where o1: "dget m p = Some (VDict o1)" by blast
        have "says (VDict (deep_merge m ov)) (p # ps) = says (VDict (deep_merge o1 o2)) ps"
          by (simp add: dget_deep_merge [OF ok] v o2 o1 merged_value_def)
        moreover have "says (VDict ov) (p # ps) = says (VDict o2) ps" "says (VDict m) (p # ps) = says (VDict o1) ps"
          by (simp_all add: v o2 o1)
        ultimately show ?thesis using Cons.IH [OF prems, of o1]
          by (cases "says (VDict o2) ps") (simp_all del: says.simps)
      next
        case False
        then have "says (VDict (deep_merge m ov)) (p # ps) = says (VDict o2) ps"
          by (auto simp add: dget_deep_merge [OF ok] v o2 merged_value_def split: option.splits pyval.splits)
        moreover have "present (says (VDict m) (p # ps)) = None"
          using False ps by (cases ps) (auto split: option.splits pyval.splits)
        ultimately show ?thesis by (simp add: v o2 split: option.split)
      qed
    next
      case False
      then have "merged_value (dget m p) v = v"
        by (auto simp: merged_value_def is_dict_def split: pyval.splits)
      moreover have "\<exists>w. says v ps = Some w"
        using False by (cases ps) (auto simp: is_dict_def split: pyval.splits)
      ultimately show ?thesis by (auto simp: dget_deep_merge [OF ok] v)
    qed
  qed
qed simp

lemma says_foldl:
  assumes "\<forall>d \<in> set ds. keys_ok (VDict d)" "\<forall>v. final_say ds parts = Some v \<longrightarrow> \<not> is_dict v"
  shows "present (says (VDict (foldl deep_merge m ds)) parts) =
         present (case final_say ds parts of None \<Rightarrow> says (VDict m) parts | Some v \<Rightarrow> Some v)"
  using assms
proof (induction ds arbitrary: m)
  case (Cons d ds)
  show ?case
  proof (cases "final_say ds parts")
    case None
    with Cons.prems have "\<forall>v. says (VDict d) parts = Some v \<longrightarrow> \<not> is_dict v" by simp
    with Cons None says_deep_merge [of d parts m] show ?thesis by simp
  next
    case (Some v)
    with Cons show ?thesis by simp
  qed
qed simp

section \<open>Loading\<close>

definition document_at :: "files \<Rightarrow> string \<Rightarrow> (string, pyval) dict option" where
  "document_at fs path = (case fs path of Some (Inr (VDict d)) \<Rightarrow> Some d | _ \<Rightarrow> None)"

definition documents :: "files \<Rightarrow> (string \<times> string) list \<Rightarrow> (string, pyval) dict list" where
  "documents fs candidates = List.map_filter (document_at fs \<circ> fst) candidates"

lemma documents_Cons: "documents fs (c # cs) = (case document_at fs (fst c) of None \<Rightarrow> documents fs cs | Some d \<Rightarrow> d # documents fs cs)"
  by (simp add: documents_def List.map_filter_def split: option.split)

lemma documents_Nil [simp]: "documents fs [] = []"
  by (simp add: documents_def List.map_filter_def)

lemma merge_candidate_data:
  "merge_candidate fs c cfg = Inr cfg' \<Longrightarrow>
   cf_data cfg' = (case document_at fs (fst c) of None \<Rightarrow> cf_data cfg | Some d \<Rightarrow> deep_merge (cf_data cfg) d)"
proof (cases "fs (fst c)")
  case (Some parsed)
  assume *: "merge_candidate fs c cfg = Inr cfg'"
  then obtain v where v: "parsed = Inr v" by (cases parsed) (auto simp: merge_candidate_def load_config_data_def Some)
  show ?thesis
  proof (cases "is_dict v")
    case True
    with * v Some show ?thesis
      by (auto simp: merge_candidate_def load_config_data_def merge_document_def document_at_def is_dict_iff split: if_splits)
  next
    case False
    then have "\<not> truthy v" using * v Some
      by (cases v) (auto simp: merge_candidate_def load_config_data_def merge_document_def is_dict_iff split: if_splits)
    with False * v Some show ?thesis
      by (cases v) (auto simp: merge_candidate_def load_config_data_def merge_document_def document_at_def is_dict_iff)
  qed
qed (simp add: merge_candidate_def document_at_def)

lemma merge_candidates_data:
  "merge_candidates fs cs cfg = Inr cfg' \<Longrightarrow> cf_data cfg' = foldl deep_merge (cf_data cfg) (documents fs cs)"
  by (induction cs arbitrary: cfg) (auto simp: res_bind_eq_Inr documents_Cons dest!: merge_candidate_data split: option.split)

text \<open>
  The files of an application from the weakest to the strongest: those under \<^verbatim>\<open>config\<close>, those of the project, and for each profile again both;
  of two that differ by their suffix the TOML file is the stronger.
\<close>

definition ranked_files :: "string \<Rightarrow> string list \<Rightarrow> string list" where
  "ranked_files base profiles =
     [base @ ''/config/pyfly.yaml'', base @ ''/config/pyfly.toml'', base @ ''/pyfly.yaml'', base @ ''/pyfly.toml''] @
     concat (map (\<lambda>p. [base @ ''/config/pyfly-'' @ p @ ''.yaml'', base @ ''/config/pyfly-'' @ p @ ''.toml'',
                        base @ ''/pyfly-'' @ p @ ''.yaml'', base @ ''/pyfly-'' @ p @ ''.toml'']) profiles)"

definition ranked_documents :: "files \<Rightarrow> string \<Rightarrow> string list \<Rightarrow> (string, pyval) dict list" where
  "ranked_documents fs base profiles = List.map_filter (document_at fs) (ranked_files base profiles)"

abbreviation candidates :: "string \<Rightarrow> string list \<Rightarrow> (string \<times> string) list" where
  "candidates base profiles \<equiv> plain_candidates base @ profile_candidates base profiles"

lemma candidates_ranked: "map fst (candidates base profiles) = ranked_files base profiles"
  by (simp add: plain_candidates_def profile_candidates_def ranked_files_def path_in_def Let_def map_concat comp_def)

lemma documents_ranked: "documents fs (candidates base profiles) = ranked_documents fs base profiles"
  by (simp add: documents_def ranked_documents_def candidates_ranked [symmetric] List.map_filter_def filter_map comp_def del: map_append)

text \<open>Reading a key of a loaded configuration: what is returned for a found value, placeholders included.\<close>

definition found_value :: "surroundings \<Rightarrow> config \<Rightarrow> pyval \<Rightarrow> pyval option \<Rightarrow> exn + pyval" where
  "found_value su cfg dflt found =
     (case found of
        None \<Rightarrow> Inr dflt
      | Some (VStr s) \<Rightarrow>
          (if has_placeholder s then res_bind (resolve_placeholders su (cf_data cfg) 0 s) (\<lambda>t. Inr (VStr t)) else Inr (VStr s))
      | Some v \<Rightarrow> Inr v)"

lemma config_get_found:
  "dget (su_environ su) (env_key key) = None \<Longrightarrow>
   config_get su cfg key dflt = found_value su cfg dflt (walk (VDict (cf_data cfg)) (split_on (CHR ''.'') key))"
  by (simp add: config_get_def found_value_def)

lemma final_say_documents:
  assumes "from_sources fs defaults base profiles True = Inr cfg"
    and "\<forall>d \<in> set (documents fs (candidates base profiles)). keys_ok (VDict d)"
    and "\<forall>v. final_say (defaults # documents fs (candidates base profiles)) parts = Some v \<longrightarrow> \<not> is_dict v"
  shows "walk (VDict (cf_data cfg)) parts = present (final_say (defaults # documents fs (candidates base profiles)) parts)"
proof -
  let ?ds = "documents fs (candidates base profiles)"
  have data: "cf_data cfg = foldl deep_merge defaults ?ds"
    using merge_candidates_data [of fs "candidates base profiles" "framework_config defaults True" cfg] assms(1)
    by (simp add: from_sources_def framework_config_def)
  have "\<forall>v. final_say ?ds parts = Some v \<longrightarrow> \<not> is_dict v" using assms(3) by simp
  from says_foldl [OF assms(2) this, of defaults] show ?thesis
    by (simp add: data walk_says)
qed

lemma walk_append: "walk v (ps @ qs) = (case walk v ps of None \<Rightarrow> None | Some w \<Rightarrow> walk w qs)"
  by (induction v ps rule: walk.induct) (auto split: pyval.split option.split)

text \<open>What a section says last is a section of the whole.\<close>

lemma says_deep_merge_dict:
  assumes "keys_ok (VDict ov)" "says (VDict ov) parts = Some (VDict x)"
  shows "\<exists>y. says (VDict (deep_merge m ov)) parts = Some (VDict y)"
  using assms
proof (induction parts arbitrary: m ov)
  case (Cons p ps)
  have ok: "dict_ok ov" using Cons.prems by (simp add: keys_ok_dict)
  obtain v where v: "dget ov p = Some v" using Cons.prems(2) by (auto split: option.splits)
  then have sv: "says v ps = Some (VDict x)" using Cons.prems(2) by simp
  then obtain o2 where o2: "v = VDict o2" by (cases ps) (auto split: pyval.splits)
  show ?case
  proof (cases "\<exists>o1. dget m p = Some (VDict o1)")
    case True
    then obtain o1 where o1: "dget m p = Some (VDict o1)" by blast
    have "says (VDict (deep_merge m ov)) (p # ps) = says (VDict (deep_merge o1 o2)) ps"
      by (simp add: dget_deep_merge [OF ok] v o2 o1 merged_value_def)
    with Cons.IH [of o2 o1] keys_ok_dget [OF Cons.prems(1) v] sv o2 show ?thesis by simp
  next
    case False
    then have "says (VDict (deep_merge m ov)) (p # ps) = says (VDict o2) ps"
      by (auto simp add: dget_deep_merge [OF ok] v o2 merged_value_def split: option.splits pyval.splits)
    with sv o2 show ?thesis by simp
  qed
qed simp

lemma says_foldl_dict:
  assumes "\<forall>d \<in> set ds. keys_ok (VDict d)" "final_say ds parts = Some (VDict x)"
  shows "\<exists>y. present (says (VDict (foldl deep_merge m ds)) parts) = Some (VDict y)"
  using assms
proof (induction ds arbitrary: m)
  case (Cons d ds)
  show ?case
  proof (cases "final_say ds parts")
    case None
    with Cons.prems obtain y where "says (VDict (deep_merge m d)) parts = Some (VDict y)"
      using says_deep_merge_dict [of d parts x m] by auto
    with says_foldl [of ds parts "deep_merge m d"] None Cons.prems show ?thesis by simp
  next
    case (Some v)
    with Cons show ?thesis by simp
  qed
qed simp

lemma final_say_section:
  assumes "from_sources fs defaults base profiles True = Inr cfg"
    and "\<forall>d \<in> set (defaults # documents fs (candidates base profiles)). keys_ok (VDict d)"
    and "final_say (defaults # documents fs (candidates base profiles)) parts = Some (VDict x)"
  shows "\<exists>y. walk (VDict (cf_data cfg)) parts = Some (VDict y)"
proof -
  let ?ds = "documents fs (candidates base profiles)"
  have data: "cf_data cfg = foldl deep_merge defaults ?ds"
    using merge_candidates_data [of fs "candidates base profiles" "framework_config defaults True" cfg] assms(1)
    by (simp add: from_sources_def framework_config_def)
  show ?thesis
  proof (cases "final_say ?ds parts")
    case None
    with assms(3) have "says (VDict defaults) parts = Some (VDict x)" by simp
    with says_foldl [of ?ds parts defaults] None assms(2) show ?thesis by (simp add: data walk_says)
  next
    case (Some v)
    with assms(3) have "final_say ?ds parts = Some (VDict x)" by simp
    from says_foldl_dict [OF _ this, of defaults] assms(2) show ?thesis by (simp add: data walk_says)
  qed
qed

text \<open>
  Claim C35. Precedence: reading a key of a configuration loaded from an application's files gives the environment variable of the
  key (\<^verbatim>\<open>PYFLY_\<close> and the key in upper case with underscores, its prefix \<^verbatim>\<open>pyfly.\<close> left out) if there is one; otherwise, when the last of the
  files that says anything about the key (the framework's defaults and then the files in the order of
  \<^const>\<open>ranked_files\<close>) gives it a value, that value with its placeholders resolved, and when none does, the caller's default. A
  file in which the key leads through something that is not a dictionary, or to \<^verbatim>\<open>None\<close>, hides the earlier ones. When the last
  word is a section, reading gives a dictionary, and in it every value is what the last file says about its own longer key.
\<close>

theorem config_precedence:
  assumes "from_sources fs defaults base profiles True = Inr cfg"
    and "\<forall>d \<in> set (defaults # ranked_documents fs base profiles). keys_ok (VDict d)"
  shows "case dget (su_environ su)
             (''PYFLY_'' @ map (\<lambda>c. if c = CHR ''.'' \<or> c = CHR ''-'' then CHR ''_'' else c) (upper (if take 6 key = ''pyfly.'' then drop 6 key else key))) of
           Some v \<Rightarrow> config_get su cfg key dflt = Inr (VStr v)
         | None \<Rightarrow>
             (let say = (\<lambda>parts. final_say (defaults # ranked_documents fs base profiles) parts); parts = split_on (CHR ''.'') key
              in if \<exists>d. say parts = Some (VDict d)
                 then \<exists>d. config_get su cfg key dflt = Inr (VDict d) \<and>
                        (\<forall>below. (\<nexists>e. say (parts @ below) = Some (VDict e)) \<longrightarrow> walk (VDict d) below = present (say (parts @ below)))
                 else config_get su cfg key dflt = found_value su cfg dflt (present (say parts)))"
proof -
  let ?parts = "split_on (CHR ''.'') key" and ?say = "final_say (defaults # ranked_documents fs base profiles)"
  have docs: "\<forall>d \<in> set (documents fs (candidates base profiles)). keys_ok (VDict d)"
    "\<forall>d \<in> set (defaults # documents fs (candidates base profiles)). keys_ok (VDict d)"
    using assms(2) by (simp_all add: documents_ranked)
  have env: "env_key key = ''PYFLY_'' @ map (\<lambda>c. if c = CHR ''.'' \<or> c = CHR ''-'' then CHR ''_'' else c) (upper (if take 6 key = ''pyfly.'' then drop 6 key else key))"
    by (simp add: env_key_def Let_def)
  have found: "walk (VDict (cf_data cfg)) ps = present (?say ps)" if "\<nexists>e. ?say ps = Some (VDict e)" for ps
    by (rule final_say_documents [OF assms(1) docs(1), of ps, unfolded documents_ranked]) (use that in \<open>auto simp: is_dict_iff\<close>)
  have below: "\<exists>d. config_get su cfg key dflt = Inr (VDict d) \<and>
      (\<forall>below. (\<nexists>e. ?say (?parts @ below) = Some (VDict e)) \<longrightarrow> walk (VDict d) below = present (?say (?parts @ below)))"
    if none: "dget (su_environ su) (env_key key) = None" and x: "?say ?parts = Some (VDict x)" for x
  proof -
    obtain d where d: "walk (VDict (cf_data cfg)) ?parts = Some (VDict d)"
      using final_say_section [OF assms(1) docs(2), of ?parts x, unfolded documents_ranked, OF x] by blast
    have "config_get su cfg key dflt = Inr (VDict d)" by (simp add: config_get_found [OF none] d found_value_def)
    moreover have "walk (VDict d) below = present (?say (?parts @ below))" if "\<nexists>e. ?say (?parts @ below) = Some (VDict e)" for below
      using found [OF that] by (simp add: walk_append d)
    ultimately show ?thesis by blast
  qed
  show ?thesis
  proof (cases "dget (su_environ su) (env_key key)")
    case None
    show ?thesis
    proof (cases "\<exists>d. ?say ?parts = Some (VDict d)")
      case True
      then show ?thesis unfolding env [symmetric] None option.case Let_def using below [OF None] by (simp only: if_True) blast
    next
      case False
      then show ?thesis unfolding env [symmetric] None option.case Let_def
        using found [OF False] config_get_found [OF None, of cfg dflt] by (simp only: if_False)
    qed
  next
    case (Some v)
    then show ?thesis unfolding env [symmetric] by (simp add: config_get_def)
  qed
qed

text \<open>Two files and an overlay.\<close>

definition quiet :: surroundings where
  "quiet = \<lparr>su_environ = [], su_str = (\<lambda>_. []), su_float = (\<lambda>_. Inl (Exn ValueErrorC [] []))\<rparr>"

definition app_doc :: "(string \<times> pyval) list \<Rightarrow> pyval" where
  "app_doc kvs = VDict [(''app'', VDict kvs)]"

definition example_files :: files where
  "example_files path =
     (if path = ''./config/pyfly.yaml'' then Some (Inr (app_doc [(''port'', VInt 1), (''name'', VStr ''one'')]))
      else if path = ''./pyfly.yaml'' then Some (Inr (app_doc [(''port'', VInt 2), (''title'', VStr ''I am ${app.name}'')]))
      else if path = ''./pyfly-dev.yaml'' then Some (Inr (app_doc [(''name'', VStr ''two'')]))
      else None)"

theorem config_precedence_witness:
  "\<exists>cfg d. from_sources example_files [] ''.'' [''dev''] True = Inr cfg \<and>
     config_get quiet cfg ''app.port'' VNone = Inr (VInt 2) \<and>
     config_get (quiet\<lparr>su_environ := [(''PYFLY_APP_PORT'', ''3'')]\<rparr>) cfg ''pyfly.app.port'' VNone = Inr (VStr ''3'') \<and>
     config_get quiet cfg ''app'' VNone = Inr (VDict d) \<and> walk (VDict d) [''name''] = Some (VStr ''two'')"
proof -
  have docs: "ranked_documents example_files ''.'' [''dev''] =
      [[(''app'', VDict [(''port'', VInt 1), (''name'', VStr ''one'')])],
       [(''app'', VDict [(''port'', VInt 2), (''title'', VStr ''I am ${app.name}'')])],
       [(''app'', VDict [(''name'', VStr ''two'')])]]"
    by code_simp
  have "is_ok (from_sources example_files [] ''.'' [''dev''] True)" by code_simp
  then obtain cfg where cfg: "from_sources example_files [] ''.'' [''dev''] True = Inr cfg" by (auto simp: is_ok_iff)
  have ok: "\<forall>d \<in> set ([] # ranked_documents example_files ''.'' [''dev'']). keys_ok (VDict d)"
    by (simp add: docs keys_ok_dict keys_ok.simps)
  note read = config_precedence [OF cfg ok, unfolded docs]
  have names: "''PYFLY_'' @ map (\<lambda>c. if c = CHR ''.'' \<or> c = CHR ''-'' then CHR ''_'' else c)
      (upper (if take 6 ''pyfly.app.port'' = ''pyfly.'' then drop 6 ''pyfly.app.port'' else ''pyfly.app.port'')) = ''PYFLY_APP_PORT''"
    by code_simp
  have "config_get quiet cfg ''app.port'' VNone = Inr (VInt 2)"
    using read [where su = quiet and key = "''app.port''" and dflt = VNone] by (simp add: quiet_def Let_def found_value_def)
  moreover have "config_get (quiet\<lparr>su_environ := [(''PYFLY_APP_PORT'', ''3'')]\<rparr>) cfg ''pyfly.app.port'' VNone = Inr (VStr ''3'')"
    using read [where su = "quiet\<lparr>su_environ := [(''PYFLY_APP_PORT'', ''3'')]\<rparr>" and key = "''pyfly.app.port''" and dflt = VNone, unfolded names] by simp
  moreover have "\<exists>d. config_get quiet cfg ''app'' VNone = Inr (VDict d) \<and> walk (VDict d) [''name''] = Some (VStr ''two'')"
  proof -
    have "\<exists>d. config_get quiet cfg ''app'' VNone = Inr (VDict d) \<and>
        (\<forall>below. (\<nexists>e. final_say ([] # [[(''app'', VDict [(''port'', VInt 1), (''name'', VStr ''one'')])],
           [(''app'', VDict [(''port'', VInt 2), (''title'', VStr ''I am ${app.name}'')])], [(''app'', VDict [(''name'', VStr ''two'')])]]) ([''app''] @ below) = Some (VDict e)) \<longrightarrow>
         walk (VDict d) below = present (final_say ([] # [[(''app'', VDict [(''port'', VInt 1), (''name'', VStr ''one'')])],
           [(''app'', VDict [(''port'', VInt 2), (''title'', VStr ''I am ${app.name}'')])], [(''app'', VDict [(''name'', VStr ''two'')])]]) ([''app''] @ below)))"
      using read [where su = quiet and key = "''app''" and dflt = VNone] by (simp add: quiet_def Let_def)
    then obtain d where "config_get quiet cfg ''app'' VNone = Inr (VDict d)" "walk (VDict d) [''name''] = Some (VStr ''two'')"
      by (elim exE conjE allE [of _ "[''name'']"]) simp
    then show ?thesis by blast
  qed
  ultimately show ?thesis using cfg by blast
qed

section \<open>When placeholders resolve\<close>

function placeholders :: "string \<Rightarrow> string list" where
  "placeholders [] = []"
| "placeholders (c # cs) =
     (case match_placeholder (c # cs) of None \<Rightarrow> placeholders cs | Some (inner, rest) \<Rightarrow> inner # placeholders rest)"
  by pat_completeness auto

termination placeholders
  by (relation "measure length") (auto dest: match_placeholder_length)

lemma sub_placeholders_ok: "is_ok (sub_placeholders f s) \<longleftrightarrow> (\<forall>i \<in> set (placeholders s). is_ok (f i))"
proof (induction f s rule: sub_placeholders.induct)
  case (2 f c cs)
  show ?case
  proof (cases "match_placeholder (c # cs)")
    case None
    with 2 show ?thesis by (simp add: is_ok_iff res_bind_eq_Inr)
  next
    case (Some m)
    then obtain inner rest where m: "match_placeholder (c # cs) = Some (inner, rest)" by (cases m) auto
    show ?thesis
    proof (cases "f inner")
      case (Inr t)
      with 2(2) [OF m refl] m show ?thesis by (simp add: is_ok_iff res_bind_eq_Inr)
    qed (simp add: m)
  qed
qed simp

lemma sub_placeholders_cong:
  "(\<And>i. i \<in> set (placeholders s) \<Longrightarrow> f i = g i) \<Longrightarrow> sub_placeholders f s = sub_placeholders g s"
proof (induction s rule: placeholders.induct)
  case (2 c cs)
  show ?case
  proof (cases "match_placeholder (c # cs)")
    case None
    with 2 show ?thesis by simp
  next
    case (Some m)
    then obtain inner rest where m: "match_placeholder (c # cs) = Some (inner, rest)" by (cases m) auto
    with 2(2) [OF m refl] 2(3) show ?thesis by simp
  qed
qed simp

lemma sub_placeholders_error:
  "sub_placeholders f s = Inl e \<Longrightarrow> \<exists>i \<in> set (placeholders s). f i = Inl e"
proof (induction f s rule: sub_placeholders.induct)
  case (2 f c cs)
  show ?case
  proof (cases "match_placeholder (c # cs)")
    case None
    with 2 show ?thesis by (cases "sub_placeholders f cs") auto
  next
    case (Some m)
    then obtain inner rest where m: "match_placeholder (c # cs) = Some (inner, rest)" by (cases m) auto
    show ?thesis
    proof (cases "f inner")
      case (Inr t)
      with 2(2) [OF m refl] 2(3) m show ?thesis by (cases "sub_placeholders f rest") auto
    next
      case (Inl d)
      with 2(3) m show ?thesis by simp
    qed
  qed
qed simp

text \<open>A text is resolvable on its own when all of its placeholders stand for something; it refers to the texts they stand for.\<close>

definition resolvable :: "surroundings \<Rightarrow> (string, pyval) dict \<Rightarrow> string \<Rightarrow> bool" where
  "resolvable su data s = (\<forall>i \<in> set (placeholders s). referent su data i \<noteq> Unknown)"

definition refers :: "surroundings \<Rightarrow> (string, pyval) dict \<Rightarrow> (string \<times> string) set" where
  "refers su data = {(s, t). \<exists>i \<in> set (placeholders s). referent su data i = Text t}"

lemma resolve_step:
  "is_ok (resolve_placeholders su data depth s) \<longleftrightarrow>
   depth \<le> 10 \<and> resolvable su data s \<and> (\<forall>t. (s, t) \<in> refers su data \<longrightarrow> is_ok (resolve_placeholders su data (depth + 1) t))"
proof -
  have "is_ok (replacement su data f i) \<longleftrightarrow> referent su data i \<noteq> Unknown \<and> (\<forall>t. referent su data i = Text t \<longrightarrow> is_ok (f t))" for f i
    by (simp add: replacement_def split: referent.split)
  then show ?thesis
    by (auto simp: resolve_placeholders.simps [of su data depth s] sub_placeholders_ok resolvable_def refers_def)
qed

lemma relpow_first: "(s, u) \<in> R ^^ Suc n \<longleftrightarrow> (\<exists>t. (s, t) \<in> R \<and> (t, u) \<in> R ^^ n)"
  by (metis relpow_Suc_D2 relpow_Suc_I2)

lemma less_Suc_all: "(\<forall>k < Suc n. P k) \<longleftrightarrow> P 0 \<and> (\<forall>k < n. P (Suc k))"
  by (metis Suc_less_eq less_Suc_eq_0_disj zero_less_Suc)

lemma resolve_ok:
  assumes "depth + n = 11"
  shows "is_ok (resolve_placeholders su data depth s) \<longleftrightarrow>
         (\<forall>k < n. \<forall>t. (s, t) \<in> refers su data ^^ k \<longrightarrow> resolvable su data t) \<and> (\<forall>t. (s, t) \<notin> refers su data ^^ n)"
  using assms
proof (induction n arbitrary: depth s)
  case 0
  then have "depth = 11" by simp
  then show ?case by (simp add: resolve_step [of su data 11 s])
next
  case (Suc n)
  have IH: "is_ok (resolve_placeholders su data (depth + 1) t) \<longleftrightarrow>
      (\<forall>k < n. \<forall>u. (t, u) \<in> refers su data ^^ k \<longrightarrow> resolvable su data u) \<and> (\<forall>u. (t, u) \<notin> refers su data ^^ n)" for t
    using Suc.IH [of "depth + 1" t] Suc.prems by simp
  have "depth \<le> 10" using Suc.prems by simp
  then show ?case
    unfolding resolve_step [of su data depth s] IH less_Suc_all relpow_first by auto
qed

lemma resolve_error_class: "resolve_placeholders su data depth s = Inl e \<Longrightarrow> exc_cls e = ValueErrorC"
proof (induction su data depth s rule: resolve_placeholders.induct)
  case (1 su data depth s)
  show ?case
  proof (cases "10 < depth")
    case True
    then show ?thesis using 1(2) by (auto simp: resolve_placeholders.simps [of su data depth s] too_deep_def)
  next
    case False
    with 1(2) obtain i where
      "replacement su data (\<lambda>t. resolve_placeholders su data (depth + 1) t) i = Inl e"
      by (auto simp: resolve_placeholders.simps [of su data depth s] dest!: sub_placeholders_error)
    with 1(1) [OF False] show ?thesis
      by (auto simp: replacement_def unresolved_def split: referent.splits)
  qed
qed

lemma resolve_depth:
  "resolve_placeholders su data depth s = Inr t \<Longrightarrow> d \<le> depth \<Longrightarrow> resolve_placeholders su data d s = Inr t"
proof (induction su data depth s arbitrary: d t rule: resolve_placeholders.induct)
  case (1 su data depth s)
  have depth: "\<not> 10 < depth" using 1(2) by (auto simp: resolve_placeholders.simps [of su data depth s])
  have same: "replacement su data (resolve_placeholders su data (d + 1)) i = replacement su data (resolve_placeholders su data (depth + 1)) i"
    if "i \<in> set (placeholders s)" for i
  proof (cases "referent su data i")
    case (Text u)
    then have "(s, u) \<in> refers su data" using that by (auto simp: refers_def)
    moreover have "is_ok (resolve_placeholders su data depth s)" using 1(2) by simp
    ultimately have "is_ok (resolve_placeholders su data (depth + 1) u)" using resolve_step by blast
    then obtain v where "resolve_placeholders su data (depth + 1) u = Inr v" by (auto simp: is_ok_iff)
    with 1(1) [OF depth this, of "d + 1"] 1(3) Text show ?thesis by (simp add: replacement_def)
  qed (simp_all add: replacement_def)
  then show ?case
    using 1(2,3) depth sub_placeholders_cong [of s, OF same]
    by (simp add: resolve_placeholders.simps [of su data depth s] resolve_placeholders.simps [of su data d s])
qed

lemma resolve_compositional:
  assumes "resolve_placeholders su data 0 s = Inr t"
  shows "sub_placeholders (replacement su data (resolve_placeholders su data 0)) s = Inr t"
proof -
  have "replacement su data (resolve_placeholders su data 0) i = replacement su data (resolve_placeholders su data 1) i"
    if "i \<in> set (placeholders s)" for i
  proof (cases "referent su data i")
    case (Text u)
    then have "(s, u) \<in> refers su data" using that by (auto simp: refers_def)
    moreover have "is_ok (resolve_placeholders su data 0 s)" using assms by simp
    ultimately have "is_ok (resolve_placeholders su data (0 + 1) u)" using resolve_step by blast
    then obtain v where "resolve_placeholders su data 1 u = Inr v" by (auto simp: is_ok_iff)
    with resolve_depth [OF this, of 0] Text show ?thesis by (simp add: replacement_def)
  qed (simp_all add: replacement_def)
  from sub_placeholders_cong [of s, OF this] assms show ?thesis
    by (simp add: resolve_placeholders.simps [of su data 0 s])
qed

text \<open>References that lead into a cycle never resolve.\<close>

lemma cycle_continues: "(c, c) \<in> R\<^sup>+ \<Longrightarrow> \<exists>t. (c, t) \<in> R ^^ n \<and> (t, c) \<in> R\<^sup>*"
proof (induction n)
  case (Suc n)
  then obtain t where t: "(c, t) \<in> R ^^ n" "(t, c) \<in> R\<^sup>*" by blast
  with Suc.prems have "(t, c) \<in> R\<^sup>+" by (metis rtrancl_trancl_trancl)
  then obtain u where "(t, u) \<in> R" "(u, c) \<in> R\<^sup>*" by (metis tranclD)
  with t(1) show ?case by auto
qed auto

lemma circular_references_fail:
  assumes "(s, c) \<in> (refers su data)\<^sup>*" "(c, c) \<in> (refers su data)\<^sup>+"
  shows "\<exists>e. resolve_placeholders su data 0 s = Inl e \<and> exc_cls e = ValueErrorC"
proof -
  obtain m where m: "(s, c) \<in> refers su data ^^ m" using assms(1) by (auto simp: rtrancl_power)
  obtain t where "(c, t) \<in> refers su data ^^ 11" using cycle_continues [OF assms(2)] by blast
  with m have "(s, t) \<in> refers su data ^^ (m + 11)" by (auto simp: relpow_add)
  then have "(s, t) \<in> refers su data ^^ (11 + m)" by (simp only: add.commute)
  then obtain u where "(s, u) \<in> refers su data ^^ 11" by (auto simp: relpow_add simp del: relpow.simps)
  then have "\<not> is_ok (resolve_placeholders su data 0 s)" using resolve_ok [of 0 11 su data s] by auto
  then show ?thesis using resolve_error_class by (cases "resolve_placeholders su data 0 s") auto
qed
text \<open>
  Claim C36. Placeholders resolve exactly when every text reachable from the value in at most ten references has only
  placeholders that stand for something, and no chain of references is eleven long; so a chain that leads into a cycle always fails, and always with
  \<^verbatim>\<open>ValueError\<close>. What comes out is the value with every placeholder replaced by what it stands for, resolved in the same way.
\<close>

theorem placeholders_correct:
  "(is_ok (resolve_placeholders su data 0 s) \<longleftrightarrow>
      (\<forall>k \<le> 10. \<forall>t. (s, t) \<in> refers su data ^^ k \<longrightarrow> resolvable su data t) \<and> (\<forall>t. (s, t) \<notin> refers su data ^^ 11)) \<and>
   (case resolve_placeholders su data 0 s of
      Inl e \<Rightarrow> exc_cls e = ValueErrorC
    | Inr t \<Rightarrow> sub_placeholders (replacement su data (resolve_placeholders su data 0)) s = Inr t) \<and>
   ((s, c) \<in> (refers su data)\<^sup>* \<and> (c, c) \<in> (refers su data)\<^sup>+ \<longrightarrow>
      (\<exists>e. resolve_placeholders su data 0 s = Inl e \<and> exc_cls e = ValueErrorC))"
proof (intro conjI)
  have "(k < 11) = (k \<le> 10)" for k :: nat by auto
  with resolve_ok [of 0 11 su data s] show "is_ok (resolve_placeholders su data 0 s) \<longleftrightarrow>
      (\<forall>k \<le> 10. \<forall>t. (s, t) \<in> refers su data ^^ k \<longrightarrow> resolvable su data t) \<and> (\<forall>t. (s, t) \<notin> refers su data ^^ 11)"
    by (simp del: relpow.simps)
  show "case resolve_placeholders su data 0 s of
           Inl e \<Rightarrow> exc_cls e = ValueErrorC
         | Inr t \<Rightarrow> sub_placeholders (replacement su data (resolve_placeholders su data 0)) s = Inr t"
    by (auto dest: resolve_error_class resolve_compositional split: sum.split)
qed (metis circular_references_fail)

definition loop_data :: "(string, pyval) dict" where
  "loop_data = [(''a'', VStr ''x${b}''), (''b'', VStr ''${a}y''), (''c'', VStr ''${d:9}-${e}''), (''e'', VStr ''z'')]"

theorem placeholders_correct_witness:
  "(\<exists>e. resolve_placeholders quiet loop_data 0 ''${a}'' = Inl e \<and> exc_cls e = ValueErrorC) \<and>
   resolve_placeholders quiet loop_data 0 ''<${c}>'' = Inr ''<9-z>'' \<and>
   sub_placeholders (replacement quiet loop_data (resolve_placeholders quiet loop_data 0)) ''<${c}>'' = Inr ''<9-z>''"
proof -
  have r: "placeholders ''${a}'' = [''a'']" "placeholders ''x${b}'' = [''b'']" "placeholders ''${a}y'' = [''a'']"
      "referent quiet loop_data ''a'' = Text ''x${b}''" "referent quiet loop_data ''b'' = Text ''${a}y''"
    by code_simp+
  then have "(''${a}'', ''x${b}'') \<in> refers quiet loop_data" "(''x${b}'', ''${a}y'') \<in> refers quiet loop_data"
      "(''${a}y'', ''x${b}'') \<in> refers quiet loop_data"
    by (simp_all add: refers_def)
  then have "(''${a}'', ''x${b}'') \<in> (refers quiet loop_data)\<^sup>* \<and> (''x${b}'', ''x${b}'') \<in> (refers quiet loop_data)\<^sup>+" by auto
  moreover have "resolve_placeholders quiet loop_data 0 ''<${c}>'' = Inr ''<9-z>''" by code_simp
  ultimately show ?thesis
    using placeholders_correct [of quiet loop_data "''${a}''" "''x${b}''"] placeholders_correct [of quiet loop_data "''<${c}>''"]
    by simp
qed

text \<open>A default that is itself a placeholder ends at the first closing brace, so what comes out is no value but text with a stray dollar.\<close>

lemma nested_default: "resolve_placeholders quiet [(''b'', VStr ''right'')] 0 ''${a:${b}}'' = Inr ''${b}''"
  by code_simp

section \<open>Where the settings disagree\<close>

text \<open>Binding a class reads the files only: neither environment variables nor placeholders count.\<close>

lemma get_section_environment: "bind_config (su\<lparr>su_environ := e\<rparr>) cfg cls = bind_config su cfg cls"
proof -
  have "coerce (su\<lparr>su_environ := e\<rparr>) hint v = coerce su hint v" for hint v
    by (simp add: coerce_def split: pyval.split field_hint.split)
  then have "bound_kwargs (su\<lparr>su_environ := e\<rparr>) sect fs = bound_kwargs su sect fs" for sect fs
    by (induction fs) (auto split: option.split)
  then show ?thesis unfolding bind_config_def by presburger
qed

lemma bind_ignores_overrides:
  "let su = quiet\<lparr>su_environ := [(''PYFLY_DB_URL'', ''env'')]\<rparr>;
       cfg = \<lparr>cf_data = [(''db'', VDict [(''url'', VStr ''${db.host}/x''), (''host'', VStr ''h'')])], cf_sources = []\<rparr>
   in bind_config su cfg (Dataclass ''Db'' (Some ''db'') [(''url'', OtherHint, None)]) = Inr [(''url'', VStr ''${db.host}/x'')] \<and>
      config_get su cfg ''db.url'' VNone = Inr (VStr ''env'') \<and> config_get quiet cfg ''db.url'' VNone = Inr (VStr ''h/x'')"
  by code_simp

text \<open>A placeholder reads the file even where the key itself is overridden by the environment.\<close>

lemma placeholder_ignores_override:
  "let su = quiet\<lparr>su_environ := [(''PYFLY_APP_NAME'', ''env'')]\<rparr>;
       cfg = \<lparr>cf_data = [(''app'', VDict [(''name'', VStr ''file''), (''title'', VStr ''${app.name}'')])], cf_sources = []\<rparr>
   in config_get su cfg ''app.name'' VNone = Inr (VStr ''env'') \<and> config_get su cfg ''app.title'' VNone = Inr (VStr ''file'')"
  by code_simp

text \<open>
  The profiles whose overlays are loaded are looked for under \<^verbatim>\<open>config\<close> first and in YAML files only; the profiles
  of the environment are those of the merged configuration, where the project's file wins.
\<close>

definition profiles_doc :: "string \<Rightarrow> pyval" where
  "profiles_doc p = VDict [(''pyfly'', VDict [(''profiles'', VDict [(''active'', VStr p)])])]"

lemma profiles_disagree:
  "let fs = (\<lambda>path. if path = ''./config/pyfly.yaml'' then Some (Inr (profiles_doc ''dev''))
                   else if path = ''./pyfly.yaml'' then Some (Inr (profiles_doc ''prod''))
                   else if path = ''./pyfly-dev.yaml'' then Some (Inr (VDict [(''debug'', VBool True)])) else None)
   in case application_config quiet fs [] (Some ''.'') of
        Inr env \<Rightarrow> en_profiles env = [''prod''] \<and> config_get quiet (en_config env) ''debug'' VNone = Inr (VBool True)
      | Inl _ \<Rightarrow> False"
  by code_simp

lemma toml_profiles_not_overlaid:
  "let fs = (\<lambda>path. if path = ''./pyfly.toml'' then Some (Inr (profiles_doc ''dev''))
                   else if path = ''./pyfly-dev.toml'' then Some (Inr (VDict [(''debug'', VBool True)])) else None)
   in case application_config quiet fs [] (Some ''.'') of
        Inr env \<Rightarrow> en_profiles env = [''dev''] \<and> config_get quiet (en_config env) ''debug'' VNone = Inr VNone
      | Inl _ \<Rightarrow> False"
  by code_simp

text \<open>With the variable both agree, whatever the files say.\<close>

lemma profiles_agree:
  assumes "dget (su_environ su) ''PYFLY_PROFILES_ACTIVE'' = Some v" "v \<noteq> []" "application_config su fs defaults (Some dir) = Inr env"
  shows "en_profiles env = stripped_parts v \<and> from_sources fs defaults dir (stripped_parts v) True = Inr (en_config env)"
  using assms by (auto simp: application_config_def resolve_profiles_early_def new_environment_def load_profiles_def dget_default_def res_bind_eq_Inr)

text \<open>A profile expression holds when one of its parts does; a part is negated by an exclamation mark.\<close>

lemma accepts_profiles_iff:
  "accepts_profiles env profiles \<longleftrightarrow>
   (\<exists>expr \<in> set profiles. \<exists>p \<in> set (if CHR '','' \<in> set expr then stripped_parts expr else [expr]). matches_single env p)"
  by (simp add: accepts_profiles_def matches_profile_expression_def)

text \<open>What \<^verbatim>\<open>bind\<close> does on every branch: the fields in order, taken from the section, else from their defaults.\<close>

lemma bound_kwargs_Cons:
  "bound_kwargs su sect ((n, h, d) # fs) = Inr kw \<longleftrightarrow>
   (dget sect n = None \<and> bound_kwargs su sect fs = Inr kw \<or>
    (\<exists>v x kw'. dget sect n = Some v \<and> coerce su h v = Inr x \<and> bound_kwargs su sect fs = Inr kw' \<and> kw = (n, x) # kw'))"
  by (cases "dget sect n") (auto simp: res_bind_eq_Inr)

declare bound_kwargs.simps(2) [simp del]

lemma bound_kwargs_keys: "bound_kwargs su sect fs = Inr kw \<Longrightarrow> name \<notin> set (map fst fs) \<Longrightarrow> dget kw name = None"
proof (induction fs arbitrary: kw)
  case (Cons f fs)
  obtain n h e where "f = (n, h, e)" by (cases f)
  with Cons.IH Cons.prems show ?case by (auto simp: bound_kwargs_Cons simp del: map_of_eq_None_iff)
qed simp

lemma bound_kwargs_ok:
  "bound_kwargs su sect fs = Inr kw \<Longrightarrow> distinct (map fst fs) \<Longrightarrow> (name, hint, d) \<in> set fs \<Longrightarrow>
   (case dget sect name of None \<Rightarrow> dget kw name = None | Some v \<Rightarrow> \<exists>x. coerce su hint v = Inr x \<and> dget kw name = Some x)"
proof (induction fs arbitrary: kw)
  case (Cons f fs)
  obtain n h e where f: "f = (n, h, e)" by (cases f)
  show ?case
  proof (cases "(name, hint, d) = f")
    case True
    with Cons.prems f show ?thesis
      using bound_kwargs_keys [of su sect fs kw name] by (auto simp: bound_kwargs_Cons)
  next
    case False
    with Cons.prems f have inner: "(name, hint, d) \<in> set fs" "n \<noteq> name" by force+
    from Cons.prems f obtain kw' where kw': "bound_kwargs su sect fs = Inr kw'" "kw = kw' \<or> (\<exists>x. kw = (n, x) # kw')"
      by (auto simp: bound_kwargs_Cons)
    then have same: "dget kw name = dget kw' name" using inner(2) by auto
    from Cons.IH [OF kw'(1) _ inner(1)] Cons.prems show ?thesis unfolding same by simp
  qed
qed simp

lemma dataclass_init_ok:
  "dataclass_init cls kw fs = Inr attrs \<Longrightarrow>
   attrs = map (\<lambda>(name, hint, d). (name, case dget kw name of Some v \<Rightarrow> v | None \<Rightarrow> the d)) fs \<and>
   (\<forall>(name, hint, d) \<in> set fs. dget kw name = None \<longrightarrow> d \<noteq> None)"
proof (induction fs arbitrary: attrs)
  case (Cons f fs)
  obtain n h e where "f = (n, h, e)" by (cases f)
  with Cons show ?case by (fastforce simp: res_bind_eq_Inr split: option.splits)
qed simp

end
