(* ===== verification/Container.thy ===== *)
theory Container
  imports Exceptions
begin

text \<open>
  The dependency injection container, \<^verbatim>\<open>container/container.py\<close> (with \<^verbatim>\<open>registry.py\<close>, \<^verbatim>\<open>autowired.py\<close>, \<^verbatim>\<open>metrics.py\<close>, the
  exceptions and \<^verbatim>\<open>core/value.py\<close>). A class is named by a string that identifies it; what Python's reflection reads off it is
  a record of the environment. Registrations are mutable objects that two dictionaries share, so they live in a store,
  and instances live in a heap. The world \<open>'w\<close> is what constructors work on. Resolution recurses through the
  dependencies of a class; \<open>resolve_registration\<close> takes the depth of the recursion as an argument, and
  \<open>resolve_total\<close> shows that the depth the entry points pass is never used up.
\<close>

named_theorems runs_intros \<open>computations that return and only extend the container\<close>

section \<open>Classes, type hints and instances\<close>

datatype scope = SINGLETON | TRANSIENT | REQUEST

text \<open>A type hint: a class, \<^verbatim>\<open>Annotated\<close> (qualifier names, \<open>None\<close> for other metadata), a union, a list, a class reference, \<^verbatim>\<open>None\<close>.\<close>

datatype ptype =
    PClass string
  | PAnnotated ptype "string option list"
  | PUnion "ptype list"
  | PList "ptype option"
  | PTypeRef "ptype option"
  | PNone

record param =
  pm_name :: string
  pm_type :: ptype
  pm_default :: bool

datatype field_default = OtherDefault | Autowired (aw_qualifier: "string option") (aw_required: bool) | ValueExpr string

record class_info =
  ci_name :: string
  ci_qualname :: string
  ci_primary :: bool
  ci_scope :: "scope option"
  ci_bean_name :: string
  ci_init :: "(exn + param list) option"
  ci_fields :: "(string \<times> ptype \<times> field_default) list option"

text \<open>What can be injected: \<^verbatim>\<open>None\<close>, an instance, a list of these, or a configuration value.\<close>

datatype inj = INone | IObj nat | IList "inj list" | IVal pyval

record obj =
  ob_class :: string
  ob_kwargs :: "(string, inj) dict"
  ob_attrs :: "(string, inj) dict"

record registration =
  rg_impl :: string
  rg_scope :: scope
  rg_instance :: inj
  rg_name :: string

record bean_metrics =
  bm_creation_time_ns :: int
  bm_resolution_count :: nat
  bm_created_at :: "rat option"

text \<open>
  The container. \<open>ct_resolving\<close> lists the keys of \<^verbatim>\<open>_resolving\<close>; \<open>ct_request\<close> holds the attributes of the current request
  context.
\<close>

record 'w container =
  ct_registrations :: "(string, nat) dict"
  ct_named :: "(string, nat) dict"
  ct_bindings :: "(string, string list) dict"
  ct_resolving :: "string list"
  ct_metrics :: "(string, bean_metrics) dict"
  ct_store :: "registration list"
  ct_heap :: "obj list"
  ct_request :: "(string, inj) dict option"
  ct_world :: 'w

text \<open>The environment: reflection, constructors, clocks, the configuration, and the names and suggestions of messages.\<close>

record 'w cenv =
  ce_class :: "string \<Rightarrow> class_info"
  ce_construct :: "string \<Rightarrow> (string, inj) dict \<Rightarrow> 'w \<Rightarrow> (exn + unit) \<times> 'w"
  ce_perf_counter :: "'w \<Rightarrow> int"
  ce_time :: "'w \<Rightarrow> rat"
  ce_config_get :: "inj \<Rightarrow> string \<Rightarrow> exn + pyval"
  ce_hint_key :: "ptype \<Rightarrow> string"
  ce_hint_name :: "ptype \<Rightarrow> string option"
  ce_repr :: "ptype \<Rightarrow> string"
  ce_close_matches :: "string \<Rightarrow> string list \<Rightarrow> string list"

definition new_container :: "'w \<Rightarrow> 'w container" where
  "new_container w =
     \<lparr>ct_registrations = [], ct_named = [], ct_bindings = [], ct_resolving = [], ct_metrics = [], ct_store = [],
      ct_heap = [], ct_request = None, ct_world = w\<rparr>"

definition register :: "'w cenv \<Rightarrow> string \<Rightarrow> scope \<Rightarrow> string \<Rightarrow> 'w container \<Rightarrow> 'w container" where
  "register env cls sc name s =
     (let info = ce_class env cls;
          bean_name = (if name \<noteq> [] then name else ci_bean_name info);
          bean_scope = (case ci_scope info of None \<Rightarrow> sc | Some x \<Rightarrow> x);
          rid = length (ct_store s)
      in s\<lparr>ct_store := ct_store s @ [\<lparr>rg_impl = cls, rg_scope = bean_scope, rg_instance = INone, rg_name = bean_name\<rparr>],
           ct_registrations := dput cls rid (ct_registrations s),
           ct_named := (if bean_name \<noteq> [] then dput bean_name rid (ct_named s) else ct_named s)\<rparr>)"

definition bind_type :: "string \<Rightarrow> string \<Rightarrow> 'w container \<Rightarrow> 'w container" where
  "bind_type interface impl s =
     (let impls = (case dget (ct_bindings s) interface of None \<Rightarrow> [] | Some l \<Rightarrow> l)
      in s\<lparr>ct_bindings := dput interface (if impl \<in> set impls then impls else impls @ [impl]) (ct_bindings s)\<rparr>)"

definition contains :: "string \<Rightarrow> 'w container \<Rightarrow> bool" where
  "contains name s = dmem name (ct_named s)"

section \<open>Exceptions\<close>

definition bean_creation :: exc_class where
  "bean_creation = UserExc ''BeanCreationException'' InfrastructureException"

definition no_such_bean :: exc_class where
  "no_such_bean = UserExc ''NoSuchBeanError'' bean_creation"

definition no_unique_bean :: exc_class where
  "no_unique_bean = UserExc ''NoUniqueBeanError'' bean_creation"

definition in_creation :: exc_class where
  "in_creation = UserExc ''BeanCurrentlyInCreationError'' bean_creation"

text \<open>The arguments are the type, the name, where it is required, the parameter and the suggestions.\<close>

definition no_such_bean_error :: "string option \<Rightarrow> string option \<Rightarrow> string option \<Rightarrow> string option \<Rightarrow> string list \<Rightarrow> exn" where
  "no_such_bean_error bean_type bean_name required_by parameter suggestions =
     Exn no_such_bean ''NoSuchBeanError: {} {} {} {} {}''
       (map (\<lambda>x. case x of None \<Rightarrow> VNone | Some t \<Rightarrow> VStr t) [bean_type, bean_name, required_by, parameter]
        @ [VList (map VStr suggestions)])"

definition no_unique_bean_error :: "string \<Rightarrow> string list \<Rightarrow> exn" where
  "no_unique_bean_error t candidates =
     Exn no_unique_bean ''NoUniqueBeanError: {} {}'' [VStr t, VList (map VStr candidates)]"

definition in_creation_error :: "string list \<Rightarrow> string \<Rightarrow> exn" where
  "in_creation_error chain current =
     Exn in_creation ''BeanCurrentlyInCreationError: {} {}'' [VList (map VStr chain), VStr current]"

definition missing_or_ambiguous :: "exn \<Rightarrow> bool" where
  "missing_or_ambiguous = caught_by [no_such_bean, no_unique_bean]"

section \<open>Computations on a container\<close>

text \<open>A computation may raise; \<open>None\<close> is a recursion that went deeper than allowed.\<close>

type_synonym ('w, 'a) comp = "'w container \<Rightarrow> ((exn + 'a) \<times> 'w container) option"

definition ret :: "'a \<Rightarrow> ('w, 'a) comp" where
  "ret v s = Some (Inr v, s)"

definition raise_exc :: "exn \<Rightarrow> ('w, 'a) comp" where
  "raise_exc e s = Some (Inl e, s)"

definition bnd :: "('w, 'a) comp \<Rightarrow> ('a \<Rightarrow> ('w, 'b) comp) \<Rightarrow> ('w, 'b) comp" where
  "bnd m f s = (case m s of None \<Rightarrow> None | Some (Inl e, s') \<Rightarrow> Some (Inl e, s') | Some (Inr v, s') \<Rightarrow> f v s')"

text \<open>\<^verbatim>\<open>except (NoSuchBeanError, NoUniqueBeanError):\<close>\<close>

definition except_missing :: "('w, 'a) comp \<Rightarrow> ('w, 'a) comp \<Rightarrow> ('w, 'a) comp" where
  "except_missing m handler s =
     (case m s of
        Some (Inl e, s') \<Rightarrow> if missing_or_ambiguous e then handler s' else Some (Inl e, s')
      | x \<Rightarrow> x)"

definition modify :: "('w container \<Rightarrow> 'w container) \<Rightarrow> ('w, unit) comp" where
  "modify f s = Some (Inr (), f s)"

definition gets :: "('w container \<Rightarrow> ('w, 'a) comp) \<Rightarrow> ('w, 'a) comp" where
  "gets f s = f s s"

section \<open>Values from the configuration\<close>

text \<open>The text between the braces of an expression that is \<^verbatim>\<open>${...}\<close>; a line break at its end is allowed.\<close>

definition placeholder_inner :: "string \<Rightarrow> string option" where
  "placeholder_inner e =
     (let body = (if e \<noteq> [] \<and> last e = CHR 0x0A then butlast e else e);
          inner = butlast (drop 2 body)
      in if take 2 body = ''${'' \<and> 3 \<le> length body \<and> last body = CHR ''}'' \<and> inner \<noteq> [] \<and> CHR ''}'' \<notin> set inner
         then Some inner else None)"

definition value_resolve :: "(string \<Rightarrow> exn + pyval) \<Rightarrow> string \<Rightarrow> exn + pyval" where
  "value_resolve config_get expression =
     (case placeholder_inner expression of
        None \<Rightarrow> Inr (VStr expression)
      | Some inner \<Rightarrow>
          if CHR '':'' \<in> set inner
          then (let key = takeWhile (\<lambda>c. c \<noteq> CHR '':'') inner; default_text = tl (dropWhile (\<lambda>c. c \<noteq> CHR '':'') inner)
                in res_bind (config_get key) (\<lambda>result. Inr (if result = VNone then VStr default_text else result)))
          else res_bind (config_get inner) (\<lambda>result.
                 if result = VNone
                 then Inl (Exn KeyErrorC ''Configuration key {} not found and no default provided in @Value expression {}''
                        [VStr inner, VStr expression])
                 else Inr result))"

section \<open>Resolution\<close>

definition similar_type_names :: "'w cenv \<Rightarrow> 'w container \<Rightarrow> string \<Rightarrow> string list" where
  "similar_type_names env s name =
     (if name = [] then []
      else ce_close_matches env name (map (\<lambda>c. ci_name (ce_class env c)) (dkeys (ct_registrations s))))"

text \<open>\<^verbatim>\<open>getattr(t, "__name__", "")\<close>, \<^verbatim>\<open>getattr(t, "__name__", repr(t))\<close> and the type itself if it is a class.\<close>

definition name_or_empty :: "'w cenv \<Rightarrow> ptype \<Rightarrow> string" where
  "name_or_empty env t = (case ce_hint_name env t of None \<Rightarrow> [] | Some n \<Rightarrow> n)"

definition name_or_repr :: "'w cenv \<Rightarrow> ptype \<Rightarrow> string" where
  "name_or_repr env t = (case ce_hint_name env t of None \<Rightarrow> ce_repr env t | Some n \<Rightarrow> n)"

definition class_only :: "ptype \<Rightarrow> string option" where
  "class_only t = (case t of PClass c \<Rightarrow> Some c | PTypeRef None \<Rightarrow> Some ''type'' | _ \<Rightarrow> None)"

definition ensure_metrics :: "string \<Rightarrow> (bean_metrics \<Rightarrow> bean_metrics) \<Rightarrow> 'w container \<Rightarrow> 'w container" where
  "ensure_metrics cls f s =
     s\<lparr>ct_metrics := dput cls
        (f (dget_default (ct_metrics s) cls \<lparr>bm_creation_time_ns = 0, bm_resolution_count = 0, bm_created_at = None\<rparr>))
        (ct_metrics s)\<rparr>"

definition count_resolution :: "string \<Rightarrow> 'w container \<Rightarrow> 'w container" where
  "count_resolution cls = ensure_metrics cls (\<lambda>m. m\<lparr>bm_resolution_count := bm_resolution_count m + 1\<rparr>)"

text \<open>\<^verbatim>\<open>self._resolve_registration(self._registrations[impl])\<close>; \<open>res\<close> resolves a registration.\<close>

definition resolve_impl :: "(nat \<Rightarrow> ('w, inj) comp) \<Rightarrow> string \<Rightarrow> ('w, inj) comp" where
  "resolve_impl res impl = gets (\<lambda>s.
     case dget (ct_registrations s) impl of
       None \<Rightarrow> raise_exc (Exn KeyErrorC ''{}'' [VStr impl])
     | Some rid \<Rightarrow> res rid)"

text \<open>What a hint is in the dictionaries of the container: a class is its name, other hints have keys of their own.\<close>

definition hint_key :: "'w cenv \<Rightarrow> ptype \<Rightarrow> string" where
  "hint_key env t = (case t of PClass c \<Rightarrow> c | _ \<Rightarrow> ce_hint_key env t)"

definition direct_registration :: "'w cenv \<Rightarrow> 'w container \<Rightarrow> ptype \<Rightarrow> nat option" where
  "direct_registration env s t = dget (ct_registrations s) (hint_key env t)"

definition bound_impls :: "'w cenv \<Rightarrow> 'w container \<Rightarrow> ptype \<Rightarrow> string list" where
  "bound_impls env s t = dget_default (ct_bindings s) (hint_key env t) []"

definition resolve_type :: "(nat \<Rightarrow> ('w, inj) comp) \<Rightarrow> 'w cenv \<Rightarrow> ptype \<Rightarrow> ('w, inj) comp" where
  "resolve_type res env t = gets (\<lambda>s.
     case direct_registration env s t of
       Some rid \<Rightarrow> res rid
     | None \<Rightarrow>
         (case bound_impls env s t of
            [] \<Rightarrow> raise_exc (no_such_bean_error (Some (name_or_repr env t)) None None None
                    (similar_type_names env s (name_or_empty env t)))
          | [impl] \<Rightarrow> resolve_impl res impl
          | impls \<Rightarrow>
              (case find (\<lambda>impl. ci_primary (ce_class env impl)) impls of
                 Some impl \<Rightarrow> resolve_impl res impl
               | None \<Rightarrow> raise_exc (no_unique_bean_error (name_or_repr env t) (map (\<lambda>c. ci_name (ce_class env c)) impls)))))"

definition resolve_name :: "(nat \<Rightarrow> ('w, inj) comp) \<Rightarrow> string \<Rightarrow> ('w, inj) comp" where
  "resolve_name res name = gets (\<lambda>s.
     case dget (ct_named s) name of
       None \<Rightarrow> raise_exc (no_such_bean_error None (Some name) None None (dkeys (ct_named s)))
     | Some rid \<Rightarrow> res rid)"

fun resolve_impls :: "(nat \<Rightarrow> ('w, inj) comp) \<Rightarrow> string list \<Rightarrow> ('w, inj list) comp" where
  "resolve_impls res [] = ret []"
| "resolve_impls res (impl # impls) =
     bnd (resolve_impl res impl) (\<lambda>v. bnd (resolve_impls res impls) (\<lambda>vs. ret (v # vs)))"

definition resolve_every :: "(nat \<Rightarrow> ('w, inj) comp) \<Rightarrow> 'w cenv \<Rightarrow> ptype \<Rightarrow> ('w, inj list) comp" where
  "resolve_every res env t = gets (\<lambda>s. resolve_impls res (bound_impls env s t))"

fun resolve_param :: "(nat \<Rightarrow> ('w, inj) comp) \<Rightarrow> 'w cenv \<Rightarrow> ptype \<Rightarrow> ('w, inj) comp" where
  "resolve_param res env (PAnnotated base metadata) =
     (case find (\<lambda>q. q \<noteq> None) metadata of
        Some (Some name) \<Rightarrow> resolve_name res name
      | _ \<Rightarrow> resolve_param res env base)"
| "resolve_param res env (PUnion args) =
     (case filter (\<lambda>a. a \<noteq> PNone) args of
        [t] \<Rightarrow> except_missing (resolve_type res env t) (ret INone)
      | _ \<Rightarrow> resolve_type res env (PUnion args))"
| "resolve_param res env (PList (Some t)) = bnd (resolve_every res env t) (\<lambda>vs. ret (IList vs))"
| "resolve_param res env (PTypeRef t) = raise_exc (no_such_bean_error (class_only (PTypeRef t)) None None None [])"
| "resolve_param res env t = resolve_type res env t"

section \<open>Creating an instance\<close>

fun build_kwargs ::
  "(nat \<Rightarrow> ('w, inj) comp) \<Rightarrow> 'w cenv \<Rightarrow> string \<Rightarrow> param list \<Rightarrow> (string, inj) dict \<Rightarrow> ('w, (string, inj) dict) comp" where
  "build_kwargs res env cls [] kwargs = ret kwargs"
| "build_kwargs res env cls (p # ps) kwargs =
     bnd (except_missing
           (bnd (resolve_param res env (pm_type p)) (\<lambda>v. ret (dput (pm_name p) v kwargs)))
           (if pm_default p then ret kwargs
            else gets (\<lambda>s. raise_exc (no_such_bean_error (class_only (pm_type p)) None
              (Some (ci_qualname (ce_class env cls) @ ''.__init__()''))
              (Some (pm_name p @ '': '' @ name_or_repr env (pm_type p)))
              (similar_type_names env s (name_or_empty env (pm_type p)))))))
       (build_kwargs res env cls ps)"

text \<open>\<^verbatim>\<open>reg.impl_type(**kwargs)\<close>: the constructor runs in the world and may raise; the result is the address of the instance.\<close>

definition call_class :: "'w cenv \<Rightarrow> string \<Rightarrow> (string, inj) dict \<Rightarrow> ('w, nat) comp" where
  "call_class env cls kwargs s =
     (case ce_construct env cls kwargs (ct_world s) of
        (Inl e, w) \<Rightarrow> Some (Inl e, s\<lparr>ct_world := w\<rparr>)
      | (Inr _, w) \<Rightarrow> Some (Inr (length (ct_heap s)),
          s\<lparr>ct_world := w, ct_heap := ct_heap s @ [\<lparr>ob_class = cls, ob_kwargs = kwargs, ob_attrs = []\<rparr>]\<rparr>))"

definition construct :: "(nat \<Rightarrow> ('w, inj) comp) \<Rightarrow> 'w cenv \<Rightarrow> string \<Rightarrow> ('w, nat) comp" where
  "construct res env cls =
     (case ci_init (ce_class env cls) of
        None \<Rightarrow> call_class env cls []
      | Some (Inl e) \<Rightarrow> raise_exc e
      | Some (Inr params) \<Rightarrow> bnd (build_kwargs res env cls params []) (call_class env cls))"

definition set_attr :: "nat \<Rightarrow> string \<Rightarrow> inj \<Rightarrow> 'w container \<Rightarrow> 'w container" where
  "set_attr a name v s =
     s\<lparr>ct_heap := (ct_heap s)[a := (ct_heap s ! a)\<lparr>ob_attrs := dput name v (ob_attrs (ct_heap s ! a))\<rparr>]\<rparr>"

definition config_class :: string where
  "config_class = ''pyfly.core.config.Config''"

text \<open>\<^verbatim>\<open>@Value\<close> needs the instance of the configuration bean, which it does not create.\<close>

definition config_value :: "'w cenv \<Rightarrow> string \<Rightarrow> string \<Rightarrow> string \<Rightarrow> ('w, inj) comp" where
  "config_value env cls attr expression = gets (\<lambda>s.
     let missing = raise_exc (Exn RuntimeErrorC ''Cannot resolve @Value for {}.{}: Config bean not registered''
                     [VStr (ci_qualname (ce_class env cls)), VStr attr])
     in case dget (ct_registrations s) config_class of
          None \<Rightarrow> missing
        | Some rid \<Rightarrow>
            if rg_instance (ct_store s ! rid) = INone then missing
            else (case value_resolve (ce_config_get env (rg_instance (ct_store s ! rid))) expression of
                    Inl e \<Rightarrow> raise_exc e
                  | Inr v \<Rightarrow> ret (IVal v)))"

definition field_value ::
  "(nat \<Rightarrow> ('w, inj) comp) \<Rightarrow> 'w cenv \<Rightarrow> string \<Rightarrow> string \<Rightarrow> ptype \<Rightarrow> string option \<Rightarrow> bool \<Rightarrow> ('w, inj) comp" where
  "field_value res env cls attr t qualifier required =
     (case (qualifier, t) of
        (Some (c # cs), _) \<Rightarrow> resolve_name res (c # cs)
      | (_, PAnnotated _ _) \<Rightarrow> resolve_param res env t
      | _ \<Rightarrow> except_missing (resolve_type res env t)
               (if \<not> required then ret INone
                else raise_exc (no_such_bean_error (class_only t) None (Some (ci_qualname (ce_class env cls) @ ''.'' @ attr))
                       (Some (attr @ '': '' @ name_or_repr env t @ '' = Autowired()'')) [])))"

fun inject_fields ::
  "(nat \<Rightarrow> ('w, inj) comp) \<Rightarrow> 'w cenv \<Rightarrow> string \<Rightarrow> nat \<Rightarrow> (string \<times> ptype \<times> field_default) list \<Rightarrow> ('w, unit) comp" where
  "inject_fields res env cls a [] = ret ()"
| "inject_fields res env cls a ((attr, t, d) # fs) =
     (case d of
        OtherDefault \<Rightarrow> inject_fields res env cls a fs
      | ValueExpr e \<Rightarrow>
          bnd (config_value env cls attr e) (\<lambda>v. bnd (modify (set_attr a attr v)) (\<lambda>_. inject_fields res env cls a fs))
      | Autowired q req \<Rightarrow>
          bnd (field_value res env cls attr t q req)
            (\<lambda>v. bnd (modify (set_attr a attr v)) (\<lambda>_. inject_fields res env cls a fs)))"

definition inject_autowired_fields :: "(nat \<Rightarrow> ('w, inj) comp) \<Rightarrow> 'w cenv \<Rightarrow> string \<Rightarrow> nat \<Rightarrow> ('w, unit) comp" where
  "inject_autowired_fields res env cls a =
     (case ci_fields (ce_class env cls) of None \<Rightarrow> ret () | Some fs \<Rightarrow> inject_fields res env cls a fs)"

definition record_creation :: "'w cenv \<Rightarrow> string \<Rightarrow> int \<Rightarrow> 'w container \<Rightarrow> 'w container" where
  "record_creation env cls start s =
     ensure_metrics cls (\<lambda>m. m\<lparr>bm_creation_time_ns := ce_perf_counter env (ct_world s) - start,
       bm_created_at := Some (ce_time env (ct_world s))\<rparr>) s"

definition create_body :: "(nat \<Rightarrow> ('w, inj) comp) \<Rightarrow> 'w cenv \<Rightarrow> string \<Rightarrow> ('w, inj) comp" where
  "create_body res env cls = gets (\<lambda>s0.
     bnd (construct res env cls) (\<lambda>a.
     bnd (inject_autowired_fields res env cls a) (\<lambda>_.
     bnd (modify (record_creation env cls (ce_perf_counter env (ct_world s0)))) (\<lambda>_. ret (IObj a)))))"

text \<open>The body runs with the class in \<^verbatim>\<open>_resolving\<close>; \<^verbatim>\<open>finally\<close> takes it out again.\<close>

definition create_instance :: "(nat \<Rightarrow> ('w, inj) comp) \<Rightarrow> 'w cenv \<Rightarrow> nat \<Rightarrow> ('w, inj) comp" where
  "create_instance res env rid s =
     (let cls = rg_impl (ct_store s ! rid)
      in if cls \<in> set (ct_resolving s) then raise_exc (in_creation_error (ct_resolving s) cls) s
         else (case create_body res env cls (s\<lparr>ct_resolving := ct_resolving s @ [cls]\<rparr>) of
                 None \<Rightarrow> None
               | Some (r, s') \<Rightarrow> Some (r, s'\<lparr>ct_resolving := removeAll cls (ct_resolving s')\<rparr>)))"

section \<open>Scopes\<close>

definition set_instance :: "nat \<Rightarrow> inj \<Rightarrow> 'w container \<Rightarrow> 'w container" where
  "set_instance rid v s = s\<lparr>ct_store := (ct_store s)[rid := (ct_store s ! rid)\<lparr>rg_instance := v\<rparr>]\<rparr>"

definition set_request :: "string \<Rightarrow> inj \<Rightarrow> 'w container \<Rightarrow> 'w container" where
  "set_request key v s = s\<lparr>ct_request := map_option (dput key v) (ct_request s)\<rparr>"

definition resolve_request_scoped :: "(nat \<Rightarrow> ('w, inj) comp) \<Rightarrow> 'w cenv \<Rightarrow> nat \<Rightarrow> ('w, inj) comp" where
  "resolve_request_scoped res env rid = gets (\<lambda>s.
     let cls = rg_impl (ct_store s ! rid); cache_key = ''__pyfly_bean_'' @ ci_qualname (ce_class env cls)
     in case ct_request s of
          None \<Rightarrow> raise_exc (Exn RuntimeErrorC
            ''No active request context for REQUEST-scoped bean {}. Ensure a RequestContextFilter is active.''
            [VStr (ci_name (ce_class env cls))])
        | Some attributes \<Rightarrow>
            (let existing = dget_default attributes cache_key INone
             in if existing \<noteq> INone then ret existing
                else bnd (create_instance res env rid) (\<lambda>v. bnd (modify (set_request cache_key v)) (\<lambda>_. ret v))))"

definition resolve_scoped :: "(nat \<Rightarrow> ('w, inj) comp) \<Rightarrow> 'w cenv \<Rightarrow> nat \<Rightarrow> ('w, inj) comp" where
  "resolve_scoped res env rid = gets (\<lambda>s.
     let reg = ct_store s ! rid; counted = (\<lambda>v. bnd (modify (count_resolution (rg_impl reg))) (\<lambda>_. ret v))
     in case rg_scope reg of
          SINGLETON \<Rightarrow>
            if rg_instance reg \<noteq> INone then counted (rg_instance reg)
            else bnd (create_instance res env rid) (\<lambda>v. bnd (modify (set_instance rid v)) (\<lambda>_. counted v))
        | REQUEST \<Rightarrow> bnd (resolve_request_scoped res env rid) counted
        | TRANSIENT \<Rightarrow> bnd (create_instance res env rid) counted)"

primrec resolve_registration :: "'w cenv \<Rightarrow> nat \<Rightarrow> nat \<Rightarrow> ('w, inj) comp" where
  "resolve_registration env 0 = (\<lambda>rid s. None)"
| "resolve_registration env (Suc n) = resolve_scoped (resolve_registration env n) env"

text \<open>The entry points: a chain of nested creations has no class twice, so it is no longer than the store.\<close>

definition resolver :: "'w cenv \<Rightarrow> ((nat \<Rightarrow> ('w, inj) comp) \<Rightarrow> ('w, 'a) comp) \<Rightarrow> ('w, 'a) comp" where
  "resolver env f = gets (\<lambda>s. f (resolve_registration env (length (ct_store s) + 1)))"

definition resolve :: "'w cenv \<Rightarrow> ptype \<Rightarrow> ('w, inj) comp" where
  "resolve env t = resolver env (\<lambda>res. resolve_type res env t)"

definition resolve_by_name :: "'w cenv \<Rightarrow> string \<Rightarrow> ('w, inj) comp" where
  "resolve_by_name env name = resolver env (\<lambda>res. resolve_name res name)"

definition resolve_all :: "'w cenv \<Rightarrow> ptype \<Rightarrow> ('w, inj list) comp" where
  "resolve_all env t = resolver env (\<lambda>res. resolve_every res env t)"

section \<open>What a computation may change\<close>

text \<open>
  A resolution keeps the registrations, leaves \<^verbatim>\<open>_resolving\<close> as it found it, and only adds: instances to registrations that
  have none and are not being created, and objects to the heap.
\<close>

definition reg_evolves :: "string list \<Rightarrow> registration \<Rightarrow> registration \<Rightarrow> bool" where
  "reg_evolves resolving r r' \<longleftrightarrow>
     rg_impl r' = rg_impl r \<and> rg_scope r' = rg_scope r \<and> rg_name r' = rg_name r \<and>
     (rg_instance r \<noteq> INone \<or> rg_impl r \<in> set resolving \<longrightarrow> rg_instance r' = rg_instance r)"

definition obj_evolves :: "obj \<Rightarrow> obj \<Rightarrow> bool" where
  "obj_evolves x x' \<longleftrightarrow> ob_class x' = ob_class x \<and> ob_kwargs x' = ob_kwargs x"

definition evolves :: "'w container \<Rightarrow> 'w container \<Rightarrow> bool" where
  "evolves s s' \<longleftrightarrow>
     ct_registrations s' = ct_registrations s \<and> ct_named s' = ct_named s \<and> ct_bindings s' = ct_bindings s \<and>
     ct_resolving s' = ct_resolving s \<and> length (ct_store s') = length (ct_store s) \<and>
     (\<forall>i < length (ct_store s). reg_evolves (ct_resolving s) (ct_store s ! i) (ct_store s' ! i)) \<and>
     length (ct_heap s) \<le> length (ct_heap s') \<and>
     (\<forall>a < length (ct_heap s). obj_evolves (ct_heap s ! a) (ct_heap s' ! a)) \<and>
     (ct_request s' = None \<longleftrightarrow> ct_request s = None)"

lemma reg_evolves_refl [simp]: "reg_evolves rs r r" and obj_evolves_refl [simp]: "obj_evolves x x"
  by (simp_all add: reg_evolves_def obj_evolves_def)

lemma reg_evolves_trans: "\<lbrakk>reg_evolves rs r1 r2; reg_evolves rs r2 r3\<rbrakk> \<Longrightarrow> reg_evolves rs r1 r3"
  by (auto simp: reg_evolves_def)

lemma obj_evolves_trans: "\<lbrakk>obj_evolves x1 x2; obj_evolves x2 x3\<rbrakk> \<Longrightarrow> obj_evolves x1 x3"
  by (simp add: obj_evolves_def)

lemma evolves_refl [simp, intro]: "evolves s s"
  by (simp add: evolves_def)

lemma evolves_trans [trans]:
  assumes "evolves s1 s2" "evolves s2 s3"
  shows "evolves s1 s3"
proof -
  have "reg_evolves (ct_resolving s1) (ct_store s1 ! i) (ct_store s3 ! i)" if "i < length (ct_store s1)" for i
    using assms that by (auto simp: evolves_def intro: reg_evolves_trans)
  moreover have "obj_evolves (ct_heap s1 ! a) (ct_heap s3 ! a)" if "a < length (ct_heap s1)" for a
  proof (rule obj_evolves_trans)
    show "obj_evolves (ct_heap s1 ! a) (ct_heap s2 ! a)" using assms(1) that unfolding evolves_def by blast
    have "a < length (ct_heap s2)" using assms(1) that unfolding evolves_def by linarith
    then show "obj_evolves (ct_heap s2 ! a) (ct_heap s3 ! a)" using assms(2) unfolding evolves_def by blast
  qed
  moreover have "length (ct_heap s1) \<le> length (ct_heap s3)" using assms unfolding evolves_def by linarith
  ultimately show ?thesis using assms by (auto simp: evolves_def)
qed

lemma evolvesD:
  assumes "evolves s s'"
  shows "ct_registrations s' = ct_registrations s" "ct_named s' = ct_named s" "ct_bindings s' = ct_bindings s"
    "ct_resolving s' = ct_resolving s" "length (ct_store s') = length (ct_store s)"
    "i < length (ct_store s) \<Longrightarrow> rg_impl (ct_store s' ! i) = rg_impl (ct_store s ! i)"
    "i < length (ct_store s) \<Longrightarrow> rg_scope (ct_store s' ! i) = rg_scope (ct_store s ! i)"
    "\<lbrakk>i < length (ct_store s); rg_instance (ct_store s ! i) \<noteq> INone\<rbrakk> \<Longrightarrow> rg_instance (ct_store s' ! i) = rg_instance (ct_store s ! i)"
    "\<lbrakk>i < length (ct_store s); rg_impl (ct_store s ! i) \<in> set (ct_resolving s)\<rbrakk> \<Longrightarrow>
       rg_instance (ct_store s' ! i) = rg_instance (ct_store s ! i)"
    "length (ct_heap s) \<le> length (ct_heap s')"
    "a < length (ct_heap s) \<Longrightarrow> ob_class (ct_heap s' ! a) = ob_class (ct_heap s ! a)"
    "a < length (ct_heap s) \<Longrightarrow> ob_kwargs (ct_heap s' ! a) = ob_kwargs (ct_heap s ! a)"
    "ct_request s' = None \<longleftrightarrow> ct_request s = None"
  using assms by (auto simp: evolves_def reg_evolves_def obj_evolves_def)

lemma evolves_metrics [simp]: "evolves s (ensure_metrics cls f s)"
  by (simp add: evolves_def ensure_metrics_def)

lemma evolves_record_creation [simp]: "evolves s (record_creation env cls start s)"
  by (simp add: record_creation_def)

lemma evolves_count [simp]: "evolves s (count_resolution cls s)"
  by (simp add: count_resolution_def)

lemma evolves_set_attr [simp]: "evolves s (set_attr a name v s)"
  by (cases "a < length (ct_heap s)") (auto simp: evolves_def obj_evolves_def set_attr_def nth_list_update)

lemma evolves_set_request [simp]: "evolves s (set_request key v s)"
  by (simp add: evolves_def set_request_def)

lemma evolves_set_instance:
  assumes "evolves s s'" "rg_instance (ct_store s ! rid) = INone" "rg_impl (ct_store s ! rid) \<notin> set (ct_resolving s)"
  shows "evolves s (set_instance rid v s')"
  using assms by (cases "rid < length (ct_store s)") (auto simp: evolves_def reg_evolves_def set_instance_def nth_list_update)

lemma evolves_pop:
  assumes "evolves (s\<lparr>ct_resolving := ct_resolving s @ [cls]\<rparr>) s'" "cls \<notin> set (ct_resolving s)"
  shows "evolves s (s'\<lparr>ct_resolving := removeAll cls (ct_resolving s')\<rparr>)"
  using assms by (auto simp: evolves_def reg_evolves_def)

text \<open>A computation returns and evolves the container.\<close>

definition runs :: "('w, 'a) comp \<Rightarrow> 'w container \<Rightarrow> bool" where
  "runs m s \<longleftrightarrow> (\<exists>r s'. m s = Some (r, s') \<and> evolves s s')"

lemma runsE:
  assumes "runs m s"
  obtains r s' where "m s = Some (r, s')" "evolves s s'"
  using assms by (auto simp: runs_def)

lemma runs_ret [simp, runs_intros]: "runs (ret v) s" and runs_raise [simp, runs_intros]: "runs (raise_exc e) s"
  by (simp_all add: runs_def ret_def raise_exc_def)

lemma runs_gets [runs_intros]: "runs (f s) s \<Longrightarrow> runs (gets f) s"
  by (simp add: runs_def gets_def)

lemma runs_modify [runs_intros]: "evolves s (f s) \<Longrightarrow> runs (modify f) s"
  by (simp add: runs_def modify_def)

lemma runs_bnd [runs_intros]:
  assumes "runs m s" "\<And>v s'. evolves s s' \<Longrightarrow> m s = Some (Inr v, s') \<Longrightarrow> runs (f v) s'"
  shows "runs (bnd m f) s"
proof -
  obtain r s' where m: "m s = Some (r, s')" "evolves s s'" using assms(1) by (rule runsE)
  show ?thesis
  proof (cases r)
    case (Inr v)
    from assms(2) [OF m(2)] m(1) Inr obtain r'' s'' where "f v s' = Some (r'', s'')" "evolves s' s''"
      unfolding runs_def by blast
    with m Inr show ?thesis unfolding runs_def by (auto simp: bnd_def intro: evolves_trans)
  qed (use m in \<open>simp add: runs_def bnd_def\<close>)
qed

lemma runs_except [runs_intros]:
  assumes "runs m s" "\<And>s'. evolves s s' \<Longrightarrow> runs handler s'"
  shows "runs (except_missing m handler) s"
proof -
  obtain r s' where m: "m s = Some (r, s')" "evolves s s'" using assms(1) by (rule runsE)
  obtain r'' s'' where "handler s' = Some (r'', s'')" "evolves s' s''" using assms(2) [OF m(2)] by (rule runsE)
  with m show ?thesis unfolding runs_def by (cases r) (auto simp: except_missing_def intro: evolves_trans)
qed

section \<open>Resolution returns\<close>

text \<open>Every number in the dictionaries is that of a registration object.\<close>

definition refs_ok :: "'w container \<Rightarrow> bool" where
  "refs_ok s \<longleftrightarrow>
     (\<forall>(k, i) \<in> set (ct_registrations s). i < length (ct_store s)) \<and> (\<forall>(k, i) \<in> set (ct_named s). i < length (ct_store s))"

lemma refs_okD:
  assumes "refs_ok s"
  shows "dget (ct_registrations s) c = Some i \<Longrightarrow> i < length (ct_store s)" "dget (ct_named s) n = Some i \<Longrightarrow> i < length (ct_store s)"
  using assms map_of_SomeD unfolding refs_ok_def by fastforce+

lemma refs_ok_evolves: "\<lbrakk>refs_ok s; evolves s s'\<rbrakk> \<Longrightarrow> refs_ok s'"
  by (simp add: refs_ok_def evolves_def)

lemma refs_ok_new [simp]: "refs_ok (new_container w)"
  by (simp add: refs_ok_def new_container_def)

lemma set_dput: "e \<in> set (dput k v d) \<Longrightarrow> e = (k, v) \<or> e \<in> set d"
  using dput_all [of d "\<lambda>e'. e' = (k, v) \<or> e' \<in> set d" k v] by blast

lemma refs_ok_register [simp]: "refs_ok s \<Longrightarrow> refs_ok (register env cls sc name s)"
  unfolding refs_ok_def register_def Let_def by (fastforce dest: set_dput split: if_splits)

lemma refs_ok_bind [simp]: "refs_ok s \<Longrightarrow> refs_ok (bind_type i c s)"
  by (simp add: refs_ok_def bind_type_def Let_def)

text \<open>The classes that are registered and not being created, which bound the depth of the recursion.\<close>

definition creatable :: "'w container \<Rightarrow> string set" where
  "creatable s = rg_impl ` set (ct_store s) - set (ct_resolving s)"

definition deep_enough :: "nat \<Rightarrow> 'w container \<Rightarrow> bool" where
  "deep_enough n s \<longleftrightarrow> refs_ok s \<and> card (creatable s) < n"

lemma impls_evolve: "evolves s s' \<Longrightarrow> rg_impl ` set (ct_store s') = rg_impl ` set (ct_store s)"
  unfolding evolves_def reg_evolves_def set_conv_nth by (auto simp: image_def)

lemma deep_enough_evolves: "\<lbrakk>deep_enough n s; evolves s s'\<rbrakk> \<Longrightarrow> deep_enough n s'"
  using refs_ok_evolves [of s s'] impls_evolve [of s s'] by (simp add: deep_enough_def creatable_def evolves_def)

lemma deep_enough_push:
  assumes "deep_enough (Suc n) s" "rid < length (ct_store s)" "rg_impl (ct_store s ! rid) \<notin> set (ct_resolving s)"
  shows "deep_enough n (s\<lparr>ct_resolving := ct_resolving s @ [rg_impl (ct_store s ! rid)]\<rparr>)"
proof -
  let ?c = "rg_impl (ct_store s ! rid)"
  have "creatable (s\<lparr>ct_resolving := ct_resolving s @ [?c]\<rparr>) = creatable s - {?c}" by (auto simp: creatable_def)
  moreover have "?c \<in> creatable s" "finite (creatable s)" using assms(2,3) by (simp_all add: creatable_def)
  ultimately have "Suc (card (creatable (s\<lparr>ct_resolving := ct_resolving s @ [?c]\<rparr>))) = card (creatable s)"
    by (metis card_Suc_Diff1)
  with assms(1) show ?thesis by (simp add: deep_enough_def refs_ok_def)
qed

lemma deep_enough_start: "refs_ok s \<Longrightarrow> deep_enough (length (ct_store s) + 1) s"
proof -
  have "card (creatable s) \<le> card (rg_impl ` set (ct_store s))" by (rule card_mono) (auto simp: creatable_def)
  also have "\<dots> \<le> length (ct_store s)" by (meson card_image_le card_length finite_set le_trans)
  finally show "refs_ok s \<Longrightarrow> ?thesis" by (simp add: deep_enough_def)
qed

text \<open>The rules for each operation: \<open>res\<close> runs on every registration of a container that satisfies \<open>deep_enough n\<close>.\<close>

definition resolves :: "nat \<Rightarrow> (nat \<Rightarrow> ('w, inj) comp) \<Rightarrow> bool" where
  "resolves n res \<longleftrightarrow> (\<forall>s rid. deep_enough n s \<longrightarrow> rid < length (ct_store s) \<longrightarrow> runs (res rid) s)"

lemma resolvesD: "\<lbrakk>resolves n res; deep_enough n s; rid < length (ct_store s)\<rbrakk> \<Longrightarrow> runs (res rid) s"
  by (simp add: resolves_def)

lemma deep_refs: "deep_enough n s \<Longrightarrow> refs_ok s"
  by (simp add: deep_enough_def)

lemma deep_rids:
  "\<lbrakk>deep_enough n s; dget (ct_registrations s) c = Some i\<rbrakk> \<Longrightarrow> i < length (ct_store s)"
  "\<lbrakk>deep_enough n s; dget (ct_named s) name = Some i\<rbrakk> \<Longrightarrow> i < length (ct_store s)"
  using refs_okD deep_refs by blast+

lemma runs_resolve_impl [runs_intros]: "\<lbrakk>resolves n res; deep_enough n s\<rbrakk> \<Longrightarrow> runs (resolve_impl res impl) s"
  unfolding resolve_impl_def
  by (auto intro!: runs_gets split: option.splits) (meson resolvesD deep_rids)

lemma runs_resolve_type [runs_intros]:
  assumes "resolves n res" "deep_enough n s"
  shows "runs (resolve_type res env t) s"
proof -
  have "runs (res rid) s" if "direct_registration env s t = Some rid" for rid
    using that assms refs_okD(1) [OF deep_refs [OF assms(2)]]
    by (auto simp: direct_registration_def hint_key_def intro: resolvesD split: ptype.splits)
  then show ?thesis unfolding resolve_type_def
    using runs_resolve_impl [OF assms] by (auto intro!: runs_gets split: option.splits list.splits)
qed

lemma runs_resolve_name [runs_intros]: "\<lbrakk>resolves n res; deep_enough n s\<rbrakk> \<Longrightarrow> runs (resolve_name res name) s"
  unfolding resolve_name_def
  by (auto intro!: runs_gets split: option.splits) (meson resolvesD deep_rids)

lemma runs_resolve_impls: "\<lbrakk>resolves n res; deep_enough n s\<rbrakk> \<Longrightarrow> runs (resolve_impls res impls) s"
  by (induction impls arbitrary: s) (auto intro!: runs_bnd intro: runs_resolve_impl deep_enough_evolves)

lemma runs_resolve_every [runs_intros]: "\<lbrakk>resolves n res; deep_enough n s\<rbrakk> \<Longrightarrow> runs (resolve_every res env t) s"
  by (simp add: resolve_every_def runs_gets runs_resolve_impls)

lemma runs_resolve_param [runs_intros]:
  assumes "resolves n res" "deep_enough n s"
  shows "runs (resolve_param res env t) s"
  using assms
  by (induction res env t rule: resolve_param.induct)
    (auto intro!: runs_bnd runs_except intro: runs_resolve_type runs_resolve_name runs_resolve_every split: option.split list.split)

lemma runs_build_kwargs [runs_intros]:
  assumes "resolves n res" "deep_enough n s"
  shows "runs (build_kwargs res env cls ps kwargs) s"
  using assms(2)
proof (induction ps arbitrary: kwargs s)
  case (Cons p ps)
  then show ?case using assms(1)
    by (auto intro!: runs_bnd runs_except runs_gets intro: runs_resolve_param deep_enough_evolves)
qed simp

lemma runs_call_class [runs_intros]: "runs (call_class env cls kwargs) s"
proof -
  obtain r w where "ce_construct env cls kwargs (ct_world s) = (r, w)" by fastforce
  then show ?thesis by (cases r) (auto simp: runs_def call_class_def evolves_def nth_append)
qed

lemma runs_construct [runs_intros]: "\<lbrakk>resolves n res; deep_enough n s\<rbrakk> \<Longrightarrow> runs (construct res env cls) s"
  unfolding construct_def by (auto intro!: runs_bnd intro: runs_call_class runs_build_kwargs split: option.split sum.split)

lemma runs_config_value [runs_intros]: "runs (config_value env cls attr e) s"
  unfolding config_value_def Let_def by (auto intro!: runs_gets split: option.split sum.split)

lemma runs_field_value [runs_intros]: "\<lbrakk>resolves n res; deep_enough n s\<rbrakk> \<Longrightarrow> runs (field_value res env cls attr t q req) s"
  unfolding field_value_def
  by (auto intro!: runs_except intro: runs_resolve_name runs_resolve_param runs_resolve_type
      split: option.split list.split ptype.split)

lemma runs_inject_fields:
  assumes "resolves n res" "deep_enough n s"
  shows "runs (inject_fields res env cls a fs) s"
  using assms(2)
proof (induction fs arbitrary: s)
  case (Cons f fs)
  obtain attr t d where f: "f = (attr, t, d)" by (cases f)
  show ?case using Cons assms(1)
    by (cases d) (auto simp: f intro!: runs_bnd intro: runs_config_value runs_field_value runs_modify deep_enough_evolves)
qed simp

lemma runs_inject [runs_intros]: "\<lbrakk>resolves n res; deep_enough n s\<rbrakk> \<Longrightarrow> runs (inject_autowired_fields res env cls a) s"
  by (simp add: inject_autowired_fields_def runs_inject_fields split: option.split)

lemma runs_create_body: "\<lbrakk>resolves n res; deep_enough n s\<rbrakk> \<Longrightarrow> runs (create_body res env cls) s"
  unfolding create_body_def
  by (auto intro!: runs_gets runs_bnd runs_modify intro: runs_construct runs_inject deep_enough_evolves)

lemma runs_create_instance:
  assumes "resolves n res" "deep_enough (Suc n) s" "rid < length (ct_store s)"
  shows "runs (create_instance res env rid) s"
proof (cases "rg_impl (ct_store s ! rid) \<in> set (ct_resolving s)")
  case False
  let ?c = "rg_impl (ct_store s ! rid)"
  from runs_create_body [OF assms(1) deep_enough_push [OF assms(2,3) False], of env ?c]
  obtain r s' where "create_body res env ?c (s\<lparr>ct_resolving := ct_resolving s @ [?c]\<rparr>) = Some (r, s')"
    "evolves (s\<lparr>ct_resolving := ct_resolving s @ [?c]\<rparr>) s'" by (rule runsE)
  with evolves_pop [OF this(2) False] show ?thesis using False by (simp add: runs_def create_instance_def Let_def)
qed (simp add: runs_def create_instance_def Let_def raise_exc_def)

text \<open>An instance that was created: the class was not being created before.\<close>

lemma create_instance_ok:
  assumes "create_instance res env rid s = Some (Inr v, s')"
  shows "rg_impl (ct_store s ! rid) \<notin> set (ct_resolving s)"
  using assms by (auto simp: create_instance_def Let_def raise_exc_def split: if_splits)

lemma runs_request_scoped:
  assumes "resolves n res" "deep_enough (Suc n) s" "rid < length (ct_store s)"
  shows "runs (resolve_request_scoped res env rid) s"
  unfolding resolve_request_scoped_def Let_def
  by (auto intro!: runs_gets runs_bnd runs_modify runs_create_instance [OF assms] split: option.split)

lemma runs_resolve_scoped:
  assumes "resolves n res" "deep_enough (Suc n) s" "rid < length (ct_store s)"
  shows "runs (resolve_scoped res env rid) s"
proof -
  let ?reg = "ct_store s ! rid"
  let ?counted = "\<lambda>v. bnd (modify (count_resolution (rg_impl ?reg))) (\<lambda>_. ret v)"
  have counted: "runs (?counted v) s'" for v and s' :: "'a container" by (intro runs_bnd runs_modify) simp_all
  have single: "runs (bnd (create_instance res env rid) (\<lambda>v. bnd (modify (set_instance rid v)) (\<lambda>_. ?counted v))) s"
    if none: "rg_instance ?reg = INone"
  proof -
    obtain r s' where c: "create_instance res env rid s = Some (r, s')" "evolves s s'"
      using runs_create_instance [OF assms] by (rule runsE)
    show ?thesis
    proof (cases r)
      case (Inr v)
      have "evolves s (set_instance rid v s')" using evolves_set_instance [OF c(2) none] create_instance_ok c(1) Inr by blast
      with c Inr show ?thesis
        by (auto simp: runs_def bnd_def modify_def ret_def intro: evolves_trans [OF _ evolves_count])
    qed (use c in \<open>simp add: runs_def bnd_def\<close>)
  qed
  show ?thesis unfolding resolve_scoped_def Let_def
    using counted single runs_create_instance [OF assms] runs_request_scoped [OF assms]
    by (auto intro!: runs_gets runs_bnd runs_modify split: scope.split)
qed

lemma resolves_registration: "resolves n (resolve_registration env n)"
proof (induction n)
  case (Suc n)
  show ?case using runs_resolve_scoped [OF Suc] by (simp add: resolves_def)
qed (simp add: resolves_def deep_enough_def)

lemma runs_resolver:
  assumes "refs_ok s" "\<And>res. resolves (length (ct_store s) + 1) res \<Longrightarrow> runs (f res) s"
  shows "runs (resolver env f) s"
  unfolding resolver_def by (rule runs_gets, rule assms(2), rule resolves_registration)

lemma entry_points_run:
  assumes "refs_ok s"
  shows "runs (resolve env t) s" "runs (resolve_by_name env name) s" "runs (resolve_all env t) s"
  unfolding resolve_def resolve_by_name_def resolve_all_def
  by (auto intro!: runs_resolver [OF assms] intro: runs_intros deep_enough_start [OF assms])

text \<open>
  Claim C26. Every resolution, by type, by name or of all implementations, returns, with a value or an exception, whatever cycles the dependencies
  have; it leaves \<^verbatim>\<open>_resolving\<close> and the registrations as they were and no instance is ever replaced.
\<close>

theorem resolve_total:
  assumes "refs_ok s"
  shows "(\<exists>r s'. resolve env t s = Some (r, s') \<and> evolves s s' \<and> refs_ok s') \<and>
         (\<exists>r s'. resolve_by_name env name s = Some (r, s') \<and> evolves s s' \<and> refs_ok s') \<and>
         (\<exists>r s'. resolve_all env t s = Some (r, s') \<and> evolves s s' \<and> refs_ok s')"
  using entry_points_run [OF assms] refs_ok_evolves [OF assms] unfolding runs_def by blast

section \<open>Singletons\<close>

text \<open>A sequence of resolutions; what each of them returns is dropped.\<close>

datatype request = ByType ptype | ByName string | AllOf ptype

definition run_request :: "'w cenv \<Rightarrow> request \<Rightarrow> 'w container \<Rightarrow> 'w container option" where
  "run_request env q s =
     (case q of
        ByType t \<Rightarrow> map_option snd (resolve env t s)
      | ByName n \<Rightarrow> map_option snd (resolve_by_name env n s)
      | AllOf t \<Rightarrow> map_option snd (resolve_all env t s))"

fun run_requests :: "'w cenv \<Rightarrow> request list \<Rightarrow> 'w container \<Rightarrow> 'w container option" where
  "run_requests env [] s = Some s"
| "run_requests env (q # qs) s = Option.bind (run_request env q s) (run_requests env qs)"

lemma run_request_evolves: "refs_ok s \<Longrightarrow> \<exists>s'. run_request env q s = Some s' \<and> evolves s s'"
  using entry_points_run [of s env] by (cases q) (fastforce simp: run_request_def runs_def)+

lemma run_requests_evolves:
  assumes "refs_ok s"
  shows "\<exists>s'. run_requests env qs s = Some s' \<and> evolves s s' \<and> refs_ok s'"
  using assms
proof (induction qs arbitrary: s)
  case (Cons q qs)
  from run_request_evolves [OF Cons.prems] obtain s' where s': "run_request env q s = Some s'" "evolves s s'" by blast
  from Cons.IH [OF refs_ok_evolves [OF Cons.prems s'(2)]] obtain s'' where
    "run_requests env qs s' = Some s''" "evolves s' s''" "refs_ok s''" by blast
  with s' show ?case by (auto intro: evolves_trans)
qed simp

lemma create_instance_IObj: "create_instance res env rid s = Some (Inr v, s') \<Longrightarrow> \<exists>a. v = IObj a"
  by (auto simp: create_instance_def create_body_def Let_def raise_exc_def gets_def bnd_def modify_def ret_def
      split: if_splits option.splits sum.splits prod.splits)

text \<open>A singleton that has its instance is answered with it; only its metrics change.\<close>

lemma resolve_scoped_existing:
  assumes "rg_scope (ct_store s ! rid) = SINGLETON" "rg_instance (ct_store s ! rid) = v" "v \<noteq> INone"
  shows "resolve_scoped res env rid s = Some (Inr v, count_resolution (rg_impl (ct_store s ! rid)) s)"
  using assms by (simp add: resolve_scoped_def gets_def bnd_def modify_def ret_def)

lemma resolve_scoped_stores:
  assumes "resolve_scoped res env rid s = Some (Inr v, s')" "rg_scope (ct_store s ! rid) = SINGLETON"
    and "resolves n res" "deep_enough (Suc n) s" "rid < length (ct_store s)"
  shows "v \<noteq> INone \<and> rg_instance (ct_store s' ! rid) = v"
proof (cases "rg_instance (ct_store s ! rid) = INone")
  case True
  obtain r s1 where c: "create_instance res env rid s = Some (r, s1)" "evolves s s1"
    using runs_create_instance [OF assms(3-5)] by (rule runsE)
  have "rid < length (ct_store s1)" using evolvesD(5) [OF c(2)] assms(5) by simp
  with assms(1,2) True c(1) show ?thesis
    by (cases r) (auto simp: resolve_scoped_def gets_def bnd_def modify_def ret_def set_instance_def count_resolution_def
        ensure_metrics_def dest: create_instance_IObj)
next
  case False
  with assms(1,2) show ?thesis
    by (auto simp: resolve_scoped_existing count_resolution_def ensure_metrics_def)
qed

text \<open>The registration a type resolves to.\<close>

definition target :: "'w cenv \<Rightarrow> 'w container \<Rightarrow> ptype \<Rightarrow> nat option" where
  "target env s t =
     (case direct_registration env s t of
        Some rid \<Rightarrow> Some rid
      | None \<Rightarrow>
          (case bound_impls env s t of
             [] \<Rightarrow> None
           | [impl] \<Rightarrow> dget (ct_registrations s) impl
           | impls \<Rightarrow>
               (case find (\<lambda>impl. ci_primary (ce_class env impl)) impls of
                  None \<Rightarrow> None | Some impl \<Rightarrow> dget (ct_registrations s) impl)))"

lemma resolve_type_target: "target env s t = Some rid \<Longrightarrow> resolve_type res env t s = res rid s"
  by (auto simp: target_def resolve_type_def resolve_impl_def gets_def split: option.splits list.splits)

lemma target_evolves: "evolves s s' \<Longrightarrow> target env s' t = target env s t"
  by (simp add: target_def direct_registration_def hint_key_def bound_impls_def evolves_def cong: ptype.case_cong list.case_cong option.case_cong)

lemma target_push [simp]: "target env (s\<lparr>ct_resolving := rs\<rparr>) t = target env s t"
  by (simp add: target_def direct_registration_def hint_key_def bound_impls_def cong: ptype.case_cong list.case_cong option.case_cong)

lemma target_valid: "\<lbrakk>refs_ok s; target env s t = Some rid\<rbrakk> \<Longrightarrow> rid < length (ct_store s)"
  by (auto simp: target_def direct_registration_def hint_key_def split: option.splits list.splits ptype.splits dest: refs_okD)

lemma resolve_unfold:
  "target env s t = Some rid \<Longrightarrow> resolve env t s = resolve_scoped (resolve_registration env (length (ct_store s))) env rid s"
  by (simp add: resolve_def resolver_def gets_def resolve_type_target)

text \<open>
  Claim C27. A singleton is one object: once resolving a type has returned it, the same object is returned after any sequence of resolutions, without a constructor running and with nothing but the count of resolutions
  changed, by every type that leads to the same registration.
\<close>

theorem singleton_identity:
  assumes "refs_ok s" "target env s t = Some rid" "rg_scope (ct_store s ! rid) = SINGLETON"
    and "resolve env t s = Some (Inr v, s1)" "run_requests env qs s1 = Some s2" "target env s t' = Some rid"
  shows "resolve env t' s2 = Some (Inr v, count_resolution (rg_impl (ct_store s ! rid)) s2)"
proof -
  note valid = target_valid [OF assms(1,2)]
  have e1: "evolves s s1" "refs_ok s1"
    using entry_points_run(1) [OF assms(1), of env t] assms(4) refs_ok_evolves [OF assms(1)] by (auto simp: runs_def)
  have e2: "evolves s1 s2" using run_requests_evolves [OF e1(2), of env qs] assms(5) by auto
  note e = evolves_trans [OF e1(1) e2]
  have v: "v \<noteq> INone" "rg_instance (ct_store s1 ! rid) = v"
    using resolve_scoped_stores [OF _ assms(3) resolves_registration _ valid] assms(4) deep_enough_start [OF assms(1)]
    by (simp_all add: resolve_unfold [OF assms(2)])
  have "rg_instance (ct_store s2 ! rid) = v" using evolvesD(8) [OF e2, of rid] evolvesD(5) [OF e1(1)] v valid by simp
  moreover have "rg_scope (ct_store s2 ! rid) = SINGLETON" "rg_impl (ct_store s2 ! rid) = rg_impl (ct_store s ! rid)"
    using evolvesD(6,7) [OF e valid] assms(3) by simp_all
  moreover have "target env s2 t' = Some rid" using target_evolves [OF e] assms(6) by simp
  ultimately show ?thesis using v(1) by (simp add: resolve_unfold resolve_scoped_existing)
qed

section \<open>Constructor injection\<close>

lemma registration_stores:
  assumes "resolve_registration env n rid s = Some (Inr v, s')" "rg_scope (ct_store s ! rid) = SINGLETON"
    and "deep_enough n s" "rid < length (ct_store s)"
  shows "v \<noteq> INone \<and> rg_instance (ct_store s' ! rid) = v"
proof (cases n)
  case (Suc m)
  with assms show ?thesis using resolve_scoped_stores [OF _ assms(2) resolves_registration] by simp
qed (use assms(3) in \<open>simp add: deep_enough_def\<close>)

text \<open>What a parameter of class type \<open>c\<close> must have been given: the one instance of the singleton, unless it has a default.\<close>

definition injected :: "'w cenv \<Rightarrow> 'w container \<Rightarrow> (string, inj) dict \<Rightarrow> param \<Rightarrow> bool" where
  "injected env s kwargs p \<longleftrightarrow>
     (\<forall>c rd. pm_type p = PClass c \<longrightarrow> target env s (PClass c) = Some rd \<longrightarrow> rg_scope (ct_store s ! rd) = SINGLETON \<longrightarrow>
        (case dget kwargs (pm_name p) of
           None \<Rightarrow> pm_default p
         | Some v \<Rightarrow> v \<noteq> INone \<and> rg_instance (ct_store s ! rd) = v))"

lemma injected_evolves:
  assumes "injected env s kwargs p" "evolves s s'" "refs_ok s"
  shows "injected env s' kwargs p"
  unfolding injected_def
proof (intro allI impI)
  fix c rd
  assume c: "pm_type p = PClass c" "target env s' (PClass c) = Some rd" "rg_scope (ct_store s' ! rd) = SINGLETON"
  have t: "target env s (PClass c) = Some rd" using target_evolves [OF assms(2)] c(2) by simp
  note rd = target_valid [OF assms(3) t]
  have "rg_scope (ct_store s ! rd) = SINGLETON" using evolvesD(7) [OF assms(2) rd] c(3) by simp
  with assms(1) c(1) t have "case dget kwargs (pm_name p) of None \<Rightarrow> pm_default p | Some v \<Rightarrow> v \<noteq> INone \<and> rg_instance (ct_store s ! rd) = v"
    unfolding injected_def by blast
  then show "case dget kwargs (pm_name p) of None \<Rightarrow> pm_default p | Some v \<Rightarrow> v \<noteq> INone \<and> rg_instance (ct_store s' ! rd) = v"
    using evolvesD(8) [OF assms(2) rd] by (auto split: option.splits)
qed

lemma injected_push [simp]: "injected env (s\<lparr>ct_resolving := rs\<rparr>) kwargs p = injected env s kwargs p"
  by (simp add: injected_def cong: option.case_cong)

lemma injected_other: "n \<noteq> pm_name p \<Longrightarrow> injected env s (dput n v kwargs) p = injected env s kwargs p"
  by (simp add: injected_def)

lemma build_kwargs_injects:
  assumes "build_kwargs (resolve_registration env n) env cls ps kwargs s = Some (Inr kwargs', s')" "deep_enough n s"
    and "distinct (map pm_name ps)" "set (map pm_name ps) \<inter> set (dkeys kwargs) = {}"
    and "\<forall>q \<in> Q. injected env s kwargs q \<and> pm_name q \<notin> set (map pm_name ps)"
  shows "\<forall>q \<in> Q \<union> set ps. injected env s' kwargs' q"
  using assms
proof (induction ps arbitrary: kwargs s Q)
  case Nil
  then show ?case by (simp add: ret_def)
next
  case (Cons p ps)
  let ?res = "resolve_registration env n"
  note refs = deep_refs [OF Cons.prems(2)]
  have "runs (resolve_param ?res env (pm_type p)) s" by (rule runs_resolve_param [OF resolves_registration Cons.prems(2)])
  then obtain r s1 where r: "resolve_param ?res env (pm_type p) s = Some (r, s1)" and e: "evolves s s1" by (rule runsE)
  note deep1 = deep_enough_evolves [OF Cons.prems(2) e]
  have keep: "injected env s1 kwargs q" if "q \<in> Q" for q using injected_evolves [OF _ e refs] Cons.prems(5) that by blast
  have step: ?case if "build_kwargs ?res env cls ps kw s1 = Some (Inr kwargs', s')" "injected env s1 kw p"
      "\<forall>q \<in> Q. injected env s1 kw q" "set (dkeys kw) \<subseteq> insert (pm_name p) (set (dkeys kwargs))" for kw
  proof -
    have "set (map pm_name ps) \<inter> set (dkeys kw) \<subseteq> set (map pm_name ps) \<inter> insert (pm_name p) (set (dkeys kwargs))"
      using that(4) by blast
    also have "\<dots> = {}" using Cons.prems(3,4) by auto
    finally have "set (map pm_name ps) \<inter> set (dkeys kw) = {}" by blast
    then have "\<forall>q \<in> insert p Q \<union> set ps. injected env s' kwargs' q"
      by (intro Cons.IH [OF that(1) deep1]) (use Cons.prems(3,5) that in auto)
    then show ?thesis by auto
  qed
  show ?case
  proof (cases r)
    case (Inr v)
    have "injected env s1 (dput (pm_name p) v kwargs) p"
      unfolding injected_def
    proof (intro allI impI)
      fix c rd
      assume c: "pm_type p = PClass c" "target env s1 (PClass c) = Some rd" "rg_scope (ct_store s1 ! rd) = SINGLETON"
      have t: "target env s (PClass c) = Some rd" using target_evolves [OF e] c(2) by simp
      note rd = target_valid [OF refs t]
      have "?res rd s = Some (Inr v, s1)" using r Inr c(1) resolve_type_target [OF t, of ?res] by simp
      moreover have "rg_scope (ct_store s ! rd) = SINGLETON" using evolvesD(7) [OF e rd] c(3) by simp
      ultimately have "v \<noteq> INone \<and> rg_instance (ct_store s1 ! rd) = v" using registration_stores Cons.prems(2) rd by blast
      then show "case dget (dput (pm_name p) v kwargs) (pm_name p) of None \<Rightarrow> pm_default p
          | Some v \<Rightarrow> v \<noteq> INone \<and> rg_instance (ct_store s1 ! rd) = v" by simp
    qed
    moreover have "build_kwargs ?res env cls ps (dput (pm_name p) v kwargs) s1 = Some (Inr kwargs', s')"
      using Cons.prems(1) r Inr by (simp add: bnd_def except_missing_def ret_def)
    ultimately show ?thesis using keep Cons.prems(5) by (intro step) (auto simp: injected_other dest: set_dput)
  next
    case (Inl e)
    from Cons.prems(1) r Inl have default: "pm_default p" "build_kwargs ?res env cls ps kwargs s1 = Some (Inr kwargs', s')"
      by (auto simp: bnd_def except_missing_def ret_def gets_def raise_exc_def split: if_splits)
    have "pm_name p \<notin> set (dkeys kwargs)" using Cons.prems(4) by auto
    then have "injected env s1 kwargs p" using default(1) by (auto simp: injected_def dest!: dget_in_keys split: option.splits)
    with keep default(2) show ?thesis by (intro step) auto
  qed
qed

lemma create_instance_object:
  assumes "create_instance (resolve_registration env n) env rid s = Some (Inr v, s')"
    and "deep_enough (Suc n) s" "rid < length (ct_store s)"
    and "ci_init (ce_class env (rg_impl (ct_store s ! rid))) = Some (Inr params)" "distinct (map pm_name params)"
  shows "\<exists>a. v = IObj a \<and> length (ct_heap s) \<le> a \<and> a < length (ct_heap s') \<and>
     ob_class (ct_heap s' ! a) = rg_impl (ct_store s ! rid) \<and> (\<forall>p \<in> set params. injected env s' (ob_kwargs (ct_heap s' ! a)) p)"
proof -
  let ?res = "resolve_registration env n"
  let ?c = "rg_impl (ct_store s ! rid)"
  let ?s0 = "s\<lparr>ct_resolving := ct_resolving s @ [?c]\<rparr>"
  note new = create_instance_ok [OF assms(1)]
  note deep0 = deep_enough_push [OF assms(2,3) new]
  obtain s2 where body: "create_body ?res env ?c ?s0 = Some (Inr v, s2)" "s' = s2\<lparr>ct_resolving := removeAll ?c (ct_resolving s2)\<rparr>"
    using assms(1) new by (auto simp: create_instance_def Let_def split: option.splits)
  from body(1) obtain a s1 where con: "construct ?res env ?c ?s0 = Some (Inr a, s1)"
    and "inject_autowired_fields ?res env ?c a s1 \<noteq> None" and rest: "bnd (inject_autowired_fields ?res env ?c a) (\<lambda>_.
      bnd (modify (record_creation env ?c (ce_perf_counter env (ct_world s)))) (\<lambda>_. ret (IObj a))) s1 = Some (Inr v, s2)"
    by (auto simp: create_body_def gets_def bnd_def split: option.splits sum.splits prod.splits)
  from con assms(4) obtain kw sk where kw: "build_kwargs ?res env ?c params [] ?s0 = Some (Inr kw, sk)"
    and call: "call_class env ?c kw sk = Some (Inr a, s1)"
    by (auto simp: construct_def bnd_def split: option.splits sum.splits prod.splits)
  have ek: "evolves ?s0 sk"
    using runs_build_kwargs [OF resolves_registration deep0, of env env ?c params "[]"] kw by (auto simp: runs_def)
  have refs: "refs_ok sk" using refs_ok_evolves [OF deep_refs [OF deep0] ek] .
  have inj: "\<forall>p \<in> set params. injected env sk kw p"
    using build_kwargs_injects [OF kw deep0 assms(5), of "{}"] by simp
  obtain w where w: "a = length (ct_heap sk)"
    "s1 = sk\<lparr>ct_world := w, ct_heap := ct_heap sk @ [\<lparr>ob_class = ?c, ob_kwargs = kw, ob_attrs = []\<rparr>]\<rparr>"
    using call by (auto simp: call_class_def split: sum.splits prod.splits)
  have e1: "evolves sk s1" using runs_call_class [of env ?c kw sk] call by (auto simp: runs_def)
  have deep1: "deep_enough n s1" using deep_enough_evolves [OF deep_enough_evolves [OF deep0 ek] e1] .
  have "runs (bnd (inject_autowired_fields ?res env ?c a) (\<lambda>_.
      bnd (modify (record_creation env ?c (ce_perf_counter env (ct_world s)))) (\<lambda>_. ret (IObj a)))) s1"
    by (intro runs_bnd runs_modify runs_inject [OF resolves_registration deep1]) simp_all
  then have e2: "evolves s1 s2" using rest by (auto simp: runs_def)
  have v: "v = IObj a" using rest by (auto simp: bnd_def modify_def ret_def split: option.splits sum.splits prod.splits)
  have heap: "a < length (ct_heap s1)" "ct_heap s1 ! a = \<lparr>ob_class = ?c, ob_kwargs = kw, ob_attrs = []\<rparr>"
    using w by simp_all
  have "length (ct_heap s) \<le> a" using evolvesD(10) [OF ek] w(1) by simp
  moreover have "a < length (ct_heap s2)" using evolvesD(10) [OF e2] heap(1) by simp
  moreover have "ob_class (ct_heap s2 ! a) = ?c" "ob_kwargs (ct_heap s2 ! a) = kw"
    using evolvesD(11,12) [OF e2 heap(1)] heap(2) by simp_all
  moreover have "\<forall>p \<in> set params. injected env s2 kw p"
    using inj injected_evolves [OF _ evolves_trans [OF e1 e2] refs] by blast
  ultimately show ?thesis using v body(2) by auto
qed

text \<open>
  Claim C28. Constructor injection: when a type is resolved for the first time, the result is a new object of the class that is registered, and every constructor parameter whose type leads to
  a singleton was given the one instance of it, the one that resolving the type of the parameter returns from then on, or nothing if it has a default.
\<close>

theorem constructor_injection_correct:
  assumes "refs_ok s" "target env s t = Some rid" "rg_scope (ct_store s ! rid) = SINGLETON" "rg_instance (ct_store s ! rid) = INone"
    and "ci_init (ce_class env (rg_impl (ct_store s ! rid))) = Some (Inr params)" "distinct (map pm_name params)"
    and "resolve env t s = Some (Inr v, s')"
  shows "\<exists>a. v = IObj a \<and> length (ct_heap s) \<le> a \<and> ob_class (ct_heap s' ! a) = rg_impl (ct_store s ! rid) \<and>
    (\<forall>p \<in> set params. \<forall>c rd. pm_type p = PClass c \<longrightarrow> target env s (PClass c) = Some rd \<longrightarrow> rg_scope (ct_store s ! rd) = SINGLETON \<longrightarrow>
       (case dget (ob_kwargs (ct_heap s' ! a)) (pm_name p) of
          None \<Rightarrow> pm_default p
        | Some w \<Rightarrow> map_option fst (resolve env (PClass c) s') = Some (Inr w)))"
proof -
  let ?n = "length (ct_store s)"
  note valid = target_valid [OF assms(1,2)]
  have e: "evolves s s'" using entry_points_run(1) [OF assms(1), of env t] assms(7) by (auto simp: runs_def)
  from assms(3,4,7) obtain s1 where c: "create_instance (resolve_registration env ?n) env rid s = Some (Inr v, s1)"
    and s': "s' = count_resolution (rg_impl (ct_store s ! rid)) (set_instance rid v s1)"
    by (auto simp: resolve_unfold [OF assms(2)] resolve_scoped_def gets_def bnd_def modify_def ret_def
        split: option.splits prod.splits sum.splits)
  have deep: "deep_enough (Suc ?n) s" using deep_enough_start [OF assms(1)] by simp
  obtain a where a: "v = IObj a" "length (ct_heap s) \<le> a" "ob_class (ct_heap s1 ! a) = rg_impl (ct_store s ! rid)"
    "\<forall>p \<in> set params. injected env s1 (ob_kwargs (ct_heap s1 ! a)) p"
    using create_instance_object [OF c deep valid assms(5,6)] by blast
  have e1: "evolves s s1" using runs_create_instance [OF resolves_registration deep valid, of env env] c by (auto simp: runs_def)
  have heap: "ct_heap s' = ct_heap s1" by (simp add: s' count_resolution_def ensure_metrics_def set_instance_def)
  have "case dget (ob_kwargs (ct_heap s' ! a)) (pm_name p) of None \<Rightarrow> pm_default p
      | Some w \<Rightarrow> map_option fst (resolve env (PClass d) s') = Some (Inr w)"
    if p: "p \<in> set params" "pm_type p = PClass d" "target env s (PClass d) = Some rd" "rg_scope (ct_store s ! rd) = SINGLETON" for p d rd
  proof (cases "dget (ob_kwargs (ct_heap s1 ! a)) (pm_name p)")
    case None
    have "injected env s1 (ob_kwargs (ct_heap s1 ! a)) p" using a(4) p(1) by blast
    with None p target_evolves [OF e1] evolvesD(7) [OF e1 target_valid [OF assms(1) p(3)]] show ?thesis
      by (auto simp: injected_def heap)
  next
    case (Some w)
    note rd = target_valid [OF assms(1) p(3)]
    have "injected env s1 (ob_kwargs (ct_heap s1 ! a)) p" using a(4) p(1) by blast
    then have w: "w \<noteq> INone" "rg_instance (ct_store s1 ! rd) = w"
      using Some p target_evolves [OF e1] evolvesD(7) [OF e1 rd] by (auto simp: injected_def)
    have "rd \<noteq> rid"
    proof
      assume "rd = rid"
      moreover have "rg_instance (ct_store s1 ! rid) = INone"
      proof -
        let ?s0 = "s\<lparr>ct_resolving := ct_resolving s @ [rg_impl (ct_store s ! rid)]\<rparr>"
        note new = create_instance_ok [OF c]
        obtain s2 where "create_body (resolve_registration env ?n) env (rg_impl (ct_store s ! rid)) ?s0 = Some (Inr v, s2)"
          "s1 = s2\<lparr>ct_resolving := removeAll (rg_impl (ct_store s ! rid)) (ct_resolving s2)\<rparr>"
          using c new by (auto simp: create_instance_def Let_def split: option.splits)
        moreover from this(1) have "evolves ?s0 s2"
          using runs_create_body [OF resolves_registration deep_enough_push [OF deep valid new], of env env "rg_impl (ct_store s ! rid)"] by (auto simp: runs_def)
        ultimately show ?thesis using evolvesD(9) [of ?s0 s2 rid] valid assms(4) by simp
      qed
      ultimately show False using w by simp
    qed
    then have "rg_instance (ct_store s' ! rd) = w"
      using w(2) by (simp add: s' count_resolution_def ensure_metrics_def set_instance_def)
    moreover have "rg_scope (ct_store s' ! rd) = SINGLETON" using evolvesD(7) [OF e rd] p(4) by simp
    moreover have "target env s' (PClass d) = Some rd" using target_evolves [OF e] p(3) by simp
    ultimately show ?thesis using Some w(1) by (simp add: heap resolve_unfold resolve_scoped_existing)
  qed
  then show ?thesis using a(1-3) heap by auto
qed

section \<open>Circular dependencies\<close>

text \<open>The class a constructor needs first, and paths of such needs.\<close>

definition first_need :: "'w cenv \<Rightarrow> string \<Rightarrow> string option" where
  "first_need env c =
     (case ci_init (ce_class env c) of
        Some (Inr (p # _)) \<Rightarrow> (case pm_type p of PClass d \<Rightarrow> Some d | _ \<Rightarrow> None)
      | _ \<Rightarrow> None)"

fun need_path :: "'w cenv \<Rightarrow> string list \<Rightarrow> string \<Rightarrow> bool" where
  "need_path env [] d = False"
| "need_path env [c] d = (first_need env c = Some d)"
| "need_path env (c # c' # cs) d = (first_need env c = Some c' \<and> need_path env (c' # cs) d)"

text \<open>A class that is registered, not for the request scope, and has no instance yet.\<close>

definition pending :: "'w container \<Rightarrow> string \<Rightarrow> bool" where
  "pending s c \<longleftrightarrow>
     (case dget (ct_registrations s) c of
        None \<Rightarrow> False
      | Some rid \<Rightarrow> rg_impl (ct_store s ! rid) = c \<and> rg_scope (ct_store s ! rid) \<noteq> REQUEST \<and> rg_instance (ct_store s ! rid) = INone)"

lemma pending_push [simp]: "pending (s\<lparr>ct_resolving := rs\<rparr>) c = pending s c"
  by (simp add: pending_def split: option.split)

lemma cycle_not_caught: "\<not> missing_or_ambiguous (in_creation_error chain d)"
  by (simp add: missing_or_ambiguous_def caught_by_def isinstance_exc_def in_creation_error_def in_creation_def
      no_such_bean_def no_unique_bean_def bean_creation_def exc_mro.simps [of "UserExc _ _"]
      exc_mro.simps [of InfrastructureException] exc_mro.simps [of PyFlyException] exc_mro.simps [of ExceptionC])

lemma resolve_pending:
  assumes "pending s c" "create_instance (resolve_registration env n) env (the (dget (ct_registrations s) c)) s = Some (Inl e, s')"
  shows "resolve_type (resolve_registration env (Suc n)) env (PClass c) s = Some (Inl e, s')"
  using assms by (cases "rg_scope (ct_store s ! the (dget (ct_registrations s) c))")
    (auto simp: pending_def resolve_type_def direct_registration_def hint_key_def gets_def resolve_scoped_def bnd_def Let_def split: option.splits)

lemma create_fails_first:
  assumes "rg_impl (ct_store s ! rid) = c" "c \<notin> set (ct_resolving s)" "first_need env c = Some d"
    and "resolve_type res env (PClass d) (s\<lparr>ct_resolving := ct_resolving s @ [c]\<rparr>)
           = Some (Inl e, s\<lparr>ct_resolving := ct_resolving s @ [c]\<rparr>)"
    and "\<not> missing_or_ambiguous e"
  shows "create_instance res env rid s = Some (Inl e, s)"
proof -
  obtain p ps where p: "ci_init (ce_class env c) = Some (Inr (p # ps))" "pm_type p = PClass d"
    using assms(3) by (auto simp: first_need_def split: option.splits sum.splits list.splits ptype.splits)
  have "removeAll c (ct_resolving s @ [c]) = ct_resolving s" using assms(2) by simp
  with assms p show ?thesis
    by (simp add: create_instance_def Let_def create_body_def gets_def construct_def bnd_def except_missing_def)
qed

lemma cycle_found:
  assumes "need_path env cs d" "\<forall>c \<in> set cs. pending s c \<and> c \<notin> set (ct_resolving s)" "distinct cs"
    and "d \<in> set cs \<union> set (ct_resolving s)" "pending s d" "length cs < n"
  shows "resolve_type (resolve_registration env n) env (PClass (hd cs)) s = Some (Inl (in_creation_error (ct_resolving s @ cs) d), s)"
  using assms
proof (induction env cs d arbitrary: s n rule: need_path.induct)
  case (2 env c d)
  then obtain m where n: "n = Suc (Suc m)" by (cases n; cases "n - 1") auto
  let ?s0 = "s\<lparr>ct_resolving := ct_resolving s @ [c]\<rparr>"
  have "pending ?s0 d" "d \<in> set (ct_resolving ?s0)" using 2 by auto
  then have "create_instance (resolve_registration env m) env (the (dget (ct_registrations ?s0) d)) ?s0
      = Some (Inl (in_creation_error (ct_resolving ?s0) d), ?s0)"
    by (auto simp: create_instance_def raise_exc_def pending_def split: option.splits)
  from resolve_pending [OF \<open>pending ?s0 d\<close> this]
  have "resolve_type (resolve_registration env (Suc m)) env (PClass d) ?s0 = Some (Inl (in_creation_error (ct_resolving s @ [c]) d), ?s0)"
    by simp
  moreover have "rg_impl (ct_store s ! the (dget (ct_registrations s) c)) = c" using 2(2) by (auto simp: pending_def split: option.splits)
  ultimately have "create_instance (resolve_registration env (Suc m)) env (the (dget (ct_registrations s) c)) s
      = Some (Inl (in_creation_error (ct_resolving s @ [c]) d), s)"
    using 2(1,2) by (intro create_fails_first cycle_not_caught) auto
  from resolve_pending [OF _ this] 2(2) show ?case by (simp add: n)
next
  case (3 env c c' cs d)
  then obtain m where n: "n = Suc m" by (cases n) auto
  let ?s0 = "s\<lparr>ct_resolving := ct_resolving s @ [c]\<rparr>"
  have "resolve_type (resolve_registration env m) env (PClass (hd (c' # cs))) ?s0
      = Some (Inl (in_creation_error (ct_resolving ?s0 @ c' # cs) d), ?s0)"
    by (rule "3.IH") (use 3(2-7) n in auto)
  moreover have "rg_impl (ct_store s ! the (dget (ct_registrations s) c)) = c" using 3(3) by (auto simp: pending_def split: option.splits)
  ultimately have "create_instance (resolve_registration env m) env (the (dget (ct_registrations s) c)) s
      = Some (Inl (in_creation_error (ct_resolving s @ c # c' # cs) d), s)"
    using 3(2,3) by (intro create_fails_first cycle_not_caught) auto
  from resolve_pending [OF _ this] 3(3) show ?case by (simp add: n)
qed simp

text \<open>
  Circles through any parameters. While the classes of \<open>C\<close> have no instances, every computation of the container keeps it
  so and makes no object of theirs, if each class of \<open>C\<close> needs another one for its constructor.
\<close>

named_theorems barren_intros \<open>computations that make nothing of some classes\<close>

definition jammed :: "string set \<Rightarrow> 'w container \<Rightarrow> bool" where
  "jammed C s \<longleftrightarrow>
     (\<forall>c \<in> C. \<exists>rid. dget (ct_registrations s) c = Some rid \<and> rg_impl (ct_store s ! rid) = c) \<and>
     (\<forall>reg \<in> set (ct_store s). rg_impl reg \<in> C \<longrightarrow> rg_scope reg \<noteq> REQUEST \<and> rg_instance reg = INone)"

definition objects_of :: "string set \<Rightarrow> 'w container \<Rightarrow> string list" where
  "objects_of C s = filter (\<lambda>c. c \<in> C) (map ob_class (ct_heap s))"

definition hard_need :: "'w cenv \<Rightarrow> string \<Rightarrow> string \<Rightarrow> bool" where
  "hard_need env c d \<longleftrightarrow> (\<exists>ps. ci_init (ce_class env c) = Some (Inr ps) \<and> (\<exists>p \<in> set ps. pm_type p = PClass d \<and> \<not> pm_default p))"

definition stays_jammed :: "string set \<Rightarrow> 'w container \<Rightarrow> 'w container \<Rightarrow> bool" where
  "stays_jammed C s s' \<longleftrightarrow> (refs_ok s \<and> jammed C s \<longrightarrow>
     refs_ok s' \<and> jammed C s' \<and> objects_of C s' = objects_of C s \<and> map rg_impl (ct_store s') = map rg_impl (ct_store s))"

lemma stays_jammed_trans: "\<lbrakk>stays_jammed C s s'; stays_jammed C s' s''\<rbrakk> \<Longrightarrow> stays_jammed C s s''"
  by (simp add: stays_jammed_def)

definition barren :: "string set \<Rightarrow> ('w, 'a) comp \<Rightarrow> bool" where
  "barren C m \<longleftrightarrow> (\<forall>s r s'. m s = Some (r, s') \<longrightarrow> stays_jammed C s s')"

definition barren_resolver :: "string set \<Rightarrow> (nat \<Rightarrow> ('w, inj) comp) \<Rightarrow> bool" where
  "barren_resolver C res \<longleftrightarrow>
     (\<forall>rid s r s'. refs_ok s \<and> jammed C s \<longrightarrow> rid < length (ct_store s) \<longrightarrow> res rid s = Some (r, s') \<longrightarrow>
        stays_jammed C s s' \<and> (rg_impl (ct_store s ! rid) \<in> C \<longrightarrow> (\<exists>e. r = Inl e)))"

lemma barrenD: "\<lbrakk>barren C m; m s = Some (r, s')\<rbrakk> \<Longrightarrow> stays_jammed C s s'"
  by (simp add: barren_def)

lemma barren_ret [barren_intros]: "barren C (ret v)" and barren_raise [barren_intros]: "barren C (raise_exc e)"
  by (simp_all add: barren_def ret_def raise_exc_def stays_jammed_def)

lemma barren_gets [barren_intros]: "(\<And>s. barren C (f s)) \<Longrightarrow> barren C (gets f)"
  by (auto simp: barren_def gets_def)

lemma barren_bnd [barren_intros]:
  assumes "barren C m" "\<And>v. barren C (f v)"
  shows "barren C (bnd m f)"
  unfolding barren_def
proof (intro allI impI)
  fix s :: "'a container" and r s'
  assume *: "bnd m f s = Some (r, s')"
  then obtain r1 s1 where m: "m s = Some (r1, s1)" by (auto simp: bnd_def split: option.splits)
  show "stays_jammed C s s'"
  proof (cases r1)
    case (Inr v)
    with * m have "f v s1 = Some (r, s')" by (simp add: bnd_def)
    with barrenD [OF assms(1) m] barrenD [OF assms(2)] show ?thesis by (blast intro: stays_jammed_trans)
  qed (use * m barrenD [OF assms(1) m] in \<open>simp add: bnd_def\<close>)
qed

lemma barren_except [barren_intros]:
  assumes "barren C m" "barren C h"
  shows "barren C (except_missing m h)"
  unfolding barren_def
proof (intro allI impI)
  fix s :: "'a container" and r s'
  assume *: "except_missing m h s = Some (r, s')"
  then obtain r1 s1 where m: "m s = Some (r1, s1)" by (auto simp: except_missing_def split: option.splits)
  note m1 = barrenD [OF assms(1) m]
  show "stays_jammed C s s'"
  proof (cases "\<exists>e. r1 = Inl e \<and> missing_or_ambiguous e")
    case True
    with * m have "h s1 = Some (r, s')" by (auto simp: except_missing_def)
    with m1 barrenD [OF assms(2)] show ?thesis by (blast intro: stays_jammed_trans)
  next
    case False
    with * m have "s' = s1" by (cases r1) (auto simp: except_missing_def)
    with m1 show ?thesis by simp
  qed
qed

lemma barren_option [barren_intros]: "\<lbrakk>barren C m; \<And>x. barren C (f x)\<rbrakk> \<Longrightarrow> barren C (case v of None \<Rightarrow> m | Some x \<Rightarrow> f x)"
  and barren_sum [barren_intros]: "\<lbrakk>\<And>x. barren C (g x); \<And>y. barren C (h y)\<rbrakk> \<Longrightarrow> barren C (case w of Inl x \<Rightarrow> g x | Inr y \<Rightarrow> h y)"
  and barren_list [barren_intros]: "\<lbrakk>barren C m; \<And>x xs. barren C (k x xs)\<rbrakk> \<Longrightarrow> barren C (case l of [] \<Rightarrow> m | x # xs \<Rightarrow> k x xs)"
  and barren_if [barren_intros]: "\<lbrakk>barren C m; barren C n\<rbrakk> \<Longrightarrow> barren C (if b then m else n)"
  by (auto split: option.split sum.split list.split)

lemma barren_modify [barren_intros]:
  "(\<And>s. ct_registrations (f s) = ct_registrations s \<and> ct_store (f s) = ct_store s \<and> ct_named (f s) = ct_named s \<and>
     map ob_class (ct_heap (f s)) = map ob_class (ct_heap s)) \<Longrightarrow> barren C (modify f)"
  by (simp add: barren_def modify_def stays_jammed_def jammed_def objects_of_def refs_ok_def)

lemma barren_set_attr [barren_intros]: "barren C (modify (set_attr a attr v))"
proof (rule barren_modify)
  fix s :: "'a container"
  have "(map ob_class xs)[a := ob_class (xs ! a)] = map ob_class xs" for xs
    by (cases "a < length xs") (simp_all flip: map_update)
  then show "ct_registrations (set_attr a attr v s) = ct_registrations s \<and> ct_store (set_attr a attr v s) = ct_store s \<and>
      ct_named (set_attr a attr v s) = ct_named s \<and> map ob_class (ct_heap (set_attr a attr v s)) = map ob_class (ct_heap s)"
    by (simp add: set_attr_def map_update)
qed

lemma barren_resolve:
  assumes "barren_resolver C res"
  shows "(\<And>s r s'. refs_ok s \<Longrightarrow> rid < length (ct_store s) \<Longrightarrow> res rid s = Some (r, s') \<Longrightarrow> stays_jammed C s s')"
  using assms unfolding barren_resolver_def by (metis stays_jammed_def)

lemma barren_lookup:
  assumes "barren_resolver C res" "\<And>s. barren C (n s)"
    and "\<And>s rid. refs_ok s \<Longrightarrow> look s = Some rid \<Longrightarrow> rid < length (ct_store s)"
  shows "barren C (gets (\<lambda>s. case look s of None \<Rightarrow> n s | Some rid \<Rightarrow> res rid))"
  unfolding barren_def gets_def
proof (intro allI impI)
  fix s :: "'a container" and r s'
  assume *: "(case look s of None \<Rightarrow> n s | Some rid \<Rightarrow> res rid) s = Some (r, s')"
  show "stays_jammed C s s'"
  proof (cases "refs_ok s")
    case True
    with * assms show ?thesis by (cases "look s") (auto intro: barrenD barren_resolve)
  qed (simp add: stays_jammed_def)
qed

lemma barren_resolve_impl [barren_intros]: "barren_resolver C res \<Longrightarrow> barren C (resolve_impl res impl)"
  unfolding resolve_impl_def by (rule barren_lookup) (auto intro: barren_intros refs_okD)

lemma barren_resolve_name [barren_intros]: "barren_resolver C res \<Longrightarrow> barren C (resolve_name res name)"
  unfolding resolve_name_def by (rule barren_lookup) (auto intro: barren_intros refs_okD)

lemma barren_resolve_type [barren_intros]: "barren_resolver C res \<Longrightarrow> barren C (resolve_type res env t)"
  unfolding resolve_type_def
  by (rule barren_lookup) (auto intro!: barren_intros intro: refs_okD simp: direct_registration_def)

lemma barren_resolve_every [barren_intros]: "barren_resolver C res \<Longrightarrow> barren C (resolve_every res env t)"
proof -
  assume res: "barren_resolver C res"
  have "barren C (resolve_impls res impls)" for impls
    by (induction impls) (auto intro!: barren_intros res)
  then show ?thesis unfolding resolve_every_def by (intro barren_intros)
qed

lemma barren_resolve_param [barren_intros]: "barren_resolver C res \<Longrightarrow> barren C (resolve_param res env t)"
  by (induction res env t rule: resolve_param.induct) (auto intro!: barren_intros split: option.split)

lemma barren_build_kwargs [barren_intros]: "barren_resolver C res \<Longrightarrow> barren C (build_kwargs res env cls ps kwargs)"
  by (induction ps arbitrary: kwargs) (auto intro!: barren_intros)

lemma barren_call_class [barren_intros]: "cls \<notin> C \<Longrightarrow> barren C (call_class env cls kwargs)"
  by (auto simp: barren_def call_class_def stays_jammed_def jammed_def objects_of_def refs_ok_def split: prod.splits sum.splits)

lemma barren_inject [barren_intros]: "barren_resolver C res \<Longrightarrow> barren C (inject_autowired_fields res env cls a)"
proof -
  assume res: "barren_resolver C res"
  have "barren C (field_value res env cls attr t q req)" for attr t q req
    unfolding field_value_def by (auto intro!: barren_intros res split: option.split list.split ptype.split)
  moreover have "barren C (config_value env cls attr e)" for attr e
    unfolding config_value_def Let_def by (intro barren_intros)
  ultimately have "barren C (inject_fields res env cls a fs)" for fs
    by (induction fs rule: inject_fields.induct) (auto intro!: barren_intros split: field_default.split)
  then show ?thesis unfolding inject_autowired_fields_def by (intro barren_intros)
qed

text \<open>A class of the circle: its constructor is not reached.\<close>

lemma build_kwargs_fails:
  assumes res: "barren_resolver C res" and p: "p \<in> set ps" "pm_type p = PClass d" "\<not> pm_default p" "d \<in> C"
    and s: "refs_ok s" "jammed C s" and run: "build_kwargs res env cls ps kwargs s = Some (r, s')"
  shows "\<exists>e. r = Inl e"
  using p(1) s run
proof (induction ps arbitrary: kwargs s)
  case (Cons q ps)
  let ?step = "except_missing (bnd (resolve_param res env (pm_type q)) (\<lambda>v. ret (dput (pm_name q) v kwargs)))
           (if pm_default q then ret kwargs
            else gets (\<lambda>s. raise_exc (no_such_bean_error (class_only (pm_type q)) None
              (Some (ci_qualname (ce_class env cls) @ ''.__init__()''))
              (Some (pm_name q @ '': '' @ name_or_repr env (pm_type q)))
              (similar_type_names env s (name_or_empty env (pm_type q))))))"
  obtain r1 s1 where step: "?step s = Some (r1, s1)" using Cons.prems(4) by (auto simp: bnd_def split: option.splits)
  show ?case
  proof (cases r1)
    case (Inr kw)
    have "barren C ?step" by (intro barren_intros res)
    from barrenD [OF this step] have "stays_jammed C s s1" .
    then have s1: "refs_ok s1" "jammed C s1" using Cons.prems(2,3) by (simp_all add: stays_jammed_def)
    have "q \<noteq> p"
    proof
      assume q: "q = p"
      obtain rid where rid: "dget (ct_registrations s) d = Some rid" "rg_impl (ct_store s ! rid) = d"
        using Cons.prems(3) p(4) by (auto simp: jammed_def)
      then have "resolve_param res env (pm_type q) s = res rid s"
        by (simp add: q p(2) resolve_type_def gets_def direct_registration_def hint_key_def)
      moreover obtain r2 s2 where r2: "resolve_param res env (pm_type q) s = Some (r2, s2)"
        using step by (auto simp: except_missing_def bnd_def split: option.splits)
      ultimately have "\<exists>e. r2 = Inl e"
        using res Cons.prems(2,3) rid p(4) refs_okD(1) unfolding barren_resolver_def by metis
      with step r2 p(3) q Inr show False
        by (auto simp: except_missing_def bnd_def gets_def raise_exc_def split: if_splits)
    qed
    with Cons.prems(1) have "p \<in> set ps" by simp
    moreover have "build_kwargs res env cls ps kw s1 = Some (r, s')" using Cons.prems(4) step Inr by (simp add: bnd_def)
    ultimately show ?thesis using Cons.IH s1 by blast
  qed (use Cons.prems(4) step in \<open>auto simp: bnd_def\<close>)
qed simp

lemma jammed_resolving [simp]:
  "refs_ok (s\<lparr>ct_resolving := rs\<rparr>) = refs_ok s" "jammed C (s\<lparr>ct_resolving := rs\<rparr>) = jammed C s"
  "objects_of C (s\<lparr>ct_resolving := rs\<rparr>) = objects_of C s"
  by (simp_all add: refs_ok_def jammed_def objects_of_def)

lemma create_body_jammed:
  assumes res: "barren_resolver C res" and hard: "\<forall>c \<in> C. \<exists>d \<in> C. hard_need env c d"
    and s: "refs_ok s" "jammed C s" and run: "create_body res env c s = Some (r, s')"
  shows "stays_jammed C s s' \<and> (c \<in> C \<longrightarrow> (\<exists>e. r = Inl e))"
proof (cases "c \<in> C")
  case False
  have "barren C (construct res env c)"
    unfolding construct_def using False by (auto intro!: barren_intros res split: option.split sum.split)
  moreover have "barren C (modify (record_creation env c t))" for t
    by (rule barren_modify) (simp add: record_creation_def ensure_metrics_def)
  moreover have "barren C (inject_autowired_fields res env c a)" for a by (intro barren_intros res)
  ultimately have "barren C (create_body res env c)" unfolding create_body_def by (intro barren_gets barren_bnd barren_ret)
  with run False show ?thesis by (blast dest: barrenD)
next
  case True
  then obtain d ps p where d: "d \<in> C" "ci_init (ce_class env c) = Some (Inr ps)" "p \<in> set ps" "pm_type p = PClass d" "\<not> pm_default p"
    using hard by (auto simp: hard_need_def)
  obtain r1 s1 where kw: "build_kwargs res env c ps [] s = Some (r1, s1)"
    using run d(2) by (auto simp: create_body_def gets_def construct_def bnd_def split: option.splits)
  obtain e where e: "r1 = Inl e" using build_kwargs_fails [OF res d(3-5) d(1) s kw] by blast
  have "r = Inl e" "s' = s1" using run kw d(2) e by (auto simp: create_body_def gets_def construct_def bnd_def)
  moreover have "stays_jammed C s s1" by (rule barrenD [OF barren_build_kwargs [OF res] kw])
  ultimately show ?thesis by simp
qed

lemma create_instance_jammed:
  assumes "barren_resolver C res" "\<forall>c \<in> C. \<exists>d \<in> C. hard_need env c d" "refs_ok s" "jammed C s"
    and run: "create_instance res env rid s = Some (r, s')"
  shows "stays_jammed C s s' \<and> (rg_impl (ct_store s ! rid) \<in> C \<longrightarrow> (\<exists>e. r = Inl e))"
proof (cases "rg_impl (ct_store s ! rid) \<in> set (ct_resolving s)")
  case True
  with run show ?thesis by (auto simp: create_instance_def raise_exc_def stays_jammed_def)
next
  case False
  let ?c = "rg_impl (ct_store s ! rid)" and ?s0 = "s\<lparr>ct_resolving := ct_resolving s @ [rg_impl (ct_store s ! rid)]\<rparr>"
  obtain s1 where s1: "create_body res env ?c ?s0 = Some (r, s1)" "s' = s1\<lparr>ct_resolving := removeAll ?c (ct_resolving s1)\<rparr>"
    using run False by (auto simp: create_instance_def Let_def split: option.splits)
  from create_body_jammed [OF assms(1,2) _ _ s1(1)] assms(3,4) s1(2) show ?thesis by (simp add: stays_jammed_def)
qed

lemma jammed_set_instance:
  assumes "rg_impl (ct_store s ! rid) \<notin> C"
  shows "stays_jammed C s (set_instance rid v s)"
proof (cases "rid < length (ct_store s)")
  case True
  have "set ((ct_store s)[rid := x]) \<subseteq> insert x (set (ct_store s))" for x by (rule set_update_subset_insert)
  with True assms show ?thesis
    by (fastforce simp: stays_jammed_def jammed_def refs_ok_def objects_of_def set_instance_def nth_list_update map_update list_update_same_conv)
qed (simp add: stays_jammed_def set_instance_def list_update_beyond)

lemma jammed_count: "stays_jammed C s (count_resolution c s)" "stays_jammed C s (set_request k v s)"
  by (simp_all add: stays_jammed_def count_resolution_def ensure_metrics_def set_request_def jammed_def refs_ok_def objects_of_def)

lemma barren_registration:
  assumes "\<forall>c \<in> C. \<exists>d \<in> C. hard_need env c d"
  shows "barren_resolver C (resolve_registration env n)"
proof (induction n)
  case (Suc n)
  let ?res = "resolve_registration env n"
  show ?case unfolding barren_resolver_def
  proof (intro allI impI)
    fix rid r s' and s :: "'a container"
    assume s: "refs_ok s \<and> jammed C s" and rid: "rid < length (ct_store s)" and run: "resolve_registration env (Suc n) rid s = Some (r, s')"
    let ?reg = "ct_store s ! rid"
    have member: "?reg \<in> set (ct_store s)" using rid by simp
    have count: "stays_jammed C t (count_resolution (rg_impl ?reg) t)" for t by (rule jammed_count)
    show "stays_jammed C s s' \<and> (rg_impl ?reg \<in> C \<longrightarrow> (\<exists>e. r = Inl e))"
    proof (cases "rg_scope ?reg = SINGLETON \<and> rg_instance ?reg \<noteq> INone")
      case True
      then have "rg_impl ?reg \<notin> C" using s member by (auto simp: jammed_def)
      with True run count show ?thesis by (auto simp: resolve_scoped_def gets_def bnd_def modify_def ret_def Let_def)
    next
      case new: False
      show ?thesis
      proof (cases "rg_scope ?reg = REQUEST")
        case True
        then have out: "rg_impl ?reg \<notin> C" using s member by (auto simp: jammed_def)
        obtain r1 s1 where r1: "resolve_request_scoped ?res env rid s = Some (r1, s1)"
          using True run by (auto simp: resolve_scoped_def gets_def bnd_def split: option.splits)
        have "stays_jammed C s s1"
        proof (cases "create_instance ?res env rid s")
          case None
          with r1 show ?thesis
            by (auto simp: resolve_request_scoped_def gets_def Let_def raise_exc_def ret_def bnd_def stays_jammed_def split: option.splits if_splits)
        next
          case (Some x)
          obtain r2 s2 where x: "create_instance ?res env rid s = Some (r2, s2)" using Some by (cases x) simp
          have "stays_jammed C s s2" using create_instance_jammed [OF Suc assms _ _ x] s by blast
          with r1 x show ?thesis
            by (cases r2) (auto simp: resolve_request_scoped_def gets_def Let_def raise_exc_def ret_def bnd_def modify_def
                intro: stays_jammed_trans [OF _ jammed_count(2)] split: option.splits if_splits, auto simp: stays_jammed_def)
        qed
        moreover have "s' = s1 \<or> s' = count_resolution (rg_impl ?reg) s1"
          using True run r1 by (cases r1) (auto simp: resolve_scoped_def gets_def bnd_def modify_def ret_def Let_def)
        ultimately show ?thesis using out count by (auto intro: stays_jammed_trans)
      next
        case False
        obtain r1 s1 where r1: "create_instance ?res env rid s = Some (r1, s1)"
          using False new run by (cases "rg_scope ?reg") (auto simp: resolve_scoped_def gets_def bnd_def Let_def split: option.splits)
        have j: "stays_jammed C s s1" "rg_impl ?reg \<in> C \<longrightarrow> (\<exists>e. r1 = Inl e)"
          using create_instance_jammed [OF Suc assms _ _ r1] s by auto
        show ?thesis
        proof (cases r1)
          case (Inl e)
          then have "r = Inl e" "s' = s1"
            using False new run r1 by (cases "rg_scope ?reg"; auto simp: resolve_scoped_def gets_def bnd_def Let_def)+
          with j show ?thesis by simp
        next
          case (Inr v)
          then have out: "rg_impl ?reg \<notin> C" using j(2) by auto
          have "map rg_impl (ct_store s1) = map rg_impl (ct_store s)" using j(1) s by (simp add: stays_jammed_def)
          then have "rg_impl (ct_store s1 ! rid) = rg_impl ?reg" using rid by (metis length_map nth_map)
          with out have si: "stays_jammed C s1 (set_instance rid v s1)" by (intro jammed_set_instance) simp
          have "s' = count_resolution (rg_impl ?reg) s1 \<or> s' = count_resolution (rg_impl ?reg) (set_instance rid v s1)"
            using False new run r1 Inr by (cases "rg_scope ?reg") (auto simp: resolve_scoped_def gets_def bnd_def modify_def ret_def Let_def)
          with j(1) si count out show ?thesis by (blast intro: stays_jammed_trans)
        qed
      qed
    qed
  qed
qed (simp add: barren_resolver_def)

lemma circle_raises:
  assumes "refs_ok s" "\<forall>c \<in> C. \<exists>d \<in> C. hard_need env c d" "jammed C s" "c \<in> C"
  shows "\<exists>e s'. resolve env (PClass c) s = Some (Inl e, s') \<and> jammed C s' \<and> objects_of C s' = objects_of C s"
proof -
  obtain r s' where run: "resolve env (PClass c) s = Some (r, s')" using entry_points_run(1) [OF assms(1)] by (rule runsE)
  obtain rid where rid: "dget (ct_registrations s) c = Some rid" "rg_impl (ct_store s ! rid) = c"
    using assms(3,4) by (auto simp: jammed_def)
  have res: "resolve_registration env (length (ct_store s) + 1) rid s = Some (r, s')"
    using run rid(1) by (simp add: resolve_def resolver_def resolve_type_def gets_def direct_registration_def hint_key_def)
  have rid_ok: "rid < length (ct_store s)" by (rule refs_okD(1) [OF assms(1) rid(1)])
  have "stays_jammed C s s' \<and> (rg_impl (ct_store s ! rid) \<in> C \<longrightarrow> (\<exists>e. r = Inl e))"
    by (rule barren_registration [OF assms(2), unfolded barren_resolver_def, rule_format, OF _ rid_ok res]) (use assms in simp)
  with assms(1,3,4) rid(2) run show ?thesis by (auto simp: stays_jammed_def)
qed


section \<open>Request scope\<close>

lemma request_scoped_cached:
  assumes "resolve_request_scoped res env rid s = Some (Inr v, s')" "resolves n res" "deep_enough (Suc n) s" "rid < length (ct_store s)"
  shows "v \<noteq> INone \<and> (\<exists>attrs. ct_request s' = Some attrs \<and>
    dget attrs (''__pyfly_bean_'' @ ci_qualname (ce_class env (rg_impl (ct_store s ! rid)))) = Some v)"
proof -
  obtain r s1 where c: "create_instance res env rid s = Some (r, s1)" "evolves s s1"
    using runs_create_instance [OF assms(2-4)] by (rule runsE)
  with assms(1) show ?thesis using evolvesD(13) [OF c(2)]
    by (cases r) (auto simp: resolve_request_scoped_def gets_def Let_def ret_def raise_exc_def bnd_def modify_def set_request_def
        dget_default_def dest: create_instance_IObj split: option.splits if_splits)
qed

text \<open>
  The request scope caches by qualified name: two classes of the same qualified name in different modules share an entry, so within a request
  resolving the second returns the object of the first.
\<close>

theorem request_scope_collision:
  assumes "refs_ok s" "target env s (PClass c1) = Some r1" "target env s (PClass c2) = Some r2"
    and "rg_scope (ct_store s ! r1) = REQUEST" "rg_scope (ct_store s ! r2) = REQUEST"
    and "ci_qualname (ce_class env (rg_impl (ct_store s ! r1))) = ci_qualname (ce_class env (rg_impl (ct_store s ! r2)))"
    and "resolve env (PClass c1) s = Some (Inr v, s1)"
  shows "\<exists>s2. resolve env (PClass c2) s1 = Some (Inr v, s2) \<and> ct_heap s2 = ct_heap s1 \<and> ct_world s2 = ct_world s1"
proof -
  let ?res = "resolve_registration env (length (ct_store s))"
  note valid = target_valid [OF assms(1,2)] target_valid [OF assms(1,3)]
  have e: "evolves s s1" using entry_points_run(1) [OF assms(1), of env "PClass c1"] assms(7) by (auto simp: runs_def)
  obtain s0 where s0: "resolve_request_scoped ?res env r1 s = Some (Inr v, s0)"
    "s1 = count_resolution (rg_impl (ct_store s ! r1)) s0"
    using assms(4,7) by (auto simp: resolve_unfold [OF assms(2)] resolve_scoped_def gets_def bnd_def modify_def ret_def
        split: option.splits prod.splits sum.splits)
  obtain attrs where "v \<noteq> INone" "ct_request s1 = Some attrs"
    "dget attrs (''__pyfly_bean_'' @ ci_qualname (ce_class env (rg_impl (ct_store s ! r1)))) = Some v"
    using request_scoped_cached [OF s0(1) resolves_registration _ valid(1)] deep_enough_start [OF assms(1)] s0(2)
    by (auto simp: count_resolution_def ensure_metrics_def)
  moreover have "target env s1 (PClass c2) = Some r2" using target_evolves [OF e] assms(3) by simp
  moreover have "rg_scope (ct_store s1 ! r2) = REQUEST" "rg_impl (ct_store s1 ! r2) = rg_impl (ct_store s ! r2)"
    using evolvesD(6,7) [OF e valid(2)] assms(5) by simp_all
  ultimately show ?thesis using assms(6)
    by (simp add: resolve_unfold resolve_scoped_def resolve_request_scoped_def gets_def bnd_def modify_def ret_def dget_default_def
        count_resolution_def ensure_metrics_def)
qed

text \<open>\<^verbatim>\<open>Autowired(qualifier=..., required=False)\<close>: a missing bean of that name raises all the same.\<close>

theorem qualified_field_required:
  assumes "dget (ct_named s) (c # cs) = None"
  shows "field_value res env cls attr t (Some (c # cs)) False s
    = Some (Inl (no_such_bean_error None (Some (c # cs)) None None (dkeys (ct_named s))), s)"
  using assms by (simp add: field_value_def resolve_name_def gets_def raise_exc_def)

section \<open>A small application\<close>

text \<open>
  A repository, a service that needs it, two classes that need each other, and two request-scoped classes of one
  qualified name in different modules. The world counts the calls of constructors.
\<close>

definition shop_class :: "string \<Rightarrow> class_info" where
  "shop_class c =
     (let init = (if c = ''Service'' then Some (Inr [\<lparr>pm_name = ''repo'', pm_type = PClass ''Repo'', pm_default = False\<rparr>])
                  else if c = ''Chicken'' then Some (Inr [\<lparr>pm_name = ''egg'', pm_type = PClass ''Egg'', pm_default = False\<rparr>])
                  else if c = ''Barn'' then Some (Inr [\<lparr>pm_name = ''repo'', pm_type = PClass ''Repo'', pm_default = False\<rparr>,
                      \<lparr>pm_name = ''yard'', pm_type = PClass ''Yard'', pm_default = False\<rparr>])
                  else if c = ''Yard'' then Some (Inr [\<lparr>pm_name = ''barn'', pm_type = PClass ''Barn'', pm_default = False\<rparr>])
                  else if c = ''Egg'' then Some (Inr [\<lparr>pm_name = ''chicken'', pm_type = PClass ''Chicken'', pm_default = False\<rparr>])
                  else None);
          qualname = (if c = ''web.Cart'' \<or> c = ''admin.Cart'' then ''Cart'' else c)
      in \<lparr>ci_name = qualname, ci_qualname = qualname, ci_primary = False, ci_scope = None, ci_bean_name = [],
          ci_init = init, ci_fields = Some []\<rparr>)"

definition shop_env :: "nat cenv" where
  "shop_env = \<lparr>ce_class = shop_class, ce_construct = (\<lambda>cls kwargs w. (Inr (), Suc w)), ce_perf_counter = (\<lambda>w. int w),
     ce_time = (\<lambda>w. of_nat w), ce_config_get = (\<lambda>config key. Inr VNone), ce_hint_key = (\<lambda>t. ''?''),
     ce_hint_name = (\<lambda>t. case t of PClass c \<Rightarrow> Some c | _ \<Rightarrow> None), ce_repr = (\<lambda>t. ''?''), ce_close_matches = (\<lambda>n ns. [])\<rparr>"

definition shop :: "nat container" where
  "shop = register shop_env ''Service'' SINGLETON [] (register shop_env ''Repo'' SINGLETON [] (new_container 0))"

definition farm :: "nat container" where
  "farm = register shop_env ''Egg'' SINGLETON [] (register shop_env ''Chicken'' TRANSIENT [] (new_container 0))"

definition barnyard :: "nat container" where
  "barnyard = register shop_env ''Barn'' SINGLETON [] (register shop_env ''Yard'' SINGLETON [] (register shop_env ''Repo'' SINGLETON [] (new_container 0)))"

definition carts :: "nat container" where
  "carts = (register shop_env ''admin.Cart'' REQUEST [] (register shop_env ''web.Cart'' REQUEST [] (new_container 0)))\<lparr>ct_request := Some []\<rparr>"

lemma refs_ok_examples: "refs_ok shop" "refs_ok farm" "refs_ok carts"
proof -
  show "refs_ok shop" "refs_ok farm" by (simp_all add: shop_def farm_def)
  have "refs_ok (s\<lparr>ct_request := r\<rparr>) = refs_ok s" for s :: "nat container" and r by (simp add: refs_ok_def)
  then show "refs_ok carts" by (simp add: carts_def)
qed

lemmas example_simps = register_def new_container_def shop_env_def shop_class_def Let_def

lemmas run_simps = resolve_scoped_def gets_def bnd_def modify_def ret_def create_instance_def create_body_def construct_def
  call_class_def except_missing_def inject_autowired_fields_def set_instance_def count_resolution_def record_creation_def
  ensure_metrics_def resolve_type_def direct_registration_def hint_key_def Let_def

theorem resolve_total_witness:
  "(\<exists>r s'. resolve shop_env (PClass ''Chicken'') farm = Some (r, s') \<and> evolves farm s' \<and> refs_ok s')"
  using resolve_total [OF refs_ok_examples(2), of shop_env "PClass ''Chicken''" "''farm''"] by blast

lemma shop_service:
  "target shop_env shop (PClass ''Service'') = Some 1" "rg_scope (ct_store shop ! 1) = SINGLETON"
  "rg_instance (ct_store shop ! 1) = INone" "rg_impl (ct_store shop ! 1) = ''Service''"
  "target shop_env shop (PClass ''Repo'') = Some 0" "rg_scope (ct_store shop ! 0) = SINGLETON"
  by (simp_all add: target_def direct_registration_def hint_key_def shop_def example_simps)

lemma shop_resolved:
  "\<exists>s'. resolve shop_env (PClass ''Service'') shop = Some (Inr (IObj 1), s') \<and> ct_world s' = 2"
  by (simp add: resolve_unfold [OF shop_service(1)]) (simp add: shop_def example_simps run_simps)

theorem singleton_identity_witness:
  "\<exists>s1 s2. resolve shop_env (PClass ''Service'') shop = Some (Inr (IObj 1), s1) \<and>
     run_requests shop_env [ByType (PClass ''Repo''), ByType (PClass ''Service'')] s1 = Some s2 \<and>
     resolve shop_env (PClass ''Service'') s2 = Some (Inr (IObj 1), count_resolution ''Service'' s2)"
proof -
  let ?qs = "[ByType (PClass ''Repo''), ByType (PClass ''Service'')]"
  obtain s1 where s1: "resolve shop_env (PClass ''Service'') shop = Some (Inr (IObj 1), s1)" using shop_resolved by blast
  then have "refs_ok s1"
    using entry_points_run(1) [OF refs_ok_examples(1), of shop_env "PClass ''Service''"] refs_ok_evolves [OF refs_ok_examples(1)]
    by (auto simp: runs_def)
  then obtain s2 where s2: "run_requests shop_env ?qs s1 = Some s2" using run_requests_evolves by blast
  have "resolve shop_env (PClass ''Service'') s2 = Some (Inr (IObj 1), count_resolution (rg_impl (ct_store shop ! 1)) s2)"
    by (rule singleton_identity [OF refs_ok_examples(1) shop_service(1,2) s1 s2 shop_service(1)])
  with s1 s2 show ?thesis unfolding shop_service(4) by blast
qed

theorem constructor_injection_correct_witness:
  "\<exists>s' w. resolve shop_env (PClass ''Service'') shop = Some (Inr (IObj 1), s') \<and>
     dget (ob_kwargs (ct_heap s' ! 1)) ''repo'' = Some w \<and> map_option fst (resolve shop_env (PClass ''Repo'') s') = Some (Inr w)"
proof -
  let ?p = "\<lparr>pm_name = ''repo'', pm_type = PClass ''Repo'', pm_default = False\<rparr>"
  obtain s1 where s1: "resolve shop_env (PClass ''Service'') shop = Some (Inr (IObj 1), s1)" using shop_resolved by blast
  have "ci_init (ce_class shop_env (rg_impl (ct_store shop ! 1))) = Some (Inr [?p])"
    unfolding shop_service(4) by (simp add: shop_env_def shop_class_def Let_def)
  from constructor_injection_correct [OF refs_ok_examples(1) shop_service(1-3) this _ s1]
  have "\<forall>p \<in> set [?p]. \<forall>c rd. pm_type p = PClass c \<longrightarrow> target shop_env shop (PClass c) = Some rd \<longrightarrow>
      rg_scope (ct_store shop ! rd) = SINGLETON \<longrightarrow>
      (case dget (ob_kwargs (ct_heap s1 ! 1)) (pm_name p) of None \<Rightarrow> pm_default p
       | Some w \<Rightarrow> map_option fst (resolve shop_env (PClass c) s1) = Some (Inr w))" by auto
  from bspec [OF this, of ?p] have "case dget (ob_kwargs (ct_heap s1 ! 1)) ''repo'' of None \<Rightarrow> False
      | Some w \<Rightarrow> map_option fst (resolve shop_env (PClass ''Repo'') s1) = Some (Inr w)"
    using shop_service(5,6) by (simp del: One_nat_def split: option.splits)
  with s1 show ?thesis by (auto split: option.splits)
qed


text \<open>In that circle the repository is made before the circle is found.\<close>

lemma barn_made_a_repository:
  "case resolve shop_env (PClass ''Barn'') barnyard of
     Some (Inl e, s') \<Rightarrow> exc_cls e = in_creation \<and> map ob_class (ct_heap s') = [''Repo''] | _ \<Rightarrow> False"
  by code_simp

theorem request_scope_collision_witness:
  "\<exists>v s1 s2. resolve shop_env (PClass ''web.Cart'') carts = Some (Inr v, s1) \<and> v = IObj 0 \<and> ob_class (ct_heap s1 ! 0) = ''web.Cart'' \<and>
     resolve shop_env (PClass ''admin.Cart'') s1 = Some (Inr v, s2)"
proof -
  have t: "target shop_env carts (PClass ''web.Cart'') = Some 0" "target shop_env carts (PClass ''admin.Cart'') = Some 1"
    "rg_scope (ct_store carts ! 0) = REQUEST" "rg_scope (ct_store carts ! 1) = REQUEST"
    "ci_qualname (ce_class shop_env (rg_impl (ct_store carts ! 0))) = ci_qualname (ce_class shop_env (rg_impl (ct_store carts ! 1)))"
    by (simp_all add: target_def direct_registration_def hint_key_def carts_def example_simps)
  obtain s1 where s1: "resolve shop_env (PClass ''web.Cart'') carts = Some (Inr (IObj 0), s1)" "ob_class (ct_heap s1 ! 0) = ''web.Cart''"
    by (simp add: resolve_unfold [OF t(1)])
      (simp add: carts_def example_simps run_simps resolve_request_scoped_def dget_default_def set_request_def)
  with request_scope_collision [OF refs_ok_examples(3) t s1(1)] show ?thesis by blast
qed

end
