(* ===== verification/AppContext.thy ===== *)
theory AppContext
  imports Config Container "HOL-Library.Multiset"
begin

text \<open>
  \<^verbatim>\<open>context/application_context.py\<close> with \<^verbatim>\<open>conditions.py\<close>, \<^verbatim>\<open>condition_evaluator.py\<close>, \<^verbatim>\<open>events.py\<close> and the decorators that mark
  classes: which beans survive profiles and conditions, how configuration classes make beans, and how a context starts
  and stops on top of the container of theory \<open>Container\<close>. The methods of beans act on a world; objects are
  addresses in the heap of the container.
\<close>

section \<open>Marks on classes and methods\<close>

datatype condition =
    OnProperty (cn_key: string) (cn_value: string)
  | OnClass (cn_module: string)
  | OnMissingBean (cn_type: string)
  | OnBean (cn_type: string)
  | UnknownCondition string

record class_marks =
  cm_injectable :: bool
  cm_stereotype :: string
  cm_auto :: bool
  cm_scope :: "scope option"
  cm_bean_name :: string
  cm_profile :: string
  cm_condition :: "(exn + bool) option"
  cm_conditions :: "condition list"
  cm_order :: "int option"

definition no_marks :: class_marks where
  "no_marks = \<lparr>cm_injectable = False, cm_stereotype = [], cm_auto = False, cm_scope = None, cm_bean_name = [], cm_profile = [],
     cm_condition = None, cm_conditions = [], cm_order = None\<rparr>"

text \<open>The decorators. The parameter of \<open>stereotype\<close> that is a condition stands for what calling it gives.\<close>

definition stereotype :: "string \<Rightarrow> string \<Rightarrow> scope \<Rightarrow> string \<Rightarrow> (exn + bool) option \<Rightarrow> class_marks \<Rightarrow> class_marks" where
  "stereotype kind name sc profile cond m =
     m\<lparr>cm_injectable := True, cm_stereotype := kind, cm_scope := Some sc, cm_condition := cond,
       cm_bean_name := (if name \<noteq> [] then name else cm_bean_name m),
       cm_profile := (if profile \<noteq> [] then profile else cm_profile m)\<rparr>"

definition add_condition :: "condition \<Rightarrow> class_marks \<Rightarrow> class_marks" where
  "add_condition c m = m\<lparr>cm_conditions := cm_conditions m @ [c]\<rparr>"

definition conditional_on_property :: "string \<Rightarrow> string \<Rightarrow> class_marks \<Rightarrow> class_marks" where
  "conditional_on_property key having_value = add_condition (OnProperty key having_value)"

definition conditional_on_class :: "string \<Rightarrow> class_marks \<Rightarrow> class_marks" where
  "conditional_on_class module_name = add_condition (OnClass module_name)"

definition conditional_on_missing_bean :: "string \<Rightarrow> class_marks \<Rightarrow> class_marks" where
  "conditional_on_missing_bean bean_type = add_condition (OnMissingBean bean_type)"

definition conditional_on_bean :: "string \<Rightarrow> class_marks \<Rightarrow> class_marks" where
  "conditional_on_bean bean_type = add_condition (OnBean bean_type)"

definition auto_configuration :: "class_marks \<Rightarrow> class_marks" where
  "auto_configuration m =
     m\<lparr>cm_auto := True, cm_injectable := True, cm_stereotype := ''configuration'',
       cm_scope := (case cm_scope m of None \<Rightarrow> Some SINGLETON | x \<Rightarrow> x),
       cm_order := (case cm_order m of None \<Rightarrow> Some 1000 | x \<Rightarrow> x)\<rparr>"

definition order_mark :: "int \<Rightarrow> class_marks \<Rightarrow> class_marks" where
  "order_mark n m = m\<lparr>cm_order := Some n\<rparr>"

definition get_order :: "class_marks \<Rightarrow> int" where
  "get_order m = (case cm_order m of None \<Rightarrow> 0 | Some n \<Rightarrow> n)"

text \<open>
  A \<^verbatim>\<open>@bean\<close> method: parameters and return type from its hints (equal hints are equal values: the members of a union are listed in one
  canonical order). Methods of a bean that the context looks for are marked. A factory makes a new object of a class, or
  returns an object there is, or \<^verbatim>\<open>None\<close>.
\<close>

record bean_method =
  bm_attr :: string
  bm_conditions :: "condition list"
  bm_params :: "param list"
  bm_return :: "ptype option"
  bm_name :: string
  bm_scope :: scope

datatype made = NewObject string | Existing nat | MadeNone

datatype method_mark = PostConstruct | PreDestroy | EventListener "string list"

section \<open>The context\<close>

record 'w app_env =
  ap_container :: "'w cenv"
  ap_su :: surroundings
  ap_marks :: "string \<Rightarrow> class_marks"
  ap_importable :: "string \<Rightarrow> bool"
  ap_subclass :: "string \<Rightarrow> string \<Rightarrow> bool option"
  ap_module :: "string \<Rightarrow> string"
  ap_bean_methods :: "string \<Rightarrow> bean_method list"
  ap_methods :: "string \<Rightarrow> (string \<times> method_mark) list"
  ap_has_lifecycle :: "string \<Rightarrow> bool"
  ap_is_post_processor :: "string \<Rightarrow> bool"
  ap_is_runner :: "string \<Rightarrow> bool"
  ap_call :: "nat \<Rightarrow> string \<Rightarrow> 'w \<Rightarrow> exn option \<times> 'w"
  ap_hangs :: "nat \<Rightarrow> string \<Rightarrow> 'w \<Rightarrow> bool"
  ap_factory :: "nat \<Rightarrow> string \<Rightarrow> (string, inj) dict \<Rightarrow> 'w \<Rightarrow> (exn + made) \<times> 'w"
  ap_process :: "nat \<Rightarrow> string \<Rightarrow> nat \<Rightarrow> string \<Rightarrow> 'w \<Rightarrow> (exn + string option) \<times> 'w"
  ap_wire :: "nat list \<Rightarrow> 'w \<Rightarrow> (exn option \<times> nat list \<times> nat option) \<times> 'w"
  ap_task_done :: "nat \<Rightarrow> 'w \<Rightarrow> bool"
  ap_cancel :: "nat \<Rightarrow> 'w \<Rightarrow> 'w"
  ap_gather :: "nat list \<Rightarrow> 'w \<Rightarrow> 'w"
  ap_auto_configurations :: "string list"

type_synonym listener = "nat \<times> string \<times> string option"

record 'w app_context =
  ac_container :: "'w container"
  ac_environment :: environment
  ac_post_processors :: "nat list"
  ac_adapters :: "nat list"
  ac_listeners :: "(string, listener list) dict"
  ac_tasks :: "nat list"
  ac_scheduler :: "nat option"
  ac_started :: bool

text \<open>Actions of the context raise or return; \<open>None\<close> only comes from the recursion of the container.\<close>

type_synonym ('w, 'a) act = "'w app_context \<Rightarrow> ((exn + 'a) \<times> 'w app_context) option"

definition act_ret :: "'a \<Rightarrow> ('w, 'a) act" where
  "act_ret v s = Some (Inr v, s)"

definition act_raise :: "exn \<Rightarrow> ('w, 'a) act" where
  "act_raise e s = Some (Inl e, s)"

definition act_bnd :: "('w, 'a) act \<Rightarrow> ('a \<Rightarrow> ('w, 'b) act) \<Rightarrow> ('w, 'b) act" where
  "act_bnd m f s = (case m s of None \<Rightarrow> None | Some (Inl e, s') \<Rightarrow> Some (Inl e, s') | Some (Inr v, s') \<Rightarrow> f v s')"

lemma act_bnd_Inr: "m s = Some (Inr v, s') \<Longrightarrow> act_bnd m f s = f v s'"
  by (simp add: act_bnd_def)

definition act_catch :: "('w, 'a) act \<Rightarrow> (exn \<Rightarrow> ('w, 'a) act) \<Rightarrow> ('w, 'a) act" where
  "act_catch m handler s = (case m s of None \<Rightarrow> None | Some (Inl e, s') \<Rightarrow> handler e s' | Some (Inr v, s') \<Rightarrow> Some (Inr v, s'))"

definition act_gets :: "('w app_context \<Rightarrow> ('w, 'a) act) \<Rightarrow> ('w, 'a) act" where
  "act_gets f s = f s s"

definition act_modify :: "('w app_context \<Rightarrow> 'w app_context) \<Rightarrow> ('w, unit) act" where
  "act_modify f s = Some (Inr (), f s)"

definition act_result :: "exn + 'a \<Rightarrow> ('w, 'a) act" where
  "act_result r s = Some (r, s)"

fun each :: "('x \<Rightarrow> ('w, unit) act) \<Rightarrow> 'x list \<Rightarrow> ('w, unit) act" where
  "each f [] = act_ret ()"
| "each f (x # xs) = act_bnd (f x) (\<lambda>_. each f xs)"

definition in_container :: "('w, 'a) comp \<Rightarrow> ('w, 'a) act" where
  "in_container m s = (case m (ac_container s) of None \<Rightarrow> None | Some (r, c) \<Rightarrow> Some (r, s\<lparr>ac_container := c\<rparr>))"

definition on_container :: "('w container \<Rightarrow> 'w container) \<Rightarrow> ('w, unit) act" where
  "on_container f = act_modify (\<lambda>s. s\<lparr>ac_container := f (ac_container s)\<rparr>)"

definition in_world :: "('w \<Rightarrow> (exn + 'a) \<times> 'w) \<Rightarrow> ('w, 'a) act" where
  "in_world f s = (case f (ct_world (ac_container s)) of (r, w) \<Rightarrow> Some (r, s\<lparr>ac_container := (ac_container s)\<lparr>ct_world := w\<rparr>\<rparr>))"

definition unit_result :: "exn option \<times> 'w \<Rightarrow> (exn + unit) \<times> 'w" where
  "unit_result x = (case fst x of None \<Rightarrow> Inr () | Some e \<Rightarrow> Inl e, snd x)"

definition call_method :: "'w app_env \<Rightarrow> nat \<Rightarrow> string \<Rightarrow> ('w, unit) act" where
  "call_method env a m = in_world (\<lambda>w. unit_result (ap_call env a m w))"

definition class_of :: "'w app_context \<Rightarrow> nat \<Rightarrow> string" where
  "class_of s a = ob_class (ct_heap (ac_container s) ! a)"

definition registered :: "'w app_context \<Rightarrow> string list" where
  "registered s = dkeys (ct_registrations (ac_container s))"

definition registration_of :: "'w app_context \<Rightarrow> nat \<Rightarrow> registration" where
  "registration_of s rid = ct_store (ac_container s) ! rid"

text \<open>The addresses of the instances that registrations hold, in their order.\<close>

definition address :: "inj \<Rightarrow> nat option" where
  "address v = (case v of IObj a \<Rightarrow> Some a | _ \<Rightarrow> None)"

definition live_registrations :: "'w app_context \<Rightarrow> (nat \<times> nat) list" where
  "live_registrations s =
     List.map_filter (\<lambda>rid. map_option (Pair rid) (address (rg_instance (registration_of s rid)))) (dvals (ct_registrations (ac_container s)))"

definition instances :: "'w app_context \<Rightarrow> nat list" where
  "instances s = map snd (live_registrations s)"

definition bean_creation_error :: "string \<Rightarrow> string \<Rightarrow> pyval \<Rightarrow> exn" where
  "bean_creation_error subsystem provider reason =
     Exn bean_creation ''Failed to configure {} with provider {}: {}'' [VStr subsystem, VStr provider, reason]"

text \<open>A new object of a class that a factory or a post-processor made.\<close>

definition new_object :: "string \<Rightarrow> (string, inj) dict \<Rightarrow> ('w, nat) act" where
  "new_object cls kwargs = act_gets (\<lambda>s.
     act_bnd (on_container (\<lambda>c. c\<lparr>ct_heap := ct_heap c @ [\<lparr>ob_class = cls, ob_kwargs = kwargs, ob_attrs = []\<rparr>]\<rparr>))
       (\<lambda>_. act_ret (length (ct_heap (ac_container s)))))"

section \<open>Registration and access\<close>

definition container_class :: string where
  "container_class = ''pyfly.container.container.Container''"

definition register_bean :: "'w app_env \<Rightarrow> string \<Rightarrow> string \<Rightarrow> scope option \<Rightarrow> ('w, unit) act" where
  "register_bean env cls name sc =
     (let marks = ap_marks env cls
      in on_container (register (ap_container env) cls
           (case sc of Some x \<Rightarrow> x | None \<Rightarrow> (case cm_scope marks of Some x \<Rightarrow> x | None \<Rightarrow> SINGLETON))
           (if name \<noteq> [] then name else cm_bean_name marks)))"

definition register_instance :: "'w app_env \<Rightarrow> string \<Rightarrow> ('w, unit) act" where
  "register_instance env cls =
     act_bnd (new_object cls []) (\<lambda>a. on_container (\<lambda>c.
       let c' = register (ap_container env) cls SINGLETON [] c in set_instance (length (ct_store c)) (IObj a) c'))"

definition new_context :: "'w app_env \<Rightarrow> config \<Rightarrow> 'w \<Rightarrow> exn + 'w app_context" where
  "new_context env cfg w =
     res_bind (new_environment (ap_su env) cfg) (\<lambda>e.
       let s = \<lparr>ac_container = new_container w, ac_environment = e, ac_post_processors = [], ac_adapters = [],
                ac_listeners = [], ac_tasks = [], ac_scheduler = None, ac_started = False\<rparr>
       in case act_bnd (register_instance env Container.config_class) (\<lambda>_. register_instance env container_class) s of
            Some (Inr _, s') \<Rightarrow> Inr s' | Some (Inl x, _) \<Rightarrow> Inl x | None \<Rightarrow> Inr s)"

definition register_post_processor :: "nat \<Rightarrow> ('w, unit) act" where
  "register_post_processor a = act_modify (\<lambda>s. s\<lparr>ac_post_processors := ac_post_processors s @ [a]\<rparr>)"

definition get_bean :: "'w app_env \<Rightarrow> ptype \<Rightarrow> ('w, inj) act" where
  "get_bean env t = in_container (resolve (ap_container env) t)"

definition get_bean_by_name :: "'w app_env \<Rightarrow> string \<Rightarrow> ('w, inj) act" where
  "get_bean_by_name env name = in_container (resolve_by_name (ap_container env) name)"

definition inj_order :: "'w app_env \<Rightarrow> 'w app_context \<Rightarrow> inj \<Rightarrow> int" where
  "inj_order env s v = (case address v of Some a \<Rightarrow> get_order (ap_marks env (class_of s a)) | None \<Rightarrow> 0)"

definition get_beans_of_type :: "'w app_env \<Rightarrow> ptype \<Rightarrow> ('w, inj list) act" where
  "get_beans_of_type env t =
     act_bnd (in_container (resolve_all (ap_container env) t)) (\<lambda>vs. act_gets (\<lambda>s. act_ret (sort_key (inj_order env s) vs)))"

definition contains_bean :: "string \<Rightarrow> 'w app_context \<Rightarrow> bool" where
  "contains_bean name s = contains name (ac_container s)"

definition bean_count :: "'w app_context \<Rightarrow> nat" where
  "bean_count s = length (instances s)"

section \<open>Profiles and conditions\<close>

definition remove_registration :: "string \<Rightarrow> 'w container \<Rightarrow> 'w container" where
  "remove_registration cls c =
     (let name = (case dget (ct_registrations c) cls of Some rid \<Rightarrow> rg_name (ct_store c ! rid) | None \<Rightarrow> [])
      in c\<lparr>ct_registrations := ddel cls (ct_registrations c),
           ct_named := (if name \<noteq> [] \<and> dmem name (ct_named c) then ddel name (ct_named c) else ct_named c)\<rparr>)"

definition remove_registrations :: "string list \<Rightarrow> ('w, unit) act" where
  "remove_registrations clss = on_container (fold remove_registration clss)"

definition filter_by_profile :: "'w app_env \<Rightarrow> ('w, unit) act" where
  "filter_by_profile env = act_gets (\<lambda>s.
     remove_registrations
       (filter (\<lambda>cls. let expr = cm_profile (ap_marks env cls) in expr \<noteq> [] \<and> \<not> accepts_profiles (ac_environment s) [expr])
          (registered s)))"

definition bean_dependent :: "condition \<Rightarrow> bool" where
  "bean_dependent c = (case c of OnBean _ \<Rightarrow> True | OnMissingBean _ \<Rightarrow> True | _ \<Rightarrow> False)"

definition has_bean_of_type :: "'w app_env \<Rightarrow> 'w app_context \<Rightarrow> string \<Rightarrow> string option \<Rightarrow> bool" where
  "has_bean_of_type env s bean_type exclude =
     (\<exists>cls \<in> set (registered s). cls \<noteq> bean_type \<and> Some cls \<noteq> exclude \<and> ap_subclass env cls bean_type = Some True)"

definition eval_on_property :: "'w app_env \<Rightarrow> 'w app_context \<Rightarrow> string \<Rightarrow> string \<Rightarrow> exn + bool" where
  "eval_on_property env s key having_value =
     res_bind (config_get (ap_su env) (en_config (ac_environment s)) key VNone) (\<lambda>v.
       Inr (if v = VNone then False
            else if having_value \<noteq> [] then lower (str_of (ap_su env) v) = lower having_value else True))"

definition evaluate :: "'w app_env \<Rightarrow> 'w app_context \<Rightarrow> string option \<Rightarrow> condition \<Rightarrow> exn + bool" where
  "evaluate env s declaring_cls c =
     (case c of
        OnProperty key v \<Rightarrow> eval_on_property env s key v
      | OnClass m \<Rightarrow> Inr (ap_importable env m)
      | OnMissingBean t \<Rightarrow> Inr (\<not> has_bean_of_type env s t declaring_cls)
      | OnBean t \<Rightarrow> Inr (has_bean_of_type env s t declaring_cls)
      | UnknownCondition _ \<Rightarrow> Inr True)"

fun all_hold :: "'w app_env \<Rightarrow> 'w app_context \<Rightarrow> string option \<Rightarrow> condition list \<Rightarrow> exn + bool" where
  "all_hold env s decl [] = Inr True"
| "all_hold env s decl (c # cs) = res_bind (evaluate env s decl c) (\<lambda>b. if b then all_hold env s decl cs else Inr False)"

definition should_include :: "'w app_env \<Rightarrow> 'w app_context \<Rightarrow> bool \<Rightarrow> string \<Rightarrow> exn + bool" where
  "should_include env s bean_pass cls =
     (let marks = ap_marks env cls;
          listed = all_hold env s (Some cls) (filter (\<lambda>c. bean_dependent c = bean_pass) (cm_conditions marks))
      in if bean_pass then listed
         else (case cm_condition marks of
                 None \<Rightarrow> listed
               | Some r \<Rightarrow> res_bind r (\<lambda>b. if b then listed else Inr False)))"

definition should_include_method :: "'w app_env \<Rightarrow> 'w app_context \<Rightarrow> bean_method \<Rightarrow> exn + bool" where
  "should_include_method env s m = all_hold env s None (bm_conditions m)"

text \<open>Filtering with a test that may raise.\<close>

fun filter_exc :: "('x \<Rightarrow> exn + bool) \<Rightarrow> 'x list \<Rightarrow> exn + 'x list" where
  "filter_exc p [] = Inr []"
| "filter_exc p (x # xs) =
     res_bind (p x) (\<lambda>b. res_bind (filter_exc p xs) (\<lambda>ys. Inr (if b then x # ys else ys)))"

definition evaluate_pass :: "'w app_env \<Rightarrow> bool \<Rightarrow> ('w, unit) act" where
  "evaluate_pass env bean_pass = act_gets (\<lambda>s.
     act_bnd (act_result (filter_exc (\<lambda>cls. res_bind (should_include env s bean_pass cls) (\<lambda>b. Inr (\<not> b))) (registered s)))
       remove_registrations)"

definition evaluate_conditions :: "'w app_env \<Rightarrow> ('w, unit) act" where
  "evaluate_conditions env = evaluate_pass env False"

definition evaluate_bean_conditions :: "'w app_env \<Rightarrow> ('w, unit) act" where
  "evaluate_bean_conditions env = evaluate_pass env True"

section \<open>Bean methods\<close>

text \<open>\<^verbatim>\<open>typing.get_type_hints\<close> as it is called here takes annotations off, at every depth.\<close>

fun bare :: "ptype \<Rightarrow> ptype" where
  "bare (PAnnotated t _) = bare t"
| "bare (PUnion ts) = PUnion (map bare ts)"
| "bare (PList t) = PList (map_option bare t)"
| "bare (PTypeRef t) = PTypeRef (map_option bare t)"
| "bare t = t"

text \<open>What the methods of one class depend on among themselves, and Kahn's algorithm over it.\<close>

definition producer :: "bean_method list \<Rightarrow> ptype \<Rightarrow> string option" where
  "producer ms t = map_option bm_attr (find (\<lambda>m. map_option bare (bm_return m) = Some t) (rev ms))"

definition method_deps :: "bean_method list \<Rightarrow> bean_method \<Rightarrow> string list" where
  "method_deps ms m =
     remdups (filter (\<lambda>n. n \<noteq> bm_attr m) (List.map_filter (\<lambda>p. producer ms (bare (pm_type p))) (bm_params m)))"

text \<open>One node taken off: what it frees, and the remaining dependencies.\<close>

definition freed :: "string \<Rightarrow> (string, string list) dict \<Rightarrow> string list" where
  "freed node deps = map fst (filter (\<lambda>(name, d). d = [node]) deps)"

definition discard_node :: "string \<Rightarrow> (string, string list) dict \<Rightarrow> (string, string list) dict" where
  "discard_node node deps = map (\<lambda>(name, d). (name, removeAll node d)) deps"

function kahn_order :: "(string, string list) dict \<Rightarrow> string list \<Rightarrow> string list \<Rightarrow> string list" where
  "kahn_order deps [] ordered = ordered"
| "kahn_order deps (node # queue) ordered = kahn_order (discard_node node deps) (queue @ freed node deps) (ordered @ [node])"
  by pat_completeness auto

lemma freed_length:
  "length (freed node deps) + length (filter (\<lambda>e. snd e \<noteq> []) (discard_node node deps)) \<le> length (filter (\<lambda>e. snd e \<noteq> []) deps)"
  by (induction deps) (auto simp: freed_def discard_node_def)

termination kahn_order
proof (relation "measure (\<lambda>(deps, queue, ordered). 2 * length (filter (\<lambda>e. snd e \<noteq> []) deps) + length queue)")
  fix deps :: "(string, string list) dict" and node queue ordered
  show "((discard_node node deps, queue @ freed node deps, ordered @ [node]), deps, node # queue, ordered)
      \<in> measure (\<lambda>(deps, queue, ordered). 2 * length (filter (\<lambda>e. snd e \<noteq> []) deps) + length queue)"
    using freed_length [of node deps] by simp
qed simp

definition sort_bean_methods :: "bean_method list \<Rightarrow> bean_method list" where
  "sort_bean_methods ms =
     (let deps = map (\<lambda>m. (bm_attr m, method_deps ms m)) ms;
          ordered = kahn_order deps (map fst (filter (\<lambda>e. snd e = []) deps)) []
      in if length ordered \<noteq> length ms then ms
         else List.map_filter (\<lambda>n. find (\<lambda>m. bm_attr m = n) ms) ordered)"
fun bean_kwargs ::
  "(nat \<Rightarrow> ('w, inj) comp) \<Rightarrow> 'w cenv \<Rightarrow> string \<Rightarrow> param list \<Rightarrow> (string, inj) dict \<Rightarrow> ('w, (string, inj) dict) comp" where
  "bean_kwargs res cenv required_by [] kwargs = ret kwargs"
| "bean_kwargs res cenv required_by (p # ps) kwargs =
     bnd (except_missing
           (bnd (resolve_param res cenv (bare (pm_type p))) (\<lambda>v. ret (dput (pm_name p) v kwargs)))
           (if pm_default p then ret kwargs
            else raise_exc (no_such_bean_error (class_only (bare (pm_type p))) None (Some required_by)
              (Some (pm_name p @ '': '' @ name_or_repr cenv (bare (pm_type p)))) [])))
       (bean_kwargs res cenv required_by ps)"

text \<open>What the factory made: its class, and the instance.\<close>

definition made_instance :: "made \<Rightarrow> (string, inj) dict \<Rightarrow> ('w, string \<times> inj) act" where
  "made_instance x kwargs =
     (case x of
        NewObject cls \<Rightarrow> act_bnd (new_object cls kwargs) (\<lambda>a. act_ret (cls, IObj a))
      | Existing a \<Rightarrow> act_gets (\<lambda>s. act_ret (class_of s a, IObj a))
      | MadeNone \<Rightarrow> act_ret (''NoneType'', INone))"

definition call_bean_method :: "'w app_env \<Rightarrow> nat \<Rightarrow> bean_method \<Rightarrow> ('w, string \<times> inj) act" where
  "call_bean_method env owner m = act_gets (\<lambda>s.
     act_bnd (in_container (resolver (ap_container env) (\<lambda>res. bean_kwargs res (ap_container env)
         (ci_qualname (ce_class (ap_container env) (class_of s owner)) @ ''.'' @ bm_attr m @ ''()'') (bm_params m) [])))
       (\<lambda>kwargs. act_bnd (in_world (ap_factory env owner (bm_attr m) kwargs)) (\<lambda>x. made_instance x kwargs)))"

definition register_with_instance :: "'w cenv \<Rightarrow> string \<Rightarrow> scope \<Rightarrow> string \<Rightarrow> inj \<Rightarrow> 'w container \<Rightarrow> 'w container" where
  "register_with_instance cenv cls sc name v c =
     (let c' = register cenv cls sc name c in if sc = SINGLETON then set_instance (length (ct_store c)) v c' else c')"

text \<open>The bean is registered under its own class, and under the declared type unless that is registered already.\<close>

definition register_result :: "'w cenv \<Rightarrow> bean_method \<Rightarrow> string \<Rightarrow> string \<Rightarrow> inj \<Rightarrow> 'w container \<Rightarrow> 'w container" where
  "register_result cenv m return_type impl_type v c =
     (let bean_name = (if bm_name m \<noteq> [] then bm_name m else bm_attr m);
          c1 = register_with_instance cenv impl_type (bm_scope m) bean_name v c;
          c2 = (if return_type \<noteq> impl_type then bind_type return_type impl_type c1 else c1)
      in if dmem return_type (ct_registrations c2) then c2
         else register_with_instance cenv return_type (bm_scope m) [] v c2)"

definition process_bean_method :: "'w app_env \<Rightarrow> nat \<Rightarrow> bean_method \<Rightarrow> ('w, unit) act" where
  "process_bean_method env owner m =
     (case bm_return m of
        None \<Rightarrow> act_ret ()
      | Some return_type \<Rightarrow>
          act_bnd (call_bean_method env owner m)
            (\<lambda>(impl_type, v). on_container
               (register_result (ap_container env) m (hint_key (ap_container env) (bare return_type)) impl_type v)))"

definition process_configuration :: "'w app_env \<Rightarrow> string \<Rightarrow> ('w, unit) act" where
  "process_configuration env cls =
     act_bnd (in_container (resolve (ap_container env) (PClass cls))) (\<lambda>v. act_gets (\<lambda>s.
       case address v of
         None \<Rightarrow> act_ret ()
       | Some owner \<Rightarrow>
           act_bnd (act_result (filter_exc (should_include_method env s) (sort_key bm_attr (ap_bean_methods env (class_of s owner)))))
             (\<lambda>ms. each (process_bean_method env owner) (sort_bean_methods ms))))"

definition process_configurations :: "'w app_env \<Rightarrow> bool \<Rightarrow> ('w, unit) act" where
  "process_configurations env auto = act_gets (\<lambda>s.
     each (process_configuration env)
       (filter (\<lambda>cls. cm_stereotype (ap_marks env cls) = ''configuration'' \<and> cm_auto (ap_marks env cls) = auto) (registered s)))"

section \<open>Adapters and post-processors\<close>

definition infer_subsystem :: "'w app_env \<Rightarrow> string \<Rightarrow> string" where
  "infer_subsystem env cls =
     (case split_on (CHR ''.'') (ap_module env cls) of
        p # q # _ \<Rightarrow> if p = ''pyfly'' then q else ''infrastructure''
      | _ \<Rightarrow> ''infrastructure'')"

definition start_adapter :: "'w app_env \<Rightarrow> nat \<Rightarrow> ('w, unit) act" where
  "start_adapter env a = act_gets (\<lambda>s.
     act_catch (call_method env a ''start'') (\<lambda>e. act_raise
       (bean_creation_error (infer_subsystem env (class_of s a)) (ci_name (ce_class (ap_container env) (class_of s a))) (VExn e))))"

definition start_infrastructure :: "'w app_env \<Rightarrow> ('w, unit) act" where
  "start_infrastructure env =
     act_bnd (act_modify (\<lambda>s. s\<lparr>ac_adapters := ac_adapters s @ filter (\<lambda>a. ap_has_lifecycle env (class_of s a)) (instances s)\<rparr>))
       (\<lambda>_. act_gets (\<lambda>s. each (start_adapter env) (ac_adapters s)))"

definition processor_known :: "'w app_context \<Rightarrow> string \<Rightarrow> bool" where
  "processor_known s cls = (cls \<in> class_of s ` set (ac_post_processors s))"

definition swallow_creation_errors :: "('w, unit) act \<Rightarrow> ('w, unit) act" where
  "swallow_creation_errors m = act_catch m (\<lambda>e. if isinstance_exc e bean_creation then act_ret () else act_raise e)"

definition add_processor :: "nat \<Rightarrow> ('w, unit) act" where
  "add_processor a = act_gets (\<lambda>s. if processor_known s (class_of s a) then act_ret () else register_post_processor a)"

definition discover_post_processor :: "'w app_env \<Rightarrow> string \<times> nat \<Rightarrow> ('w, unit) act" where
  "discover_post_processor env item = act_gets (\<lambda>s.
     let (cls, rid) = item in
     case address (rg_instance (registration_of s rid)) of
       Some a \<Rightarrow> if ap_is_post_processor env (class_of s a) then add_processor a else act_ret ()
     | None \<Rightarrow>
         if ap_is_post_processor env cls \<and> \<not> processor_known s cls
         then swallow_creation_errors (act_bnd (in_container (resolve (ap_container env) (PClass cls)))
                (\<lambda>v. case address v of Some a \<Rightarrow> add_processor a | None \<Rightarrow> act_ret ()))
         else act_ret ())"

definition discover_post_processors :: "'w app_env \<Rightarrow> ('w, unit) act" where
  "discover_post_processors env = act_gets (\<lambda>s. each (discover_post_processor env) (ct_registrations (ac_container s)))"

section \<open>Singletons and their initialisation\<close>

definition create_singleton :: "'w app_env \<Rightarrow> string \<times> nat \<Rightarrow> ('w, unit) act" where
  "create_singleton env item = act_gets (\<lambda>s.
     let (cls, rid) = item in
     if rg_scope (registration_of s rid) = SINGLETON \<and> rg_instance (registration_of s rid) = INone
     then swallow_creation_errors (act_bnd (in_container (resolve (ap_container env) (PClass cls))) (\<lambda>_. act_ret ()))
     else act_ret ())"

definition create_singletons :: "'w app_env \<Rightarrow> ('w, unit) act" where
  "create_singletons env = act_gets (\<lambda>s.
     each (create_singleton env) (sort_key (\<lambda>item. get_order (ap_marks env (fst item))) (ct_registrations (ac_container s))))"

definition hook_names :: "(method_mark \<Rightarrow> bool) \<Rightarrow> 'w app_env \<Rightarrow> string \<Rightarrow> string list" where
  "hook_names p env cls = map fst (filter (p \<circ> snd) (sort_key fst (ap_methods env cls)))"

definition call_post_construct :: "'w app_env \<Rightarrow> nat \<Rightarrow> ('w, unit) act" where
  "call_post_construct env a = act_gets (\<lambda>s.
     each (\<lambda>m. act_catch (call_method env a m)
              (\<lambda>e. act_raise (bean_creation_error ''lifecycle'' (ci_qualname (ce_class (ap_container env) (class_of s a))) (VList [VStr m, VExn e]))))
       (hook_names (\<lambda>k. k = PostConstruct) env (class_of s a)))"

text \<open>One post-processor on the instance of a registration; it may put a new object in its place.\<close>

definition post_process :: "'w app_env \<Rightarrow> nat \<Rightarrow> string \<Rightarrow> string \<Rightarrow> nat \<Rightarrow> ('w, unit) act" where
  "post_process env rid bean_name hook pp = act_gets (\<lambda>s.
     case address (rg_instance (registration_of s rid)) of
       None \<Rightarrow> act_ret ()
     | Some a \<Rightarrow>
         act_bnd (in_world (ap_process env pp hook a bean_name)) (\<lambda>replacement.
           case replacement of
             None \<Rightarrow> act_ret ()
           | Some cls \<Rightarrow> act_bnd (new_object cls []) (\<lambda>b. on_container (set_instance rid (IObj b)))))"

definition sorted_processors :: "'w app_env \<Rightarrow> 'w app_context \<Rightarrow> nat list" where
  "sorted_processors env s = sort_key (\<lambda>a. get_order (ap_marks env (class_of s a))) (ac_post_processors s)"

definition initialise :: "'w app_env \<Rightarrow> nat list \<Rightarrow> nat \<Rightarrow> ('w, unit) act" where
  "initialise env pps rid = act_gets (\<lambda>s.
     if rg_instance (registration_of s rid) = INone then act_ret ()
     else
       (let reg = registration_of s rid;
            bean_name = (if rg_name reg \<noteq> [] then rg_name reg else ci_name (ce_class (ap_container env) (rg_impl reg)))
        in act_bnd (each (post_process env rid bean_name ''before_init'') pps) (\<lambda>_.
           act_bnd (act_gets (\<lambda>s'. case address (rg_instance (registration_of s' rid)) of
                      Some a \<Rightarrow> call_post_construct env a | None \<Rightarrow> act_ret ())) (\<lambda>_.
           each (post_process env rid bean_name ''after_init'') pps))))"

definition initialise_beans :: "'w app_env \<Rightarrow> ('w, unit) act" where
  "initialise_beans env = act_gets (\<lambda>s. each (initialise env (sorted_processors env s)) (dvals (ct_registrations (ac_container s))))"

section \<open>Events and runners\<close>

definition listener_order :: "'w app_env \<Rightarrow> listener \<Rightarrow> int" where
  "listener_order env l = (case snd (snd l) of Some owner \<Rightarrow> get_order (ap_marks env owner) | None \<Rightarrow> 0)"

definition subscribe :: "'w app_env \<Rightarrow> string \<Rightarrow> listener \<Rightarrow> (string, listener list) dict \<Rightarrow> (string, listener list) dict" where
  "subscribe env event_type l ls = dput event_type (sort_key (listener_order env) (dget_default ls event_type [] @ [l])) ls"

definition publish :: "'w app_env \<Rightarrow> string \<Rightarrow> ('w, unit) act" where
  "publish env event = act_gets (\<lambda>s.
     each (\<lambda>(event_type, entries).
         if ap_subclass env event event_type = Some True then each (\<lambda>(a, m, owner). call_method env a m) entries else act_ret ())
       (ac_listeners s))"

text \<open>The type of the first parameter whose type is an event, or any event; methods whose names start with an underscore are left out.\<close>

definition event_type_of :: "'w app_env \<Rightarrow> string list \<Rightarrow> string" where
  "event_type_of env hints = (case find (\<lambda>h. ap_subclass env h ''ApplicationEvent'' = Some True) hints of Some h \<Rightarrow> h | None \<Rightarrow> ''ApplicationEvent'')"

definition event_listeners :: "'w app_env \<Rightarrow> string \<Rightarrow> (string \<times> string) list" where
  "event_listeners env cls =
     List.map_filter (\<lambda>(m, mark). case mark of EventListener hints \<Rightarrow> if take 1 m = ''_'' then None else Some (event_type_of env hints, m) | _ \<Rightarrow> None)
       (sort_key fst (ap_methods env cls))"

definition wire_app_event_listeners :: "'w app_env \<Rightarrow> ('w, unit) act" where
  "wire_app_event_listeners env = act_modify (\<lambda>s.
     s\<lparr>ac_listeners :=
        fold (\<lambda>a. fold (\<lambda>(t, m). subscribe env t (a, m, Some (class_of s a))) (event_listeners env (class_of s a)))
          (instances s) (ac_listeners s)\<rparr>)"

text \<open>
  The wiring of message listeners, CQRS handlers, scheduled, asynchronous and shell methods is a parameter: the tasks it starts and the
  scheduler are kept, and it may raise.
\<close>

definition wire_others :: "'w app_env \<Rightarrow> ('w, unit) act" where
  "wire_others env s =
     (case ap_wire env (instances s) (ct_world (ac_container s)) of
        ((err, tasks, scheduler), w) \<Rightarrow>
          Some (case err of None \<Rightarrow> Inr () | Some e \<Rightarrow> Inl e,
                s\<lparr>ac_container := (ac_container s)\<lparr>ct_world := w\<rparr>, ac_tasks := ac_tasks s @ tasks,
                  ac_scheduler := (case scheduler of None \<Rightarrow> ac_scheduler s | x \<Rightarrow> x)\<rparr>))"

definition wire :: "'w app_env \<Rightarrow> ('w, unit) act" where
  "wire env = act_bnd (wire_app_event_listeners env) (\<lambda>_. wire_others env)"

definition live_classes :: "'w app_context \<Rightarrow> (string \<times> nat) list" where
  "live_classes s =
     List.map_filter (\<lambda>(cls, rid). map_option (Pair cls) (address (rg_instance (registration_of s rid)))) (ct_registrations (ac_container s))"

definition invoke_runners :: "'w app_env \<Rightarrow> ('w, unit) act" where
  "invoke_runners env = act_gets (\<lambda>s.
     each (\<lambda>(n, a). call_method env a ''run'')
       (sort_key fst (map (\<lambda>(cls, a). (get_order (ap_marks env cls), a))
         (filter (\<lambda>(cls, a). ap_is_runner env (class_of s a)) (live_classes s)))))"

section \<open>Start and stop\<close>

definition register_auto_configurations :: "'w app_env \<Rightarrow> ('w, unit) act" where
  "register_auto_configurations env =
     each (\<lambda>cls. act_gets (\<lambda>s. if cls \<in> set (registered s) then act_ret () else register_bean env cls [] None)) (ap_auto_configurations env)"

fun run_all :: "('w, unit) act list \<Rightarrow> ('w, unit) act" where
  "run_all [] = act_ret ()"
| "run_all (m # ms) = act_bnd m (\<lambda>_. run_all ms)"

definition do_start :: "'w app_env \<Rightarrow> ('w, unit) act" where
  "do_start env = run_all
     [register_auto_configurations env,
      filter_by_profile env,
      evaluate_conditions env,
      process_configurations env False,
      evaluate_bean_conditions env,
      process_configurations env True,
      start_infrastructure env,
      discover_post_processors env,
      create_singletons env,
      initialise_beans env,
      wire env,
      publish env ''ContextRefreshedEvent'',
      publish env ''ApplicationReadyEvent'',
      invoke_runners env,
      act_modify (\<lambda>s. s\<lparr>ac_started := True\<rparr>)]"

text \<open>The qualified name of an exception class is left to the argument of the new exception.\<close>

definition start :: "'w app_env \<Rightarrow> ('w, unit) act" where
  "start env = act_catch (do_start env)
     (\<lambda>e. act_raise (if isinstance_exc e bean_creation then e
                     else Exn bean_creation ''Failed to configure {} with provider {}: {}'' [VStr ''startup'', VExn e, VExn e]))"

text \<open>\<^verbatim>\<open>wait_for\<close> with the timeout: whether the call takes too long or raises, the stop goes on.\<close>

definition stop_adapter :: "'w app_env \<Rightarrow> nat \<Rightarrow> ('w, unit) act" where
  "stop_adapter env a = act_catch (call_method env a ''stop'') (\<lambda>_. act_ret ())"

text \<open>The hooks of one bean under one timeout: a hook that takes too long ends it, one that raises does not.\<close>

fun pre_destroy_hooks :: "'w app_env \<Rightarrow> nat \<Rightarrow> string list \<Rightarrow> ('w, unit) act" where
  "pre_destroy_hooks env a [] = act_ret ()"
| "pre_destroy_hooks env a (m # ms) = act_gets (\<lambda>s.
     if ap_hangs env a m (ct_world (ac_container s)) then act_catch (call_method env a m) (\<lambda>_. act_ret ())
     else act_bnd (act_catch (call_method env a m) (\<lambda>_. act_ret ())) (\<lambda>_. pre_destroy_hooks env a ms))"

definition call_pre_destroy :: "'w app_env \<Rightarrow> nat \<Rightarrow> ('w, unit) act" where
  "call_pre_destroy env a = act_gets (\<lambda>s. pre_destroy_hooks env a (hook_names (\<lambda>k. k = PreDestroy) env (class_of s a)))"

definition shutdown_timeout :: "'w app_env \<Rightarrow> 'w app_context \<Rightarrow> exn + pyval" where
  "shutdown_timeout env s =
     res_bind (config_get (ap_su env) (en_config (ac_environment s)) ''pyfly.context.shutdown-timeout'' (VInt 30)) (\<lambda>v.
       case v of
         VStr t \<Rightarrow> su_float (ap_su env) t
       | VInt n \<Rightarrow> Inr v
       | VFloat x \<Rightarrow> Inr v
       | VBool b \<Rightarrow> Inr v
       | _ \<Rightarrow> Inl (Exn TypeErrorC ''float() argument must be a string or a real number'' []))"

definition on_world :: "('w \<Rightarrow> 'w) \<Rightarrow> ('w, unit) act" where
  "on_world f = on_container (\<lambda>c. c\<lparr>ct_world := f (ct_world c)\<rparr>)"

text \<open>Cancelling the background tasks that are not done, and waiting for all of them; the wait is taken to end.\<close>

definition cancel_task :: "'w app_env \<Rightarrow> nat \<Rightarrow> ('w, unit) act" where
  "cancel_task env t = act_gets (\<lambda>s.
     if ap_task_done env t (ct_world (ac_container s)) then act_ret () else on_world (ap_cancel env t))"

definition cancel_background_tasks :: "'w app_env \<Rightarrow> ('w, unit) act" where
  "cancel_background_tasks env = act_gets (\<lambda>s.
     act_bnd (each (cancel_task env) (ac_tasks s)) (\<lambda>_.
       if ac_tasks s = [] then act_ret ()
       else act_bnd (on_world (ap_gather env (ac_tasks s))) (\<lambda>_. act_modify (\<lambda>s. s\<lparr>ac_tasks := []\<rparr>))))"

definition stop_scheduler :: "'w app_env \<Rightarrow> ('w, unit) act" where
  "stop_scheduler env = act_gets (\<lambda>s. case ac_scheduler s of None \<Rightarrow> act_ret () | Some a \<Rightarrow> stop_adapter env a)"

definition stop :: "'w app_env \<Rightarrow> ('w, unit) act" where
  "stop env = act_gets (\<lambda>s.
     act_bnd (act_result (shutdown_timeout env s)) (\<lambda>_.
     act_bnd (cancel_background_tasks env) (\<lambda>_.
     act_bnd (stop_scheduler env) (\<lambda>_.
     act_bnd (act_gets (\<lambda>s'. each (stop_adapter env) (rev (ac_adapters s')))) (\<lambda>_.
     act_bnd (act_gets (\<lambda>s'. each (call_pre_destroy env) (rev (instances s')))) (\<lambda>_.
     act_bnd (publish env ''ContextClosedEvent'') (\<lambda>_.
     act_modify (\<lambda>s. s\<lparr>ac_started := False\<rparr>))))))))"

section \<open>Actions return\<close>

text \<open>An action that never runs out of depth and leaves a container whose numbers are those of registrations.\<close>

named_theorems steady_intros \<open>actions that return\<close>

definition steady :: "('w, 'a) act \<Rightarrow> bool" where
  "steady m \<longleftrightarrow> (\<forall>s. refs_ok (ac_container s) \<longrightarrow> (\<exists>r s'. m s = Some (r, s') \<and> refs_ok (ac_container s')))"

lemma steadyD: "steady m \<Longrightarrow> refs_ok (ac_container s) \<Longrightarrow> \<exists>r s'. m s = Some (r, s') \<and> refs_ok (ac_container s')"
  by (simp add: steady_def)

lemma steady_ret [steady_intros]: "steady (act_ret v)" and steady_raise [steady_intros]: "steady (act_raise e)"
  and steady_result [steady_intros]: "steady (act_result r)"
  by (simp_all add: steady_def act_ret_def act_raise_def act_result_def)

lemma steady_bnd [steady_intros]:
  assumes "steady m" "\<And>v. steady (f v)"
  shows "steady (act_bnd m f)"
  unfolding steady_def
proof (intro allI impI)
  fix s :: "'a app_context"
  assume "refs_ok (ac_container s)"
  then obtain r s' where m: "m s = Some (r, s')" "refs_ok (ac_container s')" using assms(1) steadyD by blast
  show "\<exists>r' s''. act_bnd m f s = Some (r', s'') \<and> refs_ok (ac_container s'')"
  proof (cases r)
    case (Inr v)
    with m show ?thesis using steadyD [OF assms(2), of s' v] by (simp add: act_bnd_def)
  qed (use m in \<open>simp add: act_bnd_def\<close>)
qed

lemma steady_catch [steady_intros]:
  assumes "steady m" "\<And>e. steady (h e)"
  shows "steady (act_catch m h)"
  unfolding steady_def
proof (intro allI impI)
  fix s :: "'a app_context"
  assume "refs_ok (ac_container s)"
  then obtain r s' where m: "m s = Some (r, s')" "refs_ok (ac_container s')" using assms(1) steadyD by blast
  show "\<exists>r' s''. act_catch m h s = Some (r', s'') \<and> refs_ok (ac_container s'')"
  proof (cases r)
    case (Inl e)
    with m show ?thesis using steadyD [OF assms(2), of s' e] by (simp add: act_catch_def)
  qed (use m in \<open>simp add: act_catch_def\<close>)
qed

lemma steady_gets [steady_intros]: "(\<And>s. steady (f s)) \<Longrightarrow> steady (act_gets f)"
  by (simp add: steady_def act_gets_def)

lemma steady_modify [steady_intros]: "(\<And>s. refs_ok (ac_container s) \<Longrightarrow> refs_ok (ac_container (f s))) \<Longrightarrow> steady (act_modify f)"
  by (simp add: steady_def act_modify_def)

lemma steady_on_container [steady_intros]: "(\<And>c. refs_ok c \<Longrightarrow> refs_ok (f c)) \<Longrightarrow> steady (on_container f)"
  unfolding on_container_def by (rule steady_modify) simp

lemma steady_in_world [steady_intros]: "steady (in_world f)"
  unfolding steady_def in_world_def refs_ok_def by (auto split: prod.split)

lemma steady_each [steady_intros]: "(\<And>x. steady (f x)) \<Longrightarrow> steady (each f xs)"
  by (induction xs) (auto intro: steady_intros)

lemma steady_in_container [steady_intros]:
  assumes "\<And>c. refs_ok c \<Longrightarrow> runs m c"
  shows "steady (in_container m)"
  unfolding steady_def
proof (intro allI impI)
  fix s :: "'a app_context"
  assume ok: "refs_ok (ac_container s)"
  then obtain r c where "m (ac_container s) = Some (r, c)" "evolves (ac_container s) c" using assms runs_def by blast
  with ok show "\<exists>r s'. in_container m s = Some (r, s') \<and> refs_ok (ac_container s')"
    using refs_ok_evolves by (simp add: in_container_def)
qed

lemma runs_bean_kwargs [runs_intros]:
  "\<lbrakk>resolves n res; deep_enough n s\<rbrakk> \<Longrightarrow> runs (bean_kwargs res env req ps kwargs) s"
  by (induction ps arbitrary: kwargs s) (auto intro!: runs_intros intro: deep_enough_evolves)

lemma refs_ok_ddel: "refs_ok c \<Longrightarrow> refs_ok (remove_registration cls c)"
  by (auto simp: refs_ok_def remove_registration_def Let_def AList.delete_eq)

lemma refs_ok_fold_remove: "refs_ok c \<Longrightarrow> refs_ok (fold remove_registration clss c)"
  by (induction clss arbitrary: c) (auto intro: refs_ok_ddel)

lemma refs_ok_set_instance: "refs_ok c \<Longrightarrow> refs_ok (set_instance rid v c)"
  by (simp add: refs_ok_def set_instance_def)

lemma refs_ok_heap [simp]: "refs_ok (c\<lparr>ct_heap := h\<rparr>) = refs_ok c"
  by (simp add: refs_ok_def)

lemma refs_ok_register_with_instance: "refs_ok c \<Longrightarrow> refs_ok (register_with_instance cenv cls sc name v c)"
  by (simp add: register_with_instance_def Let_def refs_ok_set_instance)

lemma refs_ok_register_result: "refs_ok c \<Longrightarrow> refs_ok (register_result cenv m t i v c)"
  by (simp add: register_result_def Let_def refs_ok_register_with_instance)

lemma steady_resolve [steady_intros]: "steady (in_container (resolve env t))"
  by (intro steady_in_container entry_points_run(1))

lemma steady_new_object [steady_intros]: "steady (new_object cls kwargs)"
  unfolding new_object_def by (intro steady_intros) simp_all

lemma steady_call [steady_intros]: "steady (call_method env a m)"
  unfolding call_method_def by (rule steady_in_world)

lemma steady_if [steady_intros]: "\<lbrakk>steady m; steady n\<rbrakk> \<Longrightarrow> steady (if b then m else n)"
  by simp

lemma steady_option [steady_intros]: "\<lbrakk>steady m; \<And>x. steady (f x)\<rbrakk> \<Longrightarrow> steady (case v of None \<Rightarrow> m | Some x \<Rightarrow> f x)"
  by (cases v) simp_all

lemma steady_prod [steady_intros]: "(\<And>x y. steady (f x y)) \<Longrightarrow> steady (case p of (x, y) \<Rightarrow> f x y)"
  by (cases p) simp

lemma steady_made [steady_intros]: "steady (made_instance x kwargs)"
  unfolding made_instance_def by (cases x) (auto intro!: steady_intros)

lemma steady_call_bean_method [steady_intros]: "steady (call_bean_method env owner m)"
  unfolding call_bean_method_def
  by (intro steady_intros runs_resolver) (assumption, rule runs_bean_kwargs, assumption, erule deep_enough_start)

lemma steady_process_configurations [steady_intros]: "steady (process_configurations env auto)"
  unfolding process_configurations_def process_configuration_def process_bean_method_def
  by (intro steady_intros) (auto intro: refs_ok_register_result)

lemma steady_passes [steady_intros]: "steady (filter_by_profile env)" "steady (evaluate_pass env p)"
  unfolding filter_by_profile_def evaluate_pass_def remove_registrations_def
  by (intro steady_intros refs_ok_fold_remove; assumption)+

lemma steady_register_auto [steady_intros]: "steady (register_auto_configurations env)"
  unfolding register_auto_configurations_def register_bean_def Let_def by (intro steady_intros) simp

lemma steady_infrastructure [steady_intros]: "steady (start_infrastructure env)"
  unfolding start_infrastructure_def start_adapter_def by (intro steady_intros) simp

lemma steady_discover [steady_intros]: "steady (discover_post_processors env)"
  unfolding discover_post_processors_def discover_post_processor_def swallow_creation_errors_def add_processor_def
    register_post_processor_def Let_def
  by (intro steady_intros) simp_all

lemma steady_create [steady_intros]: "steady (create_singletons env)"
  unfolding create_singletons_def create_singleton_def swallow_creation_errors_def Let_def by (intro steady_intros)

lemma steady_initialise [steady_intros]: "steady (initialise_beans env)"
  unfolding initialise_beans_def initialise_def post_process_def call_post_construct_def Let_def
  by (intro steady_intros refs_ok_set_instance)

lemma steady_publish [steady_intros]: "steady (publish env event)"
  unfolding publish_def by (intro steady_intros)

lemma steady_wire [steady_intros]: "steady (wire env)"
proof -
  have "steady (wire_others env)"
    by (auto simp: steady_def wire_others_def refs_ok_def split: prod.split)
  then show ?thesis unfolding wire_def wire_app_event_listeners_def by (intro steady_intros) simp
qed

lemma steady_runners [steady_intros]: "steady (invoke_runners env)"
  unfolding invoke_runners_def by (intro steady_intros)

lemma steady_start: "steady (start env)"
  unfolding start_def do_start_def run_all.simps evaluate_conditions_def evaluate_bean_conditions_def
  by (intro steady_intros) simp

lemma steady_stop: "steady (stop env)"
proof -
  have hooks: "steady (pre_destroy_hooks env a ms)" for a ms
    by (induction ms) (auto intro!: steady_intros)
  show ?thesis
    unfolding stop_def call_pre_destroy_def stop_adapter_def cancel_background_tasks_def cancel_task_def stop_scheduler_def on_world_def
    by (intro steady_intros hooks) (simp_all add: refs_ok_def)
qed
text \<open>
  Starting and stopping a context always return, with an exception or not, whatever the classes depend on and whatever the beans,
  factories and post-processors do, and leave the dictionaries of the container with numbers of registrations only.
\<close>

theorem context_total:
  assumes "refs_ok (ac_container s)"
  shows "(\<exists>r s'. start env s = Some (r, s') \<and> refs_ok (ac_container s')) \<and> (\<exists>r s'. stop env s = Some (r, s') \<and> refs_ok (ac_container s'))"
  using steadyD [OF steady_start assms] steadyD [OF steady_stop assms] by blast

definition blank_context :: "environment \<Rightarrow> 'w \<Rightarrow> 'w app_context" where
  "blank_context e w =
     \<lparr>ac_container = new_container w, ac_environment = e, ac_post_processors = [], ac_adapters = [], ac_listeners = [],
      ac_tasks = [], ac_scheduler = None, ac_started = False\<rparr>"

lemma steady_new_context: "new_context env cfg w = Inr s \<Longrightarrow> refs_ok (ac_container s)"
proof -
  have "steady (register_instance env cls)" for cls
    unfolding register_instance_def Let_def by (intro steady_intros refs_ok_set_instance) simp
  then have "steady (act_bnd (register_instance env Container.config_class) (\<lambda>_. register_instance env container_class))" (is "steady ?m")
    by (intro steady_intros)
  moreover have "refs_ok (ac_container (blank_context e w))" for e by (simp add: blank_context_def)
  ultimately have steps: "\<exists>r s'. ?m (blank_context e w) = Some (r, s') \<and> refs_ok (ac_container s')" for e by (rule steadyD)
  assume "new_context env cfg w = Inr s"
  then obtain e where s: "(case ?m (blank_context e w) of
      Some (Inr _, s') \<Rightarrow> Inr s' | Some (Inl x, _) \<Rightarrow> Inl x | None \<Rightarrow> Inr (blank_context e w)) = Inr s"
    unfolding new_context_def res_bind_eq_Inr Let_def blank_context_def by blast
  obtain r s' where m: "?m (blank_context e w) = Some (r, s')" "refs_ok (ac_container s')" using steps [of e] by blast
  from s m show ?thesis by (cases r) auto
qed

section \<open>Which beans survive\<close>

lemma dkeys_ddel: "dkeys (ddel k d) = filter (\<lambda>x. x \<noteq> k) (dkeys d)"
  by (induction d) (auto simp: AList.delete_eq)

lemma registrations_fold_remove:
  "dkeys (ct_registrations (fold remove_registration clss c)) = filter (\<lambda>cls. cls \<notin> set clss) (dkeys (ct_registrations c))"
proof (induction clss arbitrary: c)
  case (Cons cls clss)
  have "dkeys (ct_registrations (remove_registration cls c)) = filter (\<lambda>x. x \<noteq> cls) (dkeys (ct_registrations c))"
    by (simp add: remove_registration_def Let_def dkeys_ddel)
  with Cons show ?case by (auto intro: filter_cong)
qed simp

lemma fold_remove_rest [simp]:
  "ct_store (fold remove_registration clss c) = ct_store c" "ct_heap (fold remove_registration clss c) = ct_heap c"
  "ct_world (fold remove_registration clss c) = ct_world c" "ct_bindings (fold remove_registration clss c) = ct_bindings c"
  by (induction clss arbitrary: c) (simp_all add: remove_registration_def Let_def)

definition accepted_profile :: "'w app_env \<Rightarrow> 'w app_context \<Rightarrow> string \<Rightarrow> bool" where
  "accepted_profile env s cls =
     (cm_profile (ap_marks env cls) = [] \<or> accepts_profiles (ac_environment s) [cm_profile (ap_marks env cls)])"

lemma filter_by_profile_registered:
  "\<exists>c. filter_by_profile env s = Some (Inr (), s\<lparr>ac_container := c\<rparr>) \<and>
       dkeys (ct_registrations c) = filter (accepted_profile env s) (registered s)"
proof -
  let ?out = "filter (\<lambda>cls. cm_profile (ap_marks env cls) \<noteq> [] \<and> \<not> accepts_profiles (ac_environment s) [cm_profile (ap_marks env cls)]) (registered s)"
  have "filter (\<lambda>cls. cls \<notin> set ?out) (registered s) = filter (accepted_profile env s) (registered s)"
    by (rule filter_cong) (auto simp: accepted_profile_def)
  then show ?thesis
    by (intro exI [of _ "fold remove_registration ?out (ac_container s)"])
      (simp add: filter_by_profile_def act_gets_def remove_registrations_def on_container_def act_modify_def
        registrations_fold_remove registered_def Let_def)
qed

lemma filter_exc_Inr:
  "filter_exc p xs = Inr ys \<longleftrightarrow> (\<forall>x \<in> set xs. \<exists>b. p x = Inr b) \<and> ys = filter (\<lambda>x. p x = Inr True) xs"
proof (induction xs arbitrary: ys)
  case (Cons x xs)
  show ?case
  proof (cases "p x")
    case (Inr b)
    have "filter_exc p (x # xs) = Inr ys \<longleftrightarrow> (\<exists>zs. filter_exc p xs = Inr zs \<and> (if b then x # zs else zs) = ys)"
      by (simp add: Inr res_bind_eq_Inr)
    then show ?thesis unfolding Cons.IH by (cases b) (auto simp: Inr)
  qed simp
qed auto

definition excluded :: "'w app_env \<Rightarrow> 'w app_context \<Rightarrow> bool \<Rightarrow> string \<Rightarrow> exn + bool" where
  "excluded env s p cls = res_bind (should_include env s p cls) (\<lambda>b. Inr (\<not> b))"

lemma excluded_Inr: "excluded env s p cls = Inr b \<longleftrightarrow> should_include env s p cls = Inr (\<not> b)"
  by (auto simp: excluded_def res_bind_eq_Inr)

lemma excluded_ok: "(\<exists>b. excluded env s p cls = Inr b) \<longleftrightarrow> (\<exists>b. should_include env s p cls = Inr b)"
  by (auto simp: excluded_def res_bind_eq_Inr)

lemma evaluate_pass_filter:
  "evaluate_pass env p s =
   (case filter_exc (excluded env s p) (registered s) of
      Inl e \<Rightarrow> Some (Inl e, s)
    | Inr clss \<Rightarrow> Some (Inr (), s\<lparr>ac_container := fold remove_registration clss (ac_container s)\<rparr>))"
  by (simp add: evaluate_pass_def act_gets_def act_bnd_def act_result_def remove_registrations_def on_container_def act_modify_def
      excluded_def [abs_def] split: sum.split)

lemma evaluate_pass_registered:
  "evaluate_pass env p s = Some (Inr (), s') \<longleftrightarrow>
   (\<forall>cls \<in> set (registered s). \<exists>b. should_include env s p cls = Inr b) \<and>
   s' = s\<lparr>ac_container := fold remove_registration (filter (\<lambda>cls. should_include env s p cls = Inr False) (registered s)) (ac_container s)\<rparr>"
proof (cases "filter_exc (excluded env s p) (registered s)")
  case (Inl e)
  then have "\<not> (\<forall>cls \<in> set (registered s). \<exists>b. excluded env s p cls = Inr b)"
    using filter_exc_Inr [of "excluded env s p" "registered s"] by auto
  then have "\<not> (\<forall>cls \<in> set (registered s). \<exists>b. should_include env s p cls = Inr b)"
    unfolding excluded_ok .
  with Inl show ?thesis by (simp add: evaluate_pass_filter)
next
  case (Inr ys)
  then have "(\<forall>cls \<in> set (registered s). \<exists>b. excluded env s p cls = Inr b) \<and>
    ys = filter (\<lambda>cls. excluded env s p cls = Inr True) (registered s)"
    by (rule filter_exc_Inr [THEN iffD1])
  then have "\<forall>cls \<in> set (registered s). \<exists>b. should_include env s p cls = Inr b"
    "ys = filter (\<lambda>cls. should_include env s p cls = Inr False) (registered s)"
    unfolding excluded_ok by (simp_all add: excluded_Inr)
  with Inr show ?thesis by (auto simp: evaluate_pass_filter)
qed

lemma evaluate_pass_survivors:
  assumes "evaluate_pass env p s = Some (Inr (), s')"
  shows "registered s' = filter (\<lambda>cls. should_include env s p cls = Inr True) (registered s)"
proof -
  have "filter (\<lambda>cls. cls \<notin> set (filter (\<lambda>cls. should_include env s p cls = Inr False) (registered s))) (registered s) =
      filter (\<lambda>cls. should_include env s p cls = Inr True) (registered s)"
    by (rule filter_cong) (use assms in \<open>auto simp: evaluate_pass_registered\<close>)
  with assms show ?thesis by (simp add: evaluate_pass_registered registered_def registrations_fold_remove)
qed

text \<open>The first pass does not look at the registrations.\<close>

lemma all_hold_unconditional:
  assumes "\<forall>c \<in> set cs. \<not> bean_dependent c" "ac_environment s' = ac_environment s"
  shows "all_hold env s' decl cs = all_hold env s decl cs"
  using assms
proof (induction cs)
  case (Cons c cs)
  have "evaluate env s' decl c = evaluate env s decl c"
    using Cons.prems by (cases c) (simp_all add: evaluate_def eval_on_property_def bean_dependent_def)
  with Cons show ?case by (simp cong: if_cong)
qed simp

lemma should_include_first:
  assumes "ac_environment s' = ac_environment s"
  shows "should_include env s' False cls = should_include env s False cls"
proof -
  have "all_hold env s' (Some cls) (filter (\<lambda>c. \<not> bean_dependent c) cs) = all_hold env s (Some cls) (filter (\<lambda>c. \<not> bean_dependent c) cs)" for cs
    by (rule all_hold_unconditional) (use assms in auto)
  then show ?thesis by (simp add: should_include_def)
qed
text \<open>Factories only add registrations, at the end.\<close>

named_theorems growing_intros \<open>actions that only add registrations\<close>

definition growing :: "('w, 'a) act \<Rightarrow> bool" where
  "growing m \<longleftrightarrow>
     (\<forall>s r s'. refs_ok (ac_container s) \<longrightarrow> m s = Some (r, s') \<longrightarrow>
        refs_ok (ac_container s') \<and> (\<exists>added. registered s' = registered s @ added) \<and> ac_environment s' = ac_environment s)"

lemma growingD:
  "\<lbrakk>growing m; refs_ok (ac_container s); m s = Some (r, s')\<rbrakk> \<Longrightarrow>
   refs_ok (ac_container s') \<and> (\<exists>added. registered s' = registered s @ added) \<and> ac_environment s' = ac_environment s"
  unfolding growing_def by blast

lemma growing_ret [growing_intros]: "growing (act_ret v)" and growing_result [growing_intros]: "growing (act_result r)"
  by (simp_all add: growing_def act_ret_def act_result_def)

lemma growing_gets [growing_intros]: "(\<And>s. growing (f s)) \<Longrightarrow> growing (act_gets f)"
  by (simp add: growing_def act_gets_def)

lemma growing_bnd [growing_intros]:
  assumes "growing m" "\<And>v. growing (f v)"
  shows "growing (act_bnd m f)"
  unfolding growing_def
proof (intro allI impI)
  fix s r and s' :: "'a app_context"
  assume ok: "refs_ok (ac_container s)" and run: "act_bnd m f s = Some (r, s')"
  then obtain r1 s1 where m: "m s = Some (r1, s1)" by (auto simp: act_bnd_def split: option.splits)
  note g = growingD [OF assms(1) ok m]
  show "refs_ok (ac_container s') \<and> (\<exists>added. registered s' = registered s @ added) \<and> ac_environment s' = ac_environment s"
  proof (cases r1)
    case (Inr v)
    with run m have "f v s1 = Some (r, s')" by (simp add: act_bnd_def)
    then have "refs_ok (ac_container s') \<and> (\<exists>added. registered s' = registered s1 @ added) \<and> ac_environment s' = ac_environment s1"
      by (rule growingD [OF assms(2) g [THEN conjunct1]])
    with g show ?thesis by auto
  qed (use g run m in \<open>simp add: act_bnd_def\<close>)
qed

lemma growing_each [growing_intros]: "(\<And>x. growing (f x)) \<Longrightarrow> growing (each f xs)"
  by (induction xs) (auto intro: growing_intros)

lemma growing_cases [growing_intros]:
  "\<lbrakk>growing m; \<And>x. growing (f x)\<rbrakk> \<Longrightarrow> growing (case v of None \<Rightarrow> m | Some x \<Rightarrow> f x)"
  "(\<And>x y. growing (g x y)) \<Longrightarrow> growing (case p of (x, y) \<Rightarrow> g x y)"
  by (auto split: option.split prod.split)

lemma growing_on_container:
  assumes "\<And>c. refs_ok c \<Longrightarrow> refs_ok (f c) \<and> (\<exists>added. dkeys (ct_registrations (f c)) = dkeys (ct_registrations c) @ added)"
  shows "growing (on_container f)"
  using assms by (simp add: growing_def on_container_def act_modify_def registered_def)

lemma growing_in_world [growing_intros]: "growing (in_world f)"
  by (auto simp: growing_def in_world_def registered_def refs_ok_def split: prod.splits)

lemma growing_in_container [growing_intros]:
  assumes "\<And>c. refs_ok c \<Longrightarrow> runs m c"
  shows "growing (in_container m)"
  unfolding growing_def
proof (intro allI impI)
  fix s r and s' :: "'a app_context"
  assume ok: "refs_ok (ac_container s)" and run: "in_container m s = Some (r, s')"
  obtain r1 c where c: "m (ac_container s) = Some (r1, c)" "evolves (ac_container s) c" using assms [OF ok] by (rule runsE)
  with run have "s' = s\<lparr>ac_container := c\<rparr>" by (simp add: in_container_def)
  with c(2) ok refs_ok_evolves show "refs_ok (ac_container s') \<and> (\<exists>added. registered s' = registered s @ added) \<and> ac_environment s' = ac_environment s"
    by (simp add: registered_def evolvesD(1))
qed

lemma grown_dput: "\<exists>added. dkeys (dput k v d) = dkeys d @ added"
  by (simp add: dkeys_dput)

lemma grown_register: "\<exists>added. dkeys (ct_registrations (register cenv cls sc name c)) = dkeys (ct_registrations c) @ added"
  by (simp add: register_def Let_def grown_dput)

lemma grown_register_with_instance:
  "\<exists>added. dkeys (ct_registrations (register_with_instance cenv cls sc name v c)) = dkeys (ct_registrations c) @ added"
  using grown_register [of cenv cls sc name c] by (auto simp: register_with_instance_def Let_def set_instance_def)

lemma grown_register_result:
  "\<exists>added. dkeys (ct_registrations (register_result cenv m t i v c)) = dkeys (ct_registrations c) @ added"
proof -
  let ?c1 = "register_with_instance cenv i (bm_scope m) (if bm_name m \<noteq> [] then bm_name m else bm_attr m) v c"
  let ?c2 = "if t \<noteq> i then bind_type t i ?c1 else ?c1"
  obtain a1 where "dkeys (ct_registrations ?c1) = dkeys (ct_registrations c) @ a1" using grown_register_with_instance by blast
  then have c2: "dkeys (ct_registrations ?c2) = dkeys (ct_registrations c) @ a1" by (simp add: bind_type_def Let_def)
  obtain a2 where "dkeys (ct_registrations (register_with_instance cenv t (bm_scope m) [] v ?c2)) = dkeys (ct_registrations ?c2) @ a2"
    using grown_register_with_instance by blast
  with c2 show ?thesis by (simp add: register_result_def Let_def)
qed

lemma growing_configurations: "growing (process_configurations env auto)"
proof -
  have object: "growing (new_object cls kwargs)" for cls kwargs
    unfolding new_object_def by (intro growing_intros growing_on_container) simp
  have made: "growing (made_instance x kwargs)" for x kwargs
    unfolding made_instance_def by (cases x) (auto intro!: growing_intros object)
  have call: "growing (call_bean_method env owner m)" for owner m
    unfolding call_bean_method_def
    by (intro growing_intros made runs_resolver) (assumption, rule runs_bean_kwargs, assumption, erule deep_enough_start)
  have "growing (on_container (register_result cenv m t i v))" for cenv m t i v
    using grown_register_result refs_ok_register_result by (intro growing_on_container) blast
  then have "growing (process_bean_method env owner m)" for owner m
    unfolding process_bean_method_def by (intro growing_intros call)
  moreover have "growing (in_container (resolve (ap_container env) t))" for t
    by (intro growing_intros entry_points_run(1))
  ultimately show ?thesis
    unfolding process_configurations_def process_configuration_def
    by (intro growing_gets growing_each growing_bnd growing_cases growing_ret growing_result)
qed

text \<open>What the conditions say: those that depend on no bean, and those that do, among some registered classes.\<close>

definition unconditional :: "'w app_env \<Rightarrow> config \<Rightarrow> condition \<Rightarrow> bool" where
  "unconditional env cfg c =
     (case c of
        OnProperty key wanted \<Rightarrow>
          \<exists>v. config_get (ap_su env) cfg key VNone = Inr v \<and> v \<noteq> VNone \<and> (wanted \<noteq> [] \<longrightarrow> lower (str_of (ap_su env) v) = lower wanted)
      | OnClass m \<Rightarrow> ap_importable env m
      | _ \<Rightarrow> True)"

definition among_beans :: "'w app_env \<Rightarrow> string list \<Rightarrow> string \<Rightarrow> condition \<Rightarrow> bool" where
  "among_beans env classes cls c =
     (let others = {d \<in> set classes. d \<noteq> cls}; is_a = (\<lambda>t d. d \<noteq> t \<and> ap_subclass env d t = Some True)
      in case c of
           OnBean t \<Rightarrow> (\<exists>d \<in> others. is_a t d)
         | OnMissingBean t \<Rightarrow> \<not> (\<exists>d \<in> others. is_a t d)
         | _ \<Rightarrow> True)"

lemma all_hold_iff: "all_hold env s decl cs = Inr True \<longleftrightarrow> (\<forall>c \<in> set cs. evaluate env s decl c = Inr True)"
proof (induction cs)
  case (Cons c cs)
  have "all_hold env s decl (c # cs) = Inr True \<longleftrightarrow> evaluate env s decl c = Inr True \<and> all_hold env s decl cs = Inr True"
    by (auto simp: res_bind_eq_Inr split: if_splits)
  with Cons show ?case by simp
qed simp

lemma evaluate_unconditional:
  "\<not> bean_dependent c \<Longrightarrow> evaluate env s decl c = Inr True \<longleftrightarrow> unconditional env (en_config (ac_environment s)) c"
  by (cases c) (auto simp: bean_dependent_def evaluate_def unconditional_def eval_on_property_def res_bind_eq_Inr split: if_splits)

lemma evaluate_among_beans:
  "bean_dependent c \<Longrightarrow> evaluate env s (Some cls) c = Inr True \<longleftrightarrow> among_beans env (registered s) cls c"
  by (cases c) (auto simp: bean_dependent_def evaluate_def among_beans_def has_bean_of_type_def Let_def)

lemma unconditional_of_beans: "bean_dependent c \<Longrightarrow> unconditional env cfg c" and among_beans_of_rest: "\<not> bean_dependent c \<Longrightarrow> among_beans env clss cls c"
  by (cases c; simp add: bean_dependent_def unconditional_def among_beans_def Let_def)+

lemma first_pass_iff:
  "should_include env s False cls = Inr True \<longleftrightarrow>
   cm_condition (ap_marks env cls) \<in> {None, Some (Inr True)} \<and>
   (\<forall>c \<in> set (cm_conditions (ap_marks env cls)). unconditional env (en_config (ac_environment s)) c)"
proof -
  have "all_hold env s (Some cls) (filter (\<lambda>c. \<not> bean_dependent c) (cm_conditions (ap_marks env cls))) = Inr True \<longleftrightarrow>
      (\<forall>c \<in> set (cm_conditions (ap_marks env cls)). unconditional env (en_config (ac_environment s)) c)" (is "?L = Inr True \<longleftrightarrow> _")
    unfolding all_hold_iff using evaluate_unconditional unconditional_of_beans by auto blast+
  moreover have "should_include env s False cls = Inr True \<longleftrightarrow> cm_condition (ap_marks env cls) \<in> {None, Some (Inr True)} \<and> ?L = Inr True"
    by (auto simp: should_include_def Let_def res_bind_eq_Inr split: option.splits if_splits)
  ultimately show ?thesis by simp
qed

lemma second_pass_iff:
  "should_include env s True cls = Inr True \<longleftrightarrow>
   (\<forall>c \<in> set (cm_conditions (ap_marks env cls)). among_beans env (registered s) cls c)"
  unfolding should_include_def Let_def
  using evaluate_among_beans among_beans_of_rest by (simp add: all_hold_iff) blast

text \<open>
  Claim C0. When the steps of a start up to the second pass of conditions raise nothing, then in the order of registration: after
  the first pass there are exactly the classes whose profile is accepted and whose conditions on properties and modules hold;
  the configuration classes of the user among them are processed and only add registrations; and after the second pass
  there are exactly those of all these whose conditions on beans hold among all these, the class itself and the type asked for
  left out. All are evaluated before any is removed.
\<close>

theorem survivors_correct:
  assumes "refs_ok (ac_container s)"
    and "run_all [filter_by_profile env, evaluate_conditions env, process_configurations env False, evaluate_bean_conditions env] s =
           Some (Inr (), s')"
  shows "\<exists>s1 s2 added.
           registered s1 = filter (\<lambda>cls.
               (cm_profile (ap_marks env cls) = [] \<or> accepts_profiles (ac_environment s) [cm_profile (ap_marks env cls)]) \<and>
               cm_condition (ap_marks env cls) \<in> {None, Some (Inr True)} \<and>
               (\<forall>c \<in> set (cm_conditions (ap_marks env cls)). unconditional env (en_config (ac_environment s)) c)) (registered s) \<and>
           process_configurations env False s1 = Some (Inr (), s2) \<and> registered s2 = registered s1 @ added \<and>
           registered s' = filter (\<lambda>cls.
               \<forall>c \<in> set (cm_conditions (ap_marks env cls)). among_beans env (registered s1 @ added) cls c) (registered s1 @ added)"
proof -
  obtain c where c: "filter_by_profile env s = Some (Inr (), s\<lparr>ac_container := c\<rparr>)"
      "dkeys (ct_registrations c) = filter (accepted_profile env s) (registered s)"
    using filter_by_profile_registered by blast
  let ?s0 = "s\<lparr>ac_container := c\<rparr>"
  obtain r where "refs_ok c" using steadyD [OF steady_passes(1) assms(1), of env] c(1) by auto
  from assms(2) c(1) obtain s1 s2 where s1: "evaluate_pass env False ?s0 = Some (Inr (), s1)"
      "process_configurations env False s1 = Some (Inr (), s2)" "evaluate_pass env True s2 = Some (Inr (), s')"
    by (auto simp: act_bnd_def act_ret_def evaluate_conditions_def evaluate_bean_conditions_def split: option.splits sum.splits)
  have "refs_ok (ac_container s1)" using steadyD [OF steady_passes(2), of ?s0 env False] \<open>refs_ok c\<close> s1(1) by auto
  then obtain added where added: "registered s2 = registered s1 @ added"
    using growingD [OF growing_configurations _ s1(2)] by blast
  have "registered s1 = filter (\<lambda>cls. should_include env s False cls = Inr True) (registered ?s0)"
    using evaluate_pass_survivors [OF s1(1)] should_include_first [of ?s0 s env] by simp
  also have "registered ?s0 = filter (accepted_profile env s) (registered s)" using c(2) by (simp add: registered_def)
  finally have first: "registered s1 = filter (\<lambda>cls. accepted_profile env s cls \<and> should_include env s False cls = Inr True) (registered s)"
    by (simp add: conj_commute)
  have second: "registered s' = filter (\<lambda>cls. should_include env s2 True cls = Inr True) (registered s2)"
    by (rule evaluate_pass_survivors [OF s1(3)])
  show ?thesis
    using first second s1(2) added
    unfolding first_pass_iff second_pass_iff accepted_profile_def by (intro exI [of _ s1] exI [of _ s2] exI [of _ added]) simp
qed

section \<open>The order of bean methods\<close>

text \<open>Kahn's algorithm on a list of names with dependencies given by a function.\<close>

definition remaining :: "(string \<Rightarrow> string list) \<Rightarrow> string list \<Rightarrow> string list \<Rightarrow> (string, string list) dict" where
  "remaining dp ns done_names = map (\<lambda>n. (n, filter (\<lambda>x. x \<notin> set done_names) (dp n))) ns"

definition in_order :: "(string \<Rightarrow> string list) \<Rightarrow> string list \<Rightarrow> bool" where
  "in_order dp ordered \<longleftrightarrow> (\<forall>xs n ys. ordered = xs @ n # ys \<longrightarrow> set (dp n) \<subseteq> set xs)"

definition kahn_inv :: "(string \<Rightarrow> string list) \<Rightarrow> string list \<Rightarrow> string list \<Rightarrow> string list \<Rightarrow> bool" where
  "kahn_inv dp ns ordered queue \<longleftrightarrow>
     distinct (ordered @ queue) \<and> set (ordered @ queue) \<subseteq> set ns \<and>
     (\<forall>n \<in> set ns. n \<in> set (ordered @ queue) \<longleftrightarrow> set (dp n) \<subseteq> set ordered) \<and> in_order dp ordered"

lemma discard_remaining: "discard_node node (remaining dp ns ordered) = remaining dp ns (ordered @ [node])"
proof -
  have "removeAll node (filter (\<lambda>x. x \<notin> set ordered) d) = filter (\<lambda>x. x \<notin> set (ordered @ [node])) d" for d
    by (induction d) auto
  then show ?thesis by (simp add: discard_node_def remaining_def)
qed

lemma freed_remaining: "freed node (remaining dp ns ordered) = filter (\<lambda>n. filter (\<lambda>x. x \<notin> set ordered) (dp n) = [node]) ns"
  by (simp add: freed_def remaining_def filter_map comp_def)

lemma filter_single:
  assumes "distinct d"
  shows "filter (\<lambda>x. x \<notin> A) d = [node] \<longleftrightarrow> set d \<subseteq> insert node A \<and> node \<in> set d \<and> node \<notin> A"
proof
  assume *: "filter (\<lambda>x. x \<notin> A) d = [node]"
  then have "set (filter (\<lambda>x. x \<notin> A) d) = {node}" by simp
  then show "set d \<subseteq> insert node A \<and> node \<in> set d \<and> node \<notin> A" by auto
next
  assume "set d \<subseteq> insert node A \<and> node \<in> set d \<and> node \<notin> A"
  then have "set (filter (\<lambda>x. x \<notin> A) d) = {node}" by auto
  moreover have "distinct (filter (\<lambda>x. x \<notin> A) d)" using assms by simp
  ultimately show "filter (\<lambda>x. x \<notin> A) d = [node]"
    by (metis card_1_singletonE distinct_card distinct_length_2_or_more empty_set insert_not_empty length_Suc_conv length_0_conv
        list.simps(15) singleton_insert_inj_eq One_nat_def is_singletonI is_singleton_altdef)
qed

lemma in_order_snoc: "in_order dp (xs @ [n]) \<longleftrightarrow> in_order dp xs \<and> set (dp n) \<subseteq> set xs"
proof -
  have "(\<forall>us m vs. xs @ [n] = us @ m # vs \<longrightarrow> P us m) \<longleftrightarrow> (\<forall>us m vs. xs = us @ m # vs \<longrightarrow> P us m) \<and> P xs n" for P
  proof (intro iffI conjI allI impI)
    fix us m vs
    assume "(\<forall>us m vs. xs = us @ m # vs \<longrightarrow> P us m) \<and> P xs n" "xs @ [n] = us @ m # vs"
    then show "P us m" by (cases vs rule: rev_cases) auto
  qed auto
  then show ?thesis by (simp add: in_order_def)
qed

lemma kahn_order_step:
  assumes "kahn_inv dp ns ordered (node # queue)" "distinct ns" "\<forall>n \<in> set ns. distinct (dp n)"
  shows "kahn_inv dp ns (ordered @ [node]) (queue @ freed node (remaining dp ns ordered))"
proof -
  let ?free = "freed node (remaining dp ns ordered)"
  have node: "node \<in> set ns" "node \<notin> set ordered" "set (dp node) \<subseteq> set ordered"
    using assms(1) by (auto simp: kahn_inv_def)
  have free: "n \<in> set ?free \<longleftrightarrow> n \<in> set ns \<and> set (dp n) \<subseteq> insert node (set ordered) \<and> \<not> set (dp n) \<subseteq> set ordered" for n
    using assms(3) node(2) by (auto simp: freed_remaining filter_single)
  have "distinct ?free" using assms(2) by (simp add: freed_remaining)
  moreover have "set ?free \<inter> set (ordered @ node # queue) = {}"
    using assms(1) free unfolding kahn_inv_def by blast
  moreover have "n \<in> set (ordered @ node # queue) \<or> n \<in> set ?free \<longleftrightarrow> set (dp n) \<subseteq> set (ordered @ [node])" if "n \<in> set ns" for n
    using assms(1) that free [of n] unfolding kahn_inv_def by auto
  moreover have "in_order dp (ordered @ [node])"
    using assms(1) node(3) by (simp add: kahn_inv_def in_order_snoc)
  ultimately show ?thesis using assms(1) free unfolding kahn_inv_def by auto
qed

lemma kahn_order_inv:
  assumes "kahn_inv dp ns ordered queue" "distinct ns" "\<forall>n \<in> set ns. distinct (dp n)"
  shows "kahn_inv dp ns (kahn_order (remaining dp ns ordered) queue ordered) []"
  using assms(1)
proof (induction "remaining dp ns ordered" queue ordered rule: kahn_order.induct)
  case (2 node queue ordered)
  then show ?case using kahn_order_step [OF _ assms(2,3)] by (simp add: discard_remaining)
qed simp

lemma kahn_complete:
  assumes "distinct ns" "\<forall>n \<in> set ns. distinct (dp n) \<and> set (dp n) \<subseteq> set ns"
    and R: "R = kahn_order (remaining dp ns []) (filter (\<lambda>n. dp n = []) ns) []"
  shows "distinct R" "set R \<subseteq> set ns" "in_order dp R"
    and "length R = length ns \<longleftrightarrow> acyclic {(n, m). m \<in> set ns \<and> n \<in> set (dp m)}"
proof -
  have "kahn_inv dp ns [] (filter (\<lambda>n. dp n = []) ns)"
    using assms(1) by (simp add: kahn_inv_def in_order_def)
  then have inv: "kahn_inv dp ns R []" using kahn_order_inv assms by simp
  then show R1: "distinct R" and R2: "set R \<subseteq> set ns" and R3: "in_order dp R" by (simp_all add: kahn_inv_def)
  let ?E = "{(n, m). m \<in> set ns \<and> n \<in> set (dp m)}"
  have full: "length R = length ns \<longleftrightarrow> set R = set ns"
    using R1 R2 assms(1) by (metis List.finite_set card_subset_eq distinct_card)
  show "length R = length ns \<longleftrightarrow> acyclic ?E"
  proof
    assume "acyclic ?E"
    moreover have "finite ?E"
      by (rule finite_subset [of _ "set ns \<times> set ns"]) (use assms(2) in auto)
    ultimately have wf: "wf ?E" by (simp add: finite_acyclic_wf)
    have "n \<in> set ns \<longrightarrow> n \<in> set R" for n
    proof (induction n rule: wf_induct_rule [OF wf])
      case (1 n)
      show ?case
      proof
        assume n: "n \<in> set ns"
        then have "set (dp n) \<subseteq> set R" using 1 assms(2) by blast
        with n inv show "n \<in> set R" by (simp add: kahn_inv_def)
      qed
    qed
    with R2 show "length R = length ns" unfolding full by blast
  next
    assume "length R = length ns"
    then have R: "set R = set ns" by (simp add: full)
    define pos where "pos n = (LEAST i. i < length R \<and> R ! i = n)" for n
    have pos: "pos n < length R" "R ! pos n = n" if "n \<in> set R" for n
      using LeastI_ex [of "\<lambda>i. i < length R \<and> R ! i = n"] that unfolding pos_def by (auto simp: in_set_conv_nth)
    have "pos n < pos m" if "(n, m) \<in> ?E" for n m
    proof -
      have m: "m \<in> set R" and "n \<in> set (dp m)" using that R by auto
      moreover have "R = take (pos m) R @ m # drop (Suc (pos m)) R"
        using id_take_nth_drop [OF pos(1) [OF m]] pos(2) [OF m] by simp
      ultimately have "n \<in> set (take (pos m) R)" using R3 unfolding in_order_def by blast
      then obtain i where i: "i < pos m" "i < length R" "R ! i = n" by (auto simp: in_set_conv_nth)
      then have "pos n \<le> i" unfolding pos_def by (intro Least_le) simp
      with i show ?thesis by simp
    qed
    then have "?E \<subseteq> measure pos" by auto
    then show "acyclic ?E" by (meson acyclic_subset wf_acyclic wf_measure)
  qed
qed

text \<open>
  Which method makes what a hint asks for: the last with that return hint, by equality of hints without annotations. What a method waits
  for: the others that make what its parameters ask for.
\<close>

definition makes :: "bean_method list \<Rightarrow> string \<Rightarrow> ptype \<Rightarrow> bool" where
  "makes ms n t \<longleftrightarrow>
     (\<exists>xs m ys. ms = xs @ m # ys \<and> bm_attr m = n \<and> map_option bare (bm_return m) = Some t \<and>
        (\<forall>m' \<in> set ys. map_option bare (bm_return m') \<noteq> Some t))"

definition waits_for :: "bean_method list \<Rightarrow> bean_method \<Rightarrow> string \<Rightarrow> bool" where
  "waits_for ms m n \<longleftrightarrow> n \<noteq> bm_attr m \<and> (\<exists>p \<in> set (bm_params m). makes ms n (bare (pm_type p)))"

lemma set_mapped: "set (List.map_filter f xs) = {y. \<exists>x \<in> set xs. f x = Some y}"
  by (force simp: List.map_filter_def)

lemma find_rev:
  "find P (rev xs) = Some x \<longleftrightarrow> (\<exists>us vs. xs = us @ x # vs \<and> P x \<and> (\<forall>y \<in> set vs. \<not> P y))"
proof (induction xs rule: rev_induct)
  case (snoc z zs)
  show ?case
  proof (cases "P z")
    case True
    have "(\<exists>us vs. zs @ [z] = us @ x # vs \<and> P x \<and> (\<forall>y \<in> set vs. \<not> P y)) \<longleftrightarrow> x = z"
    proof
      assume "\<exists>us vs. zs @ [z] = us @ x # vs \<and> P x \<and> (\<forall>y \<in> set vs. \<not> P y)"
      then obtain us vs where "zs @ [z] = us @ x # vs" "\<forall>y \<in> set vs. \<not> P y" by blast
      with True show "x = z" by (cases vs rule: rev_cases) auto
    next
      assume "x = z"
      with True show "\<exists>us vs. zs @ [z] = us @ x # vs \<and> P x \<and> (\<forall>y \<in> set vs. \<not> P y)"
        by (intro exI [of _ zs] exI [of _ "[]"]) simp
    qed
    with True show ?thesis by auto
  next
    case False
    have "(\<exists>us vs. zs @ [z] = us @ x # vs \<and> P x \<and> (\<forall>y \<in> set vs. \<not> P y)) \<longleftrightarrow>
        (\<exists>us vs. zs = us @ x # vs \<and> P x \<and> (\<forall>y \<in> set vs. \<not> P y))" (is "?L \<longleftrightarrow> ?R")
    proof
      assume ?L
      then obtain us vs where *: "zs @ [z] = us @ x # vs" "P x" "\<forall>y \<in> set vs. \<not> P y" by blast
      with False show ?R by (cases vs rule: rev_cases) auto
    next
      assume ?R
      then obtain us vs where "zs = us @ x # vs" "P x" "\<forall>y \<in> set vs. \<not> P y" by blast
      with False show ?L by (intro exI [of _ us] exI [of _ "vs @ [z]"]) auto
    qed
    with False snoc show ?thesis by simp
  qed
qed simp

lemma producer_makes: "producer ms t = Some n \<longleftrightarrow> makes ms n t"
  unfolding producer_def makes_def by (auto simp: find_rev)

lemma method_deps_waits: "n \<in> set (method_deps ms m) \<longleftrightarrow> waits_for ms m n"
  by (auto simp: method_deps_def waits_for_def set_mapped producer_makes)

lemma method_deps_in: "set (method_deps ms m) \<subseteq> bm_attr ` set ms"
  by (auto simp: method_deps_waits waits_for_def makes_def)

lemma find_attr: "\<lbrakk>distinct (map bm_attr ms); m \<in> set ms\<rbrakk> \<Longrightarrow> find (\<lambda>x. bm_attr x = bm_attr m) ms = Some m"
  by (induction ms) (auto simp: image_iff)

definition method_edges :: "bean_method list \<Rightarrow> (string \<times> string) set" where
  "method_edges ms = {(n, bm_attr m) | n m. m \<in> set ms \<and> n \<in> set (method_deps ms m)}"

lemma sort_bean_methods_topological:
  assumes "distinct (map bm_attr ms)"
  shows "mset (sort_bean_methods ms) = mset ms \<and>
         (if acyclic (method_edges ms)
          then \<forall>xs m ys. sort_bean_methods ms = xs @ m # ys \<longrightarrow> set (method_deps ms m) \<subseteq> bm_attr ` set xs
          else sort_bean_methods ms = ms)"
proof -
  define named where "named n = the (find (\<lambda>m. bm_attr m = n) ms)" for n
  define dp where "dp n = method_deps ms (named n)" for n
  let ?ns = "map bm_attr ms"
  have named: "named (bm_attr m) = m" if "m \<in> set ms" for m using find_attr [OF assms that] by (simp add: named_def)
  have deps: "map (\<lambda>m. (bm_attr m, method_deps ms m)) ms = remaining dp ?ns []"
    by (auto simp: remaining_def dp_def named)
  have start: "map fst (filter (\<lambda>e. snd e = []) (remaining dp ?ns [])) = filter (\<lambda>n. dp n = []) ?ns"
    by (simp add: remaining_def filter_map comp_def)
  define R where "R = kahn_order (remaining dp ?ns []) (filter (\<lambda>n. dp n = []) ?ns) []"
  have dp: "\<forall>n \<in> set ?ns. distinct (dp n) \<and> set (dp n) \<subseteq> set ?ns"
    using method_deps_in by (auto simp: dp_def method_deps_def)
  note R = kahn_complete [OF assms dp R_def]
  have edges: "{(n, m). m \<in> set ?ns \<and> n \<in> set (dp m)} = method_edges ms"
    by (auto simp: method_edges_def dp_def named)
  have sorted: "sort_bean_methods ms = (if acyclic (method_edges ms) then map named R else ms)"
  proof -
    have "List.map_filter (\<lambda>n. find (\<lambda>m. bm_attr m = n) ms) R = map named R"
    proof -
      have "find (\<lambda>m. bm_attr m = n) ms = Some (named n)" if "n \<in> set R" for n
        using R(2) that find_attr [OF assms] named by auto
      then show ?thesis by (simp add: List.map_filter_def)
    qed
    then show ?thesis using R(4) unfolding sort_bean_methods_def Let_def deps start edges R_def [symmetric] by simp
  qed
  show ?thesis
  proof (cases "acyclic (method_edges ms)")
    case True
    then have "set R = set ?ns" using R assms by (metis List.finite_set card_subset_eq distinct_card edges)
    then have "mset R = mset ?ns" using set_eq_iff_mset_eq_distinct [OF R(1) assms] by (rule iffD1 [rotated])
    then have "mset (map named R) = mset (map named ?ns)" by (simp only: mset_map)
    moreover have "map named ?ns = ms" using named by (simp add: map_idI)
    ultimately have "mset (map named R) = mset ms" by (simp only:)
    moreover have "set (method_deps ms m) \<subseteq> bm_attr ` set xs" if split: "map named R = xs @ m # ys" for xs m ys
    proof -
      from split obtain us n vs where R': "R = us @ n # vs" "xs = map named us" "m = named n"
        by (auto simp: map_eq_append_conv map_eq_Cons_conv)
      then have "set (dp n) \<subseteq> set us" using R(3) by (simp add: in_order_def)
      moreover have "bm_attr (named k) = k" if "k \<in> set R" for k using R(2) that named by auto
      ultimately show ?thesis using R' by (fastforce simp: dp_def image_iff)
    qed
    ultimately show ?thesis using True sorted by simp
  qed (simp add: sorted)
qed

section \<open>The order of the life cycle\<close>

text \<open>
  To observe the order of calls the world is the list of calls made so far. What a call does is given by a script: which methods raise
  what, which take too long to stop, what the post-processors make of a bean, and which background tasks are done.
\<close>

datatype event =
    Called nat string
  | Processed nat string nat string
  | Cancelled nat
  | Awaited "nat list"

type_synonym calls = "event list"

record life =
  lf_bad :: "nat \<Rightarrow> string \<Rightarrow> exn option"
  lf_slow :: "nat \<Rightarrow> string \<Rightarrow> bool"
  lf_made :: "nat \<Rightarrow> string \<Rightarrow> nat \<Rightarrow> string \<Rightarrow> exn + string option"
  lf_finished :: "nat \<Rightarrow> bool"

definition scripted :: "calls app_env \<Rightarrow> life \<Rightarrow> bool" where
  "scripted env lf \<longleftrightarrow>
     ap_call env = (\<lambda>a m w. (lf_bad lf a m, w @ [Called a m])) \<and>
     ap_hangs env = (\<lambda>a m w. lf_slow lf a m) \<and>
     ap_process env = (\<lambda>pp hook a n w. (lf_made lf pp hook a n, w @ [Processed pp hook a n])) \<and>
     ap_task_done env = (\<lambda>t w. lf_finished lf t) \<and>
     ap_cancel env = (\<lambda>t w. w @ [Cancelled t]) \<and>
     ap_gather env = (\<lambda>ts w. w @ [Awaited ts])"

definition log_of :: "calls app_context \<Rightarrow> calls" where
  "log_of s = ct_world (ac_container s)"

definition log_more :: "calls \<Rightarrow> calls app_context \<Rightarrow> calls app_context" where
  "log_more es s = s\<lparr>ac_container := (ac_container s)\<lparr>ct_world := ct_world (ac_container s) @ es\<rparr>\<rparr>"

lemma log_more_log_more [simp]: "log_more es (log_more ds s) = log_more (ds @ es) s" and log_more_Nil [simp]: "log_more [] s = s"
  by (simp_all add: log_more_def)

lemma log_more_rest [simp]:
  "class_of (log_more es s) a = class_of s a" "instances (log_more es s) = instances s" "registration_of (log_more es s) rid = registration_of s rid"
  "ac_adapters (log_more es s) = ac_adapters s" "ac_listeners (log_more es s) = ac_listeners s" "ac_tasks (log_more es s) = ac_tasks s"
  "ac_scheduler (log_more es s) = ac_scheduler s" "ac_started (log_more es s) = ac_started s"
  "ac_tasks_update f (log_more es s) = log_more es (ac_tasks_update f s)"
  "ac_started_update g (log_more es s) = log_more es (ac_started_update g s)"
  "log_of (log_more es s) = log_of s @ es"
  by (simp_all add: log_more_def log_of_def class_of_def instances_def live_registrations_def registration_of_def)

text \<open>Calls that end with the first that raises.\<close>

fun until_raise :: "(event \<times> exn option) list \<Rightarrow> event list" where
  "until_raise [] = []"
| "until_raise ((e, x) # es) = e # (if x = None then until_raise es else [])"

definition first_raised :: "(event \<times> exn option) list \<Rightarrow> exn option" where
  "first_raised es = (case filter (\<lambda>e. snd e \<noteq> None) es of [] \<Rightarrow> None | e # _ \<Rightarrow> snd e)"

definition outcome_of :: "exn option \<Rightarrow> exn + unit" where
  "outcome_of x = (case x of None \<Rightarrow> Inr () | Some e \<Rightarrow> Inl e)"

lemma until_raise_append: "until_raise (xs @ ys) = (if first_raised xs = None then until_raise xs @ until_raise ys else until_raise xs)"
  by (induction xs rule: until_raise.induct) (auto simp: first_raised_def split: list.splits)

lemma first_raised_append: "first_raised (xs @ ys) = (if first_raised xs = None then first_raised ys else first_raised xs)"
  by (induction xs rule: until_raise.induct) (auto simp: first_raised_def split: list.splits)

lemma first_raised_simps [simp]: "first_raised [] = None" "first_raised ((e, x) # es) = (if x = None then first_raised es else x)"
  by (auto simp: first_raised_def)

lemma call_logged: "scripted env lf \<Longrightarrow> call_method env a m s = Some (outcome_of (lf_bad lf a m), log_more [Called a m] s)"
  by (simp add: scripted_def call_method_def in_world_def unit_result_def log_more_def outcome_of_def)

lemma caught_call_logged: "scripted env lf \<Longrightarrow> act_catch (call_method env a m) (\<lambda>_. act_ret ()) s = Some (Inr (), log_more [Called a m] s)"
  by (cases "lf_bad lf a m") (simp_all add: act_catch_def act_ret_def call_logged outcome_of_def)

text \<open>Actions that only log.\<close>

lemma each_logged:
  assumes "\<And>x s'. x \<in> set xs \<Longrightarrow> f x (log_more s' s) = Some (Inr (), log_more (s' @ g x) s)"
  shows "each f xs s = Some (Inr (), log_more (concat (map g xs)) s)"
proof -
  have "each f xs (log_more es s) = Some (Inr (), log_more (es @ concat (map g xs)) s)" for es
    using assms by (induction xs arbitrary: es) (simp_all add: act_bnd_def act_ret_def)
  from this [of "[]"] show ?thesis by simp
qed

lemma each_until_raise:
  assumes "\<And>x s'. f x (log_more s' s) = Some (outcome_of (first_raised (g x)), log_more (s' @ until_raise (g x)) s)"
  shows "each f xs (log_more es s) = Some (outcome_of (first_raised (concat (map g xs))), log_more (es @ until_raise (concat (map g xs))) s)"
  using assms
  by (induction xs arbitrary: es)
    (auto simp: act_bnd_def act_ret_def outcome_of_def until_raise_append first_raised_append split: option.splits)

text \<open>The hooks of a bean under the timeout: up to the first that takes too long.\<close>

fun until_slow :: "(string \<Rightarrow> bool) \<Rightarrow> string list \<Rightarrow> string list" where
  "until_slow slow [] = []"
| "until_slow slow (m # ms) = m # (if slow m then [] else until_slow slow ms)"

lemma pre_destroy_logged:
  "scripted env lf \<Longrightarrow> pre_destroy_hooks env a ms s = Some (Inr (), log_more (map (Called a) (until_slow (lf_slow lf a) ms)) s)"
proof (induction ms arbitrary: s)
  case (Cons m ms)
  have "ap_hangs env = (\<lambda>a m w. lf_slow lf a m)" using Cons.prems by (simp add: scripted_def)
  with Cons show ?case by (simp add: act_gets_def act_bnd_def caught_call_logged)
qed (simp add: act_ret_def)

definition announced :: "calls app_env \<Rightarrow> life \<Rightarrow> string \<Rightarrow> calls app_context \<Rightarrow> (event \<times> exn option) list" where
  "announced env lf event s =
     concat (map (\<lambda>(t, ls). if ap_subclass env event t = Some True then map (\<lambda>(a, m, owner). (Called a m, lf_bad lf a m)) ls else [])
       (ac_listeners s))"

lemma publish_logged:
  assumes "scripted env lf"
  shows "publish env event (log_more es s) =
    Some (outcome_of (first_raised (announced env lf event s)), log_more (es @ until_raise (announced env lf event s)) s)"
proof -
  have one: "each (\<lambda>(a, m, owner). call_method env a m) ls (log_more es s) =
      Some (outcome_of (first_raised (map (\<lambda>(a, m, owner). (Called a m, lf_bad lf a m)) ls)),
        log_more (es @ until_raise (map (\<lambda>(a, m, owner). (Called a m, lf_bad lf a m)) ls)) s)" for ls es
  proof -
    have "(\<lambda>(a, m, owner). call_method env a m) l (log_more es' s) =
        Some (outcome_of (first_raised ((\<lambda>(a, m, owner). [(Called a m, lf_bad lf a m)]) l)),
          log_more (es' @ until_raise ((\<lambda>(a, m, owner). [(Called a m, lf_bad lf a m)]) l)) s)" for l es'
      by (cases l) (simp add: call_logged [OF assms])
    then have "each (\<lambda>(a, m, owner). call_method env a m) ls (log_more es s) =
      Some (outcome_of (first_raised (concat (map (\<lambda>(a, m, owner). [(Called a m, lf_bad lf a m)]) ls))),
        log_more (es @ until_raise (concat (map (\<lambda>(a, m, owner). [(Called a m, lf_bad lf a m)]) ls))) s)"
      by (rule each_until_raise)
    moreover have "concat (map (\<lambda>(a, m, owner). [(Called a m, lf_bad lf a m)]) ls) = map (\<lambda>(a, m, owner). (Called a m, lf_bad lf a m)) ls"
      by (induction ls) auto
    ultimately show ?thesis by simp
  qed
  show ?thesis unfolding publish_def act_gets_def announced_def log_more_rest
    by (rule each_until_raise) (auto simp: one act_ret_def outcome_of_def)
qed

text \<open>
  The life of one bean at the start, by the script: an object is its address and class, and \<open>k\<close> is the address the next new object gets.
  Every call is listed with what it raises; what follows a call that raises is not made.
\<close>

fun passed_on :: "life \<Rightarrow> string \<Rightarrow> string \<Rightarrow> nat list \<Rightarrow> nat \<times> string \<Rightarrow> nat \<Rightarrow> (event \<times> exn option) list \<times> (nat \<times> string) \<times> nat" where
  "passed_on lf hook n [] x k = ([], x, k)"
| "passed_on lf hook n (pp # pps) (a, c) k =
     (case lf_made lf pp hook a n of
        Inl e \<Rightarrow> (case passed_on lf hook n pps (a, c) k of (es, r) \<Rightarrow> ((Processed pp hook a n, Some e) # es, r))
      | Inr None \<Rightarrow> (case passed_on lf hook n pps (a, c) k of (es, r) \<Rightarrow> ((Processed pp hook a n, None) # es, r))
      | Inr (Some c') \<Rightarrow> (case passed_on lf hook n pps (k, c') (Suc k) of (es, r) \<Rightarrow> ((Processed pp hook a n, None) # es, r)))"

definition own_hooks :: "calls app_env \<Rightarrow> life \<Rightarrow> nat \<times> string \<Rightarrow> (event \<times> exn option) list" where
  "own_hooks env lf x =
     (case x of (a, c) \<Rightarrow>
        map (\<lambda>(m, mark). (Called a m, map_option (\<lambda>e. Exn bean_creation ''Failed to configure {} with provider {}: {}''
              [VStr ''lifecycle'', VStr (ci_qualname (ce_class (ap_container env) c)), VList [VStr m, VExn e]]) (lf_bad lf a m)))
          (filter (\<lambda>(m, mark). mark = PostConstruct) (sort_key fst (ap_methods env c))))"

definition bean_life ::
  "calls app_env \<Rightarrow> life \<Rightarrow> nat list \<Rightarrow> string \<Rightarrow> nat \<times> string \<Rightarrow> nat \<Rightarrow> (event \<times> exn option) list \<times> (nat \<times> string) \<times> nat" where
  "bean_life env lf pps n x k =
     (let (before, y, k1) = passed_on lf ''before_init'' n pps x k;
          (after, z, k2) = passed_on lf ''after_init'' n pps y k1
      in (before @ own_hooks env lf y @ after, z, k2))"

fun all_lives ::
  "calls app_env \<Rightarrow> life \<Rightarrow> nat list \<Rightarrow> (string \<times> (nat \<times> string) option) list \<Rightarrow> nat \<Rightarrow> (event \<times> exn option) list \<times> nat option list" where
  "all_lives env lf pps [] k = ([], [])"
| "all_lives env lf pps ((n, None) # xs) k = (case all_lives env lf pps xs k of (es, bs) \<Rightarrow> (es, None # bs))"
| "all_lives env lf pps ((n, Some x) # xs) k =
     (let (es, z, k') = bean_life env lf pps n x k; (es', bs) = all_lives env lf pps xs k' in (es @ es', Some (fst z) # bs))"

text \<open>Registrations are different objects, and their instances are on the heap.\<close>

definition linked :: "'w app_context \<Rightarrow> bool" where
  "linked s \<longleftrightarrow>
     refs_ok (ac_container s) \<and> distinct (dvals (ct_registrations (ac_container s))) \<and>
     (\<forall>reg \<in> set (ct_store (ac_container s)). case rg_instance reg of IObj a \<Rightarrow> a < length (ct_heap (ac_container s)) | _ \<Rightarrow> True)"

text \<open>What the start of a bean leaves as it was.\<close>

definition others_kept :: "nat \<Rightarrow> calls app_context \<Rightarrow> calls app_context \<Rightarrow> bool" where
  "others_kept rid s s' \<longleftrightarrow>
     ct_registrations (ac_container s') = ct_registrations (ac_container s) \<and>
     length (ct_store (ac_container s')) = length (ct_store (ac_container s)) \<and>
     (\<forall>i. i \<noteq> rid \<longrightarrow> registration_of s' i = registration_of s i) \<and>
     rg_name (registration_of s' rid) = rg_name (registration_of s rid) \<and> rg_impl (registration_of s' rid) = rg_impl (registration_of s rid) \<and>
     length (ct_heap (ac_container s)) \<le> length (ct_heap (ac_container s')) \<and>
     (\<forall>a < length (ct_heap (ac_container s)). class_of s' a = class_of s a)"

lemma others_kept_refl [simp]: "others_kept rid s s"
  by (simp add: others_kept_def)

lemma others_kept_log [simp]: "others_kept rid s (log_more es s') = others_kept rid s s'" "others_kept rid (log_more es s) s' = others_kept rid s s'"
  by (simp_all add: others_kept_def log_more_def registration_of_def class_of_def)

lemma others_kept_trans: "\<lbrakk>others_kept rid s s'; others_kept rid s' s''\<rbrakk> \<Longrightarrow> others_kept rid s s''"
  unfolding others_kept_def by (metis (no_types, opaque_lifting) le_trans less_le_trans)

definition holds :: "calls app_context \<Rightarrow> nat \<Rightarrow> nat \<times> string \<Rightarrow> nat \<Rightarrow> bool" where
  "holds s rid x k \<longleftrightarrow>
     rid < length (ct_store (ac_container s)) \<and> rg_instance (registration_of s rid) = IObj (fst x) \<and> class_of s (fst x) = snd x \<and>
     fst x < k \<and> length (ct_heap (ac_container s)) = k"

lemma holds_log [simp]: "holds (log_more es s) rid x k = holds s rid x k"
  by (simp add: holds_def log_more_def registration_of_def class_of_def)

lemma log_of_more: "log_more es s = s' \<Longrightarrow> log_of s' = log_of s @ es"
  by auto

text \<open>One post-processor.\<close>

lemma post_process_replaced:
  assumes "scripted env lf" "holds s rid (a, c) k" "lf_made lf pp hook a n = Inr (Some c')"
  shows "\<exists>s'. post_process env rid n hook pp s = Some (Inr (), s') \<and> log_of s' = log_of s @ [Processed pp hook a n] \<and>
    holds s' rid (k, c') (Suc k) \<and> others_kept rid s s'"
proof -
  let ?c = "ac_container s"
  let ?s' = "s\<lparr>ac_container := set_instance rid (IObj k)
      (?c\<lparr>ct_world := ct_world ?c @ [Processed pp hook a n], ct_heap := ct_heap ?c @ [\<lparr>ob_class = c', ob_kwargs = [], ob_attrs = []\<rparr>]\<rparr>)\<rparr>"
  have "ap_process env = (\<lambda>pp hook a n w. (lf_made lf pp hook a n, w @ [Processed pp hook a n]))" using assms(1) by (simp add: scripted_def)
  then have "post_process env rid n hook pp s = Some (Inr (), ?s')"
    using assms(2,3) by (simp add: post_process_def act_gets_def holds_def address_def act_bnd_def in_world_def new_object_def on_container_def
        act_modify_def act_ret_def)
  moreover have "holds ?s' rid (k, c') (Suc k)" "others_kept rid s ?s'" "log_of ?s' = log_of s @ [Processed pp hook a n]"
    using assms(2) by (auto simp: holds_def others_kept_def registration_of_def class_of_def set_instance_def nth_append log_of_def)
  ultimately show ?thesis by blast
qed

lemma post_process_kept:
  assumes "scripted env lf" "holds s rid (a, c) k"
  shows "lf_made lf pp hook a n = Inl e \<Longrightarrow> post_process env rid n hook pp s = Some (Inl e, log_more [Processed pp hook a n] s)"
    and "lf_made lf pp hook a n = Inr None \<Longrightarrow> post_process env rid n hook pp s = Some (Inr (), log_more [Processed pp hook a n] s)"
  using assms by (simp_all add: scripted_def post_process_def act_gets_def holds_def address_def act_bnd_def in_world_def log_more_def act_ret_def)

text \<open>What an action has done by a list of calls: the calls up to the first that raises, its exception, and, when none raises, a state.\<close>

definition follows :: "((exn + unit) \<times> calls app_context) option \<Rightarrow> calls app_context \<Rightarrow> (event \<times> exn option) list \<Rightarrow> (calls app_context \<Rightarrow> bool) \<Rightarrow> bool" where
  "follows x s es P \<longleftrightarrow>
     (\<exists>s'. x = Some (outcome_of (first_raised es), s') \<and> log_of s' = log_of s @ until_raise es \<and> (first_raised es = None \<longrightarrow> P s'))"

lemma follows_bnd:
  assumes "follows (m s) s es P" "\<And>s'. P s' \<Longrightarrow> follows (f () s') s' es' Q"
  shows "follows (act_bnd m f s) s (es @ es') Q"
proof -
  obtain s' where m: "m s = Some (outcome_of (first_raised es), s')" "log_of s' = log_of s @ until_raise es" "first_raised es = None \<longrightarrow> P s'"
    using assms(1) by (auto simp: follows_def)
  show ?thesis
  proof (cases "first_raised es")
    case None
    with m have "follows (f () s') s' es' Q" using assms(2) by blast
    with None m show ?thesis
      by (auto simp: follows_def act_bnd_def outcome_of_def first_raised_append until_raise_append)
  next
    case (Some e)
    with m show ?thesis by (simp add: follows_def act_bnd_def outcome_of_def first_raised_append until_raise_append)
  qed
qed

lemma follows_mono: "\<lbrakk>follows x s es P; \<And>s'. P s' \<Longrightarrow> Q s'\<rbrakk> \<Longrightarrow> follows x s es Q"
  by (auto simp: follows_def)

lemma processors_follow:
  assumes "scripted env lf" "holds s rid x k" "passed_on lf hook n pps x k = (es, y, k')"
  shows "follows (each (post_process env rid n hook) pps s) s es (\<lambda>s'. holds s' rid y k' \<and> others_kept rid s s')"
  using assms(2,3)
proof (induction pps arbitrary: s x k es)
  case Nil
  then show ?case by (simp add: follows_def act_ret_def outcome_of_def)
next
  case (Cons pp pps)
  obtain a c where x: "x = (a, c)" by (cases x)
  note h = Cons.prems(1) [unfolded x]
  show ?case
  proof (cases "lf_made lf pp hook a n")
    case (Inl e)
    then obtain es' where "es = (Processed pp hook a n, Some e) # es'" using Cons.prems(2) by (auto simp: x split: prod.splits)
    with post_process_kept(1) [OF assms(1) h Inl] show ?thesis
      by (simp add: follows_def act_bnd_def outcome_of_def)
  next
    case made: (Inr r)
    define x' where "x' = (case r of None \<Rightarrow> (a, c) | Some c' \<Rightarrow> (k, c'))"
    define k1 where "k1 = (case r of None \<Rightarrow> k | Some c' \<Rightarrow> Suc k)"
    obtain es' where es: "es = [(Processed pp hook a n, None)] @ es'" "passed_on lf hook n pps x' k1 = (es', y, k')"
      using Cons.prems(2) made by (auto simp: x x'_def k1_def split: prod.splits option.splits)
    have "\<exists>s1. post_process env rid n hook pp s = Some (Inr (), s1) \<and> log_of s1 = log_of s @ [Processed pp hook a n] \<and>
        holds s1 rid x' k1 \<and> others_kept rid s s1"
    proof (cases r)
      case None
      with post_process_kept(2) [OF assms(1) h] made h show ?thesis by (simp add: x'_def k1_def)
    next
      case (Some c')
      with post_process_replaced [OF assms(1) h] made show ?thesis by (simp add: x'_def k1_def)
    qed
    then have first: "follows (post_process env rid n hook pp s) s [(Processed pp hook a n, None)] (\<lambda>s1. holds s1 rid x' k1 \<and> others_kept rid s s1)"
      by (auto simp: follows_def outcome_of_def)
    show ?thesis unfolding each.simps es(1)
    proof (rule follows_bnd [where m = "post_process env rid n hook pp", OF first], elim conjE)
      fix s1 assume "holds s1 rid x' k1" "others_kept rid s s1"
      from Cons.IH [OF this(1) es(2)] this(2)
      show "follows (each (post_process env rid n hook) pps s1) s1 es' (\<lambda>s'. holds s' rid y k' \<and> others_kept rid s s')"
        by (auto elim: follows_mono intro: others_kept_trans)
    qed
  qed
qed
lemma own_hooks_follow:
  assumes "scripted env lf" "holds s rid (a, c) k"
  shows "follows (call_post_construct env a s) s (own_hooks env lf (a, c)) (\<lambda>s'. holds s' rid (a, c) k \<and> others_kept rid s s')"
proof -
  let ?ev = "\<lambda>m. (Called a m, map_option (\<lambda>e. Exn bean_creation ''Failed to configure {} with provider {}: {}''
              [VStr ''lifecycle'', VStr (ci_qualname (ce_class (ap_container env) c)), VList [VStr m, VExn e]]) (lf_bad lf a m))"
  let ?act = "\<lambda>m. act_catch (call_method env a m)
              (\<lambda>e. act_raise (bean_creation_error ''lifecycle'' (ci_qualname (ce_class (ap_container env) c)) (VList [VStr m, VExn e])))"
  have one: "?act m (log_more es s) = Some (outcome_of (first_raised [?ev m]), log_more (es @ until_raise [?ev m]) s)" for m es
    by (cases "lf_bad lf a m")
      (simp_all add: act_catch_def call_logged [OF assms(1)] outcome_of_def act_raise_def bean_creation_error_def)
  have "each ?act ms (log_more [] s) = Some (outcome_of (first_raised (concat (map (\<lambda>m. [?ev m]) ms))),
      log_more ([] @ until_raise (concat (map (\<lambda>m. [?ev m]) ms))) s)" for ms
    by (rule each_until_raise) (rule one)
  moreover have "concat (map (\<lambda>m. [?ev m]) (hook_names (\<lambda>k. k = PostConstruct) env c)) = own_hooks env lf (a, c)"
    by (simp add: concat_map_singleton own_hooks_def hook_names_def comp_def case_prod_unfold)
  moreover have "class_of s a = c" using assms(2) by (simp add: holds_def)
  ultimately show ?thesis
    using assms(2) by (simp add: call_post_construct_def act_gets_def follows_def)
qed

lemma bean_life_follows:
  assumes "scripted env lf" "holds s rid x k" "rg_name (registration_of s rid) = nm" "rg_impl (registration_of s rid) = impl"
    and "bean_life env lf pps (if nm \<noteq> [] then nm else ci_name (ce_class (ap_container env) impl)) x k = (es, z, k')"
  shows "follows (initialise env pps rid s) s es (\<lambda>s'. holds s' rid z k' \<and> others_kept rid s s')"
proof -
  let ?n = "if nm \<noteq> [] then nm else ci_name (ce_class (ap_container env) impl)"
  obtain es1 y k1 where before: "passed_on lf ''before_init'' ?n pps x k = (es1, y, k1)" by (metis prod_cases3)
  obtain es2 where after: "passed_on lf ''after_init'' ?n pps y k1 = (es2, z, k')" and es: "es = es1 @ own_hooks env lf y @ es2"
    using assms(5) before by (auto simp: bean_life_def split: prod.splits)
  have "rg_instance (registration_of s rid) \<noteq> INone" using assms(2) by (simp add: holds_def)
  then have run: "initialise env pps rid s =
      act_bnd (each (post_process env rid ?n ''before_init'') pps) (\<lambda>_.
        act_bnd (act_gets (\<lambda>s'. case address (rg_instance (registration_of s' rid)) of
                      Some a \<Rightarrow> call_post_construct env a | None \<Rightarrow> act_ret ())) (\<lambda>_.
           each (post_process env rid ?n ''after_init'') pps)) s"
    using assms(3,4) by (simp add: initialise_def act_gets_def Let_def)
  show ?thesis unfolding run es
  proof (rule follows_bnd [where m = "each (post_process env rid ?n ''before_init'') pps", OF processors_follow [OF assms(1,2) before]], elim conjE)
    fix s1 assume s1: "holds s1 rid y k1" "others_kept rid s s1"
    obtain b c where y: "y = (b, c)" by (cases y)
    have "follows (act_gets (\<lambda>s'. case address (rg_instance (registration_of s' rid)) of
        Some a \<Rightarrow> call_post_construct env a | None \<Rightarrow> act_ret ()) s1) s1 (own_hooks env lf y) (\<lambda>s'. holds s' rid y k1 \<and> others_kept rid s1 s')"
      using own_hooks_follow [OF assms(1) s1(1) [unfolded y]] s1(1) by (simp add: act_gets_def holds_def address_def y)
    then show "follows (act_bnd (act_gets (\<lambda>s'. case address (rg_instance (registration_of s' rid)) of
                      Some a \<Rightarrow> call_post_construct env a | None \<Rightarrow> act_ret ())) (\<lambda>_.
           each (post_process env rid ?n ''after_init'') pps) s1) s1 (own_hooks env lf y @ es2) (\<lambda>s'. holds s' rid z k' \<and> others_kept rid s s')"
    proof (rule follows_bnd [where m = "act_gets _"], elim conjE)
      fix s2 assume s2: "holds s2 rid y k1" "others_kept rid s1 s2"
      note kept = others_kept_trans [OF s1(2) s2(2)]
      show "follows (each (post_process env rid ?n ''after_init'') pps s2) s2 es2 (\<lambda>s'. holds s' rid z k' \<and> others_kept rid s s')"
        by (rule follows_mono [OF processors_follow [OF assms(1) s2(1) after]]) (use others_kept_trans [OF kept] in blast)
    qed
  qed
qed

text \<open>A registration as the script sees it.\<close>

definition seen :: "calls app_env \<Rightarrow> calls app_context \<Rightarrow> nat \<Rightarrow> string \<times> (nat \<times> string) option" where
  "seen env s rid =
     (let reg = registration_of s rid
      in (if rg_name reg \<noteq> [] then rg_name reg else ci_name (ce_class (ap_container env) (rg_impl reg)),
          map_option (\<lambda>a. (a, class_of s a)) (address (rg_instance reg))))"

definition sound_instances :: "calls app_context \<Rightarrow> nat list \<Rightarrow> bool" where
  "sound_instances s rids \<longleftrightarrow>
     (\<forall>rid \<in> set rids. rid < length (ct_store (ac_container s)) \<and>
        (\<forall>a. rg_instance (registration_of s rid) = IObj a \<longrightarrow> a < length (ct_heap (ac_container s))))"

lemma seen_object:
  "address (rg_instance (registration_of s rid)) = Some a \<Longrightarrow> \<exists>n. seen env s rid = (n, Some (a, class_of s a))"
  "address (rg_instance (registration_of s rid)) = None \<Longrightarrow> \<exists>n. seen env s rid = (n, None)"
  by (simp_all add: seen_def Let_def)

lemma seen_others: "\<lbrakk>others_kept r s s'; rid \<noteq> r; sound_instances s [rid]\<rbrakk> \<Longrightarrow> seen env s' rid = seen env s rid \<and> sound_instances s' [rid]"
  by (cases "rg_instance (registration_of s rid)") (auto simp: others_kept_def seen_def sound_instances_def address_def Let_def)

lemma no_object:
  assumes "address (rg_instance (registration_of s rid)) = None"
  shows "initialise env pps rid s = Some (Inr (), s)"
proof (cases "rg_instance (registration_of s rid) = INone")
  case True
  then show ?thesis by (simp add: initialise_def act_gets_def act_ret_def)
next
  case False
  have "each (post_process env rid n hook) qs s = Some (Inr (), s)" for n hook qs
    by (induction qs) (simp_all add: act_ret_def act_bnd_def post_process_def act_gets_def assms)
  with False show ?thesis by (simp add: initialise_def act_gets_def act_bnd_def act_ret_def assms Let_def)
qed

lemma lives_follow:
  assumes "scripted env lf" "distinct rids" "sound_instances s rids"
    and "all_lives env lf pps (map (seen env s) rids) (length (ct_heap (ac_container s))) = (es, bs)"
  shows "follows (each (initialise env pps) rids s) s es (\<lambda>s'.
    map (\<lambda>rid. address (rg_instance (registration_of s' rid))) rids = bs \<and>
    ct_registrations (ac_container s') = ct_registrations (ac_container s) \<and>
    (\<forall>rid. rid \<notin> set rids \<longrightarrow> registration_of s' rid = registration_of s rid))"
  using assms(2-4)
proof (induction rids arbitrary: s es bs)
  case Nil
  then show ?case by (simp add: follows_def act_ret_def outcome_of_def)
next
  case (Cons rid rids)
  have rest: "rid \<notin> set rids" "distinct rids" "sound_instances s rids" "sound_instances s [rid]"
    using Cons.prems(1,2) by (auto simp: sound_instances_def)
  show ?case
  proof (cases "address (rg_instance (registration_of s rid))")
    case None
    then obtain bs' where bs: "bs = None # bs'"
      "all_lives env lf pps (map (seen env s) rids) (length (ct_heap (ac_container s))) = (es, bs')"
      using Cons.prems(3) seen_object(2) [OF None, of env] by (auto split: prod.splits)
    have "each (initialise env pps) (rid # rids) s = each (initialise env pps) rids s"
      using no_object [OF None] by (simp add: act_bnd_def)
    moreover note Cons.IH [OF rest(2,3) bs(2)]
    ultimately show ?thesis
      using None rest(1) by (auto simp: bs(1) elim!: follows_mono)
  next
    case (Some a)
    let ?k = "length (ct_heap (ac_container s))"
    have a: "rg_instance (registration_of s rid) = IObj a"
      using Some by (cases "rg_instance (registration_of s rid)") (simp_all add: address_def)
    then have h: "holds s rid (a, class_of s a) ?k" using rest(4) by (simp add: holds_def sound_instances_def)
    obtain n where n: "seen env s rid = (n, Some (a, class_of s a))" using seen_object(1) [OF Some] by blast
    obtain es1 z k' where life: "bean_life env lf pps n (a, class_of s a) ?k = (es1, z, k')" by (metis prod_cases3)
    obtain es2 bs' where tail: "all_lives env lf pps (map (seen env s) rids) k' = (es2, bs')" "es = es1 @ es2" "bs = Some (fst z) # bs'"
      using Cons.prems(3) life n by (auto split: prod.splits)
    have "follows (initialise env pps rid s) s es1 (\<lambda>s'. holds s' rid z k' \<and> others_kept rid s s')"
      by (rule bean_life_follows [OF assms(1) h refl refl]) (use life n in \<open>simp add: seen_def Let_def\<close>)
    then show ?thesis unfolding each.simps tail(2)
    proof (rule follows_bnd [where m = "initialise env pps rid"], elim conjE)
      fix s1 assume s1: "holds s1 rid z k'" "others_kept rid s s1"
      have "seen env s1 r = seen env s r \<and> sound_instances s1 [r]" if "r \<in> set rids" for r
        using seen_others [OF s1(2), of r] that rest(1,3) by (auto simp: sound_instances_def)
      then have same: "map (seen env s1) rids = map (seen env s) rids" "sound_instances s1 rids"
        by (auto simp: sound_instances_def)
      have "length (ct_heap (ac_container s1)) = k'" using s1(1) by (simp add: holds_def)
      with Cons.IH [OF rest(2) same(2), of es2 bs'] same(1) tail(1)
      have "follows (each (initialise env pps) rids s1) s1 es2 (\<lambda>s'.
          map (\<lambda>rid. address (rg_instance (registration_of s' rid))) rids = bs' \<and>
          ct_registrations (ac_container s') = ct_registrations (ac_container s1) \<and>
          (\<forall>r. r \<notin> set rids \<longrightarrow> registration_of s' r = registration_of s1 r))" by simp
      then show "follows (each (initialise env pps) rids s1) s1 es2 (\<lambda>s'.
          map (\<lambda>rid. address (rg_instance (registration_of s' rid))) (rid # rids) = bs \<and>
          ct_registrations (ac_container s') = ct_registrations (ac_container s) \<and>
          (\<forall>r. r \<notin> set (rid # rids) \<longrightarrow> registration_of s' r = registration_of s r))"
        by (rule follows_mono) (use s1 rest(1) tail(3) in \<open>auto simp: holds_def others_kept_def address_def\<close>)
    qed
  qed
qed

text \<open>
  Claim C0. What the start does to the beans, whatever hooks raise and post-processors make of them: the registrations that hold an object are
  served in their order. Each post-processor, in the stable order of precedence, is given the object that the one before it left, before
  the object's own hooks, in the order of their names, and again after them; all calls up to the first that raises are made, in
  this order, and no other. A hook that raises is reported as a \<^verbatim>\<open>BeanCreationException\<close> for its class, a post-processor by its own exception.
  When nothing raises every registration holds the object the last post-processor left, and no registration has gone or come.
\<close>

theorem initialisation_order:
  assumes "scripted env lf" "linked s"
    and "all_lives env lf (sort_key (\<lambda>a. get_order (ap_marks env (class_of s a))) (ac_post_processors s))
           (map (seen env s) (dvals (ct_registrations (ac_container s)))) (length (ct_heap (ac_container s))) = (es, bs)"
  shows "\<exists>s'. initialise_beans env s = Some (outcome_of (first_raised es), s') \<and> log_of s' = log_of s @ until_raise es \<and>
           (first_raised es = None \<longrightarrow>
              map (\<lambda>rid. address (rg_instance (registration_of s' rid))) (dvals (ct_registrations (ac_container s))) = bs \<and>
              ct_registrations (ac_container s') = ct_registrations (ac_container s))"
proof -
  let ?rids = "dvals (ct_registrations (ac_container s))"
  have "sound_instances s ?rids" unfolding sound_instances_def
  proof (intro ballI conjI allI impI)
    fix rid assume "rid \<in> set ?rids"
    with assms(2) show rid: "rid < length (ct_store (ac_container s))" by (auto simp: linked_def refs_ok_def)
    fix a assume "rg_instance (registration_of s rid) = IObj a"
    moreover have "registration_of s rid \<in> set (ct_store (ac_container s))" using rid by (simp add: registration_of_def)
    ultimately show "a < length (ct_heap (ac_container s))" using assms(2) unfolding linked_def by fastforce
  qed
  then have "follows (each (initialise env (sorted_processors env s)) ?rids s) s es (\<lambda>s'.
      map (\<lambda>rid. address (rg_instance (registration_of s' rid))) ?rids = bs \<and>
      ct_registrations (ac_container s') = ct_registrations (ac_container s) \<and>
      (\<forall>rid. rid \<notin> set ?rids \<longrightarrow> registration_of s' rid = registration_of s rid))"
    using assms by (intro lives_follow) (simp_all add: linked_def sorted_processors_def)
  then show ?thesis by (auto simp: follows_def initialise_beans_def act_gets_def)
qed

text \<open>A singleton whose method declares an interface is held by two registrations, that of its class and that of the interface.\<close>

lemma interface_bean_held_twice:
  assumes "bm_scope m = SINGLETON" "i \<noteq> c" "i \<notin> set (dkeys (ct_registrations k))" "refs_ok k"
  shows "\<exists>r1 r2. r1 \<noteq> r2 \<and>
           dget (ct_registrations (register_result cenv m i c (IObj a) k)) c = Some r1 \<and>
           dget (ct_registrations (register_result cenv m i c (IObj a) k)) i = Some r2 \<and>
           rg_instance (ct_store (register_result cenv m i c (IObj a) k) ! r1) = IObj a \<and>
           rg_instance (ct_store (register_result cenv m i c (IObj a) k) ! r2) = IObj a"
  using assms
  by (auto simp: register_result_def register_with_instance_def register_def set_instance_def bind_type_def Let_def dmem_iff
      nth_append nth_list_update intro!: exI [of _ "length (ct_store k)"] exI [of _ "Suc (length (ct_store k))"])

section \<open>Examples\<close>

text \<open>Classes are described by a few tables; factories make objects of the class that is written after their name.\<close>

definition plain_cenv :: "(string \<Rightarrow> (exn + param list) option) \<Rightarrow> calls cenv" where
  "plain_cenv init =
     \<lparr>ce_class = (\<lambda>c. \<lparr>ci_name = c, ci_qualname = c, ci_primary = False, ci_scope = None, ci_bean_name = [], ci_init = init c, ci_fields = None\<rparr>),
      ce_construct = (\<lambda>c kw w. (Inr (), w)), ce_perf_counter = (\<lambda>_. 0), ce_time = (\<lambda>_. 0), ce_config_get = (\<lambda>_ _. Inr VNone), ce_hint_key = (\<lambda>_. ''?''),
      ce_hint_name = (\<lambda>t. case t of PClass c \<Rightarrow> Some c | _ \<Rightarrow> None), ce_repr = (\<lambda>_. []), ce_close_matches = (\<lambda>_ _. [])\<rparr>"

definition plain_env :: "(string \<times> string) list \<Rightarrow> (string \<times> bean_method list) list \<Rightarrow> (string \<times> string) list \<Rightarrow> calls app_env" where
  "plain_env subclasses methods products =
     \<lparr>ap_container = plain_cenv (\<lambda>_. None), ap_su = quiet, ap_marks = (\<lambda>_. no_marks), ap_importable = (\<lambda>_. True),
      ap_subclass = (\<lambda>c d. Some (c = d \<or> (c, d) \<in> set subclasses)), ap_module = (\<lambda>_. ''app''),
      ap_bean_methods = (\<lambda>c. dget_default methods c []), ap_methods = (\<lambda>_. []), ap_has_lifecycle = (\<lambda>_. False),
      ap_is_post_processor = (\<lambda>_. False), ap_is_runner = (\<lambda>_. False),
      ap_call = (\<lambda>a m w. (None, w @ [Called a m])), ap_hangs = (\<lambda>_ _ _. False),
      ap_factory = (\<lambda>_ attr _ w. (Inr (NewObject (dget_default products attr ''object'')), w)),
      ap_process = (\<lambda>pp hook a n w. (Inr None, w @ [Processed pp hook a n])), ap_wire = (\<lambda>_ w. ((None, [], None), w)),
      ap_task_done = (\<lambda>_ _. False), ap_cancel = (\<lambda>t w. w @ [Cancelled t]), ap_gather = (\<lambda>ts w. w @ [Awaited ts]),
      ap_auto_configurations = []\<rparr>"

definition bean_of :: "string \<Rightarrow> string \<Rightarrow> condition list \<Rightarrow> bean_method" where
  "bean_of attr t conds = \<lparr>bm_attr = attr, bm_conditions = conds, bm_params = [], bm_return = Some (PClass t), bm_name = [], bm_scope = SINGLETON\<rparr>"

definition context_with :: "string list \<Rightarrow> calls app_env \<Rightarrow> string list \<Rightarrow> calls app_context" where
  "context_with profiles env classes =
     (blank_context \<lparr>en_config = \<lparr>cf_data = [], cf_sources = []\<rparr>, en_profiles = profiles\<rparr> [])
       \<lparr>ac_container := fold (\<lambda>c. register (ap_container env) c SINGLETON (cm_bean_name (ap_marks env c))) classes (new_container [])\<rparr>"

text \<open>After an action: the class of the instance that a type resolves to.\<close>

definition resolved_class :: "calls app_env \<Rightarrow> string \<Rightarrow> ((exn + unit) \<times> calls app_context) option \<Rightarrow> string option" where
  "resolved_class env t x =
     (case x of
        Some (Inr _, s) \<Rightarrow>
          (case get_bean env (PClass t) s of Some (Inr v, s') \<Rightarrow> map_option (class_of s') (address v) | _ \<Rightarrow> None)
      | _ \<Rightarrow> None)"

definition event_loops :: "calls app_env" where
  "event_loops =
     (plain_env [(''AsyncioLoop'', ''EventLoopPort''), (''UvLoop'', ''EventLoopPort'')]
        [(''Loops'', [bean_of ''uvloop'' ''EventLoopPort'' [OnClass ''uvloop'', OnMissingBean ''EventLoopPort''],
                      bean_of ''asyncio_loop'' ''EventLoopPort'' [OnMissingBean ''EventLoopPort'']])]
        [(''uvloop'', ''UvLoop''), (''asyncio_loop'', ''AsyncioLoop'')])
     \<lparr>ap_marks := (\<lambda>c. if c = ''Loops'' then auto_configuration (conditional_on_missing_bean ''EventLoopPort'' no_marks) else no_marks),
      ap_has_lifecycle := (\<lambda>c. c \<in> {''AsyncioLoop'', ''UvLoop''})\<rparr>"

text \<open>
  All conditions of one class are evaluated before any of its methods is called, and the methods are called in the
  order of their names: both loops are made, and the fallback is the one that the port resolves to.
\<close>

lemma fallback_wins:
  "resolved_class event_loops ''EventLoopPort'' (start event_loops (context_with [] event_loops [''Loops''])) = Some ''AsyncioLoop''"
  by code_simp

text \<open>The adapter that is registered under its class and under the port is started twice.\<close>

lemma adapter_started_twice:
  "map_option (ct_world \<circ> ac_container \<circ> snd) (start event_loops (context_with [] event_loops [''Loops''])) =
     Some [Called 1 ''start'', Called 1 ''start'', Called 2 ''start'']"
  by code_simp
text \<open>
  A user's bean whose own class is the declared type is not seen by a condition on that type, and the automatic
  configuration replaces it.
\<close>

definition jwt_twice :: "calls app_env" where
  "jwt_twice =
     (plain_env [] [(''Mine'', [bean_of ''my_jwt'' ''JWTService'' []]), (''Auto'', [bean_of ''auto_jwt'' ''JWTService'' [OnMissingBean ''JWTService'']])]
        [(''my_jwt'', ''JWTService''), (''auto_jwt'', ''JWTService'')])
     \<lparr>ap_marks := (\<lambda>c. if c = ''Auto'' then auto_configuration (conditional_on_missing_bean ''JWTService'' no_marks)
                       else if c = ''Mine'' then stereotype ''configuration'' [] SINGLETON [] None no_marks else no_marks)\<rparr>"

definition resolved_address :: "calls app_env \<Rightarrow> string \<Rightarrow> ((exn + unit) \<times> calls app_context) option \<Rightarrow> nat option" where
  "resolved_address env t x =
     (case x of Some (Inr _, s) \<Rightarrow> (case get_bean env (PClass t) s of Some (Inr v, _) \<Rightarrow> address v | _ \<Rightarrow> None) | _ \<Rightarrow> None)"

lemma user_bean_replaced:
  "resolved_address jwt_twice ''JWTService'' (process_configurations jwt_twice False (context_with [] jwt_twice [''Mine'', ''Auto''])) = Some 1 \<and>
   resolved_address jwt_twice ''JWTService'' (start jwt_twice (context_with [] jwt_twice [''Mine'', ''Auto''])) = Some 3"
  by code_simp

text \<open>Two fallbacks for one type: each sees the other, and both are removed.\<close>

definition fallbacks :: "calls app_env" where
  "fallbacks =
     (plain_env [(''A'', ''Port''), (''B'', ''Port'')] [] []) \<lparr>ap_marks := (\<lambda>_. conditional_on_missing_bean ''Port'' no_marks)\<rparr>"

lemma fallbacks_remove_each_other:
  "map_option (registered \<circ> snd) (start fallbacks (context_with [] fallbacks [''A'', ''B''])) = Some []"
  by code_simp

text \<open>Two profiles of one bean: removing one takes the name from the other.\<close>

definition profiled :: "calls app_env" where
  "profiled = (plain_env [] [] [])
     \<lparr>ap_marks := (\<lambda>c. stereotype ''service'' ''dataSource'' SINGLETON (if c = ''Dev'' then ''dev'' else ''prod'') None no_marks)\<rparr>"

lemma name_lost_with_other_profile:
  "map_option (\<lambda>(r, s). (registered s, contains_bean ''dataSource'' s)) (start profiled (context_with [''dev''] profiled [''Dev'', ''Prod''])) =
     Some ([''Dev''], False) \<and>
   map_option (\<lambda>(r, s). (registered s, contains_bean ''dataSource'' s)) (start profiled (context_with [''dev''] profiled [''Prod'', ''Dev''])) =
     Some ([''Dev''], False)"
  by code_simp

text \<open>The condition of a user's configuration on beans is evaluated when its beans have been made: they stay.\<close>

definition user_conditional :: "calls app_env" where
  "user_conditional =
     (plain_env [(''Real'', ''Port''), (''Fallback'', ''Port'')] [(''Mine'', [bean_of ''fallback'' ''Port'' []])] [(''fallback'', ''Fallback'')])
     \<lparr>ap_marks := (\<lambda>c. if c = ''Mine'' then conditional_on_missing_bean ''Port'' (stereotype ''configuration'' [] SINGLETON [] None no_marks) else no_marks)\<rparr>"

lemma user_condition_too_late:
  "map_option (registered \<circ> snd) (start user_conditional (context_with [] user_conditional [''Real'', ''Mine''])) =
     Some [''Real'', ''Fallback'', ''Port'']"
  by code_simp

text \<open>The qualifier of a factory's parameter is lost with the annotation; without it the type is ambiguous.\<close>

definition with_qualifier :: "calls app_env" where
  "with_qualifier =
     (plain_env [] [(''Mine'', [(bean_of ''repo'' ''Repo'' [])\<lparr>bm_params := [\<lparr>pm_name = ''db'', pm_type = PAnnotated (PClass ''Db'') [Some ''b''], pm_default = False\<rparr>]\<rparr>])]
        [(''repo'', ''Repo'')])
     \<lparr>ap_marks := (\<lambda>c. if c = ''Mine'' then stereotype ''configuration'' [] SINGLETON [] None no_marks
                       else if c = ''DbB'' then stereotype ''service'' ''b'' SINGLETON [] None no_marks else no_marks)\<rparr>"

lemma qualifier_ignored:
  "let s = context_with [] with_qualifier [''DbA'', ''DbB'', ''Mine''];
       s' = s\<lparr>ac_container := bind_type ''Db'' ''DbB'' (bind_type ''Db'' ''DbA'' (ac_container s))\<rparr>
   in (case start with_qualifier s' of Some (Inl e, _) \<Rightarrow> exc_cls e = no_such_bean | _ \<Rightarrow> False) \<and>
      (case get_bean_by_name with_qualifier ''b'' s' of Some (Inr v, t) \<Rightarrow> map_option (class_of t) (address v) = Some ''DbB'' | _ \<Rightarrow> False)"
  by code_simp

text \<open>A singleton whose dependencies cannot be resolved does not stop the start.\<close>

definition broken :: "calls app_env" where
  "broken = (plain_env [] [] [])
     \<lparr>ap_container := plain_cenv (\<lambda>c. if c = ''Shop'' then Some (Inr [\<lparr>pm_name = ''db'', pm_type = PClass ''Missing'', pm_default = False\<rparr>]) else None)\<rparr>"

lemma missing_dependency_tolerated:
  "case start broken (context_with [] broken [''Shop'']) of
     Some (r, s) \<Rightarrow> r = Inr () \<and> ac_started s \<and> bean_count s = 0 \<and> resolved_class broken ''Shop'' (Some (r, s)) = None
   | None \<Rightarrow> False"
  by code_simp

text \<open>
  Hooks, listeners and post-processors: a bean whose first closing hook takes too long, one with a hook that raises when it closes, and
  a post-processor that puts a proxy in the place of the first after its hooks.
\<close>

definition hooks_life :: life where
  "hooks_life =
     \<lparr>lf_bad = (\<lambda>a m. if m = ''drop'' then Some (Exn ValueErrorC ''busy'' []) else if m = ''fail'' then Some (Exn KeyErrorC ''x'' []) else None),
      lf_slow = (\<lambda>a m. m = ''close''),
      lf_made = (\<lambda>pp hook a n. if hook = ''after_init'' \<and> n = ''First'' then Inr (Some ''Proxy'') else Inr None),
      lf_finished = (\<lambda>t. t = 7)\<rparr>"

definition hooks :: "calls app_env" where
  "hooks = (plain_env [(''ContextClosedEvent'', ''ApplicationEvent'')] [] [])
     \<lparr>ap_methods := (\<lambda>c. if c = ''First'' then [(''warm'', PostConstruct), (''finish'', PreDestroy), (''close'', PreDestroy), (''bye'', EventListener [''ContextClosedEvent''])]
                         else if c = ''Second'' then [(''drop'', PreDestroy), (''clear'', PreDestroy), (''init'', PostConstruct)]
                         else if c = ''Third'' then [(''fail'', PostConstruct)] else []),
      ap_marks := (\<lambda>c. if c \<in> {''Second'', ''Early''} then order_mark (-1) no_marks else no_marks),
      ap_is_post_processor := (\<lambda>c. c \<in> {''Late'', ''Early''}),
      ap_call := (\<lambda>a m w. (lf_bad hooks_life a m, w @ [Called a m])), ap_hangs := (\<lambda>a m w. lf_slow hooks_life a m),
      ap_process := (\<lambda>pp hook a n w. (lf_made hooks_life pp hook a n, w @ [Processed pp hook a n])),
      ap_task_done := (\<lambda>t w. lf_finished hooks_life t)\<rparr>"

definition ready :: "string list \<Rightarrow> calls app_context" where
  "ready classes =
     (case act_bnd (discover_post_processors hooks) (\<lambda>_. create_singletons hooks) (context_with [] hooks classes) of
        Some (_, s) \<Rightarrow> s\<lparr>ac_tasks := [7, 8], ac_scheduler := Some 9\<rparr>
      | None \<Rightarrow> context_with [] hooks [])"

definition hooks_context :: "calls app_context" where
  "hooks_context = ready [''First'', ''Second'']"

definition processed_context :: "calls app_context" where
  "processed_context = ready [''First'', ''Late'', ''Early'', ''Third'']"

lemma hooks_scripted: "scripted hooks hooks_life"
  by (simp add: scripted_def hooks_def plain_env_def)

theorem context_total_witness:
  "(\<exists>r s'. start hooks hooks_context = Some (r, s') \<and> refs_ok (ac_container s')) \<and>
   (\<exists>r s'. stop hooks hooks_context = Some (r, s') \<and> refs_ok (ac_container s'))"
proof -
  have "refs_ok (ac_container hooks_context)" by code_simp
  from context_total [OF this, of hooks] show ?thesis .
qed


text \<open>
  The processors are sorted; the first bean ends as the second proxy, the last has its hook reported, and the processors
  after it are not called.
\<close>

definition processed_lives :: "(event \<times> exn option) list \<times> nat option list" where
  "processed_lives =
     all_lives hooks hooks_life (sort_key (\<lambda>a. get_order (ap_marks hooks (class_of processed_context a))) (ac_post_processors processed_context))
       (map (seen hooks processed_context) (dvals (ct_registrations (ac_container processed_context)))) (length (ct_heap (ac_container processed_context)))"

theorem initialisation_order_witness:
  "\<exists>e s'. initialise_beans hooks processed_context = Some (Inl e, s') \<and> exc_cls e = bean_creation \<and>
     log_of s' = [Processed 1 ''before_init'' 2 ''First'', Processed 0 ''before_init'' 2 ''First'', Called 2 ''warm'',
       Processed 1 ''after_init'' 2 ''First'', Processed 0 ''after_init'' 4 ''First'',
       Processed 1 ''before_init'' 0 ''Late'', Processed 0 ''before_init'' 0 ''Late'', Processed 1 ''after_init'' 0 ''Late'', Processed 0 ''after_init'' 0 ''Late'',
       Processed 1 ''before_init'' 1 ''Early'', Processed 0 ''before_init'' 1 ''Early'', Processed 1 ''after_init'' 1 ''Early'', Processed 0 ''after_init'' 1 ''Early'',
       Processed 1 ''before_init'' 3 ''Third'', Processed 0 ''before_init'' 3 ''Third'', Called 3 ''fail'']"
proof -
  have "linked processed_context \<and> log_of processed_context = []" unfolding linked_def by code_simp
  then have ok: "linked processed_context" "log_of processed_context = []" by simp_all
  obtain es bs where es: "processed_lives = (es, bs)" by fastforce
  have "(until_raise (fst processed_lives), map_option exc_cls (first_raised (fst processed_lives))) =
    ([Processed 1 ''before_init'' 2 ''First'', Processed 0 ''before_init'' 2 ''First'', Called 2 ''warm'',
       Processed 1 ''after_init'' 2 ''First'', Processed 0 ''after_init'' 4 ''First'',
       Processed 1 ''before_init'' 0 ''Late'', Processed 0 ''before_init'' 0 ''Late'', Processed 1 ''after_init'' 0 ''Late'', Processed 0 ''after_init'' 0 ''Late'',
       Processed 1 ''before_init'' 1 ''Early'', Processed 0 ''before_init'' 1 ''Early'', Processed 1 ''after_init'' 1 ''Early'', Processed 0 ''after_init'' 1 ''Early'',
       Processed 1 ''before_init'' 3 ''Third'', Processed 0 ''before_init'' 3 ''Third'', Called 3 ''fail''], Some bean_creation)" by code_simp
  moreover obtain s' where "initialise_beans hooks processed_context = Some (outcome_of (first_raised es), s')"
      "log_of s' = log_of processed_context @ until_raise es"
    using initialisation_order [OF hooks_scripted ok(1), folded processed_lives_def, OF es] by blast
  ultimately show ?thesis unfolding es fst_conv outcome_of_def
    by (intro exI [of _ "the (first_raised es)"] exI [of _ s'] conjI) (auto simp: ok(2))
qed

text \<open>Beans are destroyed against the order of their registrations, which need not be that of their creation.\<close>

lemma destroyed_against_registration:
  "instances hooks_context = [1, 0] \<and> map (class_of hooks_context) [0, 1] = [''Second'', ''First''] \<and>
   map_option (log_of \<circ> snd) (stop hooks hooks_context) =
     Some [Cancelled 8, Awaited [7, 8], Called 9 ''stop'', Called 0 ''clear'', Called 0 ''drop'', Called 1 ''close'']"
  by code_simp

text \<open>A fallback of the user gives way to a bean that a configuration class of the user makes.\<close>

definition replaced_fallback :: "calls app_env" where
  "replaced_fallback =
     (plain_env [(''Real'', ''Port''), (''Fallback'', ''Port'')] [(''Mine'', [bean_of ''real'' ''Real'' []])] [(''real'', ''Real'')])
     \<lparr>ap_marks := (\<lambda>c. if c = ''Mine'' then stereotype ''configuration'' [] SINGLETON [] None no_marks
                       else if c = ''Fallback'' then conditional_on_missing_bean ''Port'' no_marks
                       else if c = ''Dev'' then stereotype ''service'' [] SINGLETON ''dev'' None no_marks
                       else if c = ''Wired'' then conditional_on_bean ''Port'' (conditional_on_class ''json'' no_marks) else no_marks)\<rparr>"

theorem survivors_correct_witness:
  "\<exists>s'. run_all [filter_by_profile replaced_fallback, evaluate_conditions replaced_fallback, process_configurations replaced_fallback False,
          evaluate_bean_conditions replaced_fallback] (context_with [] replaced_fallback [''Dev'', ''Fallback'', ''Mine'', ''Wired'']) = Some (Inr (), s') \<and>
        registered s' = [''Mine'', ''Wired'', ''Real''] \<and> (\<exists>classes. registered s' = filter (\<lambda>cls.
          \<forall>c \<in> set (cm_conditions (ap_marks replaced_fallback cls)). among_beans replaced_fallback classes cls c) classes)"
proof -
  let ?s = "context_with [] replaced_fallback [''Dev'', ''Fallback'', ''Mine'', ''Wired'']"
  let ?m = "run_all [filter_by_profile replaced_fallback, evaluate_conditions replaced_fallback, process_configurations replaced_fallback False,
    evaluate_bean_conditions replaced_fallback]"
  have "map_option fst (?m ?s) = Some (Inr ())" "map_option (registered \<circ> snd) (?m ?s) = Some [''Mine'', ''Wired'', ''Real'']" by code_simp+
  then obtain s' where s': "?m ?s = Some (Inr (), s')" "registered s' = [''Mine'', ''Wired'', ''Real'']" by auto
  have "refs_ok (ac_container ?s)" by code_simp
  from survivors_correct [OF this s'(1)] have "\<exists>classes. registered s' = filter (\<lambda>cls.
      \<forall>c \<in> set (cm_conditions (ap_marks replaced_fallback cls)). among_beans replaced_fallback classes cls c) classes"
    by (elim exE conjE) (rule exI)
  with s' show ?thesis by (intro exI [of _ s'] conjI)
qed

definition api_methods :: "bean_method list" where
  "api_methods =
     [(bean_of ''api'' ''Api'' [])\<lparr>bm_params := [\<lparr>pm_name = ''dbs'', pm_type = PList (Some (PClass ''Db'')), pm_default = False\<rparr>]\<rparr>,
      (bean_of ''dbs'' ''Db'' [])\<lparr>bm_return := Some (PList (Some (PClass ''Db'')))\<rparr>]"


text \<open>Hints that ask for what a method makes in another way, optional or by a superclass, are not found: the user is called first.\<close>

lemma optional_not_ordered:
  "map bm_attr (sort_bean_methods
     [(bean_of ''api'' ''Api'' [])\<lparr>bm_params := [\<lparr>pm_name = ''db'', pm_type = PUnion [PClass ''Db'', PNone], pm_default = False\<rparr>]\<rparr>,
      bean_of ''db'' ''Db'' []]) = [''api'', ''db'']"
  by code_simp

end
