(* ===== verification/OAuth2.thy ===== *)
theory OAuth2
  imports SecurityExpr
begin

text \<open>
  OAuth2: client registrations (\<^verbatim>\<open>security/oauth2/client.py\<close>), the authorization server with its token store
  (\<^verbatim>\<open>authorization_server.py\<close>), and how tokens become security contexts (\<^verbatim>\<open>security/jwt.py\<close>, \<^verbatim>\<open>resource_server.py\<close>). The library that
  encodes and decodes JSON web tokens is a parameter; the claims have the types the code declares for them. Random
  token ids are a sequence \<open>fresh\<close>, of which the properties assume that it does not repeat.
\<close>

section \<open>Client registrations\<close>

record client_registration =
  cr_registration_id :: string
  cr_client_id :: string
  cr_client_secret :: string
  cr_authorization_grant_type :: string
  cr_redirect_uri :: string
  cr_scopes :: "string list"
  cr_authorization_uri :: string
  cr_token_uri :: string
  cr_user_info_uri :: string
  cr_jwks_uri :: string
  cr_issuer_uri :: string
  cr_provider_name :: string

definition registration_default :: "string \<Rightarrow> string \<Rightarrow> client_registration" where
  "registration_default rid cid =
     \<lparr>cr_registration_id = rid, cr_client_id = cid, cr_client_secret = [],
      cr_authorization_grant_type = ''authorization_code'', cr_redirect_uri = [], cr_scopes = [], cr_authorization_uri = [],
      cr_token_uri = [], cr_user_info_uri = [], cr_jwks_uri = [], cr_issuer_uri = [], cr_provider_name = []\<rparr>"

definition google :: "string \<Rightarrow> string \<Rightarrow> string \<Rightarrow> client_registration" where
  "google cid secret redirect =
     (registration_default ''google'' cid)
       \<lparr>cr_client_secret := secret, cr_redirect_uri := redirect, cr_scopes := [''openid'', ''profile'', ''email''],
        cr_authorization_uri := ''https://accounts.google.com/o/oauth2/v2/auth'',
        cr_token_uri := ''https://oauth2.googleapis.com/token'',
        cr_user_info_uri := ''https://www.googleapis.com/oauth2/v3/userinfo'',
        cr_jwks_uri := ''https://www.googleapis.com/oauth2/v3/certs'',
        cr_issuer_uri := ''https://accounts.google.com'', cr_provider_name := ''Google''\<rparr>"

definition github :: "string \<Rightarrow> string \<Rightarrow> string \<Rightarrow> client_registration" where
  "github cid secret redirect =
     (registration_default ''github'' cid)
       \<lparr>cr_client_secret := secret, cr_redirect_uri := redirect, cr_scopes := [''read:user'', ''user:email''],
        cr_authorization_uri := ''https://github.com/login/oauth/authorize'',
        cr_token_uri := ''https://github.com/login/oauth/access_token'',
        cr_user_info_uri := ''https://api.github.com/user'', cr_provider_name := ''GitHub''\<rparr>"

definition rstrip_slash :: "string \<Rightarrow> string" where
  "rstrip_slash s = rev (dropWhile (\<lambda>c. c = CHR ''/'') (rev s))"

definition keycloak :: "string \<Rightarrow> string \<Rightarrow> string \<Rightarrow> string \<Rightarrow> client_registration" where
  "keycloak cid secret issuer redirect =
     (let base = rstrip_slash issuer
      in (registration_default ''keycloak'' cid)
       \<lparr>cr_client_secret := secret, cr_redirect_uri := redirect, cr_scopes := [''openid'', ''profile'', ''email''],
        cr_authorization_uri := base @ ''/protocol/openid-connect/auth'',
        cr_token_uri := base @ ''/protocol/openid-connect/token'',
        cr_user_info_uri := base @ ''/protocol/openid-connect/userinfo'',
        cr_jwks_uri := base @ ''/protocol/openid-connect/certs'',
        cr_issuer_uri := issuer, cr_provider_name := ''Keycloak''\<rparr>)"

type_synonym client_repository = "(string, client_registration) dict"

definition repo_add :: "client_registration \<Rightarrow> client_repository \<Rightarrow> client_repository" where
  "repo_add r repo = dput (cr_registration_id r) r repo"

definition new_repo :: "client_registration list \<Rightarrow> client_repository" where
  "new_repo rs = foldl (\<lambda>repo r. repo_add r repo) [] rs"

definition find_by_registration_id :: "client_repository \<Rightarrow> string \<Rightarrow> client_registration option" where
  "find_by_registration_id repo rid = dget repo rid"

definition registrations :: "client_repository \<Rightarrow> client_registration list" where
  "registrations repo = dvals repo"

section \<open>Tokens\<close>

text \<open>The claims of a token; \<open>cl_realm_roles\<close> is \<^verbatim>\<open>realm_access.roles\<close>.\<close>

record claims =
  cl_sub :: "string option"
  cl_roles :: "string list option"
  cl_realm_roles :: "string list option"
  cl_permissions :: "string list option"
  cl_scope :: "string option"
  cl_iat :: int
  cl_exp :: int
  cl_iss :: "string option"

text \<open>The JWT library: encoding with a key, and decoding at a time, which fails with a message for tokens that are expired or
  signed otherwise.\<close>

record jwt_library =
  jw_encode :: "claims \<Rightarrow> string \<Rightarrow> string"
  jw_decode :: "string \<Rightarrow> string \<Rightarrow> int \<Rightarrow> string + claims"

definition jwt_decode :: "jwt_library \<Rightarrow> string \<Rightarrow> string \<Rightarrow> int \<Rightarrow> exn + claims" where
  "jwt_decode jwt key token now =
     (case jw_decode jwt token key now of
        Inl exc \<Rightarrow> Inl (Exn SecurityException ''Invalid token: {}'' [VStr exc, VStr ''INVALID_TOKEN''])
      | Inr c \<Rightarrow> Inr c)"

definition list_or_empty :: "string list option \<Rightarrow> string list" where
  "list_or_empty x = (case x of None \<Rightarrow> [] | Some l \<Rightarrow> l)"

definition jwt_security_context :: "jwt_library \<Rightarrow> string \<Rightarrow> string \<Rightarrow> int \<Rightarrow> exn + security_context" where
  "jwt_security_context jwt key token now =
     (case jwt_decode jwt key token now of
        Inl e \<Rightarrow> Inl e
      | Inr c \<Rightarrow> Inr \<lparr>sc_user_id = cl_sub c, sc_roles = list_or_empty (cl_roles c),
                     sc_permissions = list_or_empty (cl_permissions c), sc_attributes = []\<rparr>)"

text \<open>The resource server: roles also from Keycloak's claim, permissions also from the scope.\<close>

definition claims_security_context :: "claims \<Rightarrow> security_context" where
  "claims_security_context c =
     (let roles = list_or_empty (cl_roles c);
          roles' = (if roles = [] then list_or_empty (cl_realm_roles c) else roles);
          permissions = list_or_empty (cl_permissions c);
          permissions' = (if permissions = []
                          then (case cl_scope c of None \<Rightarrow> [] | Some s \<Rightarrow> split_words [] s) else permissions)
      in \<lparr>sc_user_id = cl_sub c, sc_roles = roles', sc_permissions = permissions', sc_attributes = []\<rparr>)"

definition resource_security_context :: "(string \<Rightarrow> exn + claims) \<Rightarrow> string \<Rightarrow> exn + security_context" where
  "resource_security_context validate token =
     (case validate token of Inl e \<Rightarrow> Inl e | Inr c \<Rightarrow> Inr (claims_security_context c))"

section \<open>The authorization server\<close>

record token_data =
  td_client_id :: string
  td_scope :: string
  td_exp :: int

type_synonym token_store = "(string, token_data) dict"

definition store_token :: "string \<Rightarrow> token_data \<Rightarrow> token_store \<Rightarrow> token_store" where
  "store_token tid d s = dput tid d s"

definition find_token :: "token_store \<Rightarrow> string \<Rightarrow> token_data option" where
  "find_token s tid = dget s tid"

definition revoke_token :: "string \<Rightarrow> token_store \<Rightarrow> token_store" where
  "revoke_token tid s = ddel tid s"

record auth_server =
  au_secret :: string
  au_clients :: client_repository
  au_access_ttl :: int
  au_refresh_ttl :: int
  au_issuer :: "string option"
  au_jwt :: jwt_library
  au_fresh :: "nat \<Rightarrow> string"

text \<open>The state: the token store and the number of random ids drawn so far.\<close>

record server_state =
  sv_tokens :: token_store
  sv_drawn :: nat

text \<open>A call of \<^verbatim>\<open>token\<close>, with the readings of the clock at the expiry check and at the issue.\<close>

record token_request =
  tq_grant_type :: string
  tq_client_id :: string
  tq_client_secret :: string
  tq_scope :: string
  tq_refresh_token :: "string option"
  tq_checked_at :: int
  tq_issued_at :: int

record token_response =
  tp_access_token :: string
  tp_token_type :: string
  tp_expires_in :: int
  tp_refresh_token :: string
  tp_scope :: string

definition security_error :: "string \<Rightarrow> string \<Rightarrow> exn" where
  "security_error template code = Exn SecurityException template [VStr code]"

definition access_claims :: "auth_server \<Rightarrow> string \<Rightarrow> string \<Rightarrow> int \<Rightarrow> claims" where
  "access_claims srv client scope now =
     \<lparr>cl_sub = Some client, cl_roles = None, cl_realm_roles = None, cl_permissions = None, cl_scope = Some scope,
      cl_iat = now, cl_exp = now + au_access_ttl srv,
      cl_iss = (case au_issuer srv of None \<Rightarrow> None | Some i \<Rightarrow> if i = [] then None else Some i)\<rparr>"

text \<open>Both handlers end the same way: an access token, a new refresh token that is stored, and the response.\<close>

definition issue_tokens ::
  "auth_server \<Rightarrow> client_registration \<Rightarrow> string \<Rightarrow> int \<Rightarrow> server_state \<Rightarrow> token_response \<times> server_state" where
  "issue_tokens srv reg scope now s =
     (let rid = au_fresh srv (sv_drawn s)
      in (\<lparr>tp_access_token = jw_encode (au_jwt srv) (access_claims srv (cr_client_id reg) scope now) (au_secret srv),
           tp_token_type = ''Bearer'', tp_expires_in = au_access_ttl srv, tp_refresh_token = rid, tp_scope = scope\<rparr>,
          s\<lparr>sv_tokens := store_token rid \<lparr>td_client_id = cr_client_id reg, td_scope = scope, td_exp = now + au_refresh_ttl srv\<rparr> (sv_tokens s),
            sv_drawn := sv_drawn s + 1\<rparr>))"

definition join_words :: "string list \<Rightarrow> string" where
  "join_words ws = sep_by '' '' ws"

definition handle_client_credentials ::
  "auth_server \<Rightarrow> client_registration \<Rightarrow> token_request \<Rightarrow> server_state \<Rightarrow> (exn + token_response) \<times> server_state" where
  "handle_client_credentials srv reg q s =
     (let scopes = (if tq_scope q \<noteq> [] then split_words [] (tq_scope q) else cr_scopes reg)
      in case issue_tokens srv reg (join_words scopes) (tq_issued_at q) s of (resp, s') \<Rightarrow> (Inr resp, s'))"

definition handle_refresh_token ::
  "auth_server \<Rightarrow> client_registration \<Rightarrow> string \<Rightarrow> token_request \<Rightarrow> server_state \<Rightarrow> (exn + token_response) \<times> server_state" where
  "handle_refresh_token srv reg refresh_token q s =
     (case find_token (sv_tokens s) refresh_token of
        None \<Rightarrow> (Inl (security_error ''Invalid refresh token'' ''INVALID_GRANT''), s)
      | Some d \<Rightarrow>
          if td_client_id d \<noteq> cr_client_id reg
          then (Inl (security_error ''Refresh token client mismatch'' ''INVALID_GRANT''), s)
          else if td_exp d < tq_checked_at q
          then (Inl (security_error ''Refresh token expired'' ''INVALID_GRANT''),
                s\<lparr>sv_tokens := revoke_token refresh_token (sv_tokens s)\<rparr>)
          else (case issue_tokens srv reg (td_scope d) (tq_issued_at q) (s\<lparr>sv_tokens := revoke_token refresh_token (sv_tokens s)\<rparr>) of
                  (resp, s') \<Rightarrow> (Inr resp, s')))"

definition token :: "auth_server \<Rightarrow> token_request \<Rightarrow> server_state \<Rightarrow> (exn + token_response) \<times> server_state" where
  "token srv q s =
     (case find_by_registration_id (au_clients srv) (tq_client_id q) of
        None \<Rightarrow> (Inl (security_error ''Invalid client credentials'' ''INVALID_CLIENT''), s)
      | Some reg \<Rightarrow>
          if cr_client_secret reg \<noteq> tq_client_secret q
          then (Inl (security_error ''Invalid client credentials'' ''INVALID_CLIENT''), s)
          else if tq_grant_type q = ''client_credentials'' then handle_client_credentials srv reg q s
          else if tq_grant_type q = ''refresh_token''
          then (case tq_refresh_token q of
                  None \<Rightarrow> (Inl (security_error ''Refresh token required'' ''INVALID_REQUEST''), s)
                | Some rt \<Rightarrow> handle_refresh_token srv reg rt q s)
          else (Inl (Exn SecurityException ''Unsupported grant type: {}'' [VStr (tq_grant_type q), VStr ''UNSUPPORTED_GRANT_TYPE'']), s))"

definition revoke :: "string \<Rightarrow> server_state \<Rightarrow> server_state" where
  "revoke tid s = s\<lparr>sv_tokens := revoke_token tid (sv_tokens s)\<rparr>"

section \<open>Refresh tokens are redeemed once, by their client, for their scope\<close>

text \<open>A history of the server: calls of \<^verbatim>\<open>token\<close>, each with what it returned, and revocations.\<close>

datatype server_call = Token token_request | Revoke string

datatype server_event = Tokened token_request "exn + token_response" | Revoked string

fun serve :: "auth_server \<Rightarrow> server_call list \<Rightarrow> server_state \<Rightarrow> server_event list \<times> server_state" where
  "serve srv [] s = ([], s)"
| "serve srv (Token q # cs) s =
     (case token srv q s of (r, s') \<Rightarrow> apfst (\<lambda>evs. Tokened q r # evs) (serve srv cs s'))"
| "serve srv (Revoke tid # cs) s = apfst (\<lambda>evs. Revoked tid # evs) (serve srv cs (revoke tid s))"

definition client_of :: "auth_server \<Rightarrow> token_request \<Rightarrow> string" where
  "client_of srv q = (case find_by_registration_id (au_clients srv) (tq_client_id q) of None \<Rightarrow> [] | Some reg \<Rightarrow> cr_client_id reg)"

text \<open>An event that hands out a refresh token, and one that redeems one.\<close>

definition issues :: "auth_server \<Rightarrow> server_event \<Rightarrow> string \<Rightarrow> token_data \<Rightarrow> bool" where
  "issues srv ev tid d \<longleftrightarrow>
     (\<exists>q resp. ev = Tokened q (Inr resp) \<and> tp_refresh_token resp = tid \<and> td_client_id d = client_of srv q \<and>
        td_scope d = tp_scope resp \<and> td_exp d = tq_issued_at q + au_refresh_ttl srv)"

definition redeems :: "server_event \<Rightarrow> string \<Rightarrow> bool" where
  "redeems ev tid \<longleftrightarrow>
     (\<exists>q resp. ev = Tokened q (Inr resp) \<and> tq_grant_type q = ''refresh_token'' \<and> tq_refresh_token q = Some tid)"

definition sound_history :: "auth_server \<Rightarrow> server_event list \<Rightarrow> server_state \<Rightarrow> bool" where
  "sound_history srv evs s \<longleftrightarrow>
     (\<forall>tid d. dget (sv_tokens s) tid = Some d \<longrightarrow>
        (\<exists>ev \<in> set evs. issues srv ev tid d) \<and> tid \<in> au_fresh srv ` {..<sv_drawn s}) \<and>
     (\<forall>tid. \<forall>ev \<in> set evs. redeems ev tid \<longrightarrow> dget (sv_tokens s) tid = None \<and> tid \<in> au_fresh srv ` {..<sv_drawn s})"

text \<open>What one successful redemption means for the events before it.\<close>

definition redemption_ok :: "auth_server \<Rightarrow> server_event list \<Rightarrow> server_event \<Rightarrow> bool" where
  "redemption_ok srv evs ev \<longleftrightarrow>
     (\<forall>q resp tid. ev = Tokened q (Inr resp) \<longrightarrow> tq_grant_type q = ''refresh_token'' \<longrightarrow> tq_refresh_token q = Some tid \<longrightarrow>
        (\<exists>ev' \<in> set evs. \<exists>d. issues srv ev' tid d \<and> td_client_id d = client_of srv q \<and> td_scope d = tp_scope resp \<and>
           tq_checked_at q \<le> td_exp d) \<and>
        (\<forall>ev' \<in> set evs. \<not> redeems ev' tid))"

lemma redemption_okI:
  assumes "\<And>resp tid. r = Inr resp \<Longrightarrow> tq_grant_type q = ''refresh_token'' \<Longrightarrow> tq_refresh_token q = Some tid \<Longrightarrow>
     (\<exists>ev' \<in> set evs. \<exists>d. issues srv ev' tid d \<and> td_client_id d = client_of srv q \<and> td_scope d = tp_scope resp \<and>
        tq_checked_at q \<le> td_exp d) \<and> (\<forall>ev' \<in> set evs. \<not> redeems ev' tid)"
  shows "redemption_ok srv evs (Tokened q r)"
  unfolding redemption_ok_def using assms by blast

lemma redeems_Tokened [simp]:
  "redeems (Tokened q r) tid \<longleftrightarrow> (\<exists>resp. r = Inr resp) \<and> tq_grant_type q = ''refresh_token'' \<and> tq_refresh_token q = Some tid"
  "\<not> redeems (Revoked t) tid"
  by (auto simp: redeems_def)

lemma sound_initially [simp]: "sound_history srv [] \<lparr>sv_tokens = [], sv_drawn = n\<rparr>"
  by (simp add: sound_history_def)

lemma sound_stored:
  "sound_history srv evs s \<Longrightarrow> dget (sv_tokens s) tid = Some d \<Longrightarrow>
     (\<exists>ev \<in> set evs. issues srv ev tid d) \<and> tid \<in> au_fresh srv ` {..<sv_drawn s}"
  by (simp add: sound_history_def)

lemma sound_spent:
  "sound_history srv evs s \<Longrightarrow> ev \<in> set evs \<Longrightarrow> redeems ev tid \<Longrightarrow>
     dget (sv_tokens s) tid = None \<and> tid \<in> au_fresh srv ` {..<sv_drawn s}"
  unfolding sound_history_def by blast

text \<open>Events that neither issue nor redeem, with a store that at most loses tokens, keep a history sound.\<close>

lemma sound_shrink:
  assumes "sound_history srv evs s" "\<And>tid. \<not> redeems ev tid"
    and "\<And>tid d. dget (sv_tokens s') tid = Some d \<Longrightarrow> dget (sv_tokens s) tid = Some d"
    and "sv_drawn s' = sv_drawn s"
  shows "sound_history srv (evs @ [ev]) s'"
  unfolding sound_history_def
proof (intro conjI allI ballI impI)
  fix tid d assume "dget (sv_tokens s') tid = Some d"
  from sound_stored [OF assms(1) assms(3) [OF this]] assms(4)
  show "\<exists>ev\<in>set (evs @ [ev]). issues srv ev tid d" "tid \<in> au_fresh srv ` {..<sv_drawn s'}" by auto
next
  fix tid ev' assume "ev' \<in> set (evs @ [ev])" "redeems ev' tid"
  with assms(2) have "ev' \<in> set evs" by auto
  from sound_spent [OF assms(1) this \<open>redeems ev' tid\<close>] assms(3,4)
  show "dget (sv_tokens s') tid = None" "tid \<in> au_fresh srv ` {..<sv_drawn s'}"
    by (metis option.exhaust option.distinct(1), simp)
qed

text \<open>A grant stores its token under an id that is new.\<close>

lemma sound_grant:
  assumes "sound_history srv evs s" "inj (au_fresh srv)"
    and "issue_tokens srv reg scope (tq_issued_at q) (s\<lparr>sv_tokens := ts\<rparr>) = (resp, s')"
    and "\<And>tid d. dget ts tid = Some d \<Longrightarrow> dget (sv_tokens s) tid = Some d"
    and "\<And>tid. redeems (Tokened q (Inr resp)) tid \<Longrightarrow> dget ts tid = None \<and> tid \<in> au_fresh srv ` {..<sv_drawn s}"
    and "client_of srv q = cr_client_id reg"
  shows "sound_history srv (evs @ [Tokened q (Inr resp)]) s'"
proof -
  let ?new = "au_fresh srv (sv_drawn s)"
  from assms(3) have s': "sv_drawn s' = sv_drawn s + 1"
    and ts: "\<And>tid. dget (sv_tokens s') tid =
      (if tid = ?new then Some \<lparr>td_client_id = cr_client_id reg, td_scope = scope, td_exp = tq_issued_at q + au_refresh_ttl srv\<rparr>
       else dget ts tid)"
    and resp: "tp_refresh_token resp = ?new" "tp_scope resp = scope"
    by (auto simp: issue_tokens_def store_token_def Let_def)
  have old: "tid \<in> au_fresh srv ` {..<sv_drawn s'}" "tid \<noteq> ?new" if "tid \<in> au_fresh srv ` {..<sv_drawn s}" for tid
    using that assms(2) s' by (auto simp: inj_def less_Suc_eq)
  show ?thesis
    unfolding sound_history_def
  proof (intro conjI allI ballI impI)
    fix tid d assume d: "dget (sv_tokens s') tid = Some d"
    show "\<exists>ev\<in>set (evs @ [Tokened q (Inr resp)]). issues srv ev tid d"
    proof (cases "tid = ?new")
      case True
      with d ts resp assms(6) have "issues srv (Tokened q (Inr resp)) tid d" by (auto simp: issues_def)
      then show ?thesis by simp
    next
      case False
      with d ts assms(4) sound_stored [OF assms(1)] show ?thesis by fastforce
    qed
    show "tid \<in> au_fresh srv ` {..<sv_drawn s'}"
      using d ts s' assms(4) sound_stored [OF assms(1)] old(1) by (cases "tid = ?new") fastforce+
  next
    fix tid ev' assume ev': "ev' \<in> set (evs @ [Tokened q (Inr resp)])" "redeems ev' tid"
    have "dget ts tid = None \<and> tid \<in> au_fresh srv ` {..<sv_drawn s}"
    proof (cases "ev' \<in> set evs")
      case True
      from sound_spent [OF assms(1) True ev'(2)] assms(4) show ?thesis by (metis option.exhaust option.distinct(1))
    next
      case False
      with ev' assms(5) show ?thesis by auto
    qed
    then show "dget (sv_tokens s') tid = None" "tid \<in> au_fresh srv ` {..<sv_drawn s'}"
      using ts old by auto
  qed
qed

lemma token_cases:
  assumes "token srv q s = (r, s')"
  obtains (failed) e where "r = Inl e" "s' = s \<or> (\<exists>tid. s' = revoke tid s)"
  | (credentials) reg resp scope where "find_by_registration_id (au_clients srv) (tq_client_id q) = Some reg"
      "tq_grant_type q = ''client_credentials''" "issue_tokens srv reg scope (tq_issued_at q) s = (resp, s')" "r = Inr resp"
  | (refresh) reg resp rt d where "find_by_registration_id (au_clients srv) (tq_client_id q) = Some reg"
      "tq_grant_type q = ''refresh_token''" "tq_refresh_token q = Some rt" "dget (sv_tokens s) rt = Some d"
      "td_client_id d = cr_client_id reg" "tq_checked_at q \<le> td_exp d"
      "issue_tokens srv reg (td_scope d) (tq_issued_at q) (revoke rt s) = (resp, s')" "r = Inr resp"
proof (cases "find_by_registration_id (au_clients srv) (tq_client_id q)")
  case None
  with assms failed show ?thesis by (auto simp: token_def)
next
  case (Some reg)
  show ?thesis
  proof (cases "cr_client_secret reg = tq_client_secret q")
    case False
    with Some assms failed show ?thesis by (auto simp: token_def)
  next
    case secret: True
    consider "tq_grant_type q = ''client_credentials''" | rt where "tq_grant_type q = ''refresh_token''" "tq_refresh_token q = Some rt"
      | "tq_grant_type q \<noteq> ''client_credentials''" "tq_grant_type q = ''refresh_token'' \<longrightarrow> tq_refresh_token q = None"
      by (cases "tq_refresh_token q") auto
    then show ?thesis
    proof cases
      case 1
      with Some secret assms credentials show ?thesis
        by (auto simp: token_def handle_client_credentials_def Let_def split: prod.splits)
    next
      case (2 rt)
      with Some secret assms have h: "handle_refresh_token srv reg rt q s = (r, s')" by (simp add: token_def)
      show ?thesis
      proof (cases "dget (sv_tokens s) rt")
        case None
        with h failed show ?thesis by (auto simp: handle_refresh_token_def find_token_def)
      next
        case d: (Some d)
        with h Some 2 failed refresh show ?thesis
          by (auto simp: handle_refresh_token_def find_token_def revoke_def split: if_splits prod.splits)
      qed
    next
      case 3
      with Some secret assms failed show ?thesis by (auto simp: token_def split: if_splits)
    qed
  qed
qed

lemma client_of_found [simp]:
  "find_by_registration_id (au_clients srv) (tq_client_id q) = Some reg \<Longrightarrow> client_of srv q = cr_client_id reg"
  by (simp add: client_of_def)

lemma issue_scope: "issue_tokens srv reg scope now s = (resp, s') \<Longrightarrow> tp_scope resp = scope"
  by (auto simp: issue_tokens_def Let_def)

lemma token_sound:
  assumes "sound_history srv evs s" "inj (au_fresh srv)" "token srv q s = (r, s')"
  shows "sound_history srv (evs @ [Tokened q r]) s'" "redemption_ok srv evs (Tokened q r)"
proof -
  from assms(3) have "sound_history srv (evs @ [Tokened q r]) s' \<and> redemption_ok srv evs (Tokened q r)"
  proof (cases rule: token_cases)
    case (failed e)
    then have "\<And>tid d. dget (sv_tokens s') tid = Some d \<Longrightarrow> dget (sv_tokens s) tid = Some d" "sv_drawn s' = sv_drawn s"
      by (auto simp: revoke_def revoke_token_def split: if_splits)
    with failed show ?thesis by (auto intro: sound_shrink [OF assms(1)] simp: redemption_ok_def)
  next
    case (credentials reg resp scope)
    then show ?thesis
      by (auto intro!: sound_grant [OF assms(1,2), of reg scope q "sv_tokens s"] redemption_okI)
  next
    case (refresh reg resp rt d)
    have "sound_history srv (evs @ [Tokened q (Inr resp)]) s'"
      using refresh sound_stored [OF assms(1) refresh(4)]
      by (intro sound_grant [OF assms(1,2), of reg "td_scope d" q "revoke_token rt (sv_tokens s)"])
        (auto simp: revoke_def revoke_token_def split: if_splits)
    moreover have "redemption_ok srv evs (Tokened q (Inr resp))"
    proof (rule redemption_okI)
      fix resp' tid
      assume a: "Inr resp = (Inr resp' :: exn + token_response)" "tq_refresh_token q = Some tid"
      from a refresh have eq: "tid = rt" "resp' = resp" by simp_all
      from sound_stored [OF assms(1) refresh(4)] obtain ev where "ev \<in> set evs" "issues srv ev rt d" by blast
      moreover have "\<not> redeems ev' rt" if "ev' \<in> set evs" for ev'
        using sound_spent [OF assms(1) that] refresh(4) by auto
      ultimately show "(\<exists>ev' \<in> set evs. \<exists>d. issues srv ev' tid d \<and> td_client_id d = client_of srv q \<and> td_scope d = tp_scope resp' \<and>
          tq_checked_at q \<le> td_exp d) \<and> (\<forall>ev' \<in> set evs. \<not> redeems ev' tid)"
        using refresh issue_scope [OF refresh(7)] unfolding eq by auto
    qed
    ultimately show ?thesis using refresh by simp
  qed
  then show "sound_history srv (evs @ [Tokened q r]) s'" "redemption_ok srv evs (Tokened q r)" by simp_all
qed

lemma serve_sound:
  assumes "serve srv cs s = (evs, s')" "inj (au_fresh srv)" "sound_history srv past s"
  shows "sound_history srv (past @ evs) s' \<and> (\<forall>j < length evs. redemption_ok srv (past @ take j evs) (evs ! j))"
  using assms
proof (induction srv cs s arbitrary: past evs rule: serve.induct)
  case (1 srv s)
  then show ?case by simp
next
  case (2 srv q cs s)
  obtain r t where t: "token srv q s = (r, t)" by (cases "token srv q s")
  obtain es where es: "serve srv cs t = (es, s')" "evs = Tokened q r # es"
    using "2.prems"(1) t by (cases "serve srv cs t") auto
  note now = token_sound [OF "2.prems"(3,2) t]
  from "2.IH" [OF t [symmetric] es(1) "2.prems"(2) now(1)]
  have "sound_history srv ((past @ [Tokened q r]) @ es) s'"
    "\<forall>j < length es. redemption_ok srv ((past @ [Tokened q r]) @ take j es) (es ! j)" by auto
  with now(2) show ?case by (auto simp: es less_Suc_eq_0_disj)
next
  case (3 srv tid cs s)
  obtain es where es: "serve srv cs (revoke tid s) = (es, s')" "evs = Revoked tid # es"
    using "3.prems"(1) by (cases "serve srv cs (revoke tid s)") auto
  have "sound_history srv (past @ [Revoked tid]) (revoke tid s)"
    by (rule sound_shrink [OF "3.prems"(3)]) (auto simp: revoke_def revoke_token_def split: if_splits)
  from "3.IH" [OF es(1) "3.prems"(2) this]
  have "sound_history srv ((past @ [Revoked tid]) @ es) s'"
    "\<forall>j < length es. redemption_ok srv ((past @ [Revoked tid]) @ take j es) (es ! j)" by auto
  then show ?case by (auto simp: es less_Suc_eq_0_disj redemption_ok_def)
qed

text \<open>
  Claim C31. Refresh tokens are used once. In every history of the authorization server, from an empty store and with
  random ids that do not repeat, each redemption that succeeds is of a token that an earlier answer handed out to the same
  client with the same scope, that is not expired, and that no earlier call has redeemed.
\<close>

theorem refresh_token_single_use:
  assumes "inj (au_fresh srv)" "serve srv cs \<lparr>sv_tokens = [], sv_drawn = 0\<rparr> = (evs, s')" "j < length evs"
  shows "redemption_ok srv (take j evs) (evs ! j)"
  using serve_sound [OF assms(2,1) sound_initially] assms(3) by simp
text \<open>Three calls: a grant, its redemption, and a second attempt with the same token, which fails.\<close>

definition example_registration :: client_registration where
  "example_registration = (registration_default ''svc'' ''svc'')\<lparr>cr_client_secret := ''s3cret'', cr_scopes := [''read'']\<rparr>"

definition example_server :: auth_server where
  "example_server =
     \<lparr>au_secret = ''key'', au_clients = new_repo [example_registration], au_access_ttl = 3600, au_refresh_ttl = 86400,
      au_issuer = None, au_jwt = \<lparr>jw_encode = (\<lambda>c k. case cl_scope c of None \<Rightarrow> [] | Some s \<Rightarrow> s),
      jw_decode = (\<lambda>t k now. Inr \<lparr>cl_sub = Some ''svc'', cl_roles = None, cl_realm_roles = None, cl_permissions = None,
         cl_scope = Some t, cl_iat = 0, cl_exp = 3600, cl_iss = None\<rparr>)\<rparr>,
      au_fresh = (\<lambda>n. replicate n CHR ''t'')\<rparr>"

definition example_call :: "string \<Rightarrow> string option \<Rightarrow> string \<Rightarrow> int \<Rightarrow> token_request" where
  "example_call grant rt scope now =
     \<lparr>tq_grant_type = grant, tq_client_id = ''svc'', tq_client_secret = ''s3cret'', tq_scope = scope, tq_refresh_token = rt,
      tq_checked_at = now, tq_issued_at = now\<rparr>"

definition example_calls :: "server_call list" where
  "example_calls =
     [Token (example_call ''client_credentials'' None ''read'' 0), Token (example_call ''refresh_token'' (Some []) [] 10),
      Token (example_call ''refresh_token'' (Some []) [] 20)]"

lemma example_serve:
  "serve example_server example_calls \<lparr>sv_tokens = [], sv_drawn = 0\<rparr> =
     ([Tokened (example_call ''client_credentials'' None ''read'' 0)
         (Inr \<lparr>tp_access_token = ''read'', tp_token_type = ''Bearer'', tp_expires_in = 3600, tp_refresh_token = [], tp_scope = ''read''\<rparr>),
       Tokened (example_call ''refresh_token'' (Some []) [] 10)
         (Inr \<lparr>tp_access_token = ''read'', tp_token_type = ''Bearer'', tp_expires_in = 3600, tp_refresh_token = ''t'', tp_scope = ''read''\<rparr>),
       Tokened (example_call ''refresh_token'' (Some []) [] 20) (Inl (security_error ''Invalid refresh token'' ''INVALID_GRANT''))],
      \<lparr>sv_tokens = [(''t'', \<lparr>td_client_id = ''svc'', td_scope = ''read'', td_exp = 86410\<rparr>)], sv_drawn = 2\<rparr>)"
  by code_simp

lemma replicate_inj: "inj (\<lambda>n. replicate n c)"
  by (rule injI) (metis length_replicate)

theorem refresh_token_single_use_witness:
  "redeems (fst (serve example_server example_calls \<lparr>sv_tokens = [], sv_drawn = 0\<rparr>) ! 1) [] \<and>
   redemption_ok example_server (take 1 (fst (serve example_server example_calls \<lparr>sv_tokens = [], sv_drawn = 0\<rparr>)))
     (fst (serve example_server example_calls \<lparr>sv_tokens = [], sv_drawn = 0\<rparr>) ! 1)"
proof
  show "redeems (fst (serve example_server example_calls \<lparr>sv_tokens = [], sv_drawn = 0\<rparr>) ! 1) []"
    unfolding example_serve by (simp add: example_call_def)
  have "inj (au_fresh example_server)" by (simp add: example_server_def replicate_inj)
  from refresh_token_single_use [OF this example_serve, of 1]
  show "redemption_ok example_server (take 1 (fst (serve example_server example_calls \<lparr>sv_tokens = [], sv_drawn = 0\<rparr>)))
      (fst (serve example_server example_calls \<lparr>sv_tokens = [], sv_drawn = 0\<rparr>) ! 1)"
    unfolding example_serve by simp
qed

section \<open>The scope of a token\<close>

lemma split_words_join:
  "\<forall>w \<in> set ws. w \<noteq> [] \<and> (\<forall>c \<in> set w. \<not> is_space c) \<Longrightarrow> split_words [] (join_words ws) = ws"
proof (induction ws)
  case Nil
  then show ?case by (simp add: join_words_def)
next
  case (Cons w ws)
  show ?case
  proof (cases ws)
    case Nil
    then show ?thesis using Cons.prems split_words_word [of w "[]" "[]"] by (simp add: join_words_def)
  next
    case (Cons v vs)
    then have "split_words [] (join_words (w # ws)) = split_words w (CHR '' '' # join_words ws)"
      using \<open>\<forall>w \<in> set (w # ws). _ w\<close> split_words_word [of w "[]"] by (simp add: join_words_def del: split_words.simps)
    then show ?thesis using Cons.IH Cons.prems by (simp add: is_space_def)
  qed
qed

lemma split_words_words:
  assumes "\<forall>c \<in> set acc. \<not> is_space c" "w \<in> set (split_words acc s)"
  shows "w \<noteq> [] \<and> (\<forall>c \<in> set w. \<not> is_space c)"
  using assms
proof (induction acc s rule: split_words.induct)
  case (1 word)
  then show ?case by (simp split: if_splits)
next
  case (2 word c cs)
  show ?case
  proof (cases "is_space c")
    case True
    with "2.prems" consider "w = word" "word \<noteq> []" | "w \<in> set (split_words [] cs)" by (auto split: if_splits)
    then show ?thesis using "2.IH"(1) True "2.prems"(1) by cases simp_all
  next
    case False
    then show ?thesis using "2.IH"(2) "2.prems" by simp
  qed
qed

definition granted_scopes :: "client_registration \<Rightarrow> token_request \<Rightarrow> string list" where
  "granted_scopes reg q = (if tq_scope q \<noteq> [] then split_words [] (tq_scope q) else cr_scopes reg)"

lemma granted_scopes_read:
  assumes "\<forall>w \<in> set (cr_scopes reg). w \<noteq> [] \<and> (\<forall>c \<in> set w. \<not> is_space c)"
  shows "split_words [] (join_words (granted_scopes reg q)) = granted_scopes reg q"
proof (rule split_words_join, rule ballI)
  fix w assume w: "w \<in> set (granted_scopes reg q)"
  show "w \<noteq> [] \<and> (\<forall>c \<in> set w. \<not> is_space c)"
  proof (cases "tq_scope q = []")
    case True
    with w assms show ?thesis by (simp add: granted_scopes_def)
  next
    case False
    with w have "w \<in> set (split_words [] (tq_scope q))" by (simp add: granted_scopes_def)
    from split_words_words [OF _ this] show ?thesis by simp
  qed
qed

lemma credentials_granted:
  assumes "find_by_registration_id (au_clients srv) (tq_client_id q) = Some reg" "cr_client_secret reg = tq_client_secret q"
    and "tq_grant_type q = ''client_credentials''"
  shows "\<exists>resp s'. token srv q s = (Inr resp, s') \<and>
     tp_access_token resp = jw_encode (au_jwt srv)
       (access_claims srv (cr_client_id reg) (join_words (granted_scopes reg q)) (tq_issued_at q)) (au_secret srv)"
  using assms by (simp add: token_def handle_client_credentials_def granted_scopes_def issue_tokens_def Let_def)

text \<open>
  The scope a client asks for is the scope it gets: the token that the client credentials grant returns makes
  the resource server build a context whose permissions are exactly the requested words, or the registered scopes when the
  request names none; the registered scopes put no bound on the request. The context that \<^verbatim>\<open>JWTService\<close> builds from the
  same token has no permissions at all.
\<close>

theorem client_credentials_context:
  assumes "find_by_registration_id (au_clients srv) (tq_client_id q) = Some reg" "cr_client_secret reg = tq_client_secret q"
    and "tq_grant_type q = ''client_credentials''" "\<forall>w \<in> set (cr_scopes reg). w \<noteq> [] \<and> (\<forall>c \<in> set w. \<not> is_space c)"
    and "c = access_claims srv (cr_client_id reg) (join_words (granted_scopes reg q)) (tq_issued_at q)"
    and "validate (jw_encode (au_jwt srv) c (au_secret srv)) = Inr c"
    and "jw_decode (au_jwt srv) (jw_encode (au_jwt srv) c (au_secret srv)) (au_secret srv) now = Inr c"
  shows "\<exists>resp s'. token srv q s = (Inr resp, s') \<and>
     resource_security_context validate (tp_access_token resp) =
       Inr \<lparr>sc_user_id = Some (cr_client_id reg), sc_roles = [],
            sc_permissions = (if tq_scope q \<noteq> [] then split_words [] (tq_scope q) else cr_scopes reg), sc_attributes = []\<rparr> \<and>
     jwt_security_context (au_jwt srv) (au_secret srv) (tp_access_token resp) now =
       Inr \<lparr>sc_user_id = Some (cr_client_id reg), sc_roles = [], sc_permissions = [], sc_attributes = []\<rparr>"
proof -
  from credentials_granted [OF assms(1-3)] obtain resp s' where
    t: "token srv q s = (Inr resp, s')" "tp_access_token resp = jw_encode (au_jwt srv) c (au_secret srv)"
    unfolding assms(5) by blast
  have "resource_security_context validate (tp_access_token resp) =
      Inr \<lparr>sc_user_id = Some (cr_client_id reg), sc_roles = [], sc_permissions = granted_scopes reg q, sc_attributes = []\<rparr>"
    using granted_scopes_read [OF assms(4), of q]
    unfolding t(2) resource_security_context_def assms(6)
    by (simp add: assms(5) claims_security_context_def access_claims_def list_or_empty_def)
  moreover have "jwt_security_context (au_jwt srv) (au_secret srv) (tp_access_token resp) now =
      Inr \<lparr>sc_user_id = Some (cr_client_id reg), sc_roles = [], sc_permissions = [], sc_attributes = []\<rparr>"
    unfolding t(2) jwt_security_context_def jwt_decode_def assms(7)
    by (simp add: assms(5) access_claims_def list_or_empty_def)
  ultimately show ?thesis using t(1) unfolding granted_scopes_def by blast
qed

text \<open>A client registered for \<^verbatim>\<open>read\<close> asks for \<^verbatim>\<open>admin\<close> and gets it.\<close>

theorem client_credentials_context_witness:
  "\<exists>resp s'. token example_server (example_call ''client_credentials'' None ''admin'' 0) \<lparr>sv_tokens = [], sv_drawn = 0\<rparr> = (Inr resp, s') \<and>
     resource_security_context (\<lambda>t. jwt_decode (au_jwt example_server) ''key'' t 5) (tp_access_token resp) =
       Inr \<lparr>sc_user_id = Some ''svc'', sc_roles = [], sc_permissions = [''admin''], sc_attributes = []\<rparr>"
proof -
  let ?q = "example_call ''client_credentials'' None ''admin'' 0"
  let ?c = "access_claims example_server ''svc'' (join_words (granted_scopes example_registration ?q)) 0"
  have 1: "find_by_registration_id (au_clients example_server) (tq_client_id ?q) = Some example_registration"
    "cr_client_secret example_registration = tq_client_secret ?q" "tq_grant_type ?q = ''client_credentials''"
    by code_simp+
  have 2: "\<forall>w \<in> set (cr_scopes example_registration). w \<noteq> [] \<and> (\<forall>c \<in> set w. \<not> is_space c)" by code_simp
  have 3: "?c = access_claims example_server (cr_client_id example_registration)
      (join_words (granted_scopes example_registration ?q)) (tq_issued_at ?q)" by code_simp
  have 4: "jw_decode (au_jwt example_server) (jw_encode (au_jwt example_server) ?c (au_secret example_server))
      (au_secret example_server) 5 = Inr ?c"
    "jwt_decode (au_jwt example_server) ''key'' (jw_encode (au_jwt example_server) ?c (au_secret example_server)) 5 = Inr ?c"
    by code_simp+
  have words: "(if tq_scope ?q \<noteq> [] then split_words [] (tq_scope ?q) else cr_scopes example_registration) = [''admin'']"
    "Some (cr_client_id example_registration) = Some ''svc''" by code_simp+
  from client_credentials_context [where validate = "\<lambda>t. jwt_decode (au_jwt example_server) ''key'' t 5",
      OF 1 2 3 4(2,1), of "\<lparr>sv_tokens = [], sv_drawn = 0\<rparr>"]
  show ?thesis unfolding words by blast
qed

end
