(* ===== verification/WebFilters.thy ===== *)
theory WebFilters
  imports OAuth2 "HOL-Library.Multiset"
begin

text \<open>
  The filter chain of the web layer: glob patterns and \<^verbatim>\<open>web/filters.py\<close>, the chain of
  \<^verbatim>\<open>web/adapters/starlette/filter_chain.py\<close> and its order, sessions (\<^verbatim>\<open>session/session.py\<close>, \<^verbatim>\<open>session/filter.py\<close>,
  \<^verbatim>\<open>session/adapters/memory.py\<close>), the filters that establish a security context, the rules of
  \<^verbatim>\<open>security/http_security.py\<close>, CSRF protection, and the status codes of \<^verbatim>\<open>web/adapters/starlette/errors.py\<close>.

  A handler takes the request and the state and returns a response or an exception with the new state. The state has
  what the filters share: the attributes of \<^verbatim>\<open>request.state\<close>, the request context, the session store, the number of
  random strings drawn (\<open>fresh\<close> is their sequence), and the world of the application. Session data are mutable
  dictionaries that the memory store and the session object share, so they live in a heap.
\<close>

section \<open>Glob patterns\<close>

text \<open>
  \<^verbatim>\<open>fnmatch\<close>: a star, a question mark, a character class, or a character. A class is read as
  Python does: an exclamation mark in front negates, a bracket in front is a member, a range whose ends are the wrong way round is dropped.
\<close>

datatype class_sym = Sym char | Dash

datatype glob = Star | AnyChar | Class "class_sym list" | Plain char

fun class_syms :: "string \<Rightarrow> class_sym list" where
  "class_syms [] = []"
| "class_syms [c] = [Sym c]"
| "class_syms [c, d] = [Sym c, Sym d]"
| "class_syms (c # d # e # cs) =
     (if d = CHR ''-'' then (if of_char e < (of_char c :: nat) then [] else [Sym c, Dash, Sym e]) @ class_syms cs
      else Sym c # class_syms (d # e # cs))"

definition read_class :: "string \<Rightarrow> class_sym list" where
  "read_class stuff =
     (case stuff of [] \<Rightarrow> [] | c # cs \<Rightarrow> if c = CHR ''!'' then Sym c # class_syms cs else class_syms stuff)"

fun in_syms :: "class_sym list \<Rightarrow> char \<Rightarrow> bool" where
  "in_syms (Sym a # Dash # Sym b # xs) c = ((of_char a :: nat) \<le> of_char c \<and> (of_char c :: nat) \<le> of_char b \<or> in_syms xs c)"
| "in_syms (Sym a # xs) c = (a = c \<or> in_syms xs c)"
| "in_syms (Dash # xs) c = (c = CHR ''-'' \<or> in_syms xs c)"
| "in_syms [] c = False"

definition in_class :: "class_sym list \<Rightarrow> char \<Rightarrow> bool" where
  "in_class syms c =
     (case syms of [] \<Rightarrow> False
      | x # xs \<Rightarrow> if x = Sym (CHR ''!'') then \<not> in_syms xs c else in_syms syms c)"

text \<open>The end of a class: the closing bracket, which does not close when it comes first or right after the exclamation mark.\<close>

definition split_class :: "string \<Rightarrow> (string \<times> string) option" where
  "split_class cs =
     (let lead = (if take 1 cs = ''!'' then 1 else 0);
          lead' = (if take 1 (drop lead cs) = '']'' then Suc lead else lead);
          body = takeWhile (\<lambda>c. c \<noteq> CHR '']'') (drop lead' cs)
      in if drop (lead' + length body) cs = [] then None
         else Some (take lead' cs @ body, drop (Suc (lead' + length body)) cs))"

function read_glob :: "string \<Rightarrow> glob list" where
  "read_glob [] = []"
| "read_glob (c # cs) =
     (if c = CHR ''*'' then Star # read_glob cs
      else if c = CHR ''?'' then AnyChar # read_glob cs
      else if c = CHR ''['' then
        (case split_class cs of
           None \<Rightarrow> Plain c # read_glob cs
         | Some (stuff, rest) \<Rightarrow> Class (read_class stuff) # read_glob rest)
      else Plain c # read_glob cs)"
  by pat_completeness auto

lemma split_class_length: "split_class cs = Some (stuff, rest) \<Longrightarrow> length rest < length cs"
  by (auto simp: split_class_def Let_def split: if_splits)

termination read_glob
  by (relation "measure length") (auto dest: split_class_length)

fun glob_match :: "glob list \<Rightarrow> string \<Rightarrow> bool" where
  "glob_match [] s = (s = [])"
| "glob_match (Star # p) [] = glob_match p []"
| "glob_match (Star # p) (c # s) = (glob_match p (c # s) \<or> glob_match (Star # p) s)"
| "glob_match (AnyChar # p) s = (case s of [] \<Rightarrow> False | c # s' \<Rightarrow> glob_match p s')"
| "glob_match (Class k # p) s = (case s of [] \<Rightarrow> False | c # s' \<Rightarrow> in_class k c \<and> glob_match p s')"
| "glob_match (Plain d # p) s = (case s of [] \<Rightarrow> False | c # s' \<Rightarrow> c = d \<and> glob_match p s')"

definition fnmatch :: "string \<Rightarrow> string \<Rightarrow> bool" where
  "fnmatch path pattern = glob_match (read_glob pattern) path"

section \<open>Requests, responses and the state\<close>

text \<open>
  Header names are in lower case, as the framework's lookup ignores case. The last three are readings of clocks during the request:
  \<^verbatim>\<open>time.time\<close> when the session object is made, \<^verbatim>\<open>time.monotonic\<close> when the store is read and when it is written.
\<close>

record web_request =
  rq_method :: string
  rq_path :: string
  rq_headers :: "(string, string) dict"
  rq_cookies :: "(string, string) dict"
  rq_query :: "(string, string) dict"
  rq_path_params :: "(string, string) dict"
  rq_time :: rat
  rq_loaded :: rat
  rq_saved :: rat

record cookie =
  ck_key :: string
  ck_value :: string
  ck_httponly :: bool
  ck_secure :: bool
  ck_max_age :: "int option"

text \<open>A body: text, a JSON object with an error, a problem document (status, title, detail, instance) or the report of an exception.\<close>

datatype body =
    Content string
  | ErrorBody string string
  | Problem int string string "pyval list" string
  | Report exn string string

record web_response =
  rs_status :: int
  rs_headers :: "(string, string) dict"
  rs_cookies :: "cookie list"
  rs_body :: body

definition plain_response :: "int \<Rightarrow> body \<Rightarrow> web_response" where
  "plain_response status b = \<lparr>rs_status = status, rs_headers = [], rs_cookies = [], rs_body = b\<rparr>"

definition set_header :: "string \<Rightarrow> string \<Rightarrow> web_response \<Rightarrow> web_response" where
  "set_header name v resp = resp\<lparr>rs_headers := dput name v (rs_headers resp)\<rparr>"

definition set_cookie :: "cookie \<Rightarrow> web_response \<Rightarrow> web_response" where
  "set_cookie c resp = resp\<lparr>rs_cookies := rs_cookies resp @ [c]\<rparr>"

datatype attribute = ATime rat | AText string | AContext security_context

type_synonym session_data = "(string, attribute) dict"

record http_session =
  hs_id :: string
  hs_data :: nat
  hs_is_new :: bool
  hs_invalidated :: bool
  hs_modified :: bool

record request_context =
  rc_request_id :: string
  rc_security_context :: "security_context option"

record 'w web_state =
  ws_context :: "security_context option"
  ws_session :: "http_session option"
  ws_transaction_id :: "string option"
  ws_request :: "request_context option"
  ws_store :: "(string, nat \<times> rat) dict"
  ws_heap :: "session_data list"
  ws_drawn :: nat
  ws_world :: 'w

type_synonym 'w outcome = "(exn + web_response) \<times> 'w web_state"

type_synonym 'w handler = "web_request \<Rightarrow> 'w web_state \<Rightarrow> 'w outcome"

definition on_response :: "(web_response \<Rightarrow> web_response) \<Rightarrow> 'w outcome \<Rightarrow> 'w outcome" where
  "on_response f out = (map_sum id f (fst out), snd out)"

section \<open>Filters and their chain\<close>

record 'w web_filter =
  wf_order :: int
  wf_url_patterns :: "string list"
  wf_exclude_patterns :: "string list"
  wf_do :: "'w handler \<Rightarrow> 'w handler"

definition HIGHEST_PRECEDENCE :: int where "HIGHEST_PRECEDENCE = - (2 ^ 31)"
definition LOWEST_PRECEDENCE :: int where "LOWEST_PRECEDENCE = 2 ^ 31 - 1"

definition should_not_filter :: "'w web_filter \<Rightarrow> web_request \<Rightarrow> bool" where
  "should_not_filter f req =
     (if wf_url_patterns f \<noteq> [] \<and> \<not> list_ex (fnmatch (rq_path req)) (wf_url_patterns f) then True
      else wf_exclude_patterns f \<noteq> [] \<and> list_ex (fnmatch (rq_path req)) (wf_exclude_patterns f))"

definition wrap_filter :: "'w web_filter \<Rightarrow> 'w handler \<Rightarrow> 'w handler" where
  "wrap_filter f next_call req = (if should_not_filter f req then next_call req else wf_do f next_call req)"

definition sort_filters :: "'w web_filter list \<Rightarrow> 'w web_filter list" where
  "sort_filters fs = sort_key wf_order fs"

definition filter_chain :: "'w web_filter list \<Rightarrow> 'w handler \<Rightarrow> 'w handler" where
  "filter_chain fs app = foldl (\<lambda>chain f. wrap_filter f chain) app (rev fs)"

text \<open>The end of the chain: the messages the downstream application sends are gathered into a response.\<close>

datatype asgi_message = Start int "(string, string) dict" | Body string | Pathsend string

record captured =
  cp_status :: int
  cp_headers :: "(string, string) dict"
  cp_parts :: "string list"

definition MAX_RESPONSE_BODY_SIZE :: nat where "MAX_RESPONSE_BODY_SIZE = 100 * 1024 * 1024"

definition intercept :: "(string \<Rightarrow> exn + string) \<Rightarrow> captured \<Rightarrow> asgi_message \<Rightarrow> exn + captured" where
  "intercept read_file c m =
     (case m of
        Start st hs \<Rightarrow> Inr (c\<lparr>cp_status := st, cp_headers := hs\<rparr>)
      | Body part \<Rightarrow>
          (if part = [] then Inr c
           else (let parts = cp_parts c @ [part]
                 in if sum_list (map length parts) > MAX_RESPONSE_BODY_SIZE
                    then Inl (Exn RuntimeErrorC
                      ''Response body exceeds {} bytes. Consider excluding this route from the filter chain.''
                      [VInt (int MAX_RESPONSE_BODY_SIZE)])
                    else Inr (c\<lparr>cp_parts := parts\<rparr>)))
      | Pathsend path \<Rightarrow>
          (if path = [] then Inr c
           else case read_file path of Inl e \<Rightarrow> Inl e | Inr content \<Rightarrow> Inr (c\<lparr>cp_parts := cp_parts c @ [content]\<rparr>)))"

fun gather :: "(string \<Rightarrow> exn + string) \<Rightarrow> captured \<Rightarrow> asgi_message list \<Rightarrow> exn + captured" where
  "gather read_file c [] = Inr c"
| "gather read_file c (m # ms) = (case intercept read_file c m of Inl e \<Rightarrow> Inl e | Inr c' \<Rightarrow> gather read_file c' ms)"

definition call_app ::
  "(string \<Rightarrow> exn + string) \<Rightarrow> (web_request \<Rightarrow> 'w web_state \<Rightarrow> (exn + asgi_message list) \<times> 'w web_state) \<Rightarrow> 'w handler" where
  "call_app read_file app req s =
     (case app req s of
        (Inl e, s') \<Rightarrow> (Inl e, s')
      | (Inr ms, s') \<Rightarrow>
          (case gather read_file \<lparr>cp_status = 200, cp_headers = [], cp_parts = []\<rparr> ms of
             Inl e \<Rightarrow> (Inl e, s')
           | Inr c \<Rightarrow> (Inr \<lparr>rs_status = cp_status c, rs_headers = cp_headers c, rs_cookies = [], rs_body = Content (concat (cp_parts c))\<rparr>, s')))"

section \<open>Request context, transaction id and security headers\<close>

definition draw :: "(nat \<Rightarrow> string) \<Rightarrow> 'w web_state \<Rightarrow> string \<times> 'w web_state" where
  "draw fresh s = (fresh (ws_drawn s), s\<lparr>ws_drawn := ws_drawn s + 1\<rparr>)"

text \<open>\<^verbatim>\<open>x or fresh\<close>: a missing or empty value is replaced.\<close>

definition given_or_drawn :: "(nat \<Rightarrow> string) \<Rightarrow> string option \<Rightarrow> 'w web_state \<Rightarrow> string \<times> 'w web_state" where
  "given_or_drawn fresh x s = (case x of Some v \<Rightarrow> if v = [] then draw fresh s else (v, s) | None \<Rightarrow> draw fresh s)"

definition init_request_context :: "string \<Rightarrow> 'w web_state \<Rightarrow> 'w web_state" where
  "init_request_context rid s = s\<lparr>ws_request := Some \<lparr>rc_request_id = rid, rc_security_context = None\<rparr>\<rparr>"

definition clear_request_context :: "'w web_state \<Rightarrow> 'w web_state" where
  "clear_request_context s = s\<lparr>ws_request := None\<rparr>"

definition request_context_filter :: "(nat \<Rightarrow> string) \<Rightarrow> 'w web_filter" where
  "request_context_filter fresh =
     \<lparr>wf_order = HIGHEST_PRECEDENCE, wf_url_patterns = [], wf_exclude_patterns = [],
      wf_do = (\<lambda>next_call req s.
        case given_or_drawn fresh (dget (rq_headers req) ''x-request-id'') s of
          (rid, s1) \<Rightarrow> apsnd clear_request_context (next_call req (init_request_context rid s1)))\<rparr>"

definition transaction_id_filter :: "(nat \<Rightarrow> string) \<Rightarrow> 'w web_filter" where
  "transaction_id_filter fresh =
     \<lparr>wf_order = HIGHEST_PRECEDENCE + 100, wf_url_patterns = [], wf_exclude_patterns = [],
      wf_do = (\<lambda>next_call req s.
        case given_or_drawn fresh (dget (rq_headers req) ''x-transaction-id'') s of
          (tx, s1) \<Rightarrow> on_response (set_header ''x-transaction-id'' tx) (next_call req (s1\<lparr>ws_transaction_id := Some tx\<rparr>)))\<rparr>"

record security_headers_config =
  sh_content_type_options :: string
  sh_frame_options :: string
  sh_transport_security :: string
  sh_xss_protection :: string
  sh_referrer_policy :: string
  sh_content_security_policy :: "string option"
  sh_permissions_policy :: "string option"

definition default_security_headers :: security_headers_config where
  "default_security_headers =
     \<lparr>sh_content_type_options = ''nosniff'', sh_frame_options = ''DENY'',
      sh_transport_security = ''max-age=31536000; includeSubDomains'', sh_xss_protection = ''0'',
      sh_referrer_policy = ''strict-origin-when-cross-origin'', sh_content_security_policy = None, sh_permissions_policy = None\<rparr>"

definition optional_header :: "string \<Rightarrow> string option \<Rightarrow> web_response \<Rightarrow> web_response" where
  "optional_header name v resp = (case v of None \<Rightarrow> resp | Some x \<Rightarrow> set_header name x resp)"

definition add_security_headers :: "security_headers_config \<Rightarrow> web_response \<Rightarrow> web_response" where
  "add_security_headers cfg resp =
     optional_header ''permissions-policy'' (sh_permissions_policy cfg)
      (optional_header ''content-security-policy'' (sh_content_security_policy cfg)
        (set_header ''referrer-policy'' (sh_referrer_policy cfg)
          (set_header ''x-xss-protection'' (sh_xss_protection cfg)
            (set_header ''strict-transport-security'' (sh_transport_security cfg)
              (set_header ''x-frame-options'' (sh_frame_options cfg)
                (set_header ''x-content-type-options'' (sh_content_type_options cfg) resp))))))"

definition security_headers_filter :: "security_headers_config option \<Rightarrow> 'w web_filter" where
  "security_headers_filter config =
     \<lparr>wf_order = HIGHEST_PRECEDENCE + 300, wf_url_patterns = [], wf_exclude_patterns = [],
      wf_do = (\<lambda>next_call req s.
        on_response (add_security_headers (case config of None \<Rightarrow> default_security_headers | Some c \<Rightarrow> c)) (next_call req s))\<rparr>"
section \<open>Sessions\<close>

text \<open>
  The memory store keeps, for each id, the dictionary object and its expiry; \<open>ws_heap\<close> has the dictionaries. A new
  \<^verbatim>\<open>HttpSession\<close> writes the times into its dictionary, which for a stored session is the store's own.
\<close>

definition store_get :: "string \<Rightarrow> rat \<Rightarrow> 'w web_state \<Rightarrow> nat option \<times> 'w web_state" where
  "store_get sid now s =
     (case dget (ws_store s) sid of
        None \<Rightarrow> (None, s)
      | Some (ref, expires_at) \<Rightarrow>
          if now > expires_at then (None, s\<lparr>ws_store := ddel sid (ws_store s)\<rparr>) else (Some ref, s))"

definition store_save :: "string \<Rightarrow> nat \<Rightarrow> int \<Rightarrow> rat \<Rightarrow> 'w web_state \<Rightarrow> 'w web_state" where
  "store_save sid ref ttl now s = s\<lparr>ws_store := dput sid (ref, now + of_int ttl) (ws_store s)\<rparr>"

definition store_delete :: "string \<Rightarrow> 'w web_state \<Rightarrow> 'w web_state" where
  "store_delete sid s = s\<lparr>ws_store := ddel sid (ws_store s)\<rparr>"

definition store_exists :: "string \<Rightarrow> rat \<Rightarrow> 'w web_state \<Rightarrow> bool \<times> 'w web_state" where
  "store_exists sid now s =
     (case dget (ws_store s) sid of
        None \<Rightarrow> (False, s)
      | Some (ref, expires_at) \<Rightarrow>
          if now > expires_at then (False, s\<lparr>ws_store := ddel sid (ws_store s)\<rparr>) else (True, s))"

definition session_times :: "rat \<Rightarrow> session_data \<Rightarrow> session_data" where
  "session_times now d =
     dput ''_last_accessed'' (ATime now) (if dmem ''_created_at'' d then d else dput ''_created_at'' (ATime now) d)"

text \<open>\<^verbatim>\<open>HttpSession(id, data)\<close> on a stored dictionary, and \<^verbatim>\<open>HttpSession(id, is_new=True)\<close> on a new one.\<close>

definition open_session :: "string \<Rightarrow> nat \<Rightarrow> rat \<Rightarrow> 'w web_state \<Rightarrow> 'w web_state" where
  "open_session sid ref now s =
     s\<lparr>ws_heap := (ws_heap s)[ref := session_times now (ws_heap s ! ref)],
       ws_session := Some \<lparr>hs_id = sid, hs_data = ref, hs_is_new = False, hs_invalidated = False, hs_modified = False\<rparr>\<rparr>"

definition new_session :: "string \<Rightarrow> rat \<Rightarrow> 'w web_state \<Rightarrow> 'w web_state" where
  "new_session sid now s =
     s\<lparr>ws_heap := ws_heap s @ [session_times now []],
       ws_session := Some \<lparr>hs_id = sid, hs_data = length (ws_heap s), hs_is_new = True, hs_invalidated = False, hs_modified = True\<rparr>\<rparr>"

definition session_dict :: "'w web_state \<Rightarrow> session_data" where
  "session_dict s = (case ws_session s of None \<Rightarrow> [] | Some h \<Rightarrow> ws_heap s ! hs_data h)"

definition get_attribute :: "string \<Rightarrow> 'w web_state \<Rightarrow> attribute option" where
  "get_attribute name s = dget (session_dict s) name"

definition set_attribute :: "string \<Rightarrow> attribute \<Rightarrow> 'w web_state \<Rightarrow> 'w web_state" where
  "set_attribute name v s =
     (case ws_session s of None \<Rightarrow> s
      | Some h \<Rightarrow> s\<lparr>ws_heap := (ws_heap s)[hs_data h := dput name v (ws_heap s ! hs_data h)],
                    ws_session := Some (h\<lparr>hs_modified := True\<rparr>)\<rparr>)"

definition remove_attribute :: "string \<Rightarrow> 'w web_state \<Rightarrow> 'w web_state" where
  "remove_attribute name s =
     (case ws_session s of None \<Rightarrow> s
      | Some h \<Rightarrow> if dmem name (ws_heap s ! hs_data h)
                  then s\<lparr>ws_heap := (ws_heap s)[hs_data h := ddel name (ws_heap s ! hs_data h)],
                         ws_session := Some (h\<lparr>hs_modified := True\<rparr>)\<rparr>
                  else s)"

definition attribute_names :: "'w web_state \<Rightarrow> string list" where
  "attribute_names s = filter (\<lambda>k. take 1 k \<noteq> ''_'') (dkeys (session_dict s))"

definition invalidate :: "'w web_state \<Rightarrow> 'w web_state" where
  "invalidate s = s\<lparr>ws_session := map_option (\<lambda>h. h\<lparr>hs_invalidated := True, hs_modified := True\<rparr>) (ws_session s)\<rparr>"

definition load_or_create_session :: "(nat \<Rightarrow> string) \<Rightarrow> string \<Rightarrow> web_request \<Rightarrow> 'w web_state \<Rightarrow> 'w web_state" where
  "load_or_create_session fresh cookie_name req s =
     (let create = (\<lambda>s. case draw fresh s of (new_id, s') \<Rightarrow> new_session new_id (rq_time req) s')
      in case dget (rq_cookies req) cookie_name of
           None \<Rightarrow> create s
         | Some sid \<Rightarrow>
             if sid = [] then create s
             else (case store_get sid (rq_loaded req) s of
                     (None, s') \<Rightarrow> create s'
                   | (Some ref, s') \<Rightarrow> open_session sid ref (rq_time req) s'))"

definition persist_session :: "int \<Rightarrow> web_request \<Rightarrow> 'w web_state \<Rightarrow> 'w web_state" where
  "persist_session ttl req s =
     (case ws_session s of None \<Rightarrow> s
      | Some h \<Rightarrow> if hs_invalidated h then store_delete (hs_id h) s
                  else if hs_modified h then store_save (hs_id h) (hs_data h) ttl (rq_saved req) s
                  else s)"

definition session_cookies :: "string \<Rightarrow> int \<Rightarrow> http_session \<Rightarrow> web_response \<Rightarrow> web_response" where
  "session_cookies cookie_name ttl h resp =
     (if hs_invalidated h
      then set_cookie \<lparr>ck_key = cookie_name, ck_value = [], ck_httponly = False, ck_secure = False, ck_max_age = Some 0\<rparr> resp
      else if hs_is_new h
      then set_cookie \<lparr>ck_key = cookie_name, ck_value = hs_id h, ck_httponly = True, ck_secure = False, ck_max_age = Some ttl\<rparr> resp
      else resp)"

definition session_filter :: "(nat \<Rightarrow> string) \<Rightarrow> string \<Rightarrow> int \<Rightarrow> 'w web_filter" where
  "session_filter fresh cookie_name ttl =
     \<lparr>wf_order = HIGHEST_PRECEDENCE + 150, wf_url_patterns = [], wf_exclude_patterns = [],
      wf_do = (\<lambda>next_call req s.
        case next_call req (load_or_create_session fresh cookie_name req s) of
          (r, s1) \<Rightarrow>
            (let s2 = persist_session ttl req s1
             in case ws_session s2 of
                  None \<Rightarrow> (r, s2)
                | Some h \<Rightarrow> on_response (session_cookies cookie_name ttl h) (r, s2)))\<rparr>"

text \<open>The filter that logs each request and its failure, and changes neither.\<close>

definition request_logging_filter :: "'w web_filter" where
  "request_logging_filter =
     \<lparr>wf_order = HIGHEST_PRECEDENCE + 200, wf_url_patterns = [], wf_exclude_patterns = [],
      wf_do = (\<lambda>next_call req s. case next_call req s of (Inl e, s1) \<Rightarrow> (Inl e, s1) | (Inr resp, s1) \<Rightarrow> (Inr resp, s1))\<rparr>"

section \<open>The security context of a request\<close>

definition starts_with :: "string \<Rightarrow> string \<Rightarrow> bool" where
  "starts_with p s = (take (length p) s = p)"

definition set_security_context :: "security_context \<Rightarrow> 'w web_state \<Rightarrow> 'w web_state" where
  "set_security_context ctx s =
     s\<lparr>ws_context := Some ctx, ws_request := map_option (\<lambda>rc. rc\<lparr>rc_security_context := Some ctx\<rparr>) (ws_request s)\<rparr>"

text \<open>
  Both token filters: the token after \<^verbatim>\<open>Bearer\<close> makes the context; without one, or when it is refused
  with a \<^verbatim>\<open>SecurityException\<close>, the context is anonymous. Any other exception passes through.
\<close>

definition bearer_context :: "(string \<Rightarrow> exn + security_context) \<Rightarrow> web_request \<Rightarrow> exn + security_context" where
  "bearer_context to_context req =
     (let auth = dget_default (rq_headers req) ''authorization'' []
      in if starts_with ''Bearer '' auth
         then (case to_context (drop 7 auth) of
                 Inr ctx \<Rightarrow> Inr ctx
               | Inl e \<Rightarrow> if isinstance_exc e SecurityException then Inr anonymous else Inl e)
         else Inr anonymous)"

definition token_filter :: "int \<Rightarrow> string list \<Rightarrow> (string \<Rightarrow> rat \<Rightarrow> exn + security_context) \<Rightarrow> 'w web_filter" where
  "token_filter ord excluded to_context =
     \<lparr>wf_order = ord, wf_url_patterns = [], wf_exclude_patterns = excluded,
      wf_do = (\<lambda>next_call req s.
        case bearer_context (\<lambda>t. to_context t (rq_time req)) req of
          Inl e \<Rightarrow> (Inl e, s)
        | Inr ctx \<Rightarrow> next_call req (set_security_context ctx s))\<rparr>"

definition security_filter :: "jwt_library \<Rightarrow> string \<Rightarrow> string list \<Rightarrow> 'w web_filter" where
  "security_filter jwt key excluded =
     token_filter (HIGHEST_PRECEDENCE + 220) excluded (\<lambda>t now. jwt_security_context jwt key t \<lfloor>now\<rfloor>)"

definition oauth2_resource_server_filter :: "(string \<Rightarrow> rat \<Rightarrow> exn + claims) \<Rightarrow> string list \<Rightarrow> 'w web_filter" where
  "oauth2_resource_server_filter validate excluded =
     token_filter (HIGHEST_PRECEDENCE + 250) excluded (\<lambda>t now. resource_security_context (\<lambda>t. validate t now) t)"

definition SECURITY_CONTEXT_KEY :: string where "SECURITY_CONTEXT_KEY = ''SECURITY_CONTEXT''"

definition stored_context :: "'w web_state \<Rightarrow> security_context option" where
  "stored_context s =
     (case get_attribute SECURITY_CONTEXT_KEY s of
        Some (AContext ctx) \<Rightarrow> if is_authenticated ctx then Some ctx else None
      | _ \<Rightarrow> None)"

definition restore_context :: "'w web_state \<Rightarrow> 'w web_state" where
  "restore_context s =
     (case stored_context s of
        Some ctx \<Rightarrow> s\<lparr>ws_context := Some ctx\<rparr>
      | None \<Rightarrow> if ws_context s = None then s\<lparr>ws_context := Some anonymous\<rparr> else s)"

definition oauth2_session_security_filter :: "'w web_filter" where
  "oauth2_session_security_filter =
     \<lparr>wf_order = HIGHEST_PRECEDENCE + 225, wf_url_patterns = [], wf_exclude_patterns = [],
      wf_do = (\<lambda>next_call req s. next_call req (restore_context s))\<rparr>"

section \<open>Rules for URLs\<close>

datatype access_rule =
    PERMIT_ALL | DENY_ALL | AUTHENTICATED | HAS_ROLE string | HAS_ANY_ROLE "string list" | HAS_PERMISSION string

record security_rule =
  sr_patterns :: "string list"
  sr_rule :: access_rule

text \<open>The builder: matchers and a terminal method append one rule.\<close>

record http_security =
  hs_rules :: "security_rule list"

definition add_rule :: "string list \<Rightarrow> access_rule \<Rightarrow> http_security \<Rightarrow> http_security" where
  "add_rule patterns rule b = b\<lparr>hs_rules := hs_rules b @ [\<lparr>sr_patterns = patterns, sr_rule = rule\<rparr>]\<rparr>"

definition request_matchers :: "string list \<Rightarrow> string list" where "request_matchers patterns = patterns"
definition any_request :: "string list" where "any_request = []"

definition permit_all :: "string list \<Rightarrow> http_security \<Rightarrow> http_security" where
  "permit_all patterns = add_rule patterns PERMIT_ALL"
definition deny_all :: "string list \<Rightarrow> http_security \<Rightarrow> http_security" where
  "deny_all patterns = add_rule patterns DENY_ALL"
definition authenticated :: "string list \<Rightarrow> http_security \<Rightarrow> http_security" where
  "authenticated patterns = add_rule patterns AUTHENTICATED"
definition require_role :: "string list \<Rightarrow> string \<Rightarrow> http_security \<Rightarrow> http_security" where
  "require_role patterns role = add_rule patterns (HAS_ROLE role)"
definition require_any_role :: "string list \<Rightarrow> string list \<Rightarrow> http_security \<Rightarrow> http_security" where
  "require_any_role patterns roles = add_rule patterns (HAS_ANY_ROLE roles)"
definition require_permission :: "string list \<Rightarrow> string \<Rightarrow> http_security \<Rightarrow> http_security" where
  "require_permission patterns p = add_rule patterns (HAS_PERMISSION p)"

definition problem_response :: "int \<Rightarrow> string \<Rightarrow> string \<Rightarrow> pyval list \<Rightarrow> string \<Rightarrow> web_response" where
  "problem_response status title detail args path = plain_response status (Problem status title detail args path)"

definition path_matches :: "string \<Rightarrow> string list \<Rightarrow> bool" where
  "path_matches path patterns = (if patterns = [] then True else list_ex (fnmatch path) patterns)"

definition unauthorized :: "string \<Rightarrow> web_response" where
  "unauthorized path =
     problem_response 401 ''Unauthorized'' ''Authentication is required to access this resource.'' [] path"

definition require :: "security_context \<Rightarrow> string \<Rightarrow> bool \<Rightarrow> string \<Rightarrow> pyval list \<Rightarrow> web_response option" where
  "require ctx path granted detail args =
     (if \<not> is_authenticated ctx then Some (unauthorized path)
      else if \<not> granted then Some (problem_response 403 ''Forbidden'' detail args path)
      else None)"

text \<open>What one matching rule does: \<open>None\<close> calls the next filter, \<open>Some\<close> answers.\<close>

fun check_rule :: "access_rule \<Rightarrow> security_context \<Rightarrow> string \<Rightarrow> web_response option" where
  "check_rule PERMIT_ALL ctx path = None"
| "check_rule DENY_ALL ctx path =
     Some (problem_response 403 ''Forbidden'' ''Access to this resource is denied.'' [] path)"
| "check_rule AUTHENTICATED ctx path = require ctx path True [] []"
| "check_rule (HAS_ROLE role) ctx path =
     require ctx path (has_role ctx role) ''Required role '{}' is not granted.'' [VStr role]"
| "check_rule (HAS_ANY_ROLE roles) ctx path =
     require ctx path (has_any_role ctx roles) ''One of roles {} is required.'' [VList (map VStr roles)]"
| "check_rule (HAS_PERMISSION p) ctx path =
     require ctx path (has_permission ctx p) ''Required permission '{}' is not granted.'' [VStr p]"

fun check_rules :: "security_rule list \<Rightarrow> security_context \<Rightarrow> string \<Rightarrow> web_response option" where
  "check_rules [] ctx path = None"
| "check_rules (r # rs) ctx path =
     (if \<not> path_matches path (sr_patterns r) then check_rules rs ctx path else check_rule (sr_rule r) ctx path)"

definition current_context :: "'w web_state \<Rightarrow> security_context" where
  "current_context s = (case ws_context s of None \<Rightarrow> anonymous | Some ctx \<Rightarrow> ctx)"

definition http_security_filter :: "security_rule list \<Rightarrow> 'w web_filter" where
  "http_security_filter rules =
     \<lparr>wf_order = HIGHEST_PRECEDENCE + 350, wf_url_patterns = [], wf_exclude_patterns = [],
      wf_do = (\<lambda>next_call req s.
        case check_rules rules (current_context s) (rq_path req) of
          None \<Rightarrow> next_call req s
        | Some resp \<Rightarrow> (Inr resp, s))\<rparr>"

definition build_http_security :: "http_security \<Rightarrow> 'w web_filter" where
  "build_http_security b = http_security_filter (hs_rules b)"

section \<open>CSRF\<close>

definition SAFE_METHODS :: "string list" where "SAFE_METHODS = [''GET'', ''HEAD'', ''OPTIONS'', ''TRACE'']"

text \<open>\<^verbatim>\<open>secrets.compare_digest\<close> takes ASCII strings only.\<close>

definition is_ascii :: "string \<Rightarrow> bool" where "is_ascii s = list_all (\<lambda>c. (of_char c :: nat) < 128) s"

definition validate_csrf_token :: "string \<Rightarrow> string \<Rightarrow> exn + bool" where
  "validate_csrf_token cookie_token header_token =
     (if is_ascii cookie_token \<and> is_ascii header_token then Inr (cookie_token = header_token)
      else Inl (Exn TypeErrorC ''comparing strings with non-ASCII characters is not supported'' []))"

definition csrf_cookie :: "string \<Rightarrow> cookie" where
  "csrf_cookie t = \<lparr>ck_key = ''XSRF-TOKEN'', ck_value = t, ck_httponly = False, ck_secure = True, ck_max_age = None\<rparr>"

text \<open>The answer of the next filter, with a new token when it is a response.\<close>

definition with_csrf_cookie :: "(nat \<Rightarrow> string) \<Rightarrow> 'w outcome \<Rightarrow> 'w outcome" where
  "with_csrf_cookie fresh out =
     (case out of
        (Inl e, s) \<Rightarrow> (Inl e, s)
      | (Inr resp, s) \<Rightarrow> (case draw fresh s of (t, s') \<Rightarrow> (Inr (set_cookie (csrf_cookie t) resp), s')))"

definition csrf_error :: "string \<Rightarrow> web_response" where
  "csrf_error msg = plain_response 403 (ErrorBody msg [])"

definition csrf_filter :: "(nat \<Rightarrow> string) \<Rightarrow> 'w web_filter" where
  "csrf_filter fresh =
     \<lparr>wf_order = - 50, wf_url_patterns = [], wf_exclude_patterns = [''/actuator/*'', ''/health'', ''/ready''],
      wf_do = (\<lambda>next_call req s.
        if rq_method req \<in> set SAFE_METHODS then with_csrf_cookie fresh (next_call req s)
        else if starts_with ''Bearer '' (dget_default (rq_headers req) ''authorization'' []) then next_call req s
        else
          (let cookie_token = dget_default (rq_cookies req) ''XSRF-TOKEN'' [];
               header_token = dget_default (rq_headers req) ''x-xsrf-token'' []
           in if cookie_token = [] \<or> header_token = [] then (Inr (csrf_error ''CSRF token missing''), s)
              else (case validate_csrf_token cookie_token header_token of
                      Inl e \<Rightarrow> (Inl e, s)
                    | Inr ok \<Rightarrow>
                        if \<not> ok then (Inr (csrf_error ''CSRF token invalid''), s)
                        else with_csrf_cookie fresh (next_call req s))))\<rparr>"

section \<open>Errors\<close>

definition status_map :: "(exc_class \<times> int) list" where
  "status_map =
     [(ValidationException, 422), (ResourceNotFoundException, 404), (ConflictException, 409),
      (PreconditionFailedException, 412), (GoneException, 410), (InvalidRequestException, 400),
      (LockedResourceException, 423), (MethodNotAllowedException, 405), (UnsupportedMediaTypeException, 415),
      (PayloadTooLargeException, 413), (UnauthorizedException, 401), (ForbiddenException, 403),
      (SecurityException, 403), (QuotaExceededException, 429), (RateLimitException, 429),
      (CircuitBreakerException, 503), (BulkheadException, 503), (ServiceUnavailableException, 503),
      (DegradedServiceException, 503), (OperationTimeoutException, 504), (NotImplementedException, 501),
      (BadGatewayException, 502), (GatewayTimeoutException, 504), (BusinessException, 400), (InfrastructureException, 502)]"

definition get_status_code :: "exn \<Rightarrow> int" where
  "get_status_code e = (case find (\<lambda>(c, st). isinstance_exc e c) status_map of None \<Rightarrow> 500 | Some (c, st) \<Rightarrow> st)"

text \<open>The handler for every exception that leaves the chain; the report has the exception, the transaction id and the path.\<close>

definition global_exception_handler :: "(nat \<Rightarrow> string) \<Rightarrow> web_request \<Rightarrow> exn \<Rightarrow> 'w web_state \<Rightarrow> web_response \<times> 'w web_state" where
  "global_exception_handler fresh req e s =
     (case draw fresh s of
        (drawn, s') \<Rightarrow>
          (let tx = (case ws_transaction_id s of None \<Rightarrow> drawn | Some t \<Rightarrow> t)
           in if isinstance_exc e PyFlyException
              then (plain_response (get_status_code e) (Report e tx (rq_path req)), s')
              else (plain_response 500 (Report (Exn ExceptionC ''Internal server error'' [VStr ''INTERNAL_ERROR'']) tx (rq_path req)), s')))"

text \<open>The application: the sorted chain inside, the exception handler outside of it.\<close>

definition begin_request :: "'w web_state \<Rightarrow> 'w web_state" where
  "begin_request s = s\<lparr>ws_context := None, ws_session := None, ws_transaction_id := None, ws_request := None\<rparr>"

definition serve_request :: "(nat \<Rightarrow> string) \<Rightarrow> 'w web_filter list \<Rightarrow> 'w handler \<Rightarrow> web_request \<Rightarrow> 'w web_state \<Rightarrow> web_response \<times> 'w web_state" where
  "serve_request fresh fs app req s =
     (case filter_chain (sort_filters fs) app req (begin_request s) of
        (Inr resp, s') \<Rightarrow> (resp, s')
      | (Inl e, s') \<Rightarrow> global_exception_handler fresh req e s')"
section \<open>What a pattern matches\<close>

text \<open>The strings of a pattern, as a language: the reference for \<open>glob_match\<close>.\<close>

fun glob_item :: "glob \<Rightarrow> string set" where
  "glob_item Star = UNIV"
| "glob_item AnyChar = {s. length s = 1}"
| "glob_item (Class k) = {[c] | c. in_class k c}"
| "glob_item (Plain d) = {[d]}"

fun glob_strings :: "glob list \<Rightarrow> string set" where
  "glob_strings [] = {[]}"
| "glob_strings (g # p) = {s @ t | s t. s \<in> glob_item g \<and> t \<in> glob_strings p}"

lemma star_strings: "c # s \<in> glob_strings (Star # p) \<longleftrightarrow> c # s \<in> glob_strings p \<or> s \<in> glob_strings (Star # p)"
proof
  assume "c # s \<in> glob_strings (Star # p)"
  then obtain u t where ut: "c # s = u @ t" "t \<in> glob_strings p" by auto
  then show "c # s \<in> glob_strings p \<or> s \<in> glob_strings (Star # p)" by (cases u) auto
next
  assume "c # s \<in> glob_strings p \<or> s \<in> glob_strings (Star # p)"
  then show "c # s \<in> glob_strings (Star # p)"
  proof
    assume "c # s \<in> glob_strings p"
    then have "c # s = [] @ (c # s) \<and> [] \<in> glob_item Star \<and> c # s \<in> glob_strings p" by simp
    then show ?thesis unfolding glob_strings.simps by blast
  next
    assume "s \<in> glob_strings (Star # p)"
    then obtain u t where "s = u @ t" "t \<in> glob_strings p" by auto
    then have "c # s = (c # u) @ t \<and> c # u \<in> glob_item Star \<and> t \<in> glob_strings p" by simp
    then show ?thesis unfolding glob_strings.simps by blast
  qed
qed

lemma one_char_strings:
  assumes "\<And>u. u \<in> glob_item g \<longleftrightarrow> (\<exists>c. u = [c] \<and> P c)"
  shows "s \<in> glob_strings (g # p) \<longleftrightarrow> (\<exists>c t. s = c # t \<and> P c \<and> t \<in> glob_strings p)"
proof
  assume "\<exists>c t. s = c # t \<and> P c \<and> t \<in> glob_strings p"
  then obtain c t where "s = [c] @ t" "[c] \<in> glob_item g" "t \<in> glob_strings p" using assms by auto
  then show "s \<in> glob_strings (g # p)" unfolding glob_strings.simps by blast
qed (use assms in auto)

lemma glob_match_strings: "glob_match p s \<longleftrightarrow> s \<in> glob_strings p"
proof (induction p s rule: glob_match.induct)
  case (2 p)
  then show ?case by auto
next
  case (3 p c s)
  then show ?case unfolding glob_match.simps star_strings by simp
next
  case (4 p s)
  have "s \<in> glob_strings (AnyChar # p) \<longleftrightarrow> (\<exists>c t. s = c # t \<and> True \<and> t \<in> glob_strings p)"
    by (rule one_char_strings) (auto simp: length_Suc_conv)
  then show ?case using 4 by (cases s) auto
next
  case (5 k p s)
  have "s \<in> glob_strings (Class k # p) \<longleftrightarrow> (\<exists>c t. s = c # t \<and> in_class k c \<and> t \<in> glob_strings p)"
    by (rule one_char_strings) auto
  then show ?case using 5 by (cases s) auto
next
  case (6 d p s)
  have "s \<in> glob_strings (Plain d # p) \<longleftrightarrow> (\<exists>c t. s = c # t \<and> c = d \<and> t \<in> glob_strings p)"
    by (rule one_char_strings) auto
  then show ?case using 6 by (cases s) auto
qed simp

section \<open>Order of registration\<close>

text \<open>Filters with different orders run in the same chain, in whatever order they were registered.\<close>

lemma sort_filters_unique:
  assumes "mset fs = mset gs" "inj_on wf_order (set gs)"
  shows "sort_filters fs = sort_filters gs"
  unfolding sort_filters_def
  using assms by (intro sort_key_eq_sort_key) (auto dest: mset_eq_setD)

lemma sort_filters_sorted: "sorted (map wf_order fs) \<Longrightarrow> sort_filters fs = fs"
  unfolding sort_filters_def by (rule sort_key_id_if_sorted)

lemma filter_chain_simps [simp]:
  "filter_chain [] app = app"
  "filter_chain (f # fs) app = wrap_filter f (filter_chain fs app)"
  by (simp_all add: filter_chain_def)

lemma filter_chain_append: "filter_chain (fs @ gs) app = filter_chain fs (filter_chain gs app)"
  by (simp add: filter_chain_def)

section \<open>What the chain lets through\<close>

text \<open>Two outcomes give the same answer when they differ in headers, cookies and the bookkeeping of the filters only.\<close>

definition same_answer :: "'w outcome \<Rightarrow> 'w outcome \<Rightarrow> bool" where
  "same_answer a b \<longleftrightarrow> ws_world (snd a) = ws_world (snd b) \<and>
     (case fst a of
        Inl e \<Rightarrow> fst b = Inl e
      | Inr r \<Rightarrow> (\<exists>r'. fst b = Inr r' \<and> rs_status r = rs_status r' \<and> rs_body r = rs_body r'))"

lemma same_answer_refl [simp]: "same_answer a a"
  by (simp add: same_answer_def split: sum.splits)

lemma same_answer_trans: "same_answer a b \<Longrightarrow> same_answer b c \<Longrightarrow> same_answer a c"
  by (cases "fst a"; cases "fst b") (auto simp: same_answer_def)

lemma same_answer_state: "ws_world s = ws_world t \<Longrightarrow> same_answer (r, s) (r, t)"
  by (simp add: same_answer_def split: sum.splits)

lemma same_answer_on_response:
  "(\<And>resp. rs_status (f resp) = rs_status resp \<and> rs_body (f resp) = rs_body resp) \<Longrightarrow> same_answer (on_response f out) out"
  by (cases "fst out") (auto simp: same_answer_def on_response_def)

lemma draw_simps [simp]: "snd (draw fresh s) = s\<lparr>ws_drawn := ws_drawn s + 1\<rparr>" "fst (draw fresh s) = fresh (ws_drawn s)"
  by (simp_all add: draw_def)

lemma set_header_fields [simp]: "rs_status (set_header n v r) = rs_status r" "rs_body (set_header n v r) = rs_body r"
  by (simp_all add: set_header_def)

lemma set_cookie_fields [simp]: "rs_status (set_cookie c r) = rs_status r" "rs_body (set_cookie c r) = rs_body r"
  by (simp_all add: set_cookie_def)

lemma optional_header_fields [simp]:
  "rs_status (optional_header n v r) = rs_status r" "rs_body (optional_header n v r) = rs_body r"
  by (simp_all add: optional_header_def split: option.splits)

lemma security_headers_fields [simp]:
  "rs_status (add_security_headers cfg r) = rs_status r" "rs_body (add_security_headers cfg r) = rs_body r"
  by (simp_all add: add_security_headers_def)

lemma session_cookies_fields [simp]:
  "rs_status (session_cookies n ttl h r) = rs_status r" "rs_body (session_cookies n ttl h r) = rs_body r"
  by (simp_all add: session_cookies_def)

lemma persist_session_world [simp]: "ws_world (persist_session ttl req s) = ws_world s"
  by (simp add: persist_session_def store_delete_def store_save_def split: option.splits)

text \<open>Each filter that only prepares and decorates hands a prepared state to the next one.\<close>

definition context_prepared :: "(nat \<Rightarrow> string) \<Rightarrow> web_request \<Rightarrow> 'w web_state \<Rightarrow> 'w web_state" where
  "context_prepared fresh req s =
     (case given_or_drawn fresh (dget (rq_headers req) ''x-request-id'') s of (rid, s1) \<Rightarrow> init_request_context rid s1)"

definition transaction_prepared :: "(nat \<Rightarrow> string) \<Rightarrow> web_request \<Rightarrow> 'w web_state \<Rightarrow> 'w web_state" where
  "transaction_prepared fresh req s =
     (case given_or_drawn fresh (dget (rq_headers req) ''x-transaction-id'') s of (tx, s1) \<Rightarrow> s1\<lparr>ws_transaction_id := Some tx\<rparr>)"

lemma given_or_drawn_cases:
  obtains v where "given_or_drawn fresh x s = (v, s)" | v where "given_or_drawn fresh x s = (v, s\<lparr>ws_drawn := ws_drawn s + 1\<rparr>)"
proof (cases "\<exists>v. x = Some v \<and> v \<noteq> []")
  case True
  then show ?thesis using that(1) by (auto simp: given_or_drawn_def)
next
  case False
  then have "given_or_drawn fresh x s = (fresh (ws_drawn s), s\<lparr>ws_drawn := ws_drawn s + 1\<rparr>)"
    by (cases x) (auto simp: given_or_drawn_def draw_def)
  then show ?thesis by (rule that(2))
qed

lemma request_context_answer:
  "same_answer (wrap_filter (request_context_filter fresh) next_call req s) (next_call req (context_prepared fresh req s))"
proof -
  have clear: "same_answer (apsnd clear_request_context out) out" for out :: "'a outcome"
    by (cases out) (auto intro: same_answer_state simp: clear_request_context_def)
  then show ?thesis
    by (simp add: wrap_filter_def should_not_filter_def request_context_filter_def context_prepared_def split: prod.splits)
qed

lemma transaction_id_answer:
  "same_answer (wrap_filter (transaction_id_filter fresh) next_call req s) (next_call req (transaction_prepared fresh req s))"
  by (auto intro!: same_answer_on_response simp: wrap_filter_def should_not_filter_def transaction_id_filter_def transaction_prepared_def
      split: prod.splits)

lemma security_headers_answer:
  "same_answer (wrap_filter (security_headers_filter cfg) next_call req s) (next_call req s)"
  by (auto intro!: same_answer_on_response simp: wrap_filter_def should_not_filter_def security_headers_filter_def)

lemma session_answer:
  "same_answer (wrap_filter (session_filter fresh name ttl) next_call req s) (next_call req (load_or_create_session fresh name req s))"
proof -
  obtain r s1 where n: "next_call req (load_or_create_session fresh name req s) = (r, s1)"
    by (cases "next_call req (load_or_create_session fresh name req s)")
  have "same_answer (r, persist_session ttl req s1) (r, s1)" by (rule same_answer_state) simp
  moreover have "same_answer (on_response (session_cookies name ttl h) (r, persist_session ttl req s1)) (r, persist_session ttl req s1)" for h
    by (rule same_answer_on_response) simp
  ultimately show ?thesis
    by (auto simp: wrap_filter_def should_not_filter_def session_filter_def n Let_def intro: same_answer_trans split: option.splits)
qed

lemma request_logging_answer: "wrap_filter request_logging_filter next_call = next_call"
  by (rule ext)+ (simp add: wrap_filter_def should_not_filter_def request_logging_filter_def split: prod.splits sum.splits)

lemma oauth2_session_answer:
  "wrap_filter oauth2_session_security_filter next_call req s = next_call req (restore_context s)"
  by (simp add: wrap_filter_def should_not_filter_def oauth2_session_security_filter_def)

text \<open>The context a token filter establishes, if it is configured and not excluded for the path.\<close>

definition token_context :: "((string \<Rightarrow> rat \<Rightarrow> exn + security_context) \<times> string list) option \<Rightarrow> web_request \<Rightarrow> (exn + security_context) option" where
  "token_context cfg req =
     (case cfg of None \<Rightarrow> None
      | Some (to_context, excluded) \<Rightarrow>
          if list_ex (fnmatch (rq_path req)) excluded then None
          else Some (bearer_context (\<lambda>t. to_context t (rq_time req)) req))"

lemma token_answer:
  "wrap_filter (token_filter ord excluded f) next_call req s =
     (case token_context (Some (f, excluded)) req of
        None \<Rightarrow> next_call req s
      | Some (Inl e) \<Rightarrow> (Inl e, s)
      | Some (Inr ctx) \<Rightarrow> next_call req (set_security_context ctx s))"
  by (cases "excluded = []") (auto simp: wrap_filter_def should_not_filter_def token_filter_def token_context_def split: sum.splits)

lemma http_security_answer:
  "wrap_filter (http_security_filter rules) next_call req s =
     (case check_rules rules (current_context s) (rq_path req) of None \<Rightarrow> next_call req s | Some resp \<Rightarrow> (Inr resp, s))"
  by (simp add: wrap_filter_def should_not_filter_def http_security_filter_def)

text \<open>What the CSRF filter answers itself, as a condition on the request.\<close>

definition csrf_refusal :: "web_request \<Rightarrow> (exn + web_response) option" where
  "csrf_refusal req =
     (let c = dget_default (rq_cookies req) ''XSRF-TOKEN'' []; h = dget_default (rq_headers req) ''x-xsrf-token'' []
      in if rq_method req \<in> {''GET'', ''HEAD'', ''OPTIONS'', ''TRACE''}
            \<or> starts_with ''Bearer '' (dget_default (rq_headers req) ''authorization'' [])
            \<or> list_ex (fnmatch (rq_path req)) [''/actuator/*'', ''/health'', ''/ready''] then None
         else if c = [] \<or> h = [] then Some (Inr (csrf_error ''CSRF token missing''))
         else if \<not> (is_ascii c \<and> is_ascii h)
         then Some (Inl (Exn TypeErrorC ''comparing strings with non-ASCII characters is not supported'' []))
         else if c \<noteq> h then Some (Inr (csrf_error ''CSRF token invalid''))
         else None)"

lemma with_csrf_cookie_answer: "same_answer (with_csrf_cookie fresh out) out"
  by (cases out; cases "fst out") (auto simp: with_csrf_cookie_def same_answer_def draw_def)

lemma csrf_answer:
  "same_answer (wrap_filter (csrf_filter fresh) next_call req s)
     (case csrf_refusal req of None \<Rightarrow> next_call req s | Some ans \<Rightarrow> (ans, s))" for s :: "'w web_state"
proof (cases "should_not_filter (csrf_filter fresh :: 'w web_filter) req")
  case True
  then have "csrf_refusal req = None"
    by (auto simp: should_not_filter_def csrf_filter_def csrf_refusal_def Let_def split: if_splits)
  with True show ?thesis by (simp add: wrap_filter_def)
next
  case False
  then have x: "\<not> list_ex (fnmatch (rq_path req)) [''/actuator/*'', ''/health'', ''/ready'']"
    by (simp add: should_not_filter_def csrf_filter_def)
  from False show ?thesis
    using with_csrf_cookie_answer [of fresh "next_call req s"] x
    by (simp add: wrap_filter_def) (auto simp: csrf_filter_def csrf_refusal_def validate_csrf_token_def SAFE_METHODS_def Let_def)
qed

section \<open>The security of an application\<close>

text \<open>
  What an application configures: the cookie and lifetime of its sessions, the token filters (with the paths they skip),
  whether logins are restored from sessions, the response headers, the rules and CSRF protection.
\<close>

record web_security =
  wx_cookie :: string
  wx_ttl :: int
  wx_jwt :: "((string \<Rightarrow> rat \<Rightarrow> exn + security_context) \<times> string list) option"
  wx_login :: bool
  wx_resource :: "((string \<Rightarrow> rat \<Rightarrow> exn + security_context) \<times> string list) option"
  wx_headers :: "security_headers_config option"
  wx_rules :: "security_rule list"
  wx_csrf :: bool

definition jwt_part :: "jwt_library \<Rightarrow> string \<Rightarrow> string list \<Rightarrow> ((string \<Rightarrow> rat \<Rightarrow> exn + security_context) \<times> string list) option" where
  "jwt_part jwt key excluded = Some (\<lambda>t now. jwt_security_context jwt key t \<lfloor>now\<rfloor>, excluded)"

definition resource_part :: "(string \<Rightarrow> rat \<Rightarrow> exn + claims) \<Rightarrow> string list \<Rightarrow> ((string \<Rightarrow> rat \<Rightarrow> exn + security_context) \<times> string list) option" where
  "resource_part validate excluded = Some (\<lambda>t now. resource_security_context (\<lambda>t. validate t now) t, excluded)"

definition optional_filter :: "('a \<Rightarrow> 'w web_filter) \<Rightarrow> 'a option \<Rightarrow> 'w web_filter list" where
  "optional_filter f x = (case x of None \<Rightarrow> [] | Some v \<Rightarrow> [f v])"

definition security_filters :: "(nat \<Rightarrow> string) \<Rightarrow> web_security \<Rightarrow> 'w web_filter list" where
  "security_filters fresh cfg =
     [request_context_filter fresh, transaction_id_filter fresh, session_filter fresh (wx_cookie cfg) (wx_ttl cfg),
      request_logging_filter] @
     optional_filter (\<lambda>(f, ex). token_filter (HIGHEST_PRECEDENCE + 220) ex f) (wx_jwt cfg) @
     (if wx_login cfg then [oauth2_session_security_filter] else []) @
     optional_filter (\<lambda>(f, ex). token_filter (HIGHEST_PRECEDENCE + 250) ex f) (wx_resource cfg) @
     [security_headers_filter (wx_headers cfg), http_security_filter (wx_rules cfg)] @
     (if wx_csrf cfg then [csrf_filter fresh] else [])"

lemma security_filters_jwt: "security_filter jwt key ex = (case the (jwt_part jwt key ex) of (f, ex') \<Rightarrow> token_filter (HIGHEST_PRECEDENCE + 220) ex' f)"
  by (simp add: security_filter_def jwt_part_def)

lemma security_filters_resource:
  "oauth2_resource_server_filter validate ex = (case the (resource_part validate ex) of (f, ex') \<Rightarrow> token_filter (HIGHEST_PRECEDENCE + 250) ex' f)"
  by (simp add: oauth2_resource_server_filter_def resource_part_def)

lemmas filter_orders =
  request_context_filter_def transaction_id_filter_def session_filter_def request_logging_filter_def token_filter_def oauth2_session_security_filter_def
  security_headers_filter_def http_security_filter_def csrf_filter_def HIGHEST_PRECEDENCE_def

lemma security_filters_sorted: "sorted_wrt (<) (map wf_order (security_filters fresh cfg))"
  by (simp add: security_filters_def filter_orders optional_filter_def split: option.splits)

lemma security_filters_chain:
  assumes "mset fs = mset (security_filters fresh cfg)"
  shows "sort_filters fs = security_filters fresh cfg"
proof -
  have s: "sorted (map wf_order (security_filters fresh cfg))" and d: "distinct (map wf_order (security_filters fresh cfg))"
    using security_filters_sorted [of fresh cfg] by (auto simp: strict_sorted_iff)
  then show ?thesis using sort_filters_unique [OF assms] sort_filters_sorted by (metis distinct_map)
qed

text \<open>The context of a login that the request's session holds.\<close>

definition login_context :: "web_security \<Rightarrow> web_request \<Rightarrow> 'w web_state \<Rightarrow> security_context option" where
  "login_context cfg req s =
     (case dget (rq_cookies req) (wx_cookie cfg) of
        None \<Rightarrow> None
      | Some sid \<Rightarrow>
          (case dget (ws_store s) sid of
             None \<Rightarrow> None
           | Some (ref, expires_at) \<Rightarrow>
               if sid = [] \<or> rq_loaded req > expires_at then None
               else (case dget (ws_heap s ! ref) SECURITY_CONTEXT_KEY of
                       Some (AContext ctx) \<Rightarrow> if is_authenticated ctx then Some ctx else None
                     | _ \<Rightarrow> None)))"

lemma session_times_other: "k \<noteq> ''_created_at'' \<Longrightarrow> k \<noteq> ''_last_accessed'' \<Longrightarrow> dget (session_times now d) k = dget d k"
  by (simp add: session_times_def)

lemma session_times_key [simp]: "dget (session_times now d) SECURITY_CONTEXT_KEY = dget d SECURITY_CONTEXT_KEY"
  by (rule session_times_other) (simp_all add: SECURITY_CONTEXT_KEY_def)

lemma heap_update_get:
  "dget (h[ref := session_times now (h ! ref)] ! ref) SECURITY_CONTEXT_KEY = dget (h ! ref) SECURITY_CONTEXT_KEY"
  by (cases "ref < length h") (simp_all add: list_update_beyond)

lemma stored_new_session [simp]: "stored_context (new_session sid now s) = None"
  by (simp add: stored_context_def get_attribute_def session_dict_def new_session_def)

lemma stored_open_session [simp]:
  "stored_context (open_session sid ref now s) =
     (case dget (ws_heap s ! ref) SECURITY_CONTEXT_KEY of Some (AContext ctx) \<Rightarrow> if is_authenticated ctx then Some ctx else None | _ \<Rightarrow> None)"
  by (simp add: stored_context_def get_attribute_def session_dict_def open_session_def heap_update_get)

lemma stored_login_context: "stored_context (load_or_create_session fresh (wx_cookie cfg) req s) = login_context cfg req s"
  by (auto simp: load_or_create_session_def login_context_def store_get_def draw_def Let_def split: option.splits prod.splits)

lemma load_session_fields [simp]:
  "ws_world (load_or_create_session fresh name req s) = ws_world s"
  "ws_context (load_or_create_session fresh name req s) = ws_context s"
  "ws_request (load_or_create_session fresh name req s) = ws_request s"
  by (auto simp: load_or_create_session_def store_get_def draw_def Let_def open_session_def new_session_def split: option.splits prod.splits)

lemma login_context_fields:
  assumes "ws_store s = ws_store t" "ws_heap s = ws_heap t"
  shows "login_context cfg req s = login_context cfg req t"
  unfolding login_context_def assms by (rule refl)

text \<open>
  The state in which the rules are checked, by the filters before them. A token filter that meets an exception other than
  \<^verbatim>\<open>SecurityException\<close> ends the request.
\<close>

definition request_prepared :: "(nat \<Rightarrow> string) \<Rightarrow> web_security \<Rightarrow> web_request \<Rightarrow> 'w web_state \<Rightarrow> 'w web_state" where
  "request_prepared fresh cfg req s =
     load_or_create_session fresh (wx_cookie cfg) req (transaction_prepared fresh req (context_prepared fresh req s))"

lemma request_prepared_fields:
  "ws_world (request_prepared fresh cfg req s) = ws_world s"
  "ws_context (request_prepared fresh cfg req s) = ws_context s"
  "map_option rc_security_context (ws_request (request_prepared fresh cfg req s)) = Some None"
  "stored_context (request_prepared fresh cfg req s) = login_context cfg req s"
proof -
  let ?t = "transaction_prepared fresh req (context_prepared fresh req s)"
  have t: "ws_world ?t = ws_world s" "ws_context ?t = ws_context s" "ws_store ?t = ws_store s" "ws_heap ?t = ws_heap s"
    "map_option rc_security_context (ws_request ?t) = Some None"
    by (auto simp: transaction_prepared_def context_prepared_def init_request_context_def given_or_drawn_def draw_def split: option.splits)
  then show "ws_world (request_prepared fresh cfg req s) = ws_world s"
    "ws_context (request_prepared fresh cfg req s) = ws_context s"
    "map_option rc_security_context (ws_request (request_prepared fresh cfg req s)) = Some None"
    by (simp_all add: request_prepared_def)
  show "stored_context (request_prepared fresh cfg req s) = login_context cfg req s"
    unfolding request_prepared_def stored_login_context using t by (intro login_context_fields)
qed

text \<open>The contexts that rules and handlers see, and the one that method security sees.\<close>

definition chain_context :: "web_security \<Rightarrow> web_request \<Rightarrow> 'w web_state \<Rightarrow> security_context" where
  "chain_context cfg req s =
     (case token_context (wx_resource cfg) req of
        Some (Inr c) \<Rightarrow> c
      | _ \<Rightarrow> (case (if wx_login cfg then login_context cfg req s else None) of
                Some c \<Rightarrow> c
              | None \<Rightarrow> (case token_context (wx_jwt cfg) req of Some (Inr c) \<Rightarrow> c | _ \<Rightarrow> anonymous)))"

definition method_context :: "web_security \<Rightarrow> web_request \<Rightarrow> security_context option" where
  "method_context cfg req =
     (case token_context (wx_resource cfg) req of
        Some (Inr c) \<Rightarrow> Some c
      | _ \<Rightarrow> (case token_context (wx_jwt cfg) req of Some (Inr c) \<Rightarrow> Some c | _ \<Rightarrow> None))"

text \<open>No token check fails with anything but a \<^verbatim>\<open>SecurityException\<close>.\<close>

definition tokens_quiet :: "web_security \<Rightarrow> web_request \<Rightarrow> bool" where
  "tokens_quiet cfg req \<longleftrightarrow> (\<forall>e. token_context (wx_jwt cfg) req \<noteq> Some (Inl e) \<and> token_context (wx_resource cfg) req \<noteq> Some (Inl e))"

definition after_jwt :: "web_security \<Rightarrow> web_request \<Rightarrow> 'w web_state \<Rightarrow> 'w web_state" where
  "after_jwt cfg req s = (case token_context (wx_jwt cfg) req of Some (Inr c) \<Rightarrow> set_security_context c s | _ \<Rightarrow> s)"

definition after_login :: "web_security \<Rightarrow> 'w web_state \<Rightarrow> 'w web_state" where
  "after_login cfg s = (if wx_login cfg then restore_context s else s)"

definition after_resource :: "web_security \<Rightarrow> web_request \<Rightarrow> 'w web_state \<Rightarrow> 'w web_state" where
  "after_resource cfg req s = (case token_context (wx_resource cfg) req of Some (Inr c) \<Rightarrow> set_security_context c s | _ \<Rightarrow> s)"

definition checked_state :: "(nat \<Rightarrow> string) \<Rightarrow> web_security \<Rightarrow> web_request \<Rightarrow> 'w web_state \<Rightarrow> 'w web_state" where
  "checked_state fresh cfg req s = after_resource cfg req (after_login cfg (after_jwt cfg req (request_prepared fresh cfg req s)))"

lemma set_security_context_fields [simp]:
  "ws_world (set_security_context c s) = ws_world s"
  "ws_context (set_security_context c s) = Some c"
  "stored_context (set_security_context c s) = stored_context s"
  "map_option rc_security_context (ws_request (set_security_context c s)) = map_option (\<lambda>_. Some c) (ws_request s)"
proof -
  have "session_dict (set_security_context c s) = session_dict s"
    by (cases "ws_session s") (simp_all add: set_security_context_def session_dict_def)
  then show "stored_context (set_security_context c s) = stored_context s"
    by (simp add: stored_context_def get_attribute_def)
qed (simp_all add: set_security_context_def option.map_comp comp_def)

lemma restore_context_fields [simp]:
  "ws_world (restore_context s) = ws_world s"
  "ws_request (restore_context s) = ws_request s"
  "current_context (restore_context s) = (case stored_context s of Some c \<Rightarrow> c | None \<Rightarrow> current_context s)"
  by (auto simp: restore_context_def current_context_def split: option.splits)

lemma current_set [simp]: "current_context (set_security_context c s) = c"
  by (simp add: current_context_def)

lemma checked_state_fields:
  assumes "ws_context s = None"
  shows "ws_world (checked_state fresh cfg req s) = ws_world s"
    and "current_context (checked_state fresh cfg req s) = chain_context cfg req s"
    and "map_option rc_security_context (ws_request (checked_state fresh cfg req s)) = Some (method_context cfg req)"
proof -
  let ?s0 = "request_prepared fresh cfg req s"
  note f = request_prepared_fields [of fresh cfg req s]
  obtain rc where rc: "ws_request ?s0 = Some rc" "rc_security_context rc = None" using f(3) by auto
  have c0: "current_context ?s0 = anonymous" by (simp add: current_context_def f(2) assms)
  show "ws_world (checked_state fresh cfg req s) = ws_world s"
    by (simp add: checked_state_def after_jwt_def after_login_def after_resource_def f(1) split: option.splits sum.splits)
  show "current_context (checked_state fresh cfg req s) = chain_context cfg req s"
    by (auto simp: checked_state_def after_jwt_def after_login_def after_resource_def chain_context_def f(4) c0 split: option.splits sum.splits)
  show "map_option rc_security_context (ws_request (checked_state fresh cfg req s)) = Some (method_context cfg req)"
    by (auto simp: checked_state_def after_jwt_def after_login_def after_resource_def method_context_def rc set_security_context_def
        split: option.splits sum.splits)
qed

lemma optional_token_chain:
  assumes "\<And>e. token_context x req \<noteq> Some (Inl e)"
  shows "filter_chain (optional_filter (\<lambda>(f, ex). token_filter ord ex f) x @ fs) app req s =
    filter_chain fs app req (case token_context x req of Some (Inr c) \<Rightarrow> set_security_context c s | _ \<Rightarrow> s)"
proof (cases x)
  case None
  then show ?thesis by (simp add: optional_filter_def token_context_def)
next
  case (Some v)
  obtain f ex where v: "v = (f, ex)" by (cases v)
  have "\<And>e. token_context (Some (f, ex)) req \<noteq> Some (Inl e)" using assms Some v by simp
  then show ?thesis
    by (cases "token_context (Some (f, ex)) req" rule: option.exhaust; simp add: Some v optional_filter_def token_answer)
      (auto simp: Some v split: sum.splits)
qed

definition last_filters :: "(nat \<Rightarrow> string) \<Rightarrow> web_security \<Rightarrow> 'w web_filter list" where
  "last_filters fresh cfg =
     [security_headers_filter (wx_headers cfg), http_security_filter (wx_rules cfg)] @ (if wx_csrf cfg then [csrf_filter fresh] else [])"

definition checked_answer :: "web_security \<Rightarrow> 'w handler \<Rightarrow> web_request \<Rightarrow> 'w web_state \<Rightarrow> 'w outcome" where
  "checked_answer cfg app req s =
     (case check_rules (wx_rules cfg) (current_context s) (rq_path req) of
        Some resp \<Rightarrow> (Inr resp, s)
      | None \<Rightarrow> (case (if wx_csrf cfg then csrf_refusal req else None) of Some ans \<Rightarrow> (ans, s) | None \<Rightarrow> app req s))"

lemma last_filters_answer: "same_answer (filter_chain (last_filters fresh cfg) app req s) (checked_answer cfg app req s)"
proof -
  let ?csrf = "filter_chain (if wx_csrf cfg then [csrf_filter fresh] else []) app"
  have 1: "same_answer (filter_chain (last_filters fresh cfg) app req s)
      (wrap_filter (http_security_filter (wx_rules cfg)) ?csrf req s)"
    by (simp add: last_filters_def security_headers_answer)
  have "same_answer (?csrf req s) (case (if wx_csrf cfg then csrf_refusal req else None) of Some ans \<Rightarrow> (ans, s) | None \<Rightarrow> app req s)"
    using csrf_answer [of fresh app req s] by (auto split: option.splits)
  then have "same_answer (wrap_filter (http_security_filter (wx_rules cfg)) ?csrf req s) (checked_answer cfg app req s)"
    unfolding http_security_answer checked_answer_def
    by (cases "check_rules (wx_rules cfg) (current_context s) (rq_path req)") (simp_all only: option.case same_answer_refl)
  with 1 show ?thesis by (rule same_answer_trans)
qed

definition middle_filters :: "(nat \<Rightarrow> string) \<Rightarrow> web_security \<Rightarrow> 'w web_filter list" where
  "middle_filters fresh cfg =
     optional_filter (\<lambda>(f, ex). token_filter (HIGHEST_PRECEDENCE + 220) ex f) (wx_jwt cfg) @
     (if wx_login cfg then [oauth2_session_security_filter] else []) @
     optional_filter (\<lambda>(f, ex). token_filter (HIGHEST_PRECEDENCE + 250) ex f) (wx_resource cfg) @ last_filters fresh cfg"

lemma security_filters_split:
  "security_filters fresh cfg =
     request_context_filter fresh # transaction_id_filter fresh # session_filter fresh (wx_cookie cfg) (wx_ttl cfg) #
       request_logging_filter # middle_filters fresh cfg"
  by (simp add: security_filters_def middle_filters_def last_filters_def)

lemma middle_filters_chain:
  assumes "tokens_quiet cfg req"
  shows "filter_chain (middle_filters fresh cfg) app req s =
    filter_chain (last_filters fresh cfg) app req (after_resource cfg req (after_login cfg (after_jwt cfg req s)))"
proof -
  have q: "\<And>e. token_context (wx_jwt cfg) req \<noteq> Some (Inl e)" "\<And>e. token_context (wx_resource cfg) req \<noteq> Some (Inl e)"
    using assms by (auto simp: tokens_quiet_def)
  show ?thesis
    unfolding middle_filters_def optional_token_chain [OF q(1)] after_jwt_def after_resource_def after_login_def
    by (simp add: oauth2_session_answer optional_token_chain [OF q(2)])
qed

lemma security_chain_answer:
  assumes "mset fs = mset (security_filters fresh cfg)" "tokens_quiet cfg req"
  shows "same_answer (filter_chain (sort_filters fs) app req s) (checked_answer cfg app req (checked_state fresh cfg req s))"
proof -
  have "same_answer (filter_chain (sort_filters fs) app req s) (filter_chain (middle_filters fresh cfg) app req (request_prepared fresh cfg req s))"
    unfolding security_filters_chain [OF assms(1)] security_filters_split filter_chain_simps request_prepared_def
      request_logging_answer
    by (rule same_answer_trans [OF request_context_answer same_answer_trans [OF transaction_id_answer session_answer]])
  then show ?thesis
    using last_filters_answer same_answer_trans unfolding middle_filters_chain [OF assms(2)] checked_state_def by metis
qed

text \<open>The rule that decides, and what it asks of a context.\<close>

definition deciding_rule :: "security_rule list \<Rightarrow> string \<Rightarrow> access_rule option" where
  "deciding_rule rules path =
     map_option sr_rule (find (\<lambda>r. sr_patterns r = [] \<or> (\<exists>p \<in> set (sr_patterns r). path \<in> glob_strings (read_glob p))) rules)"

fun allows :: "access_rule \<Rightarrow> security_context \<Rightarrow> bool" where
  "allows PERMIT_ALL ctx = True"
| "allows DENY_ALL ctx = False"
| "allows AUTHENTICATED ctx = (sc_user_id ctx \<noteq> None)"
| "allows (HAS_ROLE role) ctx = (sc_user_id ctx \<noteq> None \<and> role \<in> set (sc_roles ctx))"
| "allows (HAS_ANY_ROLE roles) ctx = (sc_user_id ctx \<noteq> None \<and> set roles \<inter> set (sc_roles ctx) \<noteq> {})"
| "allows (HAS_PERMISSION p) ctx = (sc_user_id ctx \<noteq> None \<and> p \<in> set (sc_permissions ctx))"

definition granted :: "security_rule list \<Rightarrow> string \<Rightarrow> security_context \<Rightarrow> bool" where
  "granted rules path ctx = (case deciding_rule rules path of None \<Rightarrow> True | Some r \<Rightarrow> allows r ctx)"

definition refusal_status :: "security_rule list \<Rightarrow> string \<Rightarrow> security_context \<Rightarrow> int" where
  "refusal_status rules path ctx =
     (if deciding_rule rules path \<noteq> Some DENY_ALL \<and> sc_user_id ctx = None then 401 else 403)"

lemma check_rule_allows:
  "(case check_rule r ctx path of
      None \<Rightarrow> allows r ctx
    | Some resp \<Rightarrow> \<not> allows r ctx \<and> rs_status resp = (if r \<noteq> DENY_ALL \<and> sc_user_id ctx = None then 401 else 403))"
  by (cases r) (auto simp: require_def unauthorized_def problem_response_def plain_response_def is_authenticated_def has_role_def
      has_any_role_def has_permission_def list_ex_iff)

lemma path_matches_strings:
  "path_matches path ps \<longleftrightarrow> ps = [] \<or> (\<exists>p \<in> set ps. path \<in> glob_strings (read_glob p))"
  by (simp add: path_matches_def list_ex_iff fnmatch_def glob_match_strings)

lemma check_rules_granted:
  "(case check_rules rules ctx path of
      None \<Rightarrow> granted rules path ctx
    | Some resp \<Rightarrow> \<not> granted rules path ctx \<and> rs_status resp = refusal_status rules path ctx)"
proof (induction rules)
  case Nil
  then show ?case by (simp add: granted_def deciding_rule_def)
next
  case (Cons r rules)
  show ?case
  proof (cases "path_matches path (sr_patterns r)")
    case True
    then have "deciding_rule (r # rules) path = Some (sr_rule r)" by (simp add: deciding_rule_def path_matches_strings)
    then show ?thesis using True check_rule_allows [of "sr_rule r" ctx path]
      by (simp add: granted_def refusal_status_def problem_response_def plain_response_def split: option.splits)
  next
    case False
    then have "deciding_rule (r # rules) path = deciding_rule rules path" by (simp add: deciding_rule_def path_matches_strings)
    then have "granted (r # rules) path ctx = granted rules path ctx" "refusal_status (r # rules) path ctx = refusal_status rules path ctx"
      by (simp_all add: granted_def refusal_status_def)
    then show ?thesis using False Cons.IH by (simp split: option.splits)
  qed
qed

lemma checked_answer_cases:
  "if \<not> granted (wx_rules cfg) (rq_path req) (current_context s)
   then \<exists>resp. checked_answer cfg app req s = (Inr resp, s) \<and>
          rs_status resp = refusal_status (wx_rules cfg) (rq_path req) (current_context s)
   else checked_answer cfg app req s =
          (case (if wx_csrf cfg then csrf_refusal req else None) of Some ans \<Rightarrow> (ans, s) | None \<Rightarrow> app req s)"
  using check_rules_granted [where rules = "wx_rules cfg" and ctx = "current_context s" and path = "rq_path req"]
  by (auto simp: checked_answer_def split: option.splits)

text \<open>
  Claim C32. Access control of the filter chain. In whatever order the filters were registered, a request reaches the
  application exactly when the first rule whose pattern contains the path allows the context, and the CSRF check passes; otherwise
  it is answered with 401 or 403 and the world is as before. The context is the one of the OAuth2 token if that filter applies, else
  the login stored in the session, else the one of the JWT; \<^verbatim>\<open>RequestContext\<close>, which method security reads, holds only the context of a token.
\<close>

theorem access_control_correct:
  assumes "mset fs = mset (security_filters fresh cfg)" "tokens_quiet cfg req"
  shows "\<exists>s1. ws_world s1 = ws_world s \<and> current_context s1 = chain_context cfg req s \<and>
     map_option rc_security_context (ws_request s1) = Some (method_context cfg req) \<and>
     (if \<not> granted (wx_rules cfg) (rq_path req) (chain_context cfg req s)
      then \<exists>resp. rs_status resp = refusal_status (wx_rules cfg) (rq_path req) (chain_context cfg req s) \<and>
             same_answer (filter_chain (sort_filters fs) app req (begin_request s)) (Inr resp, s1)
      else same_answer (filter_chain (sort_filters fs) app req (begin_request s))
             (case (if wx_csrf cfg then csrf_refusal req else None) of Some ans \<Rightarrow> (ans, s1) | None \<Rightarrow> app req s1))"
proof -
  let ?s1 = "checked_state fresh cfg req (begin_request s)"
  have login: "login_context cfg req (begin_request s) = login_context cfg req s"
    by (rule login_context_fields) (simp_all add: begin_request_def)
  have start: "ws_context (begin_request s) = None" "ws_world (begin_request s) = ws_world s"
    by (simp_all add: begin_request_def)
  have ctx: "chain_context cfg req (begin_request s) = chain_context cfg req s"
    unfolding chain_context_def login by (rule refl)
  note f = checked_state_fields [OF start(1), of fresh cfg req, unfolded start ctx]
  from security_chain_answer [OF assms, of app "begin_request s"] checked_answer_cases [of cfg req ?s1 app] f
  show ?thesis by (intro exI [of _ ?s1]) (auto split: if_splits)
qed

text \<open>
  A request with a session cookie whose session holds a login, to a path that asks for a role, with an XSRF token that does not match:
  the rules let it pass and the CSRF filter does not; with a matching token it reaches the application.
\<close>

definition example_rules :: "security_rule list" where
  "example_rules = [\<lparr>sr_patterns = [''/api/*''], sr_rule = HAS_ROLE ''ADMIN''\<rparr>, \<lparr>sr_patterns = [], sr_rule = PERMIT_ALL\<rparr>]"

definition example_security :: web_security where
  "example_security =
     \<lparr>wx_cookie = ''PYFLY_SESSION'', wx_ttl = 1800, wx_jwt = None, wx_login = True, wx_resource = None, wx_headers = None,
      wx_rules = example_rules, wx_csrf = True\<rparr>"

definition admin_context :: security_context where
  "admin_context = \<lparr>sc_user_id = Some ''ann'', sc_roles = [''ADMIN''], sc_permissions = [], sc_attributes = []\<rparr>"

definition example_request :: "string \<Rightarrow> string \<Rightarrow> web_request" where
  "example_request meth xsrf =
     \<lparr>rq_method = meth, rq_path = ''/api/users'', rq_headers = [(''x-xsrf-token'', xsrf)],
      rq_cookies = [(''PYFLY_SESSION'', ''s1''), (''XSRF-TOKEN'', ''t'')], rq_query = [], rq_path_params = [],
      rq_time = 0, rq_loaded = 0, rq_saved = 0\<rparr>"

definition example_state :: "nat web_state" where
  "example_state =
     \<lparr>ws_context = None, ws_session = None, ws_transaction_id = None, ws_request = None, ws_store = [(''s1'', (0, 10))],
      ws_heap = [[(SECURITY_CONTEXT_KEY, AContext admin_context)]], ws_drawn = 0, ws_world = 0\<rparr>"

definition counting_app :: "nat handler" where
  "counting_app req s = (Inr (plain_response 200 (Content ''ok'')), s\<lparr>ws_world := ws_world s + 1\<rparr>)"

theorem access_control_correct_witness:
  "(\<exists>s'. same_answer (filter_chain (sort_filters (rev (security_filters (\<lambda>n. replicate n CHR ''r'') example_security))) counting_app
        (example_request ''POST'' ''t'') (begin_request example_state)) (Inr (plain_response 200 (Content ''ok'')), s') \<and> ws_world s' = 1) \<and>
   (\<exists>s'. same_answer (filter_chain (sort_filters (rev (security_filters (\<lambda>n. replicate n CHR ''r'') example_security))) counting_app
        (example_request ''POST'' ''u'') (begin_request example_state)) (Inr (csrf_error ''CSRF token invalid''), s') \<and> ws_world s' = 0)"
proof
  let ?fresh = "\<lambda>n. replicate n CHR ''r''"
  have m: "mset (rev (security_filters ?fresh example_security)) = mset (security_filters ?fresh example_security :: nat web_filter list)"
    by simp
  have q: "tokens_quiet example_security (example_request ''POST'' x)" for x
    by (simp add: tokens_quiet_def token_context_def example_security_def)
  have c: "chain_context example_security (example_request ''POST'' x) example_state = admin_context" for x
    by (simp add: chain_context_def token_context_def login_context_def example_security_def example_request_def example_state_def
        is_authenticated_def admin_context_def)
  have "check_rules example_rules admin_context ''/api/users'' = None" by code_simp
  then have g: "granted (wx_rules example_security) (rq_path (example_request ''POST'' x)) admin_context" for x
    using check_rules_granted [of example_rules "''/api/users''" admin_context]
    by (simp add: example_security_def example_request_def)
  have t: "(if wx_csrf example_security then csrf_refusal (example_request ''POST'' ''t'') else None) = None"
    "(if wx_csrf example_security then csrf_refusal (example_request ''POST'' ''u'') else None) = Some (Inr (csrf_error ''CSRF token invalid''))"
    by code_simp+
  have w: "ws_world example_state = 0" by (simp add: example_state_def)
  from access_control_correct [OF m q [of "''t''"], of example_state counting_app]
  show "\<exists>s'. same_answer (filter_chain (sort_filters (rev (security_filters ?fresh example_security))) counting_app
        (example_request ''POST'' ''t'') (begin_request example_state)) (Inr (plain_response 200 (Content ''ok'')), s') \<and> ws_world s' = 1"
    unfolding c t w by (auto simp: g counting_app_def)
  from access_control_correct [OF m q [of "''u''"], of example_state counting_app]
  show "\<exists>s'. same_answer (filter_chain (sort_filters (rev (security_filters ?fresh example_security))) counting_app
        (example_request ''POST'' ''u'') (begin_request example_state)) (Inr (csrf_error ''CSRF token invalid''), s') \<and> ws_world s' = 0"
    unfolding c t w by (auto simp: g)
qed
section \<open>A login is lost behind the resource server filter\<close>

lemma bearer_anonymous:
  assumes "\<not> starts_with ''Bearer '' (dget_default (rq_headers req) ''authorization'' [])"
  shows "bearer_context f req = Inr anonymous"
  using assms by (simp add: bearer_context_def Let_def)

text \<open>
  When the OAuth2 resource server filter is configured and applies to the path, a request without a Bearer token
  is anonymous whatever login its session holds: a path that asks for an authenticated user answers 401 and the application is not reached.
\<close>

theorem session_login_lost:
  assumes "mset fs = mset (security_filters fresh cfg)" "tokens_quiet cfg req"
    and "wx_resource cfg = Some (validate, excluded)" "\<not> list_ex (fnmatch (rq_path req)) excluded"
    and "\<not> starts_with ''Bearer '' (dget_default (rq_headers req) ''authorization'' [])"
    and "deciding_rule (wx_rules cfg) (rq_path req) = Some AUTHENTICATED"
  shows "\<exists>resp s'. same_answer (filter_chain (sort_filters fs) app req (begin_request s)) (Inr resp, s') \<and>
     rs_status resp = 401 \<and> ws_world s' = ws_world s"
proof -
  let ?s1 = "checked_state fresh cfg req (begin_request s)"
  have start: "ws_context (begin_request s) = None" "ws_world (begin_request s) = ws_world s"
    by (simp_all add: begin_request_def)
  have "token_context (wx_resource cfg) req = Some (Inr anonymous)"
    using assms(4) bearer_anonymous [OF assms(5)] by (simp add: token_context_def assms(3))
  then have ctx: "current_context ?s1 = anonymous" "ws_world ?s1 = ws_world s"
    using checked_state_fields [OF start(1), of fresh cfg req] start(2) by (simp_all add: chain_context_def)
  have "\<not> granted (wx_rules cfg) (rq_path req) anonymous" "refusal_status (wx_rules cfg) (rq_path req) anonymous = 401"
    using assms(6) by (simp_all add: granted_def refusal_status_def anonymous_def)
  then obtain resp where "checked_answer cfg app req ?s1 = (Inr resp, ?s1)" "rs_status resp = 401"
    using checked_answer_cases [of cfg req ?s1 app] ctx(1) by auto
  then show ?thesis
    using security_chain_answer [OF assms(1,2), of app "begin_request s"] ctx(2) by (intro exI [of _ resp] exI [of _ ?s1]) simp
qed

definition login_and_tokens :: web_security where
  "login_and_tokens =
     example_security\<lparr>wx_resource := Some (\<lambda>t now. Inl (security_error ''Token validation failed: {}'' t), []),
       wx_rules := [\<lparr>sr_patterns = [], sr_rule = AUTHENTICATED\<rparr>]\<rparr>"

theorem session_login_lost_witness:
  "login_context login_and_tokens (example_request ''GET'' ''t'') example_state = Some admin_context \<and>
   (\<exists>resp s'. same_answer (filter_chain (sort_filters (security_filters (\<lambda>n. replicate n CHR ''r'') login_and_tokens)) counting_app
        (example_request ''GET'' ''t'') (begin_request example_state)) (Inr resp, s') \<and> rs_status resp = 401 \<and> ws_world s' = 0)"
proof
  show "login_context login_and_tokens (example_request ''GET'' ''t'') example_state = Some admin_context"
    by (simp add: login_context_def login_and_tokens_def example_security_def example_request_def example_state_def
        is_authenticated_def admin_context_def)
  have r: "wx_resource login_and_tokens = Some (\<lambda>t now. Inl (security_error ''Token validation failed: {}'' t), [])"
    by (simp add: login_and_tokens_def)
  have b: "\<not> starts_with ''Bearer '' (dget_default (rq_headers (example_request ''GET'' ''t'')) ''authorization'' [])" by code_simp
  have q: "tokens_quiet login_and_tokens (example_request ''GET'' ''t'')"
    using bearer_anonymous [OF b] by (simp add: tokens_quiet_def token_context_def r) (simp add: login_and_tokens_def example_security_def)
  have d: "deciding_rule (wx_rules login_and_tokens) (rq_path (example_request ''GET'' ''t'')) = Some AUTHENTICATED"
    by (simp add: deciding_rule_def login_and_tokens_def)
  have w: "ws_world example_state = 0" by (simp add: example_state_def)
  from session_login_lost [OF refl q r _ b d, of "\<lambda>n. replicate n CHR ''r''" counting_app example_state]
  show "\<exists>resp s'. same_answer (filter_chain (sort_filters (security_filters (\<lambda>n. replicate n CHR ''r'') login_and_tokens)) counting_app
        (example_request ''GET'' ''t'') (begin_request example_state)) (Inr resp, s') \<and> rs_status resp = 401 \<and> ws_world s' = 0"
    unfolding w by simp
qed

section \<open>Status codes of exceptions\<close>

text \<open>The table is searched from its start; for every exception that finds the entry of its nearest ancestor that has one.\<close>

fun nearest_status :: "exc_class list \<Rightarrow> int" where
  "nearest_status [] = 500"
| "nearest_status (c # cs) = (case dget status_map c of Some st \<Rightarrow> st | None \<Rightarrow> nearest_status cs)"


lemma status_of_class:
  "(case find (\<lambda>(k, st). k \<in> set (exc_mro c)) status_map of None \<Rightarrow> 500 | Some (k, st) \<Rightarrow> st) = nearest_status (exc_mro c)"
proof (induction c)
  case (UserExc name base)
  have m: "exc_mro (UserExc name base) = UserExc name base # exc_mro base" by (subst exc_mro.simps) simp
  have "find (\<lambda>(k, st). k \<in> set (exc_mro (UserExc name base))) status_map = find (\<lambda>(k, st). k \<in> set (exc_mro base)) status_map"
    by (rule find_cong) (auto simp: m status_map_def)
  moreover have "nearest_status (exc_mro (UserExc name base)) = nearest_status (exc_mro base)"
    by (simp add: m) (simp add: status_map_def)
  ultimately show ?case using UserExc.IH by simp
qed (simp_all add: exc_mro.simps status_map_def)

text \<open>
  Every exception, of the framework or derived from it, is answered with the status of the nearest of its base classes
  that has one, and with 500 when none has.
\<close>

theorem error_status_correct:
  "get_status_code e = nearest_status (exc_mro (exc_cls e))"
  using status_of_class [of "exc_cls e"] by (simp add: get_status_code_def isinstance_exc_def case_prod_unfold)

section \<open>Method security\<close>

text \<open>
  \<^verbatim>\<open>security/decorators.py\<close> (\<^verbatim>\<open>secure\<close>) and \<^verbatim>\<open>security/method_security.py\<close>. A decorated function acts on the world;
  empty lists and the empty expression stand for the parameters that were not given. A refusal carries what was asked for.
\<close>

type_synonym 'w func = "'w \<Rightarrow> (exn + pyval) \<times> 'w"

definition auth_required :: "exc_class \<Rightarrow> exn" where
  "auth_required c = Exn c ''Authentication required'' [VStr ''AUTH_REQUIRED'']"

definition denied_by_expression :: "string \<Rightarrow> exn" where
  "denied_by_expression expr = Exn ForbiddenException ''Access denied by expression: {}'' [VStr expr, VStr ''FORBIDDEN'']"

definition secure :: "string list \<Rightarrow> string list \<Rightarrow> string \<Rightarrow> security_context option \<Rightarrow> 'w func \<Rightarrow> 'w func" where
  "secure roles permissions expr ctx func w =
     (case ctx of
        None \<Rightarrow> (Inl (auth_required SecurityException), w)
      | Some c \<Rightarrow>
          if \<not> is_authenticated c then (Inl (auth_required SecurityException), w)
          else if roles \<noteq> [] \<and> \<not> has_any_role c roles
          then (Inl (Exn ForbiddenException ''Insufficient roles: requires one of {}'' [VList (map VStr roles), VStr ''FORBIDDEN'']), w)
          else
            (let missing = filter (\<lambda>p. \<not> has_permission c p) permissions
             in if permissions \<noteq> [] \<and> missing \<noteq> []
                then (Inl (Exn ForbiddenException ''Insufficient permissions: missing {}'' [VList (map VStr missing), VStr ''FORBIDDEN'']), w)
                else if expr = [] then func w
                else (case evaluate_expression expr c of
                        Inl e \<Rightarrow> (Inl e, w)
                      | Inr b \<Rightarrow> if b then func w else (Inl (denied_by_expression expr), w))))"

definition method_security_context :: "request_context option \<Rightarrow> exn + security_context" where
  "method_security_context rc =
     (case rc of
        None \<Rightarrow> Inl (auth_required UnauthorizedException)
      | Some r \<Rightarrow> (case rc_security_context r of None \<Rightarrow> Inl (auth_required UnauthorizedException) | Some c \<Rightarrow> Inr c))"

definition check_expression :: "string \<Rightarrow> request_context option \<Rightarrow> exn + unit" where
  "check_expression expr rc =
     (case method_security_context rc of
        Inl e \<Rightarrow> Inl e
      | Inr c \<Rightarrow> (case evaluate_expression expr c of
                   Inl e \<Rightarrow> Inl e
                 | Inr b \<Rightarrow> if b then Inr () else Inl (denied_by_expression expr)))"

text \<open>The request context is a context variable, read from the world: before the function runs, or after it.\<close>

definition pre_authorize :: "string \<Rightarrow> ('w \<Rightarrow> request_context option) \<Rightarrow> 'w func \<Rightarrow> 'w func" where
  "pre_authorize expr current func w = (case check_expression expr (current w) of Inl e \<Rightarrow> (Inl e, w) | Inr _ \<Rightarrow> func w)"

definition post_authorize :: "string \<Rightarrow> ('w \<Rightarrow> request_context option) \<Rightarrow> 'w func \<Rightarrow> 'w func" where
  "post_authorize expr current func w =
     (case func w of
        (Inl e, w') \<Rightarrow> (Inl e, w')
      | (Inr v, w') \<Rightarrow> (case check_expression expr (current w') of Inl e \<Rightarrow> (Inl e, w') | Inr _ \<Rightarrow> (Inr v, w')))"

text \<open>What the parameters of \<^verbatim>\<open>secure\<close> ask of a context.\<close>

definition meets :: "string list \<Rightarrow> string list \<Rightarrow> string \<Rightarrow> security_context option \<Rightarrow> bool" where
  "meets roles permissions expr ctx \<longleftrightarrow>
     (\<exists>c user. ctx = Some c \<and> sc_user_id c = Some user \<and> (roles = [] \<or> set roles \<inter> set (sc_roles c) \<noteq> {}) \<and>
        set permissions \<subseteq> set (sc_permissions c) \<and> (expr = [] \<or> evaluate_expression expr c = Inr True))"

lemma secure_meets:
  assumes "meets roles permissions expr ctx"
  shows "secure roles permissions expr ctx func w = func w"
proof -
  from assms obtain c user where c: "ctx = Some c" "sc_user_id c = Some user" "roles = [] \<or> set roles \<inter> set (sc_roles c) \<noteq> {}"
    "set permissions \<subseteq> set (sc_permissions c)" "expr = [] \<or> evaluate_expression expr c = Inr True"
    unfolding meets_def by blast
  have "\<not> (roles \<noteq> [] \<and> \<not> has_any_role c roles)" using c(3) by (auto simp: has_any_role_def list_ex_iff)
  moreover have "filter (\<lambda>p. \<not> has_permission c p) permissions = []" using c(4) by (auto simp: has_permission_def filter_empty_conv)
  ultimately show ?thesis using c(1,2,5) by (auto simp: secure_def is_authenticated_def)
qed

lemma secure_refuses:
  assumes "\<not> meets roles permissions expr ctx"
  shows "\<exists>e. secure roles permissions expr ctx func w = (Inl e, w) \<and>
     (isinstance_exc e SecurityException \<or> (\<exists>c. ctx = Some c \<and> evaluate_expression expr c = Inl e))"
proof -
  have sec: "isinstance_exc (auth_required SecurityException) SecurityException" "isinstance_exc (Exn ForbiddenException m a) SecurityException" for m a
    by (simp_all add: isinstance_exc_def auth_required_def exc_mro.simps)
  then have den: "isinstance_exc (denied_by_expression expr) SecurityException" by (simp add: denied_by_expression_def)
  show ?thesis
  proof (cases ctx)
    case None
    then show ?thesis using sec(1) by (simp add: secure_def)
  next
    case (Some c)
    show ?thesis
    proof (cases "evaluate_expression expr c")
      case (Inl e)
      then show ?thesis using Some sec assms
        by (auto simp: secure_def meets_def is_authenticated_def has_any_role_def has_permission_def list_ex_iff Let_def filter_empty_conv)
    next
      case (Inr b)
      then show ?thesis using Some sec den assms
        by (auto simp: secure_def meets_def is_authenticated_def has_any_role_def has_permission_def list_ex_iff Let_def filter_empty_conv)
    qed
  qed
qed

lemma post_authorize_effects: "snd (post_authorize expr current func w) = snd (func w)"
  by (simp add: post_authorize_def split: prod.splits sum.splits)

lemma check_expression_holds:
  "if \<exists>r c. rc = Some r \<and> rc_security_context r = Some c \<and> evaluate_expression expr c = Inr True
   then check_expression expr rc = Inr () else \<exists>e. check_expression expr rc = Inl e"
  by (auto simp: check_expression_def method_security_context_def split: option.splits sum.splits)

text \<open>
  Claim C34. Method security. \<^verbatim>\<open>secure\<close> runs the function exactly when the context is authenticated, has one of the roles and all the
  permissions and satisfies the expression, and otherwise raises before it runs; \<^verbatim>\<open>pre_authorize\<close> runs it exactly when the expression holds of the
  context that the request context holds before it runs. \<^verbatim>\<open>post_authorize\<close> returns its value exactly when the expression holds of the
  context that the request context holds after it has run, but its effects happen in any case.
\<close>

theorem method_security_correct:
  "(if meets roles permissions expr ctx then secure roles permissions expr ctx func w = func w
    else \<exists>e. secure roles permissions expr ctx func w = (Inl e, w)) \<and>
   (if \<exists>r c. current w = Some r \<and> rc_security_context r = Some c \<and> evaluate_expression expr c = Inr True
    then pre_authorize expr current func w = func w
    else \<exists>e. pre_authorize expr current func w = (Inl e, w)) \<and>
   (if \<exists>r c. current (snd (func w)) = Some r \<and> rc_security_context r = Some c \<and> evaluate_expression expr c = Inr True
    then post_authorize expr current func w = func w
    else \<exists>e. post_authorize expr current func w = (Inl e, snd (func w)))"
proof (intro conjI)
  show "if meets roles permissions expr ctx then secure roles permissions expr ctx func w = func w
    else \<exists>e. secure roles permissions expr ctx func w = (Inl e, w)"
    using secure_meets secure_refuses by (metis (full_types))
next
  show "if \<exists>r c. current w = Some r \<and> rc_security_context r = Some c \<and> evaluate_expression expr c = Inr True
    then pre_authorize expr current func w = func w else \<exists>e. pre_authorize expr current func w = (Inl e, w)"
    using check_expression_holds [of "current w" expr] by (auto simp: pre_authorize_def split: if_splits)
next
  obtain r w' where f: "func w = (r, w')" by (cases "func w")
  show "if \<exists>r c. current (snd (func w)) = Some r \<and> rc_security_context r = Some c \<and> evaluate_expression expr c = Inr True
    then post_authorize expr current func w = func w else \<exists>e. post_authorize expr current func w = (Inl e, snd (func w))"
    using check_expression_holds [of "current w'" expr] by (cases r) (auto simp: post_authorize_def f split: if_splits)
qed

section \<open>Error reports pass the filters by\<close>

text \<open>The response made for an exception has no header and no cookie: neither the transaction id nor the security headers.\<close>

lemma error_report_bare:
  assumes "filter_chain (sort_filters fs) app req (begin_request s) = (Inl e, s')"
  shows "rs_headers (fst (serve_request fresh fs app req s)) = [] \<and> rs_cookies (fst (serve_request fresh fs app req s)) = []"
  using assms by (simp add: serve_request_def global_exception_handler_def plain_response_def draw_def Let_def)

text \<open>The size bound of a captured body does not cover files that are sent by path.\<close>

lemma pathsend_unbounded:
  "path \<noteq> [] \<Longrightarrow> read_file path = Inr content \<Longrightarrow>
     gather read_file c [Start st hs, Pathsend path] = Inr \<lparr>cp_status = st, cp_headers = hs, cp_parts = cp_parts c @ [content]\<rparr>"
  by (simp add: intercept_def)

lemma body_bounded:
  assumes "gather read_file c ms = Inr c'" "\<forall>p. Pathsend p \<notin> set ms" "sum_list (map length (cp_parts c)) \<le> MAX_RESPONSE_BODY_SIZE"
  shows "sum_list (map length (cp_parts c')) \<le> MAX_RESPONSE_BODY_SIZE"
  using assms
proof (induction read_file c ms rule: gather.induct)
  case (2 read_file c m ms)
  obtain d where d: "intercept read_file c m = Inr d" "gather read_file d ms = Inr c'"
    using "2.prems"(1) by (auto split: sum.splits)
  have "sum_list (map length (cp_parts d)) \<le> MAX_RESPONSE_BODY_SIZE"
    using d(1) "2.prems" by (cases m) (auto simp: intercept_def Let_def split: if_splits)
  with d "2.IH" "2.prems" show ?case by simp
qed simp

end
