(* ===== verification/OAuth2Login.thy ===== *)
theory OAuth2Login
  imports WebFilters SagaState
begin

text \<open>
  The login with an OAuth2 provider (\<^verbatim>\<open>security/oauth2/login.py\<close>): the three routes on top of the sessions of
  \<open>WebFilters\<close>. The provider's endpoints are functions of the world that answer with a status and a JSON object; Python's \<^verbatim>\<open>str\<close> on values
  that are not strings is a parameter.
\<close>

section \<open>The provider\<close>

type_synonym json = "(string, pyval) dict"

record 'w provider =
  pv_post :: "string \<Rightarrow> (string, string) dict \<Rightarrow> 'w \<Rightarrow> (exn + int \<times> json) \<times> 'w"
  pv_get :: "string \<Rightarrow> string \<Rightarrow> 'w \<Rightarrow> (exn + int \<times> json) \<times> 'w"
  pv_str :: "pyval \<Rightarrow> string"
  pv_show :: "attribute \<Rightarrow> string"

definition py_str :: "'w provider \<Rightarrow> pyval \<Rightarrow> string" where
  "py_str pv v = (case v of VStr t \<Rightarrow> t | _ \<Rightarrow> pv_str pv v)"

definition ok_json :: "(exn + int \<times> json) \<times> 'w \<Rightarrow> (exn + json) \<times> 'w" where
  "ok_json out = (map_sum id (\<lambda>(status, body). if status \<noteq> 200 then [] else body) (fst out), snd out)"

definition exchange_code :: "'w provider \<Rightarrow> client_registration \<Rightarrow> string \<Rightarrow> 'w \<Rightarrow> (exn + json) \<times> 'w" where
  "exchange_code pv reg code w =
     ok_json (pv_post pv (cr_token_uri reg)
       [(''grant_type'', ''authorization_code''), (''code'', code), (''redirect_uri'', cr_redirect_uri reg),
        (''client_id'', cr_client_id reg), (''client_secret'', cr_client_secret reg)] w)"

definition fetch_user_info :: "'w provider \<Rightarrow> client_registration \<Rightarrow> string \<Rightarrow> 'w \<Rightarrow> (exn + json) \<times> 'w" where
  "fetch_user_info pv reg access_token w =
     (if cr_user_info_uri reg = [] then (Inr [], w)
      else ok_json (pv_get pv (cr_user_info_uri reg) (''Bearer '' @ access_token) w))"

definition py_or :: "pyval \<Rightarrow> pyval \<Rightarrow> pyval" where
  "py_or a b = (if truthy a then a else b)"

definition user_attributes :: "json \<Rightarrow> (string, string) dict" where
  "user_attributes info =
     foldl (\<lambda>d (k, v). case v of VStr t \<Rightarrow> if k \<in> {''sub'', ''id''} then d else dput k t d | _ \<Rightarrow> d) [] info"

definition build_security_context :: "'w provider \<Rightarrow> json \<Rightarrow> security_context" where
  "build_security_context pv info =
     (let user_id = py_or (py_or (opt_val (dget info ''sub'')) (opt_val (dget info ''id''))) (opt_val (dget info ''login''))
      in \<lparr>sc_user_id = (if user_id = VNone then None else Some (py_str pv user_id)), sc_roles = [], sc_permissions = [],
          sc_attributes = user_attributes info\<rparr>)"

section \<open>The routes\<close>

definition OAUTH2_STATE_KEY :: string where "OAUTH2_STATE_KEY = ''oauth2_state''"
definition REDIRECT_URI_KEY :: string where "REDIRECT_URI_KEY = ''oauth2_redirect_uri''"

text \<open>\<^verbatim>\<open>urlencode\<close>: letters, digits and four marks stay, a space becomes a plus sign, other characters their UTF-8 bytes.\<close>

definition hex_digit :: "nat \<Rightarrow> char" where
  "hex_digit n = ''0123456789ABCDEF'' ! n"

definition percent :: "nat \<Rightarrow> string" where
  "percent n = [CHR ''%'', hex_digit (n div 16), hex_digit (n mod 16)]"

definition quote_char :: "char \<Rightarrow> string" where
  "quote_char c =
     (let n = (of_char c :: nat)
      in if 48 \<le> n \<and> n \<le> 57 \<or> 65 \<le> n \<and> n \<le> 90 \<or> 97 \<le> n \<and> n \<le> 122 \<or> c \<in> set ''_.-~'' then [c]
         else if c = CHR '' '' then ''+''
         else if n < 128 then percent n
         else percent (192 + n div 64) @ percent (128 + n mod 64))"

definition quote_plus :: "string \<Rightarrow> string" where
  "quote_plus s = concat (map quote_char s)"

definition urlencode :: "(string \<times> string) list \<Rightarrow> string" where
  "urlencode ps = sep_by ''&'' (map (\<lambda>(k, v). quote_plus k @ ''='' @ quote_plus v) ps)"

definition redirect_response :: "string \<Rightarrow> web_response" where
  "redirect_response url = set_header ''location'' url (plain_response 302 (Content []))"

definition json_error :: "int \<Rightarrow> string \<Rightarrow> string \<Rightarrow> web_response" where
  "json_error status err msg = plain_response status (ErrorBody err msg)"

definition unknown_registration :: "string \<Rightarrow> web_response" where
  "unknown_registration rid = json_error 400 ''unknown_registration'' (''No registration found for '' @ [CHR 0x27] @ rid @ [CHR 0x27])"

definition no_session :: exn where
  "no_session = Exn AttributeErrorC ''session'' []"

definition authorization_url :: "client_registration \<Rightarrow> string \<Rightarrow> string" where
  "authorization_url reg state =
     cr_authorization_uri reg @ ''?'' @
     urlencode [(''response_type'', ''code''), (''client_id'', cr_client_id reg), (''redirect_uri'', cr_redirect_uri reg),
                (''scope'', join_words (cr_scopes reg)), (''state'', state)]"

definition handle_authorization :: "(nat \<Rightarrow> string) \<Rightarrow> client_repository \<Rightarrow> string \<Rightarrow> 'w handler" where
  "handle_authorization fresh repo rid req s =
     (case find_by_registration_id repo rid of
        None \<Rightarrow> (Inr (unknown_registration rid), s)
      | Some reg \<Rightarrow>
          if ws_session s = None then (Inl no_session, s)
          else (case draw fresh s of
                  (state, s1) \<Rightarrow>
                    (Inr (redirect_response (authorization_url reg state)), set_attribute OAUTH2_STATE_KEY (AText state) s1)))"

definition with_world :: "('w \<Rightarrow> 'a \<times> 'w) \<Rightarrow> 'w web_state \<Rightarrow> 'a \<times> 'w web_state" where
  "with_world f s = (case f (ws_world s) of (x, w) \<Rightarrow> (x, s\<lparr>ws_world := w\<rparr>))"

text \<open>After the state has been checked and consumed: errors of the provider, the code, the tokens, the user and the login.\<close>

definition complete_login :: "'w provider \<Rightarrow> client_registration \<Rightarrow> string \<Rightarrow> 'w handler" where
  "complete_login pv reg code req s =
     (case with_world (exchange_code pv reg code) s of
        (Inl e, s1) \<Rightarrow> (Inl e, s1)
      | (Inr token_response, s1) \<Rightarrow>
          (let access_token = opt_val (dget token_response ''access_token'')
           in if \<not> truthy access_token then (Inr (json_error 502 ''token_exchange_failed'' ''Failed to obtain access token''), s1)
              else (case with_world (fetch_user_info pv reg (py_str pv access_token)) s1 of
                      (Inl e, s2) \<Rightarrow> (Inl e, s2)
                    | (Inr user_info, s2) \<Rightarrow>
                        (let s3 = set_attribute SECURITY_CONTEXT_KEY (AContext (build_security_context pv user_info)) s2;
                             uri = (case get_attribute REDIRECT_URI_KEY s3 of
                                      None \<Rightarrow> ''/''
                                    | Some (AText t) \<Rightarrow> if t = [] then ''/'' else t
                                    | Some v \<Rightarrow> pv_show pv v)
                         in (Inr (redirect_response uri), remove_attribute REDIRECT_URI_KEY s3)))))"

definition handle_callback :: "'w provider \<Rightarrow> client_repository \<Rightarrow> string \<Rightarrow> 'w handler" where
  "handle_callback pv repo rid req s =
     (case find_by_registration_id repo rid of
        None \<Rightarrow> (Inr (unknown_registration rid), s)
      | Some reg \<Rightarrow>
          if ws_session s = None then (Inl no_session, s)
          else if \<not> (\<exists>st \<in> set_option (dget (rq_query req) ''state''). st \<noteq> [] \<and> get_attribute OAUTH2_STATE_KEY s = Some (AText st))
          then (Inr (json_error 400 ''invalid_state'' ''OAuth2 state parameter mismatch''), s)
          else
            (let s1 = remove_attribute OAUTH2_STATE_KEY s; err = dget_default (rq_query req) ''error'' [];
                 code = dget_default (rq_query req) ''code'' []
             in if err \<noteq> []
                then (let d = dget_default (rq_query req) ''error_description'' []
                      in (Inr (json_error 400 err (if d \<noteq> [] then d else err)), s1))
                else if code = [] then (Inr (json_error 400 ''missing_code'' ''No authorization code in callback''), s1)
                else complete_login pv reg code req s1))"

definition handle_logout :: "'w handler" where
  "handle_logout req s = (if ws_session s = None then (Inl no_session, s) else (Inr (redirect_response ''/''), invalidate s))"

text \<open>The routes in front of the rest of the application; a path parameter is one segment, and a GET route takes HEAD as well.\<close>

datatype route = Authorization string | Callback string | Logout | Elsewhere

definition segment_after :: "string \<Rightarrow> string \<Rightarrow> string option" where
  "segment_after prefix path =
     (let seg = drop (length prefix) path
      in if starts_with prefix path \<and> seg \<noteq> [] \<and> CHR ''/'' \<notin> set seg then Some seg else None)"

definition route_of :: "web_request \<Rightarrow> route" where
  "route_of req =
     (let get = rq_method req \<in> {''GET'', ''HEAD''}
      in case segment_after ''/oauth2/authorization/'' (rq_path req) of
           Some rid \<Rightarrow> if get then Authorization rid else Elsewhere
         | None \<Rightarrow>
             (case segment_after ''/login/oauth2/code/'' (rq_path req) of
                Some rid \<Rightarrow> if get then Callback rid else Elsewhere
              | None \<Rightarrow> if rq_path req = ''/logout'' \<and> rq_method req = ''POST'' then Logout else Elsewhere))"

definition login_routes :: "(nat \<Rightarrow> string) \<Rightarrow> 'w provider \<Rightarrow> client_repository \<Rightarrow> 'w handler \<Rightarrow> 'w handler" where
  "login_routes fresh pv repo app req =
     (case route_of req of
        Authorization rid \<Rightarrow> handle_authorization fresh repo rid req
      | Callback rid \<Rightarrow> handle_callback pv repo rid req
      | Logout \<Rightarrow> handle_logout req
      | Elsewhere \<Rightarrow> app req)"
section \<open>Sessions under a handler\<close>

text \<open>
  The data of the sessions in the store, by id. Handlers change the data of their own session and nothing else of the
  store; \<open>own_session\<close> says so, and \<open>session_step\<close> what a request then does to the sessions.
\<close>

definition live :: "'w web_state \<Rightarrow> string \<Rightarrow> session_data option" where
  "live s sid = map_option (\<lambda>(ref, e). ws_heap s ! ref) (dget (ws_store s) sid)"

definition store_ok :: "(nat \<Rightarrow> string) \<Rightarrow> 'w web_state \<Rightarrow> bool" where
  "store_ok fresh s \<longleftrightarrow>
     (\<forall>sid ref e. dget (ws_store s) sid = Some (ref, e) \<longrightarrow> ref < length (ws_heap s) \<and> sid \<in> fresh ` {..<ws_drawn s}) \<and>
     (\<forall>sid sid' ref e e'. dget (ws_store s) sid = Some (ref, e) \<longrightarrow> dget (ws_store s) sid' = Some (ref, e') \<longrightarrow> sid = sid')"

definition own_session :: "'w web_state \<Rightarrow> 'w web_state \<Rightarrow> bool" where
  "own_session s t \<longleftrightarrow> (\<exists>h h' d. ws_session s = Some h \<and> ws_session t = Some h' \<and> hs_id h' = hs_id h \<and> hs_data h' = hs_data h \<and>
     (hs_modified h \<longrightarrow> hs_modified h') \<and> ws_store t = ws_store s \<and> ws_heap t = (ws_heap s)[hs_data h := d] \<and> ws_drawn s \<le> ws_drawn t)"

lemma same_list_update [simp]: "\<exists>d. xs = xs[i := d]"
  by (metis list_update_id)

lemma own_session_refl: "ws_session s \<noteq> None \<Longrightarrow> own_session s s"
  by (auto simp: own_session_def)

lemma own_session_trans: "own_session s t \<Longrightarrow> own_session t u \<Longrightarrow> own_session s u"
  unfolding own_session_def by fastforce

lemma own_set_attribute: "ws_session s \<noteq> None \<Longrightarrow> own_session s (set_attribute k v s)"
  by (auto simp: own_session_def set_attribute_def)

lemma own_remove_attribute: "ws_session s \<noteq> None \<Longrightarrow> own_session s (remove_attribute k s)"
  using own_session_refl [of s] by (auto simp: own_session_def remove_attribute_def)

lemma own_invalidate: "ws_session s \<noteq> None \<Longrightarrow> own_session s (invalidate s)"
  by (auto simp: own_session_def invalidate_def)

lemma own_fields: "ws_session s \<noteq> None \<Longrightarrow> ws_store t = ws_store s \<Longrightarrow> ws_heap t = ws_heap s \<Longrightarrow> ws_session t = ws_session s \<Longrightarrow>
   ws_drawn s \<le> ws_drawn t \<Longrightarrow> own_session s t"
  by (auto simp: own_session_def)

lemma own_session_some: "own_session s t \<Longrightarrow> ws_session t \<noteq> None"
  by (auto simp: own_session_def)

text \<open>After loading: the session of the cookie, with its data, or a new one under a new id.\<close>

definition loaded_old :: "web_request \<Rightarrow> 'w web_state \<Rightarrow> 'w web_state \<Rightarrow> http_session \<Rightarrow> bool" where
  "loaded_old req s t h \<longleftrightarrow> (\<exists>e. dget (ws_store s) (hs_id h) = Some (hs_data h, e)) \<and> ws_store t = ws_store s \<and>
     ws_heap t = (ws_heap s)[hs_data h := session_times (rq_time req) (ws_heap s ! hs_data h)] \<and> ws_drawn t = ws_drawn s"

definition loaded_new :: "(nat \<Rightarrow> string) \<Rightarrow> web_request \<Rightarrow> 'w web_state \<Rightarrow> 'w web_state \<Rightarrow> http_session \<Rightarrow> bool" where
  "loaded_new fresh req s t h \<longleftrightarrow> hs_modified h \<and> hs_id h = fresh (ws_drawn s) \<and> hs_data h = length (ws_heap s) \<and>
     ws_heap t = ws_heap s @ [session_times (rq_time req) []] \<and> ws_drawn t = ws_drawn s + 1 \<and>
     (\<forall>sid v. dget (ws_store t) sid = Some v \<longrightarrow> dget (ws_store s) sid = Some v)"

lemma load_session:
  "\<exists>h. ws_session (load_or_create_session fresh name req s) = Some h \<and>
     (loaded_old req s (load_or_create_session fresh name req s) h \<or> loaded_new fresh req s (load_or_create_session fresh name req s) h)"
  (is "\<exists>h. ?P h")
proof -
  let ?new = "\<lparr>hs_id = fresh (ws_drawn s), hs_data = length (ws_heap s), hs_is_new = True, hs_invalidated = False, hs_modified = True\<rparr>"
  have created: "?P ?new"
    if "load_or_create_session fresh name req s = new_session (fresh (ws_drawn s)) (rq_time req) (s\<lparr>ws_store := st, ws_drawn := ws_drawn s + 1\<rparr>)"
      and "\<And>sid v. dget st sid = Some v \<Longrightarrow> dget (ws_store s) sid = Some v" for st
    using that by (simp add: new_session_def loaded_new_def)
  consider sid ref e where "dget (rq_cookies req) name = Some sid" "sid \<noteq> []" "dget (ws_store s) sid = Some (ref, e)" "rq_loaded req \<le> e"
    | st where "load_or_create_session fresh name req s =
          new_session (fresh (ws_drawn s)) (rq_time req) (s\<lparr>ws_store := st, ws_drawn := ws_drawn s + 1\<rparr>)"
        "\<And>sid v. dget st sid = Some v \<Longrightarrow> dget (ws_store s) sid = Some v"
  proof (cases "\<exists>sid ref e. dget (rq_cookies req) name = Some sid \<and> sid \<noteq> [] \<and> dget (ws_store s) sid = Some (ref, e)")
    case True
    then obtain sid ref e where c: "dget (rq_cookies req) name = Some sid" "sid \<noteq> []" "dget (ws_store s) sid = Some (ref, e)" by blast
    show ?thesis
    proof (cases "rq_loaded req \<le> e")
      case True
      with c that(1) show ?thesis by blast
    next
      case False
      have "load_or_create_session fresh name req s =
          new_session (fresh (ws_drawn s)) (rq_time req) (s\<lparr>ws_store := ddel sid (ws_store s), ws_drawn := ws_drawn s + 1\<rparr>)"
        using c False by (simp add: load_or_create_session_def store_get_def draw_def)
      then show ?thesis by (rule that(2)) (simp split: if_splits)
    qed
  next
    case False
    then have "load_or_create_session fresh name req s =
        new_session (fresh (ws_drawn s)) (rq_time req) (s\<lparr>ws_store := ws_store s, ws_drawn := ws_drawn s + 1\<rparr>)"
      by (auto simp: load_or_create_session_def store_get_def draw_def split: option.splits)
    then show ?thesis by (rule that(2))
  qed
  then show ?thesis
  proof cases
    case (1 sid ref e)
    then show ?thesis
      by (simp add: load_or_create_session_def store_get_def open_session_def loaded_old_def)
  next
    case (2 st)
    then show ?thesis using created by blast
  qed
qed

text \<open>What a request through the session filter does to the stored sessions.\<close>

definition session_step ::
  "(nat \<Rightarrow> string) \<Rightarrow> web_request \<Rightarrow> 'w web_state \<Rightarrow> 'w web_state \<Rightarrow> 'w web_state \<Rightarrow> 'w web_state \<Rightarrow> bool" where
  "session_step fresh req s s0 s1 s2 \<longleftrightarrow>
     (\<exists>h h1. ws_session s0 = Some h \<and> ws_session s1 = Some h1 \<and> hs_id h1 = hs_id h \<and>
        ((\<exists>d. live s (hs_id h) = Some d \<and> session_dict s0 = session_times (rq_time req) d \<and> ws_drawn s0 = ws_drawn s) \<or>
         (hs_id h = fresh (ws_drawn s) \<and> session_dict s0 = session_times (rq_time req) [] \<and> ws_drawn s0 = ws_drawn s + 1)) \<and>
        live s2 (hs_id h) = (if hs_invalidated h1 then None else Some (session_dict s1)) \<and>
        (\<forall>sid d. sid \<noteq> hs_id h \<longrightarrow> live s2 sid = Some d \<longrightarrow> live s sid = Some d) \<and> ws_drawn s2 = ws_drawn s1)"

lemma own_heap:
  assumes "ws_session s = Some h" "hs_data h < length (ws_heap s)" "own_session s t"
  shows "ws_heap t = (ws_heap s)[hs_data h := session_dict t]" "ws_store t = ws_store s"
    "\<exists>h'. ws_session t = Some h' \<and> hs_id h' = hs_id h \<and> hs_data h' = hs_data h \<and> (hs_modified h \<longrightarrow> hs_modified h')"
  using assms by (auto simp: own_session_def session_dict_def)
lemma persist_store:
  assumes "ws_session s1 = Some h1" "hs_modified h1 \<or> (\<exists>e. dget (ws_store s1) (hs_id h1) = Some (hs_data h1, e))"
  shows "(if hs_invalidated h1 then dget (ws_store (persist_session ttl req s1)) (hs_id h1) = None
      else \<exists>e. dget (ws_store (persist_session ttl req s1)) (hs_id h1) = Some (hs_data h1, e))"
    and "sid \<noteq> hs_id h1 \<Longrightarrow> dget (ws_store (persist_session ttl req s1)) sid = dget (ws_store s1) sid"
    and "ws_heap (persist_session ttl req s1) = ws_heap s1" "ws_drawn (persist_session ttl req s1) = ws_drawn s1"
  using assms by (auto simp: persist_session_def store_delete_def store_save_def)

lemma session_filter_step:
  fixes s :: "'w web_state"
  assumes ok: "store_ok fresh s" and inj: "inj fresh" and own: "own_session (load_or_create_session fresh name req s) s1"
  shows "session_step fresh req s (load_or_create_session fresh name req s) s1 (persist_session ttl req s1) \<and>
    store_ok fresh (persist_session ttl req s1)"
proof -
  let ?s0 = "load_or_create_session fresh name req s" and ?s2 = "persist_session ttl req s1"
  obtain h where h: "ws_session ?s0 = Some h" and kind: "loaded_old req s ?s0 h \<or> loaded_new fresh req s ?s0 h"
    using load_session [of fresh name req s] by blast
  have sub: "dget (ws_store ?s0) sid = Some v \<Longrightarrow> dget (ws_store s) sid = Some v" for sid v
    using kind by (cases v) (auto simp: loaded_old_def loaded_new_def)
  have entry: "ref < length (ws_heap s) \<and> sid \<in> fresh ` {..<ws_drawn s}" if "dget (ws_store s) sid = Some (ref, e)" for sid ref e
    using ok that unfolding store_ok_def by blast
  have same: "sid = sid'" if "dget (ws_store s) sid = Some (ref, e)" "dget (ws_store s) sid' = Some (ref, e')" for sid sid' ref e e'
    using ok that unfolding store_ok_def by blast
  have len: "hs_data h < length (ws_heap ?s0)" "length (ws_heap s) \<le> length (ws_heap ?s0)"
    using kind entry by (auto simp: loaded_old_def loaded_new_def)
  note o = own_heap [OF h len(1) own]
  obtain h1 where h1: "ws_session s1 = Some h1" "hs_id h1 = hs_id h" "hs_data h1 = hs_data h" "hs_modified h \<longrightarrow> hs_modified h1" using o(3) by blast
  have saved: "hs_modified h1 \<or> (\<exists>e. dget (ws_store s1) (hs_id h1) = Some (hs_data h1, e))"
    using kind h1 o(2) by (auto simp: loaded_old_def loaded_new_def)
  note p = persist_store [OF h1(1) saved, where ttl = ttl and req = req]
  have drawn: "ws_drawn s \<le> ws_drawn ?s2"
    using own kind p(4) by (auto simp: own_session_def loaded_old_def loaded_new_def)
  have other: "ref \<noteq> hs_data h \<and> ref < length (ws_heap s) \<and> ws_heap ?s0 ! ref = ws_heap s ! ref"
    if "sid \<noteq> hs_id h" "dget (ws_store s) sid = Some (ref, e)" for sid ref e
  proof -
    have "ref \<noteq> hs_data h" using kind entry [OF that(2)] same [OF that(2)] that(1) by (auto simp: loaded_old_def loaded_new_def)
    then show ?thesis using kind entry [OF that(2)] by (auto simp: loaded_old_def loaded_new_def nth_append)
  qed
  have others: "dget (ws_store ?s2) sid = Some v \<Longrightarrow> dget (ws_store s) sid = Some v" if "sid \<noteq> hs_id h" for sid v
    using p(2) [where sid = sid] that sub o(2) h1(2) by simp
  have mine: "dget (ws_store ?s2) (hs_id h) = Some (ref, e) \<Longrightarrow> ref = hs_data h" for ref e
    using p(1) h1(2,3) by (auto split: if_splits)
  have id: "hs_id h \<in> fresh ` {..<ws_drawn ?s2}"
    using kind
  proof
    assume "loaded_old req s ?s0 h"
    then obtain e where "dget (ws_store s) (hs_id h) = Some (hs_data h, e)" by (auto simp: loaded_old_def)
    then show ?thesis using entry drawn by fastforce
  next
    assume new: "loaded_new fresh req s ?s0 h"
    then have "ws_drawn s < ws_drawn ?s2" using own p(4) by (auto simp: own_session_def loaded_new_def)
    with new show ?thesis by (auto simp: loaded_new_def)
  qed
  have heap2: "ws_heap ?s2 = (ws_heap ?s0)[hs_data h := session_dict s1]" using p(3) o(1) by simp
  have "live ?s2 (hs_id h) = (if hs_invalidated h1 then None else Some (session_dict s1))"
    using p(1) h1(2,3) len(1) by (auto simp: live_def heap2 split: if_splits)
  moreover have "live s sid = Some d" if "sid \<noteq> hs_id h" "live ?s2 sid = Some d" for sid d
  proof -
    from that(2) obtain ref e where r: "dget (ws_store ?s2) sid = Some (ref, e)" "d = ws_heap ?s2 ! ref" by (auto simp: live_def)
    from others [OF that(1) r(1)] other [OF that(1)] r(2) show ?thesis by (auto simp: live_def heap2)
  qed
  moreover have "(\<exists>d. live s (hs_id h) = Some d \<and> session_dict ?s0 = session_times (rq_time req) d \<and> ws_drawn ?s0 = ws_drawn s) \<or>
      (hs_id h = fresh (ws_drawn s) \<and> session_dict ?s0 = session_times (rq_time req) [] \<and> ws_drawn ?s0 = ws_drawn s + 1)"
    using kind entry by (auto simp: loaded_old_def loaded_new_def session_dict_def h live_def)
  ultimately have step: "session_step fresh req s ?s0 s1 ?s2"
    unfolding session_step_def using h h1 p(4) by blast
  have "store_ok fresh ?s2"
    unfolding store_ok_def
  proof (intro conjI allI impI)
    fix sid ref e assume r: "dget (ws_store ?s2) sid = Some (ref, e)"
    show "ref < length (ws_heap ?s2)"
      using r mine others [of sid] other [of sid] len by (cases "sid = hs_id h") (fastforce simp: heap2)+
    show "sid \<in> fresh ` {..<ws_drawn ?s2}"
      using r id others [of sid] entry [of sid] drawn by (cases "sid = hs_id h") fastforce+
  next
    fix sid sid' ref e e' assume r: "dget (ws_store ?s2) sid = Some (ref, e)" "dget (ws_store ?s2) sid' = Some (ref, e')"
    show "sid = sid'"
    proof (cases "sid = hs_id h \<or> sid' = hs_id h")
      case True
      then show ?thesis using r mine others other by metis
    next
      case False
      then show ?thesis using r others same by blast
    qed
  qed
  with step show ?thesis by blast
qed


section \<open>What the routes do to the session\<close>

text \<open>The session of a request in progress: it exists and its data are in the heap.\<close>

definition in_session :: "'w web_state \<Rightarrow> bool" where
  "in_session s \<longleftrightarrow> (\<exists>h. ws_session s = Some h \<and> hs_data h < length (ws_heap s))"

lemma in_session_some: "in_session s \<Longrightarrow> ws_session s \<noteq> None"
  by (auto simp: in_session_def)

lemma in_session_own: "in_session s \<Longrightarrow> own_session s t \<Longrightarrow> in_session t"
  by (auto simp: in_session_def own_session_def)

lemma session_dict_set: "in_session s \<Longrightarrow> session_dict (set_attribute k v s) = dput k v (session_dict s)"
  by (auto simp: in_session_def set_attribute_def session_dict_def)

lemma session_dict_remove: "in_session s \<Longrightarrow> dget (session_dict (remove_attribute k s)) k' = (if k' = k then None else dget (session_dict s) k')"
  by (auto simp: in_session_def remove_attribute_def session_dict_def dmem_def)

lemma session_dict_invalidate [simp]: "session_dict (invalidate s) = session_dict s"
  by (cases "ws_session s") (simp_all add: session_dict_def invalidate_def)

lemma session_dict_fields: "ws_session t = ws_session s \<Longrightarrow> ws_heap t = ws_heap s \<Longrightarrow> session_dict t = session_dict s"
  by (cases "ws_session s") (simp_all add: session_dict_def)

lemma keys_distinct [simp]:
  "OAUTH2_STATE_KEY \<noteq> SECURITY_CONTEXT_KEY" "SECURITY_CONTEXT_KEY \<noteq> OAUTH2_STATE_KEY"
  "OAUTH2_STATE_KEY \<noteq> REDIRECT_URI_KEY" "SECURITY_CONTEXT_KEY \<noteq> REDIRECT_URI_KEY"
  "OAUTH2_STATE_KEY \<noteq> ''_created_at''" "OAUTH2_STATE_KEY \<noteq> ''_last_accessed''"
  by (simp_all add: OAUTH2_STATE_KEY_def SECURITY_CONTEXT_KEY_def REDIRECT_URI_KEY_def)

lemma with_world_fields:
  assumes "with_world f s = (x, t)" "ws_session s \<noteq> None"
  shows "own_session s t" "session_dict t = session_dict s"
proof -
  obtain y w where "f (ws_world s) = (y, w)" by (cases "f (ws_world s)")
  with assms(1) have t: "t = s\<lparr>ws_world := w\<rparr>" by (simp add: with_world_def)
  show "own_session s t" unfolding t by (rule own_fields [OF assms(2)]) simp_all
  show "session_dict t = session_dict s" unfolding t by (rule session_dict_fields) simp_all
qed

text \<open>A handler that leaves sessions alone.\<close>

definition session_neutral :: "'w handler \<Rightarrow> bool" where
  "session_neutral app \<longleftrightarrow> (\<forall>req s r t. app req s = (r, t) \<longrightarrow> ws_store t = ws_store s \<and> ws_heap t = ws_heap s \<and>
     ws_session t = ws_session s \<and> ws_drawn t = ws_drawn s)"

definition redirected :: "exn + web_response \<Rightarrow> bool" where
  "redirected r \<longleftrightarrow> (\<exists>resp. r = Inr resp \<and> rs_status resp = 302)"

lemma redirected_simps [simp]:
  "\<not> redirected (Inl e)" "redirected (Inr (redirect_response url))" "status \<noteq> 302 \<Longrightarrow> \<not> redirected (Inr (json_error status a b))"
  "\<not> redirected (Inr (unknown_registration rid))"
  by (simp_all add: redirected_def redirect_response_def set_header_def plain_response_def json_error_def unknown_registration_def)

definition quiet_effect :: "exn + web_response \<Rightarrow> 'w web_state \<Rightarrow> 'w web_state \<Rightarrow> bool" where
  "quiet_effect r s t \<longleftrightarrow> own_session s t \<and> \<not> redirected r \<and>
     dget (session_dict t) OAUTH2_STATE_KEY \<in> {dget (session_dict s) OAUTH2_STATE_KEY, None} \<and>
     dget (session_dict t) SECURITY_CONTEXT_KEY = dget (session_dict s) SECURITY_CONTEXT_KEY"

lemma authorization_effect:
  assumes "handle_authorization fresh repo rid req s = (r, t)" "in_session s"
  shows "quiet_effect r s t \<or>
    (own_session s t \<and> redirected r \<and> session_dict t = dput OAUTH2_STATE_KEY (AText (fresh (ws_drawn s))) (session_dict s) \<and>
     ws_drawn t = ws_drawn s + 1)"
proof (cases "find_by_registration_id repo rid")
  case None
  then have "r = Inr (unknown_registration rid)" "t = s" using assms(1) by (auto simp: handle_authorization_def)
  then show ?thesis using own_session_refl [OF in_session_some [OF assms(2)]] by (simp add: quiet_effect_def)
next
  case (Some reg)
  let ?u = "s\<lparr>ws_drawn := ws_drawn s + 1\<rparr>"
  have u: "own_session s ?u" by (rule own_fields [OF in_session_some [OF assms(2)]]) simp_all
  have rt: "r = Inr (redirect_response (authorization_url reg (fresh (ws_drawn s))))"
    "t = set_attribute OAUTH2_STATE_KEY (AText (fresh (ws_drawn s))) ?u"
    using assms(1) Some in_session_some [OF assms(2)] by (auto simp: handle_authorization_def draw_def)
  have "session_dict t = dput OAUTH2_STATE_KEY (AText (fresh (ws_drawn s))) (session_dict ?u)"
    unfolding rt(2) by (rule session_dict_set [OF in_session_own [OF assms(2) u]])
  moreover have "session_dict ?u = session_dict s" by (rule session_dict_fields) simp_all
  moreover have "own_session s t"
    unfolding rt(2) using own_session_trans [OF u] own_set_attribute [OF own_session_some [OF u]] by blast
  moreover have "ws_drawn t = ws_drawn s + 1"
    unfolding rt(2) by (simp add: set_attribute_def split: option.splits)
  ultimately show ?thesis using rt(1) by simp
qed

lemma complete_login_effect:
  assumes "complete_login pv reg code req s = (r, t)" "in_session s"
  shows "own_session s t \<and> dget (session_dict t) OAUTH2_STATE_KEY = dget (session_dict s) OAUTH2_STATE_KEY \<and>
    (redirected r \<or> dget (session_dict t) SECURITY_CONTEXT_KEY = dget (session_dict s) SECURITY_CONTEXT_KEY)"
proof -
  obtain x s1 where x: "with_world (exchange_code pv reg code) s = (x, s1)" by (cases "with_world (exchange_code pv reg code) s")
  note w1 = with_world_fields [OF x in_session_some [OF assms(2)]]
  note i1 = in_session_own [OF assms(2) w1(1)]
  show ?thesis
  proof (cases "\<exists>tr. x = Inr tr \<and> truthy (opt_val (dget tr ''access_token''))")
    case False
    then have "\<not> redirected r \<and> t = s1" using assms(1) x by (auto simp: complete_login_def Let_def split: sum.splits)
    then show ?thesis using w1 by simp
  next
    case True
    then obtain tr where tr: "x = Inr tr" "truthy (opt_val (dget tr ''access_token''))" by blast
    let ?f = "fetch_user_info pv reg (py_str pv (opt_val (dget tr ''access_token'')))"
    obtain y s2 where y: "with_world ?f s1 = (y, s2)" by (cases "with_world ?f s1")
    note w2 = with_world_fields [OF y in_session_some [OF i1]]
    note i2 = in_session_own [OF i1 w2(1)] and o2 = own_session_trans [OF w1(1) w2(1)]
    show ?thesis
    proof (cases y)
      case (Inl e)
      then have "r = Inl e \<and> t = s2" using assms(1) x y tr by (simp add: complete_login_def)
      then show ?thesis using o2 w1 w2 by simp
    next
      case (Inr info)
      let ?s3 = "set_attribute SECURITY_CONTEXT_KEY (AContext (build_security_context pv info)) s2"
      have o3: "own_session s ?s3" using own_session_trans [OF o2 own_set_attribute [OF in_session_some [OF i2]]] .
      have rt: "redirected r" "t = remove_attribute REDIRECT_URI_KEY ?s3"
        using assms(1) x y tr Inr by (auto simp: complete_login_def Let_def)
      have "own_session s t" unfolding rt(2) using own_session_trans [OF o3 own_remove_attribute [OF own_session_some [OF o3]]] .
      moreover have "dget (session_dict t) OAUTH2_STATE_KEY = dget (session_dict s) OAUTH2_STATE_KEY"
        unfolding rt(2) session_dict_remove [OF in_session_own [OF assms(2) o3]] session_dict_set [OF i2]
        using w1(2) w2(2) by simp
      ultimately show ?thesis using rt(1) by simp
    qed
  qed
qed

lemma callback_effect:
  assumes "handle_callback pv repo rid req s = (r, t)" "in_session s"
  shows "quiet_effect r s t \<or>
    (own_session s t \<and> redirected r \<and> dget (session_dict t) OAUTH2_STATE_KEY = None \<and>
     (\<exists>st. dget (rq_query req) ''state'' = Some st \<and> dget (session_dict s) OAUTH2_STATE_KEY = Some (AText st)))"
proof -
  note some = in_session_some [OF assms(2)]
  let ?match = "\<exists>st \<in> set_option (dget (rq_query req) ''state''). st \<noteq> [] \<and> get_attribute OAUTH2_STATE_KEY s = Some (AText st)"
  have quiet: ?thesis if "\<not> redirected r" "t = s"
    using that own_session_refl [OF some] by (simp add: quiet_effect_def)
  show ?thesis
  proof (cases "find_by_registration_id repo rid")
    case None
    then show ?thesis using assms(1) by (intro quiet) (auto simp: handle_callback_def)
  next
    case (Some reg)
    show ?thesis
    proof (cases ?match)
      case False
      then have "r = Inr (json_error 400 ''invalid_state'' ''OAuth2 state parameter mismatch'')" "t = s"
        using assms(1) Some some by (auto simp only: handle_callback_def option.case if_False if_True not_not simp_thms prod.inject)
      then show ?thesis by (intro quiet) simp_all
    next
      case True
      then obtain st where st: "dget (rq_query req) ''state'' = Some st" "dget (session_dict s) OAUTH2_STATE_KEY = Some (AText st)"
        by (auto simp: get_attribute_def)
      let ?s1 = "remove_attribute OAUTH2_STATE_KEY s"
      note o1 = own_remove_attribute [OF some, of OAUTH2_STATE_KEY]
      note d1 = session_dict_remove [OF assms(2), of OAUTH2_STATE_KEY]
      have cases: "(\<not> redirected r \<and> t = ?s1) \<or> (\<exists>code. complete_login pv reg code req ?s1 = (r, t))"
        using assms(1) Some some True unfolding handle_callback_def Let_def by (auto split: if_splits)
      then show ?thesis
      proof (elim disjE exE conjE)
        assume "\<not> redirected r" "t = ?s1"
        then show ?thesis using o1 d1 by (simp add: quiet_effect_def)
      next
        fix code assume "complete_login pv reg code req ?s1 = (r, t)"
        from complete_login_effect [OF this in_session_own [OF assms(2) o1]]
        show ?thesis using own_session_trans [OF o1] d1 st by (auto simp: quiet_effect_def)
      qed
    qed
  qed
qed

lemma logout_effect:
  assumes "handle_logout req s = (r, t)" "in_session s"
  shows "own_session s t" "session_dict t = session_dict s" "\<exists>h. ws_session t = Some h \<and> hs_invalidated h"
  using assms own_invalidate [of s] in_session_some [OF assms(2)] by (auto simp: handle_logout_def) (auto simp: invalidate_def)

lemma neutral_effect:
  assumes "session_neutral app" "app req s = (r, t)" "in_session s"
  shows "own_session s t" "session_dict t = session_dict s"
proof -
  from assms(1,2) have f: "ws_store t = ws_store s" "ws_heap t = ws_heap s" "ws_session t = ws_session s" "ws_drawn t = ws_drawn s"
    unfolding session_neutral_def by blast+
  show "own_session s t" by (rule own_fields [OF in_session_some [OF assms(3)]]) (simp_all add: f)
  show "session_dict t = session_dict s" using f(3,2) by (rule session_dict_fields)
qed

section \<open>Histories of requests\<close>

text \<open>A visit: the request, the id of its session, the random strings drawn before its handler, and the result.\<close>

datatype visit = Visit web_request string nat "exn + web_response"

definition visit_of :: "(nat \<Rightarrow> string) \<Rightarrow> string \<Rightarrow> web_request \<Rightarrow> 'w web_state \<Rightarrow> exn + web_response \<Rightarrow> visit" where
  "visit_of fresh name req s r =
     (let s0 = load_or_create_session fresh name req s
      in Visit req (case ws_session s0 of None \<Rightarrow> [] | Some h \<Rightarrow> hs_id h) (ws_drawn s0) r)"

fun visits :: "(nat \<Rightarrow> string) \<Rightarrow> string \<Rightarrow> int \<Rightarrow> 'w handler \<Rightarrow> web_request list \<Rightarrow> 'w web_state \<Rightarrow> visit list \<times> 'w web_state" where
  "visits fresh name ttl app [] s = ([], s)"
| "visits fresh name ttl app (req # reqs) s =
     (case wrap_filter (session_filter fresh name ttl) app req s of
        (r, s') \<Rightarrow> apfst ((#) (visit_of fresh name req s r)) (visits fresh name ttl app reqs s'))"

text \<open>A visit that starts a login with a state, one that completes a login with a state, and one that logs out.\<close>

definition starts_login :: "(nat \<Rightarrow> string) \<Rightarrow> visit \<Rightarrow> string \<Rightarrow> string \<Rightarrow> bool" where
  "starts_login fresh v sid st \<longleftrightarrow>
     (\<exists>req n r rid. v = Visit req sid n r \<and> redirected r \<and> route_of req = Authorization rid \<and> st = fresh n)"

definition logs_in :: "visit \<Rightarrow> string \<Rightarrow> string \<Rightarrow> bool" where
  "logs_in v sid st \<longleftrightarrow>
     (\<exists>req n r rid. v = Visit req sid n r \<and> redirected r \<and> route_of req = Callback rid \<and> dget (rq_query req) ''state'' = Some st)"

definition logs_out :: "visit \<Rightarrow> string \<Rightarrow> bool" where
  "logs_out v sid \<longleftrightarrow> (\<exists>req n r. v = Visit req sid n r \<and> route_of req = Logout)"

definition login_ok :: "(nat \<Rightarrow> string) \<Rightarrow> visit list \<Rightarrow> visit \<Rightarrow> bool" where
  "login_ok fresh past v \<longleftrightarrow> (\<forall>sid st. logs_in v sid st \<longrightarrow>
     (\<exists>e \<in> set past. starts_login fresh e sid st) \<and> (\<forall>e \<in> set past. \<forall>sid'. \<not> logs_in e sid' st) \<and>
     (\<forall>e \<in> set past. \<not> logs_out e sid))"

definition states_issued :: "(nat \<Rightarrow> string) \<Rightarrow> visit list \<Rightarrow> 'w web_state \<Rightarrow> bool" where
  "states_issued fresh past s \<longleftrightarrow>
     (\<forall>sid d st. live s sid = Some d \<longrightarrow> dget d OAUTH2_STATE_KEY = Some (AText st) \<longrightarrow>
        (\<exists>e \<in> set past. starts_login fresh e sid st) \<and> (\<forall>e \<in> set past. \<forall>sid'. \<not> logs_in e sid' st) \<and> st \<in> fresh ` {..<ws_drawn s})"

definition states_own :: "'w web_state \<Rightarrow> bool" where
  "states_own s \<longleftrightarrow>
     (\<forall>sid sid' d d' st. live s sid = Some d \<longrightarrow> live s sid' = Some d' \<longrightarrow>
        dget d OAUTH2_STATE_KEY = Some (AText st) \<longrightarrow> dget d' OAUTH2_STATE_KEY = Some (AText st) \<longrightarrow> sid = sid')"

definition logins_earned :: "visit list \<Rightarrow> 'w web_state \<Rightarrow> bool" where
  "logins_earned past s \<longleftrightarrow>
     (\<forall>sid d v. live s sid = Some d \<longrightarrow> dget d SECURITY_CONTEXT_KEY = Some v \<longrightarrow> (\<exists>e \<in> set past. \<exists>st. logs_in e sid st))"

definition logouts_final :: "(nat \<Rightarrow> string) \<Rightarrow> visit list \<Rightarrow> 'w web_state \<Rightarrow> bool" where
  "logouts_final fresh past s \<longleftrightarrow>
     (\<forall>e \<in> set past. \<forall>sid. logs_out e sid \<longrightarrow> live s sid = None \<and> sid \<in> fresh ` {..<ws_drawn s})"

definition states_used :: "(nat \<Rightarrow> string) \<Rightarrow> visit list \<Rightarrow> 'w web_state \<Rightarrow> bool" where
  "states_used fresh past s \<longleftrightarrow> (\<forall>e \<in> set past. \<forall>sid st. logs_in e sid st \<longrightarrow> st \<in> fresh ` {..<ws_drawn s})"

definition sound_sessions :: "(nat \<Rightarrow> string) \<Rightarrow> visit list \<Rightarrow> 'w web_state \<Rightarrow> bool" where
  "sound_sessions fresh past s \<longleftrightarrow> store_ok fresh s \<and> states_issued fresh past s \<and> states_own s \<and> logins_earned past s \<and>
     logouts_final fresh past s \<and> states_used fresh past s"

text \<open>One visit, by what its handler did to the session.\<close>

datatype visit_kind = Started | Completed string | LoggedOut | Quiet

definition visit_effect :: "(nat \<Rightarrow> string) \<Rightarrow> web_request \<Rightarrow> exn + web_response \<Rightarrow> 'w web_state \<Rightarrow> 'w web_state \<Rightarrow> visit_kind \<Rightarrow> bool" where
  "visit_effect fresh req r s0 s1 k \<longleftrightarrow> own_session s0 s1 \<and>
     (case k of
        Started \<Rightarrow> (\<exists>rid. route_of req = Authorization rid) \<and> redirected r \<and> ws_drawn s1 = ws_drawn s0 + 1 \<and>
          session_dict s1 = dput OAUTH2_STATE_KEY (AText (fresh (ws_drawn s0))) (session_dict s0)
      | Completed st \<Rightarrow> (\<exists>rid. route_of req = Callback rid) \<and> redirected r \<and> dget (rq_query req) ''state'' = Some st \<and>
          dget (session_dict s0) OAUTH2_STATE_KEY = Some (AText st) \<and> dget (session_dict s1) OAUTH2_STATE_KEY = None
      | LoggedOut \<Rightarrow> route_of req = Logout \<and> (\<exists>h. ws_session s1 = Some h \<and> hs_invalidated h)
      | Quiet \<Rightarrow> route_of req \<noteq> Logout \<and> ((\<exists>rid. route_of req \<in> {Authorization rid, Callback rid}) \<longrightarrow> \<not> redirected r) \<and>
          dget (session_dict s1) OAUTH2_STATE_KEY \<in> {dget (session_dict s0) OAUTH2_STATE_KEY, None} \<and>
          dget (session_dict s1) SECURITY_CONTEXT_KEY = dget (session_dict s0) SECURITY_CONTEXT_KEY)"

lemma login_routes_effect:
  assumes "login_routes fresh pv repo app req s0 = (r, s1)" "in_session s0" "session_neutral app"
  shows "\<exists>k. visit_effect fresh req r s0 s1 k"
proof (cases "route_of req")
  case (Authorization rid)
  then have h: "handle_authorization fresh repo rid req s0 = (r, s1)" using assms(1) by (simp add: login_routes_def)
  from authorization_effect [OF h assms(2)] show ?thesis
  proof
    assume "quiet_effect r s0 s1"
    then have "visit_effect fresh req r s0 s1 Quiet" using Authorization by (simp add: visit_effect_def quiet_effect_def)
    then show ?thesis ..
  next
    assume "own_session s0 s1 \<and> redirected r \<and> session_dict s1 = dput OAUTH2_STATE_KEY (AText (fresh (ws_drawn s0))) (session_dict s0) \<and>
      ws_drawn s1 = ws_drawn s0 + 1"
    then have "visit_effect fresh req r s0 s1 Started" using Authorization by (simp add: visit_effect_def)
    then show ?thesis ..
  qed
next
  case (Callback rid)
  then have h: "handle_callback pv repo rid req s0 = (r, s1)" using assms(1) by (simp add: login_routes_def)
  from callback_effect [OF h assms(2)] show ?thesis
  proof
    assume "quiet_effect r s0 s1"
    then have "visit_effect fresh req r s0 s1 Quiet" using Callback by (simp add: visit_effect_def quiet_effect_def)
    then show ?thesis ..
  next
    assume "own_session s0 s1 \<and> redirected r \<and> dget (session_dict s1) OAUTH2_STATE_KEY = None \<and>
      (\<exists>st. dget (rq_query req) ''state'' = Some st \<and> dget (session_dict s0) OAUTH2_STATE_KEY = Some (AText st))"
    then obtain st where "visit_effect fresh req r s0 s1 (Completed st)" using Callback by (auto simp: visit_effect_def)
    then show ?thesis ..
  qed
next
  case Logout
  then have "visit_effect fresh req r s0 s1 LoggedOut"
    using assms(1) logout_effect [OF _ assms(2), of req r s1] by (simp add: login_routes_def visit_effect_def)
  then show ?thesis ..
next
  case Elsewhere
  then have "visit_effect fresh req r s0 s1 Quiet"
    using assms(1) neutral_effect [OF assms(3) _ assms(2), of req r s1] by (simp add: login_routes_def visit_effect_def)
  then show ?thesis ..
qed

text \<open>A visit, seen from the sessions in the store before and after it.\<close>

definition kind_ok ::
  "(nat \<Rightarrow> string) \<Rightarrow> web_request \<Rightarrow> exn + web_response \<Rightarrow> nat \<Rightarrow> session_data \<Rightarrow> session_data \<Rightarrow> nat \<Rightarrow> visit_kind \<Rightarrow> bool" where
  "kind_ok fresh req r n d0 d1 drawn k \<longleftrightarrow>
     (case k of
        Started \<Rightarrow> (\<exists>rid. route_of req = Authorization rid) \<and> redirected r \<and> n < drawn \<and>
          dget d1 OAUTH2_STATE_KEY = Some (AText (fresh n)) \<and> dget d1 SECURITY_CONTEXT_KEY = dget d0 SECURITY_CONTEXT_KEY
      | Completed st \<Rightarrow> (\<exists>rid. route_of req = Callback rid) \<and> redirected r \<and> dget (rq_query req) ''state'' = Some st \<and>
          dget d0 OAUTH2_STATE_KEY = Some (AText st) \<and> dget d1 OAUTH2_STATE_KEY = None
      | LoggedOut \<Rightarrow> route_of req = Logout
      | Quiet \<Rightarrow> route_of req \<noteq> Logout \<and> ((\<exists>rid. route_of req \<in> {Authorization rid, Callback rid}) \<longrightarrow> \<not> redirected r) \<and>
          dget d1 OAUTH2_STATE_KEY \<in> {dget d0 OAUTH2_STATE_KEY, None} \<and>
          dget d1 SECURITY_CONTEXT_KEY = dget d0 SECURITY_CONTEXT_KEY)"

definition visit_step ::
  "(nat \<Rightarrow> string) \<Rightarrow> web_request \<Rightarrow> exn + web_response \<Rightarrow> string \<Rightarrow> nat \<Rightarrow> session_data \<Rightarrow> session_data \<Rightarrow> visit_kind \<Rightarrow>
   'w web_state \<Rightarrow> 'w web_state \<Rightarrow> bool" where
  "visit_step fresh req r sid n d0 d1 k s s' \<longleftrightarrow>
     (\<forall>key x. key \<in> {OAUTH2_STATE_KEY, SECURITY_CONTEXT_KEY} \<longrightarrow> dget d0 key = Some x \<longrightarrow> (\<exists>d. live s sid = Some d \<and> dget d key = Some x)) \<and>
     (live s sid = None \<longrightarrow> sid \<notin> fresh ` {..<ws_drawn s}) \<and> sid \<in> fresh ` {..<ws_drawn s'} \<and> ws_drawn s \<le> n \<and> n \<le> ws_drawn s' \<and>
     (\<forall>sid' d. sid' \<noteq> sid \<longrightarrow> live s' sid' = Some d \<longrightarrow> live s sid' = Some d) \<and>
     (\<forall>d. live s' sid = Some d \<longrightarrow> k \<noteq> LoggedOut \<and> d = d1) \<and> kind_ok fresh req r n d0 d1 (ws_drawn s') k"

lemma store_ok_live: "store_ok fresh s \<Longrightarrow> live s sid = Some d \<Longrightarrow> sid \<in> fresh ` {..<ws_drawn s}"
  by (auto simp: store_ok_def live_def)

lemma store_ok_entry:
  "store_ok fresh s \<Longrightarrow> dget (ws_store s) sid = Some (ref, e) \<Longrightarrow> ref < length (ws_heap s) \<and> sid \<in> fresh ` {..<ws_drawn s}"
  unfolding store_ok_def by blast

lemma times_keys [simp]: "dget (session_times now d) OAUTH2_STATE_KEY = dget d OAUTH2_STATE_KEY"
  by (rule session_times_other) simp_all

lemma fresh_image [simp]: "inj fresh \<Longrightarrow> fresh n \<in> fresh ` {..<m} \<longleftrightarrow> n < m"
  by (auto simp: inj_def)

lemma session_filter_visit:
  fixes s :: "'w web_state"
  assumes "store_ok fresh s" "inj fresh" "session_neutral app"
    and "wrap_filter (session_filter fresh name ttl) (login_routes fresh pv repo app) req s = (r, s')"
  shows "\<exists>sid n d0 d1 k. visit_of fresh name req s r = Visit req sid n r \<and> visit_step fresh req r sid n d0 d1 k s s' \<and> store_ok fresh s'"
proof -
  let ?s0 = "load_or_create_session fresh name req s"
  obtain r1 s1 where h: "login_routes fresh pv repo app req ?s0 = (r1, s1)" by (cases "login_routes fresh pv repo app req ?s0")
  have in0: "in_session ?s0"
    using load_session [of fresh name req s] store_ok_entry [OF assms(1)]
    by (auto simp: in_session_def loaded_old_def loaded_new_def)
  obtain k where k: "visit_effect fresh req r1 ?s0 s1 k" using login_routes_effect [OF h in0 assms(3)] by blast
  then have own: "own_session ?s0 s1" by (simp add: visit_effect_def)
  have s': "s' = persist_session ttl req s1" and red: "redirected r = redirected r1"
    using assms(4) by (auto simp: wrap_filter_def should_not_filter_def session_filter_def h Let_def on_response_def redirected_def
        split: option.splits sum.splits) (cases r1; auto)+
  note step = session_filter_step [OF assms(1,2) own, of ttl, folded s']
  from step obtain sh h1 where sh: "ws_session ?s0 = Some sh" "ws_session s1 = Some h1" "hs_id h1 = hs_id sh"
    "(\<exists>d. live s (hs_id sh) = Some d \<and> session_dict ?s0 = session_times (rq_time req) d \<and> ws_drawn ?s0 = ws_drawn s) \<or>
         (hs_id sh = fresh (ws_drawn s) \<and> session_dict ?s0 = session_times (rq_time req) [] \<and> ws_drawn ?s0 = ws_drawn s + 1)"
    "live s' (hs_id sh) = (if hs_invalidated h1 then None else Some (session_dict s1))"
    "\<forall>sid d. sid \<noteq> hs_id sh \<longrightarrow> live s' sid = Some d \<longrightarrow> live s sid = Some d" "ws_drawn s' = ws_drawn s1"
    unfolding session_step_def by blast
  have drawn: "ws_drawn ?s0 \<le> ws_drawn s1" "ws_drawn s \<le> ws_drawn ?s0" using own sh(4) by (auto simp: own_session_def)
  have kind: "kind_ok fresh req r (ws_drawn ?s0) (session_dict ?s0) (session_dict s1) (ws_drawn s') k"
    using k by (cases k) (auto simp: visit_effect_def kind_ok_def red sh(7))
  have "visit_step fresh req r (hs_id sh) (ws_drawn ?s0) (session_dict ?s0) (session_dict s1) k s s'"
    unfolding visit_step_def
  proof (intro conjI)
    show "\<forall>key x. key \<in> {OAUTH2_STATE_KEY, SECURITY_CONTEXT_KEY} \<longrightarrow> dget (session_dict ?s0) key = Some x \<longrightarrow>
        (\<exists>d. live s (hs_id sh) = Some d \<and> dget d key = Some x)" using sh(4) by auto
    show "live s (hs_id sh) = None \<longrightarrow> hs_id sh \<notin> fresh ` {..<ws_drawn s}" using sh(4) assms(2) by (auto simp: inj_eq)
    show "hs_id sh \<in> fresh ` {..<ws_drawn s'}"
      using sh(4,7) drawn store_ok_live [OF assms(1)] assms(2) by (fastforce simp: sh(7))
    show "\<forall>d. live s' (hs_id sh) = Some d \<longrightarrow> k \<noteq> LoggedOut \<and> d = session_dict s1"
      using sh(2,5) k by (auto simp: visit_effect_def split: if_splits)
  qed (use sh(6,7) drawn kind in auto)
  moreover have "visit_of fresh name req s r = Visit req (hs_id sh) (ws_drawn ?s0) r" by (simp add: visit_of_def sh(1) Let_def)
  ultimately show ?thesis using step by blast
qed

section \<open>Soundness of logins\<close>

text \<open>Facts of a step in a sound history, by which each part of the invariant is kept.\<close>

lemma visit_step_data:
  assumes "visit_step fresh req r sid n d0 d1 k s s'" "key \<in> {OAUTH2_STATE_KEY, SECURITY_CONTEXT_KEY}" "dget d0 key = Some x"
  shows "\<exists>d. live s sid = Some d \<and> dget d key = Some x"
  using assms unfolding visit_step_def by blast

lemma visit_step_other:
  assumes "visit_step fresh req r sid n d0 d1 k s s'" "live s' sid' = Some d"
  shows "if sid' = sid then k \<noteq> LoggedOut \<and> d = d1 else live s sid' = Some d"
  using assms unfolding visit_step_def by auto

lemma visit_step_drawn:
  assumes "visit_step fresh req r sid n d0 d1 k s s'"
  shows "ws_drawn s \<le> n" "n \<le> ws_drawn s'" "sid \<in> fresh ` {..<ws_drawn s'}" "live s sid = None \<Longrightarrow> sid \<notin> fresh ` {..<ws_drawn s}"
    "x \<in> fresh ` {..<ws_drawn s} \<Longrightarrow> x \<in> fresh ` {..<ws_drawn s'}"
  using assms unfolding visit_step_def by auto

lemma visit_step_kind: "visit_step fresh req r sid n d0 d1 k s s' \<Longrightarrow> kind_ok fresh req r n d0 d1 (ws_drawn s') k"
  by (simp add: visit_step_def)

lemma kind_logs_in:
  assumes "kind_ok fresh req r n d0 d1 drawn k"
  shows "logs_in (Visit req sid n r) sid' st \<longleftrightarrow> sid' = sid \<and> k = Completed st"
  using assms by (cases k) (auto simp: kind_ok_def logs_in_def)

lemma kind_logs_out:
  assumes "kind_ok fresh req r n d0 d1 drawn k"
  shows "logs_out (Visit req sid n r) sid' \<longleftrightarrow> sid' = sid \<and> k = LoggedOut"
  using assms by (cases k) (auto simp: kind_ok_def logs_out_def)

lemma kind_starts:
  assumes "kind_ok fresh req r n d0 d1 drawn k"
  shows "starts_login fresh (Visit req sid n r) sid' st \<longleftrightarrow> sid' = sid \<and> k = Started \<and> st = fresh n"
  using assms by (cases k) (auto simp: kind_ok_def starts_login_def)

text \<open>The state of the session after the visit: the one it had, or the one just drawn.\<close>

lemma kind_state:
  assumes "visit_step fresh req r sid n d0 d1 k s s'" "k \<noteq> LoggedOut" "dget d1 OAUTH2_STATE_KEY = Some (AText st)"
  shows "(k = Started \<and> st = fresh n \<and> n < ws_drawn s') \<or>
    ((\<forall>st. k \<noteq> Completed st) \<and> (\<exists>d. live s sid = Some d \<and> dget d OAUTH2_STATE_KEY = Some (AText st)))"
proof (cases k)
  case Quiet
  then have "dget d0 OAUTH2_STATE_KEY = Some (AText st)"
    using visit_step_kind [OF assms(1)] assms(3) by (auto simp: kind_ok_def)
  then show ?thesis using visit_step_data [OF assms(1), of OAUTH2_STATE_KEY] Quiet by simp
qed (use visit_step_kind [OF assms(1)] assms(2,3) in \<open>auto simp: kind_ok_def\<close>)

lemma kind_context:
  assumes "visit_step fresh req r sid n d0 d1 k s s'" "k \<noteq> LoggedOut" "dget d1 SECURITY_CONTEXT_KEY = Some v"
  shows "(\<exists>st. k = Completed st) \<or> (\<exists>d. live s sid = Some d \<and> dget d SECURITY_CONTEXT_KEY = Some v)"
proof (cases "\<exists>st. k = Completed st")
  case False
  then have "dget d0 SECURITY_CONTEXT_KEY = Some v"
    using visit_step_kind [OF assms(1)] assms(2,3) by (cases k) (auto simp: kind_ok_def)
  then show ?thesis using visit_step_data [OF assms(1), of SECURITY_CONTEXT_KEY] by simp
qed simp

lemma kind_completed:
  assumes "visit_step fresh req r sid n d0 d1 (Completed st) s s'"
  shows "\<exists>d. live s sid = Some d \<and> dget d OAUTH2_STATE_KEY = Some (AText st)"
  using visit_step_kind [OF assms] visit_step_data [OF assms, of OAUTH2_STATE_KEY] by (simp add: kind_ok_def)

lemma sound_parts:
  assumes "sound_sessions fresh past s"
  shows "store_ok fresh s" "states_own s" "logins_earned past s" "logouts_final fresh past s" "states_used fresh past s"
    and "live s sid = Some d \<Longrightarrow> dget d OAUTH2_STATE_KEY = Some (AText st) \<Longrightarrow>
      (\<exists>e \<in> set past. starts_login fresh e sid st) \<and> (\<forall>e \<in> set past. \<forall>sid'. \<not> logs_in e sid' st) \<and> st \<in> fresh ` {..<ws_drawn s}"
  using assms unfolding sound_sessions_def states_issued_def by blast+

lemma states_issued_step:
  assumes "sound_sessions fresh past s" "inj fresh" "visit_step fresh req r sid n d0 d1 k s s'"
  shows "states_issued fresh (past @ [Visit req sid n r]) s'"
  unfolding states_issued_def
proof (intro allI impI)
  fix sid' d st assume live: "live s' sid' = Some d" and st: "dget d OAUTH2_STATE_KEY = Some (AText st)"
  let ?v = "Visit req sid n r"
  note kind = visit_step_kind [OF assms(3)]
  have old: "(\<exists>e \<in> set (past @ [?v]). starts_login fresh e sid' st) \<and> (\<forall>e \<in> set (past @ [?v]). \<forall>sid''. \<not> logs_in e sid'' st) \<and>
      st \<in> fresh ` {..<ws_drawn s'}"
    if e: "live s sid' = Some e" "dget e OAUTH2_STATE_KEY = Some (AText st)" and k: "k \<noteq> Completed st" for e
    using sound_parts(6) [OF assms(1) e] visit_step_drawn(5) [OF assms(3)] kind_logs_in [OF kind] k by auto
  note other = visit_step_other [OF assms(3) live]
  show "(\<exists>e \<in> set (past @ [?v]). starts_login fresh e sid' st) \<and> (\<forall>e \<in> set (past @ [?v]). \<forall>sid''. \<not> logs_in e sid'' st) \<and>
      st \<in> fresh ` {..<ws_drawn s'}"
  proof (cases "sid' = sid")
    case False
    then have "live s sid' = Some d" using other by simp
    moreover have "k \<noteq> Completed st"
      using kind_completed [of fresh req r sid n d0 d1 st s s'] assms(3) calculation st sound_parts(2) [OF assms(1)] False
      unfolding states_own_def by blast
    ultimately show ?thesis using old st by blast
  next
    case True
    then have k: "k \<noteq> LoggedOut" "d = d1" using other by simp_all
    from kind_state [OF assms(3) k(1) st [unfolded k(2)]] show ?thesis
    proof
      assume k': "k = Started \<and> st = fresh n \<and> n < ws_drawn s'"
      then have "st \<notin> fresh ` {..<ws_drawn s}" using assms(2) visit_step_drawn(1) [OF assms(3)] by simp
      then have "\<forall>e \<in> set past. \<forall>sid''. \<not> logs_in e sid'' st"
        using sound_parts(5) [OF assms(1)] unfolding states_used_def by blast
      then show ?thesis using k' True assms(2) kind_starts [OF kind] kind_logs_in [OF kind] by simp
    next
      assume "(\<forall>st. k \<noteq> Completed st) \<and> (\<exists>d. live s sid = Some d \<and> dget d OAUTH2_STATE_KEY = Some (AText st))"
      then show ?thesis using old True by blast
    qed
  qed
qed

lemma states_own_step:
  assumes "sound_sessions fresh past s" "inj fresh" "visit_step fresh req r sid n d0 d1 k s s'"
  shows "states_own s'"
proof -
  have source: "(sid' = sid \<and> st = fresh n) \<or> (\<exists>e. live s sid' = Some e \<and> dget e OAUTH2_STATE_KEY = Some (AText st))"
    if "live s' sid' = Some d" "dget d OAUTH2_STATE_KEY = Some (AText st)" for sid' d st
    using visit_step_other [OF assms(3) that(1)] kind_state [OF assms(3)] that by (auto split: if_splits)
  have new: "\<not> (\<exists>e. live s sid' = Some e \<and> dget e OAUTH2_STATE_KEY = Some (AText (fresh n)))" for sid'
    using sound_parts(6) [OF assms(1)] visit_step_drawn(1) [OF assms(3)] assms(2) by (metis fresh_image linorder_not_less)
  show ?thesis
    unfolding states_own_def
  proof (intro allI impI)
    fix sid' sid'' d' d'' st
    assume "live s' sid' = Some d'" "live s' sid'' = Some d''" "dget d' OAUTH2_STATE_KEY = Some (AText st)"
      "dget d'' OAUTH2_STATE_KEY = Some (AText st)"
    with source [of sid' d' st] source [of sid'' d'' st] new sound_parts(2) [OF assms(1)]
    show "sid' = sid''" unfolding states_own_def by blast
  qed
qed

lemma logins_earned_step:
  assumes "sound_sessions fresh past s" "visit_step fresh req r sid n d0 d1 k s s'"
  shows "logins_earned (past @ [Visit req sid n r]) s'"
  unfolding logins_earned_def
proof (intro allI impI)
  fix sid' d v assume live: "live s' sid' = Some d" and v: "dget d SECURITY_CONTEXT_KEY = Some v"
  have "(\<exists>st. sid' = sid \<and> k = Completed st) \<or> (\<exists>e. live s sid' = Some e \<and> dget e SECURITY_CONTEXT_KEY = Some v)"
    using visit_step_other [OF assms(2) live] kind_context [OF assms(2)] v live by (auto split: if_splits)
  then show "\<exists>e \<in> set (past @ [Visit req sid n r]). \<exists>st. logs_in e sid' st"
  proof (elim disjE exE conjE)
    fix st assume "sid' = sid" "k = Completed st"
    then have "logs_in (Visit req sid n r) sid' st" using kind_logs_in [OF visit_step_kind [OF assms(2)]] by simp
    then show ?thesis by auto
  next
    fix e assume "live s sid' = Some e" "dget e SECURITY_CONTEXT_KEY = Some v"
    then have "\<exists>e \<in> set past. \<exists>st. logs_in e sid' st"
      using sound_parts(3) [OF assms(1)] unfolding logins_earned_def by blast
    then show ?thesis by auto
  qed
qed

lemma logouts_step:
  assumes "sound_sessions fresh past s" "visit_step fresh req r sid n d0 d1 k s s'"
  shows "logouts_final fresh (past @ [Visit req sid n r]) s'" "\<forall>e \<in> set past. \<not> logs_out e sid"
proof -
  note final = sound_parts(4) [OF assms(1), unfolded logouts_final_def]
  show here: "\<forall>e \<in> set past. \<not> logs_out e sid"
  proof (rule ballI, rule notI)
    fix e assume "e \<in> set past" "logs_out e sid"
    then have "live s sid = None" "sid \<in> fresh ` {..<ws_drawn s}" using final by simp_all
    then show False using visit_step_drawn(4) [OF assms(2)] by simp
  qed
  have "live s' sid' = None \<and> sid' \<in> fresh ` {..<ws_drawn s'}" if "e \<in> set (past @ [Visit req sid n r])" "logs_out e sid'" for e sid'
  proof (cases "e \<in> set past")
    case True
    then have "sid' \<noteq> sid" "live s sid' = None" "sid' \<in> fresh ` {..<ws_drawn s}" using here final that(2) by auto
    then show ?thesis
      using visit_step_other [OF assms(2), of sid'] visit_step_drawn(5) [OF assms(2)] by (cases "live s' sid'") auto
  next
    case False
    then have "logs_out (Visit req sid n r) sid'" using that by auto
    then have "sid' = sid" "k = LoggedOut" using kind_logs_out [OF visit_step_kind [OF assms(2)]] by blast+
    then show ?thesis
      using visit_step_other [OF assms(2), of sid] visit_step_drawn(3) [OF assms(2)] by (cases "live s' sid") auto
  qed
  then show "logouts_final fresh (past @ [Visit req sid n r]) s'" unfolding logouts_final_def by blast
qed

lemma visit_sound:
  assumes "sound_sessions fresh past s" "inj fresh" "session_neutral app"
    and "wrap_filter (session_filter fresh name ttl) (login_routes fresh pv repo app) req s = (r, s')"
  shows "sound_sessions fresh (past @ [visit_of fresh name req s r]) s' \<and> login_ok fresh past (visit_of fresh name req s r)"
proof -
  from session_filter_visit [OF sound_parts(1) [OF assms(1)] assms(2-4)] obtain sid n d0 d1 k where
    v: "visit_of fresh name req s r = Visit req sid n r" and step: "visit_step fresh req r sid n d0 d1 k s s'" and ok: "store_ok fresh s'"
    by blast
  note kind = visit_step_kind [OF step]
  have earned: "(\<exists>e \<in> set past. starts_login fresh e sid st) \<and> (\<forall>e \<in> set past. \<forall>sid'. \<not> logs_in e sid' st) \<and> st \<in> fresh ` {..<ws_drawn s}"
    if "k = Completed st" for st
    using kind_completed [OF step [unfolded that]] sound_parts(6) [OF assms(1)] by blast
  have "states_used fresh (past @ [Visit req sid n r]) s'"
  proof -
    have "st \<in> fresh ` {..<ws_drawn s'}" if "e \<in> set (past @ [Visit req sid n r])" "logs_in e sid' st" for e sid' st
    proof (cases "e \<in> set past")
      case True
      then have "st \<in> fresh ` {..<ws_drawn s}" using sound_parts(5) [OF assms(1)] that(2) unfolding states_used_def by simp
      then show ?thesis by (rule visit_step_drawn(5) [OF step])
    next
      case False
      then have "k = Completed st" using that kind_logs_in [OF kind] by auto
      then show ?thesis using earned visit_step_drawn(5) [OF step] by simp
    qed
    then show ?thesis unfolding states_used_def by blast
  qed
  then have "sound_sessions fresh (past @ [Visit req sid n r]) s'"
    unfolding sound_sessions_def
    by (intro conjI ok states_issued_step [OF assms(1,2) step] states_own_step [OF assms(1,2) step] logins_earned_step [OF assms(1) step]
      logouts_step(1) [OF assms(1) step])
  moreover have "login_ok fresh past (Visit req sid n r)"
    using earned logouts_step(2) [OF assms(1) step] by (auto simp: login_ok_def kind_logs_in [OF kind])
  ultimately show ?thesis unfolding v by blast
qed

lemma visits_sound:
  assumes "visits fresh name ttl (login_routes fresh pv repo app) reqs s = (vs, s')" "inj fresh" "session_neutral app"
    and "sound_sessions fresh past s"
  shows "sound_sessions fresh (past @ vs) s' \<and> (\<forall>j < length vs. login_ok fresh (past @ take j vs) (vs ! j))"
  using assms
proof (induction reqs arbitrary: s past vs)
  case (Cons req reqs)
  let ?h = "login_routes fresh pv repo app"
  obtain r t where r: "wrap_filter (session_filter fresh name ttl) ?h req s = (r, t)"
    by (cases "wrap_filter (session_filter fresh name ttl) ?h req s")
  obtain ws where ws: "visits fresh name ttl ?h reqs t = (ws, s')" "vs = visit_of fresh name req s r # ws"
    using Cons.prems(1) r by (cases "visits fresh name ttl ?h reqs t") auto
  note now = visit_sound [OF Cons.prems(4,2,3) r]
  from Cons.IH [OF ws(1) Cons.prems(2,3), of "past @ [visit_of fresh name req s r]"] now
  have "sound_sessions fresh ((past @ [visit_of fresh name req s r]) @ ws) s'"
    "\<forall>j < length ws. login_ok fresh ((past @ [visit_of fresh name req s r]) @ take j ws) (ws ! j)" by blast+
  with now show ?case by (auto simp: ws less_Suc_eq_0_disj)
qed simp

text \<open>A login: the authorization redirect and the callback with its state; a second callback with the same state is refused.\<close>

definition example_provider :: "nat provider" where
  "example_provider =
     \<lparr>pv_post = (\<lambda>url data w. (Inr (200, [(''access_token'', VStr ''tok'')]), w + 1)),
      pv_get = (\<lambda>url auth w. (Inr (200, [(''sub'', VStr ''ann'')]), w + 1)),
      pv_str = (\<lambda>v. []), pv_show = (\<lambda>v. [])\<rparr>"

definition example_fresh :: "nat \<Rightarrow> string" where
  "example_fresh n = CHR ''t'' # replicate n CHR ''t''"

definition login_request :: "string \<Rightarrow> (string, string) dict \<Rightarrow> (string, string) dict \<Rightarrow> web_request" where
  "login_request path cookies query =
     \<lparr>rq_method = ''GET'', rq_path = path, rq_headers = [], rq_cookies = cookies, rq_query = query, rq_path_params = [],
      rq_time = 0, rq_loaded = 0, rq_saved = 0\<rparr>"

definition login_requests :: "web_request list" where
  "login_requests =
     [login_request ''/oauth2/authorization/google'' [] [],
      login_request ''/login/oauth2/code/google'' [(''S'', ''t'')] [(''state'', ''tt''), (''code'', ''c'')],
      login_request ''/login/oauth2/code/google'' [(''S'', ''t'')] [(''state'', ''tt''), (''code'', ''c'')]]"

definition not_found :: "nat handler" where
  "not_found req s = (Inr (plain_response 404 (Content [])), s)"

definition empty_state :: "nat web_state" where
  "empty_state = \<lparr>ws_context = None, ws_session = None, ws_transaction_id = None, ws_request = None, ws_store = [], ws_heap = [],
     ws_drawn = 0, ws_world = 0\<rparr>"

definition login_example :: "visit list \<times> nat web_state" where
  "login_example = visits example_fresh ''S'' 1800
     (login_routes example_fresh example_provider (new_repo [google ''id'' ''secret'' ''cb'']) not_found) login_requests empty_state"

lemma login_example_visits:
  "fst login_example ! 1 = Visit (login_requests ! 1) ''t'' 2 (Inr (redirect_response ''/''))"
  "fst login_example ! 2 = Visit (login_requests ! 2) ''t'' 2 (Inr (json_error 400 ''invalid_state'' ''OAuth2 state parameter mismatch''))"
  "length (fst login_example) = 3" "route_of (login_requests ! 1) = Callback ''google''"
  "dget (rq_query (login_requests ! 1)) ''state'' = Some ''tt''"
  by code_simp+


section \<open>What a login does not do\<close>

text \<open>The id of the session is the one the visitor came with, before and after the login.\<close>

lemma session_id_kept:
  assumes "handle_callback pv repo rid req s = (r, t)" "in_session s"
  shows "map_option hs_id (ws_session t) = map_option hs_id (ws_session s)"
  using callback_effect [OF assms] by (auto simp: quiet_effect_def own_session_def)

text \<open>When the provider refuses the user information, the login succeeds with a context that is not authenticated.\<close>

lemma login_without_user:
  assumes "truthy (opt_val (dget tr ''access_token''))" "exchange_code pv reg code (ws_world s) = (Inr tr, w1)"
    and "fetch_user_info pv reg (py_str pv (opt_val (dget tr ''access_token''))) w1 = (Inr [], w2)" "in_session s"
  shows "\<exists>url t. complete_login pv reg code req s = (Inr (redirect_response url), t) \<and>
     dget (session_dict t) SECURITY_CONTEXT_KEY = Some (AContext anonymous)"
proof -
  have ctx: "build_security_context pv [] = anonymous"
    by (simp add: build_security_context_def py_or_def opt_val_def user_attributes_def anonymous_def)
  let ?s2 = "s\<lparr>ws_world := w1, ws_world := w2\<rparr>"
  have i2: "in_session ?s2" using assms(4) by (simp add: in_session_def)
  note o3 = own_set_attribute [OF in_session_some [OF i2], of SECURITY_CONTEXT_KEY "AContext anonymous"]
  show ?thesis
    using assms(1-3) session_dict_remove [OF in_session_own [OF i2 o3], of REDIRECT_URI_KEY] session_dict_set [OF i2]
    by (auto simp: complete_login_def with_world_def Let_def ctx)
qed

end
