(* ===== verification/Caching.thy ===== *)
theory Caching
  imports Exceptions
begin

text \<open>
  The package \<^verbatim>\<open>cache\<close>: the in-memory adapter (\<^verbatim>\<open>adapters/memory.py\<close>), the failover manager (\<^verbatim>\<open>manager.py\<close>) and
  the decorators (\<^verbatim>\<open>decorators.py\<close>), with the adapter that CQRS puts around a cache (\<^verbatim>\<open>cqrs/cache/adapter.py\<close>). A cache is
  a record of operations on a state; the clock reading is their first argument. \<^verbatim>\<open>None\<close> stands for a missing entry, as in the code,
  so a value \<^verbatim>\<open>None\<close> is never found again.
\<close>

record 's cache_ops =
  co_get :: "rat \<Rightarrow> string \<Rightarrow> 's \<Rightarrow> (exn + pyval) \<times> 's"
  co_put :: "rat \<Rightarrow> string \<Rightarrow> pyval \<Rightarrow> rat option \<Rightarrow> 's \<Rightarrow> (exn + unit) \<times> 's"
  co_evict :: "rat \<Rightarrow> string \<Rightarrow> 's \<Rightarrow> (exn + bool) \<times> 's"
  co_clear :: "rat \<Rightarrow> 's \<Rightarrow> (exn + unit) \<times> 's"

section \<open>InMemoryCache\<close>

type_synonym mem_store = "(string, pyval \<times> rat option) dict"

definition expired :: "rat \<Rightarrow> rat option \<Rightarrow> bool" where
  "expired now expires_at = (case expires_at of None \<Rightarrow> False | Some t \<Rightarrow> t < now)"

definition mem_get :: "rat \<Rightarrow> string \<Rightarrow> mem_store \<Rightarrow> (exn + pyval) \<times> mem_store" where
  "mem_get now key store =
     (case dget store key of
        None \<Rightarrow> (Inr VNone, store)
      | Some (v, expires_at) \<Rightarrow>
          if expired now expires_at then (Inr VNone, ddel key store) else (Inr v, store))"

definition mem_put :: "rat \<Rightarrow> string \<Rightarrow> pyval \<Rightarrow> rat option \<Rightarrow> mem_store \<Rightarrow> (exn + unit) \<times> mem_store" where
  "mem_put now key v ttl store = (Inr (), dput key (v, map_option (\<lambda>d. now + d) ttl) store)"

definition mem_evict :: "rat \<Rightarrow> string \<Rightarrow> mem_store \<Rightarrow> (exn + bool) \<times> mem_store" where
  "mem_evict now key store = (if dmem key store then (Inr True, ddel key store) else (Inr False, store))"

definition mem_exists :: "rat \<Rightarrow> string \<Rightarrow> mem_store \<Rightarrow> (exn + bool) \<times> mem_store" where
  "mem_exists now key store =
     (case dget store key of
        None \<Rightarrow> (Inr False, store)
      | Some (_, expires_at) \<Rightarrow>
          if expired now expires_at then (Inr False, ddel key store) else (Inr True, store))"

definition listed :: "rat \<Rightarrow> rat option \<Rightarrow> bool" where
  "listed now expires_at = (case expires_at of None \<Rightarrow> True | Some t \<Rightarrow> now < t)"

definition mem_size :: "rat \<Rightarrow> mem_store \<Rightarrow> nat" where
  "mem_size now store = length (filter (\<lambda>(k, v, e). listed now e) store)"

definition mem_keys :: "rat \<Rightarrow> mem_store \<Rightarrow> string list" where
  "mem_keys now store = map fst (filter (\<lambda>(k, v, e). listed now e) store)"

definition mem_clear :: "rat \<Rightarrow> mem_store \<Rightarrow> (exn + unit) \<times> mem_store" where
  "mem_clear now store = (Inr (), [])"

definition memory_cache :: "mem_store cache_ops" where
  "memory_cache = \<lparr>co_get = mem_get, co_put = mem_put, co_evict = mem_evict, co_clear = mem_clear\<rparr>"

section \<open>QueryCacheAdapter\<close>

definition cqrs_prefix :: string where
  "cqrs_prefix = '':cqrs:''"

definition adapter_get :: "'s cache_ops option \<Rightarrow> rat \<Rightarrow> string \<Rightarrow> 's \<Rightarrow> (exn + pyval) \<times> 's" where
  "adapter_get inner now key s =
     (case inner of
        None \<Rightarrow> (Inr VNone, s)
      | Some c \<Rightarrow> (case co_get c now (cqrs_prefix @ key) s of (Inl e, s') \<Rightarrow> (Inr VNone, s') | (Inr v, s') \<Rightarrow> (Inr v, s')))"

definition adapter_put :: "'s cache_ops option \<Rightarrow> rat \<Rightarrow> string \<Rightarrow> pyval \<Rightarrow> rat option \<Rightarrow> 's \<Rightarrow> (exn + unit) \<times> 's" where
  "adapter_put inner now key v ttl s =
     (case inner of
        None \<Rightarrow> (Inr (), s)
      | Some c \<Rightarrow> (case co_put c now (cqrs_prefix @ key) v ttl s of (_, s') \<Rightarrow> (Inr (), s')))"

definition adapter_evict :: "'s cache_ops option \<Rightarrow> rat \<Rightarrow> string \<Rightarrow> 's \<Rightarrow> (exn + bool) \<times> 's" where
  "adapter_evict inner now key s =
     (case inner of
        None \<Rightarrow> (Inr False, s)
      | Some c \<Rightarrow> (case co_evict c now (cqrs_prefix @ key) s of (Inl e, s') \<Rightarrow> (Inr False, s') | (Inr b, s') \<Rightarrow> (Inr b, s')))"

definition adapter_clear :: "'s cache_ops option \<Rightarrow> rat \<Rightarrow> 's \<Rightarrow> (exn + unit) \<times> 's" where
  "adapter_clear inner now s =
     (case inner of None \<Rightarrow> (Inr (), s) | Some c \<Rightarrow> (case co_clear c now s of (_, s') \<Rightarrow> (Inr (), s')))"

definition query_cache_adapter :: "'s cache_ops option \<Rightarrow> 's cache_ops" where
  "query_cache_adapter inner =
     \<lparr>co_get = adapter_get inner, co_put = adapter_put inner, co_evict = adapter_evict inner,
      co_clear = adapter_clear inner\<rparr>"

section \<open>CacheManager\<close>

definition manager_get :: "'p cache_ops \<Rightarrow> 'f cache_ops \<Rightarrow> rat \<Rightarrow> string \<Rightarrow> 'p \<times> 'f \<Rightarrow> (exn + pyval) \<times> 'p \<times> 'f" where
  "manager_get primary fallback now key s =
     (case co_get primary now key (fst s) of
        (r, p) \<Rightarrow>
          (case r of
             Inr v \<Rightarrow> if v \<noteq> VNone then (Inr v, p, snd s)
                      else (case co_get fallback now key (snd s) of (r', f) \<Rightarrow> (r', p, f))
           | Inl _ \<Rightarrow> (case co_get fallback now key (snd s) of (r', f) \<Rightarrow> (r', p, f))))"

definition manager_put ::
  "'p cache_ops \<Rightarrow> 'f cache_ops \<Rightarrow> rat \<Rightarrow> string \<Rightarrow> pyval \<Rightarrow> rat option \<Rightarrow> 'p \<times> 'f \<Rightarrow> (exn + unit) \<times> 'p \<times> 'f" where
  "manager_put primary fallback now key v ttl s =
     (case co_put primary now key v ttl (fst s) of
        (_, p) \<Rightarrow> (case co_put fallback now key v ttl (snd s) of (r, f) \<Rightarrow> (r, p, f)))"

definition manager_evict :: "'p cache_ops \<Rightarrow> 'f cache_ops \<Rightarrow> rat \<Rightarrow> string \<Rightarrow> 'p \<times> 'f \<Rightarrow> (exn + bool) \<times> 'p \<times> 'f" where
  "manager_evict primary fallback now key s =
     (case co_evict primary now key (fst s) of
        (pr, p) \<Rightarrow>
          (case co_evict fallback now key (snd s) of
             (Inl e, f) \<Rightarrow> (Inl e, p, f)
           | (Inr b, f) \<Rightarrow> (Inr ((case pr of Inl _ \<Rightarrow> False | Inr a \<Rightarrow> a) \<or> b), p, f)))"

definition manager_clear :: "'p cache_ops \<Rightarrow> 'f cache_ops \<Rightarrow> rat \<Rightarrow> 'p \<times> 'f \<Rightarrow> (exn + unit) \<times> 'p \<times> 'f" where
  "manager_clear primary fallback now s =
     (case co_clear primary now (fst s) of
        (_, p) \<Rightarrow> (case co_clear fallback now (snd s) of (r, f) \<Rightarrow> (r, p, f)))"

definition cache_manager :: "'p cache_ops \<Rightarrow> 'f cache_ops \<Rightarrow> ('p \<times> 'f) cache_ops" where
  "cache_manager primary fallback =
     \<lparr>co_get = manager_get primary fallback, co_put = manager_put primary fallback,
      co_evict = manager_evict primary fallback, co_clear = manager_clear primary fallback\<rparr>"

section \<open>The decorators\<close>

text \<open>
  \<open>resolved_key\<close> is what \<^verbatim>\<open>key.format(**arguments)\<close> gives for the arguments of the call, or the exception it raises. The
  decorated function runs in the world \<open>'w\<close>, which the clock reads. Binding the arguments cannot fail
  where the function itself was called with them.
\<close>

definition cache_wrapper ::
  "'s cache_ops \<Rightarrow> ('w \<Rightarrow> rat) \<Rightarrow> rat option \<Rightarrow> exn + string \<Rightarrow> ('w \<Rightarrow> (exn + pyval) \<times> 'w) \<Rightarrow> 's \<times> 'w \<Rightarrow> (exn + pyval) \<times> 's \<times> 'w" where
  "cache_wrapper backend clock ttl resolved_key func = (\<lambda>(s, w).
     (case resolved_key of
        Inl e \<Rightarrow> (Inl e, s, w)
      | Inr key \<Rightarrow>
          (case co_get backend (clock w) key s of
             (Inl e, s1) \<Rightarrow> (Inl e, s1, w)
           | (Inr cached, s1) \<Rightarrow>
               if cached \<noteq> VNone then (Inr cached, s1, w)
               else (case func w of
                  (Inl e, w1) \<Rightarrow> (Inl e, s1, w1)
                | (Inr v, w1) \<Rightarrow>
                    (case co_put backend (clock w1) key v ttl s1 of
                       (Inl e, s2) \<Rightarrow> (Inl e, s2, w1)
                     | (Inr _, s2) \<Rightarrow> (Inr v, s2, w1))))))"

definition cache_evict_wrapper ::
  "'s cache_ops \<Rightarrow> ('w \<Rightarrow> rat) \<Rightarrow> bool \<Rightarrow> exn + string \<Rightarrow> ('w \<Rightarrow> (exn + pyval) \<times> 'w) \<Rightarrow> 's \<times> 'w \<Rightarrow> (exn + pyval) \<times> 's \<times> 'w" where
  "cache_evict_wrapper backend clock all_entries resolved_key func = (\<lambda>(s, w).
     (case func w of
        (Inl e, w1) \<Rightarrow> (Inl e, s, w1)
      | (Inr v, w1) \<Rightarrow>
          if all_entries
          then (case co_clear backend (clock w1) s of (Inl e, s1) \<Rightarrow> (Inl e, s1, w1) | (Inr _, s1) \<Rightarrow> (Inr v, s1, w1))
          else (case resolved_key of
             Inl e \<Rightarrow> (Inl e, s, w1)
           | Inr key \<Rightarrow>
               (case co_evict backend (clock w1) key s of (Inl e, s1) \<Rightarrow> (Inl e, s1, w1) | (Inr _, s1) \<Rightarrow> (Inr v, s1, w1)))))"

definition cache_put_wrapper ::
  "'s cache_ops \<Rightarrow> ('w \<Rightarrow> rat) \<Rightarrow> rat option \<Rightarrow> exn + string \<Rightarrow> ('w \<Rightarrow> (exn + pyval) \<times> 'w) \<Rightarrow> 's \<times> 'w \<Rightarrow> (exn + pyval) \<times> 's \<times> 'w" where
  "cache_put_wrapper backend clock ttl resolved_key func = (\<lambda>(s, w).
     (case func w of
        (Inl e, w1) \<Rightarrow> (Inl e, s, w1)
      | (Inr v, w1) \<Rightarrow>
          (case resolved_key of
             Inl e \<Rightarrow> (Inl e, s, w1)
           | Inr key \<Rightarrow>
               (case co_put backend (clock w1) key v ttl s of (Inl e, s1) \<Rightarrow> (Inl e, s1, w1) | (Inr _, s1) \<Rightarrow> (Inr v, s1, w1)))))"

section \<open>The interface of a cache\<close>

text \<open>
  What users of a cache rely on. \<open>view t s k\<close> is what a lookup at time \<open>t\<close> finds; the operations
  succeed and change nothing about other keys, now or later.
\<close>

definition put_view :: "rat \<Rightarrow> pyval \<Rightarrow> rat option \<Rightarrow> rat \<Rightarrow> pyval" where
  "put_view now v ttl t = (if expired t (map_option (\<lambda>d. now + d) ttl) then VNone else v)"

locale cache_port =
  fixes ops :: "'s cache_ops" and view :: "rat \<Rightarrow> 's \<Rightarrow> string \<Rightarrow> pyval"
  assumes get_view: "\<exists>s'. co_get ops now k s = (Inr (view now s k), s') \<and> (\<forall>t \<ge> now. view t s' = view t s)"
    and put_view: "\<exists>s'. co_put ops now k v ttl s = (Inr (), s') \<and>
      (\<forall>t \<ge> now. view t s' = (view t s)(k := put_view now v ttl t))"
    and evict_view: "\<exists>b s'. co_evict ops now k s = (Inr b, s') \<and> (\<forall>t \<ge> now. view t s' = (view t s)(k := VNone))"
    and clear_view: "\<exists>s'. co_clear ops now s = (Inr (), s') \<and> (\<forall>t k. view t s' k = VNone)"
begin

text \<open>
  The cache decorator: a hit runs nothing; a miss runs the function once and stores what it returns.
\<close>

lemma wrapper_hit:
  assumes "view (clock w) s k \<noteq> VNone"
  shows "\<exists>s'. cache_wrapper ops clock ttl (Inr k) func (s, w) = (Inr (view (clock w) s k), s', w) \<and>
           (\<forall>t \<ge> clock w. view t s' = view t s)"
proof -
  obtain s' where "co_get ops (clock w) k s = (Inr (view (clock w) s k), s')" "\<forall>t \<ge> clock w. view t s' = view t s"
    using get_view [of "clock w" k s] by blast
  with assms show ?thesis by (simp add: cache_wrapper_def)
qed

lemma wrapper_miss:
  assumes "view (clock w) s k = VNone" "func w = (Inr v, w1)" "clock w \<le> clock w1"
  shows "\<exists>s'. cache_wrapper ops clock ttl (Inr k) func (s, w) = (Inr v, s', w1) \<and>
           (\<forall>t \<ge> clock w1. view t s' = (view t s)(k := put_view (clock w1) v ttl t))"
proof -
  obtain s1 where s1: "co_get ops (clock w) k s = (Inr (view (clock w) s k), s1)" "\<forall>t \<ge> clock w. view t s1 = view t s"
    using get_view [of "clock w" k s] by blast
  obtain s2 where s2: "co_put ops (clock w1) k v ttl s1 = (Inr (), s2)"
    "\<forall>t \<ge> clock w1. view t s2 = (view t s1)(k := put_view (clock w1) v ttl t)"
    using put_view [of "clock w1" k v ttl s1] by blast
  have "cache_wrapper ops clock ttl (Inr k) func (s, w) = (Inr v, s2, w1)"
    by (simp add: cache_wrapper_def s1(1) s2(1) assms)
  moreover have "view t s2 = (view t s)(k := put_view (clock w1) v ttl t)" if "clock w1 \<le> t" for t
    using s1(2) s2(2) that assms(3) by simp
  ultimately show ?thesis by blast
qed

lemma wrapper_raises:
  assumes "view (clock w) s k = VNone" "func w = (Inl e, w1)"
  shows "\<exists>s'. cache_wrapper ops clock ttl (Inr k) func (s, w) = (Inl e, s', w1) \<and>
           (\<forall>t \<ge> clock w. view t s' = view t s)"
proof -
  obtain s1 where "co_get ops (clock w) k s = (Inr (view (clock w) s k), s1)" "\<forall>t \<ge> clock w. view t s1 = view t s"
    using get_view [of "clock w" k s] by blast
  with assms show ?thesis by (simp add: cache_wrapper_def)
qed

end

subsection \<open>The memory cache provides it\<close>

definition mem_view :: "rat \<Rightarrow> mem_store \<Rightarrow> string \<Rightarrow> pyval" where
  "mem_view t store k =
     (case dget store k of None \<Rightarrow> VNone | Some (v, e) \<Rightarrow> if expired t e then VNone else v)"

lemma expired_mono: "expired now e \<Longrightarrow> now \<le> t \<Longrightarrow> expired t e"
  by (auto simp: expired_def split: option.splits)

lemma mem_cache_port: "cache_port memory_cache mem_view"
proof
  show "\<exists>s'. co_get memory_cache now k s = (Inr (mem_view now s k), s') \<and> (\<forall>t \<ge> now. mem_view t s' = mem_view t s)"
    for now k s
    by (cases "dget s k")
      (auto simp: memory_cache_def mem_get_def mem_view_def fun_eq_iff dest: expired_mono split: prod.splits)
  show "\<exists>s'. co_put memory_cache now k v ttl s = (Inr (), s') \<and>
      (\<forall>t \<ge> now. mem_view t s' = (mem_view t s)(k := put_view now v ttl t))" for now k v ttl s
    by (simp add: memory_cache_def mem_put_def mem_view_def put_view_def fun_eq_iff)
  show "\<exists>b s'. co_evict memory_cache now k s = (Inr b, s') \<and> (\<forall>t \<ge> now. mem_view t s' = (mem_view t s)(k := VNone))"
    for now k s
    by (cases "dget s k") (auto simp: memory_cache_def mem_evict_def mem_view_def fun_eq_iff dmem_def)
  show "\<exists>s'. co_clear memory_cache now s = (Inr (), s') \<and> (\<forall>t k. mem_view t s' k = VNone)" for now s
    by (simp add: memory_cache_def mem_clear_def mem_view_def)
qed

interpretation memory_port: cache_port memory_cache mem_view
  by (rule mem_cache_port)

subsection \<open>So do the CQRS adapter and the manager, over caches that do\<close>

locale prefixed_port = cache_port ops view
  for ops :: "'s cache_ops" and view
begin

lemma adapter_laws:
  "cache_port (query_cache_adapter (Some ops)) (\<lambda>t s k. view t s (cqrs_prefix @ k))"
proof
  fix now k s
  obtain s' where "co_get ops now (cqrs_prefix @ k) s = (Inr (view now s (cqrs_prefix @ k)), s')"
    "\<forall>t \<ge> now. view t s' = view t s" using get_view by blast
  then show "\<exists>s'. co_get (query_cache_adapter (Some ops)) now k s = (Inr (view now s (cqrs_prefix @ k)), s') \<and>
      (\<forall>t \<ge> now. (\<lambda>k. view t s' (cqrs_prefix @ k)) = (\<lambda>k. view t s (cqrs_prefix @ k)))"
    by (simp add: query_cache_adapter_def adapter_get_def)
next
  fix now k v ttl s
  obtain s' where "co_put ops now (cqrs_prefix @ k) v ttl s = (Inr (), s')"
    "\<forall>t \<ge> now. view t s' = (view t s)(cqrs_prefix @ k := put_view now v ttl t)" using put_view by blast
  then show "\<exists>s'. co_put (query_cache_adapter (Some ops)) now k v ttl s = (Inr (), s') \<and>
      (\<forall>t \<ge> now. (\<lambda>k. view t s' (cqrs_prefix @ k)) = (\<lambda>k. view t s (cqrs_prefix @ k))(k := put_view now v ttl t))"
    by (simp add: query_cache_adapter_def adapter_put_def fun_eq_iff)
next
  fix now k s
  obtain b s' where "co_evict ops now (cqrs_prefix @ k) s = (Inr b, s')"
    "\<forall>t \<ge> now. view t s' = (view t s)(cqrs_prefix @ k := VNone)" using evict_view by blast
  then show "\<exists>b s'. co_evict (query_cache_adapter (Some ops)) now k s = (Inr b, s') \<and>
      (\<forall>t \<ge> now. (\<lambda>k. view t s' (cqrs_prefix @ k)) = (\<lambda>k. view t s (cqrs_prefix @ k))(k := VNone))"
    by (simp add: query_cache_adapter_def adapter_evict_def fun_eq_iff)
next
  fix now s
  obtain s' where "co_clear ops now s = (Inr (), s')" "\<forall>t k. view t s' k = VNone" using clear_view by blast
  then show "\<exists>s'. co_clear (query_cache_adapter (Some ops)) now s = (Inr (), s') \<and>
      (\<forall>t k. view t s' (cqrs_prefix @ k) = VNone)"
    by (simp add: query_cache_adapter_def adapter_clear_def)
qed

end

sublocale prefixed_port \<subseteq> adapter: cache_port "query_cache_adapter (Some ops)" "\<lambda>t s k. view t s (cqrs_prefix @ k)"
  by (rule adapter_laws)

interpretation prefixed_memory: prefixed_port memory_cache mem_view
  by unfold_locales

definition manager_view ::
  "(rat \<Rightarrow> 'p \<Rightarrow> string \<Rightarrow> pyval) \<Rightarrow> (rat \<Rightarrow> 'f \<Rightarrow> string \<Rightarrow> pyval) \<Rightarrow> rat \<Rightarrow> 'p \<times> 'f \<Rightarrow> string \<Rightarrow> pyval" where
  "manager_view pview fview t s k =
     (if pview t (fst s) k \<noteq> VNone then pview t (fst s) k else fview t (snd s) k)"

locale mirrored_ports = p: cache_port primary pview + f: cache_port fallback fview
  for primary :: "'p cache_ops" and pview and fallback :: "'f cache_ops" and fview
begin

lemma manager_laws: "cache_port (cache_manager primary fallback) (manager_view pview fview)"
proof
  fix now k and s :: "'p \<times> 'f"
  obtain p' where p: "co_get primary now k (fst s) = (Inr (pview now (fst s) k), p')"
    "\<forall>t \<ge> now. pview t p' = pview t (fst s)" using p.get_view by blast
  obtain f' where f: "co_get fallback now k (snd s) = (Inr (fview now (snd s) k), f')"
    "\<forall>t \<ge> now. fview t f' = fview t (snd s)" using f.get_view by blast
  show "\<exists>s'. co_get (cache_manager primary fallback) now k s = (Inr (manager_view pview fview now s k), s') \<and>
      (\<forall>t \<ge> now. manager_view pview fview t s' = manager_view pview fview t s)"
    using p f by (auto simp: cache_manager_def manager_get_def manager_view_def fun_eq_iff)
next
  fix now k v ttl and s :: "'p \<times> 'f"
  obtain p' where p: "co_put primary now k v ttl (fst s) = (Inr (), p')"
    "\<forall>t \<ge> now. pview t p' = (pview t (fst s))(k := put_view now v ttl t)" using p.put_view by blast
  obtain f' where f: "co_put fallback now k v ttl (snd s) = (Inr (), f')"
    "\<forall>t \<ge> now. fview t f' = (fview t (snd s))(k := put_view now v ttl t)" using f.put_view by blast
  show "\<exists>s'. co_put (cache_manager primary fallback) now k v ttl s = (Inr (), s') \<and>
      (\<forall>t \<ge> now. manager_view pview fview t s' = (manager_view pview fview t s)(k := put_view now v ttl t))"
    using p f by (auto simp: cache_manager_def manager_put_def manager_view_def fun_eq_iff)
next
  fix now k and s :: "'p \<times> 'f"
  obtain b p' where p: "co_evict primary now k (fst s) = (Inr b, p')"
    "\<forall>t \<ge> now. pview t p' = (pview t (fst s))(k := VNone)" using p.evict_view by blast
  obtain c f' where f: "co_evict fallback now k (snd s) = (Inr c, f')"
    "\<forall>t \<ge> now. fview t f' = (fview t (snd s))(k := VNone)" using f.evict_view by blast
  show "\<exists>b s'. co_evict (cache_manager primary fallback) now k s = (Inr b, s') \<and>
      (\<forall>t \<ge> now. manager_view pview fview t s' = (manager_view pview fview t s)(k := VNone))"
    using p f by (auto simp: cache_manager_def manager_evict_def manager_view_def fun_eq_iff)
next
  fix now and s :: "'p \<times> 'f"
  obtain p' where p: "co_clear primary now (fst s) = (Inr (), p')" "\<forall>t k. pview t p' k = VNone" using p.clear_view by blast
  obtain f' where f: "co_clear fallback now (snd s) = (Inr (), f')" "\<forall>t k. fview t f' k = VNone" using f.clear_view by blast
  show "\<exists>s'. co_clear (cache_manager primary fallback) now s = (Inr (), s') \<and>
      (\<forall>t k. manager_view pview fview t s' k = VNone)"
    using p f by (auto simp: cache_manager_def manager_clear_def manager_view_def)
qed

end

sublocale mirrored_ports \<subseteq> manager: cache_port "cache_manager primary fallback" "manager_view pview fview"
  by (rule manager_laws)

interpretation memory_pair: mirrored_ports memory_cache mem_view memory_cache mem_view
  by unfold_locales

section \<open>Runs of cache operations\<close>

text \<open>
  Operations at given times, and what the callers get. The flag that \<^verbatim>\<open>evict\<close> returns is left out.
\<close>

datatype cache_op = CGet string | CPut string pyval "rat option" | CEvict string | CClear

definition answer :: "(exn + 'a) \<times> 's \<Rightarrow> (exn + pyval) \<times> 's" where
  "answer rs = (case fst rs of Inl e \<Rightarrow> (Inl e, snd rs) | Inr _ \<Rightarrow> (Inr VNone, snd rs))"

definition cache_step :: "'s cache_ops \<Rightarrow> rat \<Rightarrow> cache_op \<Rightarrow> 's \<Rightarrow> (exn + pyval) \<times> 's" where
  "cache_step ops now op s =
     (case op of
        CGet k \<Rightarrow> co_get ops now k s
      | CPut k v ttl \<Rightarrow> answer (co_put ops now k v ttl s)
      | CEvict k \<Rightarrow> answer (co_evict ops now k s)
      | CClear \<Rightarrow> answer (co_clear ops now s))"

fun cache_run :: "'s cache_ops \<Rightarrow> (rat \<times> cache_op) list \<Rightarrow> 's \<Rightarrow> (exn + pyval) list" where
  "cache_run ops [] s = []"
| "cache_run ops ((now, op) # steps) s =
     (case cache_step ops now op s of (r, s') \<Rightarrow> r # cache_run ops steps s')"

text \<open>The specification: a map from keys to values that changes with time by itself.\<close>

type_synonym timed_map = "rat \<Rightarrow> string \<Rightarrow> pyval"

definition spec_step :: "rat \<Rightarrow> cache_op \<Rightarrow> timed_map \<Rightarrow> pyval \<times> timed_map" where
  "spec_step now op m =
     (case op of
        CGet k \<Rightarrow> (m now k, m)
      | CPut k v ttl \<Rightarrow> (VNone, \<lambda>t. (m t)(k := put_view now v ttl t))
      | CEvict k \<Rightarrow> (VNone, \<lambda>t. (m t)(k := VNone))
      | CClear \<Rightarrow> (VNone, \<lambda>t k. VNone))"

fun spec_run :: "(rat \<times> cache_op) list \<Rightarrow> timed_map \<Rightarrow> pyval list" where
  "spec_run [] m = []"
| "spec_run ((now, op) # steps) m = (case spec_step now op m of (v, m') \<Rightarrow> v # spec_run steps m')"

context cache_port begin

lemma step_refines:
  assumes "\<forall>t \<ge> now. view t s = m t"
  shows "\<exists>s'. cache_step ops now op s = (Inr (fst (spec_step now op m)), s') \<and>
           (\<forall>t \<ge> now. view t s' = snd (spec_step now op m) t)"
proof (cases op)
  case (CGet k)
  with get_view [of now k s] assms show ?thesis by (auto simp: cache_step_def spec_step_def)
next
  case (CPut k v ttl)
  with put_view [of now k v ttl s] assms show ?thesis by (auto simp: cache_step_def spec_step_def answer_def)
next
  case (CEvict k)
  with evict_view [of now k s] assms show ?thesis by (auto simp: cache_step_def spec_step_def answer_def)
next
  case CClear
  with clear_view [of now s] show ?thesis by (auto simp: cache_step_def spec_step_def answer_def fun_eq_iff)
qed

lemma run_refines:
  assumes "sorted (map fst steps)" "\<forall>t \<in> set (map fst steps). now \<le> t" "\<forall>t \<ge> now. view t s = m t"
  shows "cache_run ops steps s = map Inr (spec_run steps m)"
  using assms
proof (induction steps arbitrary: s m now)
  case (Cons step steps)
  obtain t op where x: "step = (t, op)" by (cases step)
  have "now \<le> t" using Cons.prems(2) by (simp add: x)
  then have "\<forall>u \<ge> t. view u s = m u" using Cons.prems(3) by simp
  from step_refines [OF this, of op] obtain s' where s':
    "cache_step ops t op s = (Inr (fst (spec_step t op m)), s')" "\<forall>u \<ge> t. view u s' = snd (spec_step t op m) u" by blast
  have "cache_run ops steps s' = map Inr (spec_run steps (snd (spec_step t op m)))"
    by (rule Cons.IH [OF _ _ s'(2)]) (use Cons.prems(1) in \<open>auto simp: x\<close>)
  then show ?case by (simp add: x s'(1) split: prod.split)
qed simp

end

lemma mem_view_empty [simp]: "mem_view t [] k = VNone"
  by (simp add: mem_view_def)



text \<open>A primary cache that is out of reach at some times.\<close>

definition out_of_reach :: exn where
  "out_of_reach = Exn RuntimeErrorC ''connection lost'' []"

definition flaky_cache :: "(rat \<Rightarrow> bool) \<Rightarrow> 's cache_ops \<Rightarrow> 's cache_ops" where
  "flaky_cache down ops =
     \<lparr>co_get = (\<lambda>now k s. if down now then (Inl out_of_reach, s) else co_get ops now k s),
      co_put = (\<lambda>now k v ttl s. if down now then (Inl out_of_reach, s) else co_put ops now k v ttl s),
      co_evict = (\<lambda>now k s. if down now then (Inl out_of_reach, s) else co_evict ops now k s),
      co_clear = (\<lambda>now s. if down now then (Inl out_of_reach, s) else co_clear ops now s)\<rparr>"

lemma manager_over_dead_primary:
  assumes "\<forall>t \<in> set (map fst steps). down t"
  shows "cache_run (cache_manager (flaky_cache down p) f) steps (s, u) = cache_run f steps u"
  using assms
proof (induction steps arbitrary: u)
  case (Cons x steps)
  obtain now op where x: "x = (now, op)" by (cases x)
  have d: "down now" using Cons.prems by (simp add: x)
  have "cache_step (cache_manager (flaky_cache down p) f) now op (s, u) =
      (fst (cache_step f now op u), s, snd (cache_step f now op u))"
    using d by (cases op) (auto simp: cache_step_def cache_manager_def flaky_cache_def manager_get_def manager_put_def
        manager_evict_def manager_clear_def answer_def split: prod.splits sum.splits)
  moreover have "\<forall>t \<in> set (map fst steps). down t" using Cons.prems by (simp add: x)
  ultimately show ?case using Cons.IH by (simp add: x split: prod.split)
qed simp

text \<open>
  Failover of the cache manager: while the primary is out of reach the manager answers as its fallback alone does; but what is
  written or evicted meanwhile is not brought to the primary, so that once it is back the old value is served.
\<close>

theorem cache_manager_failover:
  assumes "\<not> down t0" "down t1" "\<not> down t2" "old \<noteq> VNone"
  shows "(\<forall>steps f s u. (\<forall>t \<in> set (map fst steps). down t) \<longrightarrow>
            cache_run (cache_manager (flaky_cache down memory_cache) (f :: 'f cache_ops)) steps (s, u) = cache_run f steps u) \<and>
         cache_run (cache_manager (flaky_cache down memory_cache) memory_cache)
           [(t0, CPut k old None), (t1, CPut k new None), (t2, CGet k)] (p, f)
         = map Inr [VNone, VNone, old] \<and>
         cache_run (cache_manager (flaky_cache down memory_cache) memory_cache)
           [(t0, CPut k old None), (t1, CEvict k), (t2, CGet k)] (p, f)
         = map Inr [VNone, VNone, old]"
  using assms manager_over_dead_primary
  by (auto simp: cache_step_def cache_manager_def flaky_cache_def memory_cache_def manager_get_def manager_put_def
      manager_evict_def answer_def mem_put_def mem_get_def mem_evict_def expired_def)

theorem cache_manager_failover_witness:
  "cache_run (cache_manager (flaky_cache (\<lambda>t. t = 1) memory_cache) memory_cache)
     [(0, CPut ''user:1'' (VStr ''Ann'') None), (1, CPut ''user:1'' (VStr ''Bob'') None), (2, CGet ''user:1'')] ([], [])
   = map Inr [VNone, VNone, VStr ''Ann'']"
  by (rule cache_manager_failover [of "\<lambda>t. t = 1" 0 1 2 "VStr ''Ann''", THEN conjunct2, THEN conjunct1]) simp_all

end
