(* ===== verification/Cqrs.thy ===== *)
theory Cqrs
  imports Caching "HOL-Library.Char_ord" "HOL-Library.List_Lexorder"
begin

text \<open>
  The package \<^verbatim>\<open>cqrs\<close>: messages (\<^verbatim>\<open>types.py\<close>), handlers (\<^verbatim>\<open>command/handler.py\<close>, \<^verbatim>\<open>query/handler.py\<close>), their registry
  (\<^verbatim>\<open>command/registry.py\<close>), validation and authorization, and the two buses (\<^verbatim>\<open>command/bus.py\<close>, \<^verbatim>\<open>query/bus.py\<close>).
  What applications supply, the hooks of messages and handlers and the event publisher, are functions on a world
  \<open>'w\<close> that may raise; classes are named by strings. Durations are not recorded.
\<close>

section \<open>Sequencing\<close>

definition then_do :: "('s \<Rightarrow> (exn + 'a) \<times> 's) \<Rightarrow> ('a \<Rightarrow> 's \<Rightarrow> (exn + 'b) \<times> 's) \<Rightarrow> 's \<Rightarrow> (exn + 'b) \<times> 's" where
  "then_do m f s = (case m s of (Inl e, s') \<Rightarrow> (Inl e, s') | (Inr v, s') \<Rightarrow> f v s')"

lemma then_do_simps [simp]:
  "m s = (Inl e, s') \<Longrightarrow> then_do m f s = (Inl e, s')"
  "m s = (Inr v, s') \<Longrightarrow> then_do m f s = f v s'"
  by (simp_all add: then_do_def)

lemma then_do_ok:
  "then_do m f s = (Inr b, s'') \<longleftrightarrow> (\<exists>v s'. m s = (Inr v, s') \<and> f v s' = (Inr b, s''))"
  by (auto simp: then_do_def split: prod.splits sum.splits)

section \<open>Messages\<close>

text \<open>\<open>ms_fields\<close> holds the fields of a message class that is a dataclass.\<close>

record message =
  ms_type :: string
  ms_correlation_id :: "string option"
  ms_cacheable :: bool
  ms_fields :: "(string, pyval) dict option"
  ms_domain_events :: "pyval list"

text \<open>
  The automatic cache key: the class name, and for a dataclass the \<^verbatim>\<open>hash\<close> of the sorted fields. The hash of a tuple is a
  function of the hashes of its elements; values that cannot be hashed are replaced by their \<^verbatim>\<open>repr\<close>.
\<close>

record hashing =
  hs_value :: "pyval \<Rightarrow> int option"
  hs_tuple :: "int list \<Rightarrow> int"
  hs_repr :: "pyval \<Rightarrow> string"
  hs_digits :: "int \<Rightarrow> string"

definition hash_of :: "hashing \<Rightarrow> pyval \<Rightarrow> int" where
  "hash_of h v =
     (case hs_value h v of Some n \<Rightarrow> n
      | None \<Rightarrow> (case hs_value h (VStr (hs_repr h v)) of Some n \<Rightarrow> n | None \<Rightarrow> 0))"

definition fields_hash :: "hashing \<Rightarrow> (string, pyval) dict \<Rightarrow> int" where
  "fields_hash h fs =
     hs_tuple h (map (\<lambda>(name, v). hs_tuple h [hash_of h (VStr name), hash_of h v]) (sort_key fst fs))"

definition default_cache_key :: "hashing \<Rightarrow> message \<Rightarrow> string" where
  "default_cache_key h m =
     (case ms_fields m of
        None \<Rightarrow> ms_type m
      | Some fs \<Rightarrow> ms_type m @ '':'' @ hs_digits h (fields_hash h fs))"

section \<open>Validation and authorization\<close>

datatype severity = SEV_WARNING | SEV_ERROR | SEV_CRITICAL

record validation_error =
  ve_field_name :: string
  ve_message :: string
  ve_error_code :: string
  ve_severity :: severity
  ve_rejected_value :: pyval

record validation_result =
  vr_valid :: bool
  vr_errors :: "validation_error list"
  vr_summary :: "string option"

definition vr_success :: validation_result where
  "vr_success = \<lparr>vr_valid = True, vr_errors = [], vr_summary = None\<rparr>"

definition vr_failure :: "string \<Rightarrow> string \<Rightarrow> validation_result" where
  "vr_failure field_name msg =
     \<lparr>vr_valid = False,
      vr_errors = [\<lparr>ve_field_name = field_name, ve_message = msg, ve_error_code = ''VALIDATION_ERROR'',
                    ve_severity = SEV_ERROR, ve_rejected_value = VNone\<rparr>],
      vr_summary = None\<rparr>"

definition vr_from_errors :: "validation_error list \<Rightarrow> validation_result" where
  "vr_from_errors errors =
     (if errors = [] then vr_success else \<lparr>vr_valid = False, vr_errors = errors, vr_summary = None\<rparr>)"

definition vr_combine :: "validation_result \<Rightarrow> validation_result \<Rightarrow> validation_result" where
  "vr_combine a b = \<lparr>vr_valid = (vr_valid a \<and> vr_valid b), vr_errors = vr_errors a @ vr_errors b, vr_summary = None\<rparr>"

record authorization_error =
  ae_resource :: string
  ae_message :: string
  ae_error_code :: string
  ae_severity :: severity
  ae_denied_action :: "string option"

record authorization_result =
  ar_authorized :: bool
  ar_errors :: "authorization_error list"
  ar_summary :: "string option"

definition ar_success :: authorization_result where
  "ar_success = \<lparr>ar_authorized = True, ar_errors = [], ar_summary = None\<rparr>"

definition ar_failure :: "string \<Rightarrow> string \<Rightarrow> string \<Rightarrow> string option \<Rightarrow> authorization_result" where
  "ar_failure resource msg error_code denied_action =
     \<lparr>ar_authorized = False,
      ar_errors = [\<lparr>ae_resource = resource, ae_message = msg, ae_error_code = error_code,
                    ae_severity = SEV_ERROR, ae_denied_action = denied_action\<rparr>],
      ar_summary = None\<rparr>"

definition ar_combine :: "authorization_result \<Rightarrow> authorization_result \<Rightarrow> authorization_result" where
  "ar_combine a b =
     \<lparr>ar_authorized = (ar_authorized a \<and> ar_authorized b), ar_errors = ar_errors a @ ar_errors b, ar_summary = None\<rparr>"

text \<open>
  The hooks of a message: absent, or a call that may raise and returns a result of the declared
  class or something else. \<open>mh_pydantic\<close> is what pydantic finds (no errors for a message that is no model).
\<close>

datatype 'r hook_value = HkResult 'r | HkOther

record 'w message_hooks =
  mh_pydantic :: "message \<Rightarrow> exn + validation_error list"
  mh_validate :: "(message \<Rightarrow> 'w \<Rightarrow> (exn + validation_result hook_value) \<times> 'w) option"
  mh_authorize :: "(message \<Rightarrow> 'w \<Rightarrow> (exn + authorization_result hook_value) \<times> 'w) option"
  mh_authorize_with_context :: "(message \<Rightarrow> pyval \<Rightarrow> 'w \<Rightarrow> (exn + authorization_result hook_value) \<times> 'w) option"
  mh_cache_key :: "message \<Rightarrow> exn + string option"
  mh_str :: "exn \<Rightarrow> string"
  mh_uuid :: "'w \<Rightarrow> string \<times> 'w"
  mh_clock :: "'w \<Rightarrow> rat"

definition validate_custom :: "'w message_hooks \<Rightarrow> message \<Rightarrow> 'w \<Rightarrow> validation_result \<times> 'w" where
  "validate_custom hk m w =
     (case mh_validate hk of
        None \<Rightarrow> (vr_success, w)
      | Some f \<Rightarrow>
          (case f m w of
             (Inr (HkResult r), w') \<Rightarrow> (r, w')
           | (Inr HkOther, w') \<Rightarrow> (vr_success, w')
           | (Inl exc, w') \<Rightarrow> (vr_failure ''_custom'' (mh_str hk exc), w')))"

definition validate_with_result :: "'w message_hooks \<Rightarrow> message \<Rightarrow> 'w \<Rightarrow> (exn + validation_result) \<times> 'w" where
  "validate_with_result hk m w =
     (case mh_pydantic hk m of
        Inl e \<Rightarrow> (Inl e, w)
      | Inr errors \<Rightarrow>
          (case validate_custom hk m w of (custom, w') \<Rightarrow> (Inr (vr_combine (vr_from_errors errors) custom), w')))"

definition cqrs_exc :: exc_class where
  "cqrs_exc = UserExc ''CqrsException'' BusinessException"

definition error_texts :: "(string \<times> string) list \<Rightarrow> pyval" where
  "error_texts es = VList (map (\<lambda>(a, b). VStr (a @ '': '' @ b)) es)"

definition validation_exception :: "validation_result \<Rightarrow> exn" where
  "validation_exception r =
     Exn (UserExc ''CqrsValidationException'' cqrs_exc) ''{}''
       [error_texts (map (\<lambda>e. (ve_field_name e, ve_message e)) (vr_errors r))]"

definition authorization_exception :: "authorization_result \<Rightarrow> exn" where
  "authorization_exception r =
     Exn (UserExc ''AuthorizationException'' cqrs_exc) ''{}''
       [error_texts (map (\<lambda>e. (ae_resource e, ae_message e)) (ar_errors r))]"

definition validate_message :: "'w message_hooks \<Rightarrow> message \<Rightarrow> 'w \<Rightarrow> (exn + unit) \<times> 'w" where
  "validate_message hk m =
     then_do (validate_with_result hk m)
       (\<lambda>r w. if vr_valid r then (Inr (), w) else (Inl (validation_exception r), w))"

definition evaluate_plain :: "'w message_hooks \<Rightarrow> message \<Rightarrow> 'w \<Rightarrow> (exn + authorization_result) \<times> 'w" where
  "evaluate_plain hk m w =
     (case mh_authorize hk of
        None \<Rightarrow> (Inr ar_success, w)
      | Some f \<Rightarrow> then_do (f m) (\<lambda>v w'. case v of HkResult r \<Rightarrow> (Inr r, w') | HkOther \<Rightarrow> (Inr ar_success, w')) w)"

definition evaluate :: "'w message_hooks \<Rightarrow> message \<Rightarrow> pyval option \<Rightarrow> 'w \<Rightarrow> (exn + authorization_result) \<times> 'w" where
  "evaluate hk m context w =
     (case (context, mh_authorize_with_context hk) of
        (Some c, Some f) \<Rightarrow>
          then_do (f m c) (\<lambda>v w'. case v of HkResult r \<Rightarrow> (Inr r, w') | HkOther \<Rightarrow> evaluate_plain hk m w') w
      | _ \<Rightarrow> evaluate_plain hk m w)"

definition authorize_message :: "bool \<Rightarrow> 'w message_hooks \<Rightarrow> message \<Rightarrow> pyval option \<Rightarrow> 'w \<Rightarrow> (exn + unit) \<times> 'w" where
  "authorize_message enabled hk m context w =
     (if \<not> enabled then (Inr (), w)
      else then_do (evaluate hk m context)
        (\<lambda>r w'. if ar_authorized r then (Inr (), w') else (Inl (authorization_exception r), w')) w)"

section \<open>Handlers and their registry\<close>

record 'w handler =
  h_name :: string
  h_message_type :: "string option"
  h_cacheable :: bool
  h_cache_ttl :: "int option"
  h_pre_process :: "message \<Rightarrow> 'w \<Rightarrow> (exn + unit) \<times> 'w"
  h_do_handle :: "message \<Rightarrow> 'w \<Rightarrow> (exn + pyval) \<times> 'w"
  h_do_handle_with_context :: "message \<Rightarrow> pyval \<Rightarrow> 'w \<Rightarrow> (exn + pyval) \<times> 'w"
  h_post_process :: "message \<Rightarrow> pyval \<Rightarrow> 'w \<Rightarrow> (exn + unit) \<times> 'w"
  h_on_success :: "message \<Rightarrow> pyval \<Rightarrow> 'w \<Rightarrow> (exn + unit) \<times> 'w"
  h_on_error :: "message \<Rightarrow> exn \<Rightarrow> 'w \<Rightarrow> (exn + unit) \<times> 'w"
  h_map_error :: "message \<Rightarrow> exn \<Rightarrow> exn"

text \<open>\<^verbatim>\<open>handle\<close> and \<^verbatim>\<open>handle_with_context\<close>; the methods of the two handler classes are the same.\<close>

definition handle_message :: "'w handler \<Rightarrow> message \<Rightarrow> pyval option \<Rightarrow> 'w \<Rightarrow> (exn + pyval) \<times> 'w" where
  "handle_message h m context w =
     (case then_do (h_pre_process h m) (\<lambda>_.
           then_do (case context of None \<Rightarrow> h_do_handle h m | Some c \<Rightarrow> h_do_handle_with_context h m c) (\<lambda>result.
           then_do (h_post_process h m result) (\<lambda>_.
           then_do (h_on_success h m result) (\<lambda>_ w'. (Inr result, w'))))) w of
        (Inr result, w') \<Rightarrow> (Inr result, w')
      | (Inl exc, w') \<Rightarrow> then_do (h_on_error h m exc) (\<lambda>_ w''. (Inl (h_map_error h m exc), w'')) w')"

text \<open>The context-aware classes: without a context their \<^verbatim>\<open>do_handle\<close> raises.\<close>

definition context_aware :: "'w handler \<Rightarrow> 'w handler" where
  "context_aware h = h\<lparr>h_do_handle := (\<lambda>m w. (Inl (Exn RuntimeErrorC ''{} requires an ExecutionContext. Use handle_with_context() instead of handle().'' [VStr (h_name h)]), w))\<rparr>"

type_synonym 'w registry = "(string, 'w handler) dict"

definition register_handler :: "'w handler \<Rightarrow> 'w registry \<Rightarrow> 'w registry" where
  "register_handler h reg = (case h_message_type h of None \<Rightarrow> reg | Some t \<Rightarrow> dput t h reg)"

definition unregister_handler :: "string \<Rightarrow> 'w registry \<Rightarrow> bool \<times> 'w registry" where
  "unregister_handler t reg = (dmem t reg, ddel t reg)"

definition find_handler :: "string \<Rightarrow> string \<Rightarrow> 'w registry \<Rightarrow> string \<Rightarrow> exn + 'w handler" where
  "find_handler cls template reg t =
     (case dget reg t of
        None \<Rightarrow> Inl (Exn (UserExc cls cqrs_exc) template [VStr t])
      | Some h \<Rightarrow> Inr h)"

definition find_command_handler :: "'w registry \<Rightarrow> string \<Rightarrow> exn + 'w handler" where
  "find_command_handler = find_handler ''CommandHandlerNotFoundException'' ''No handler registered for command: {}''"

definition find_query_handler :: "'w registry \<Rightarrow> string \<Rightarrow> exn + 'w handler" where
  "find_query_handler = find_handler ''QueryHandlerNotFoundException'' ''No handler registered for query: {}''"

definition has_handler :: "'w registry \<Rightarrow> string \<Rightarrow> bool" where
  "has_handler reg t = dmem t reg"

record 'w handler_registry =
  hr_commands :: "'w registry"
  hr_queries :: "'w registry"

text \<open>A bean: its marker, whether it is an instance of the two handler classes, and itself.\<close>

record 'w handler_bean =
  hb_marker :: "string option"
  hb_is_command_handler :: bool
  hb_is_query_handler :: bool
  hb_handler :: "'w handler"

fun discover_from_beans :: "'w handler_bean list \<Rightarrow> 'w handler_registry \<Rightarrow> 'w handler_registry" where
  "discover_from_beans [] reg = reg"
| "discover_from_beans (b # bs) reg =
     discover_from_beans bs
       (if hb_marker b = Some ''command'' \<and> hb_is_command_handler b
        then reg\<lparr>hr_commands := register_handler (hb_handler b) (hr_commands reg)\<rparr>
        else if hb_marker b = Some ''query'' \<and> hb_is_query_handler b
        then reg\<lparr>hr_queries := register_handler (hb_handler b) (hr_queries reg)\<rparr>
        else reg)"

section \<open>The command bus\<close>

datatype metric = CommandOk string | CommandFailed string | QueryOk string | QueryFailed string

text \<open>
  What a bus works on: the world, the context variable with the correlation id, the recorded metrics, and the
  state of the cache.
\<close>

record ('w, 'c) bus_state =
  bus_world :: 'w
  bus_correlation :: "string option"
  bus_metrics :: "metric list"
  bus_cache_state :: 'c

definition in_world :: "('w \<Rightarrow> (exn + 'a) \<times> 'w) \<Rightarrow> ('w, 'c) bus_state \<Rightarrow> (exn + 'a) \<times> ('w, 'c) bus_state" where
  "in_world f st = (case f (bus_world st) of (r, w) \<Rightarrow> (r, st\<lparr>bus_world := w\<rparr>))"

definition record_metric :: "metric \<Rightarrow> ('w, 'c) bus_state \<Rightarrow> ('w, 'c) bus_state" where
  "record_metric x st = st\<lparr>bus_metrics := bus_metrics st @ [x]\<rparr>"

definition get_or_create_correlation_id :: "'w message_hooks \<Rightarrow> ('w, 'c) bus_state \<Rightarrow> string \<times> ('w, 'c) bus_state" where
  "get_or_create_correlation_id hk st =
     (case bus_correlation st of
        Some cid \<Rightarrow> (cid, st)
      | None \<Rightarrow> (case mh_uuid hk (bus_world st) of
                   (cid, w) \<Rightarrow> (cid, st\<lparr>bus_world := w, bus_correlation := Some cid\<rparr>)))"

definition correlate :: "'w message_hooks \<Rightarrow> message \<Rightarrow> ('w, 'c) bus_state \<Rightarrow> (exn + message) \<times> ('w, 'c) bus_state" where
  "correlate hk m st =
     (case (case ms_correlation_id m of
              Some cid \<Rightarrow> if cid \<noteq> [] then (cid, st) else get_or_create_correlation_id hk st
            | None \<Rightarrow> get_or_create_correlation_id hk st) of
        (cid, st') \<Rightarrow> (Inr (m\<lparr>ms_correlation_id := Some cid\<rparr>), st'\<lparr>bus_correlation := Some cid\<rparr>))"

datatype event_failure_strategy = EVENTS_LOG | EVENTS_RAISE

record 'w command_bus =
  cmd_handlers :: "'w registry"
  cmd_validation :: bool
  cmd_authorization :: "bool option"
  cmd_event_publisher :: "(pyval \<Rightarrow> 'w \<Rightarrow> (exn + unit) \<times> 'w) option"
  cmd_event_failure_strategy :: event_failure_strategy

definition command_processing :: exc_class where
  "command_processing = UserExc ''CommandProcessingException'' cqrs_exc"

definition query_processing :: exc_class where
  "query_processing = UserExc ''QueryProcessingException'' cqrs_exc"

fun publish_all :: "(pyval \<Rightarrow> 'w \<Rightarrow> (exn + unit) \<times> 'w) \<Rightarrow> pyval list \<Rightarrow> exn list \<Rightarrow> 'w \<Rightarrow> exn list \<times> 'w" where
  "publish_all publish [] failed w = (failed, w)"
| "publish_all publish (ev # evs) failed w =
     (case publish ev w of
        (Inr _, w') \<Rightarrow> publish_all publish evs failed w'
      | (Inl exc, w') \<Rightarrow> publish_all publish evs (failed @ [exc]) w')"

text \<open>\<^verbatim>\<open>getattr(result, "domain_events", None) or getattr(command, "domain_events", None)\<close>, for lists of events.\<close>

definition domain_events_of :: "message \<Rightarrow> pyval \<Rightarrow> pyval list" where
  "domain_events_of m result =
     (case result of
        VObj _ attrs \<Rightarrow> (case dget attrs ''domain_events'' of
            Some (VList evs) \<Rightarrow> if evs \<noteq> [] then evs else ms_domain_events m
          | _ \<Rightarrow> ms_domain_events m)
      | _ \<Rightarrow> ms_domain_events m)"

definition try_publish_events :: "'w command_bus \<Rightarrow> message \<Rightarrow> pyval \<Rightarrow> 'w \<Rightarrow> (exn + unit) \<times> 'w" where
  "try_publish_events bus m result w =
     (case cmd_event_publisher bus of
        None \<Rightarrow> (Inr (), w)
      | Some publish \<Rightarrow>
          (case publish_all publish (domain_events_of m result) [] w of
             (failed, w') \<Rightarrow>
               (case failed of
                  [] \<Rightarrow> (Inr (), w')
                | first_exc # _ \<Rightarrow>
                    if cmd_event_failure_strategy bus = EVENTS_RAISE
                    then (Inl (Exn command_processing ''{} domain event(s) failed to publish for {}; first failure: {}''
                            [VInt (int (length failed)), VStr (ms_type m), VExn first_exc]), w')
                    else (Inr (), w'))))"

definition optional_step :: "bool \<Rightarrow> ('w \<Rightarrow> (exn + unit) \<times> 'w) \<Rightarrow> 'w \<Rightarrow> (exn + unit) \<times> 'w" where
  "optional_step present f w = (if present then f w else (Inr (), w))"

definition authorization_step :: "bool option \<Rightarrow> 'w message_hooks \<Rightarrow> message \<Rightarrow> pyval option \<Rightarrow> 'w \<Rightarrow> (exn + unit) \<times> 'w" where
  "authorization_step service hk m context w =
     (case service of None \<Rightarrow> (Inr (), w) | Some enabled \<Rightarrow> authorize_message enabled hk m context w)"

definition command_pipeline ::
  "'w command_bus \<Rightarrow> 'w message_hooks \<Rightarrow> pyval option \<Rightarrow> message \<Rightarrow> ('w, 'c) bus_state \<Rightarrow> (exn + pyval) \<times> ('w, 'c) bus_state" where
  "command_pipeline bus hk context m =
     then_do (correlate hk m) (\<lambda>m.
     then_do (in_world (optional_step (cmd_validation bus) (validate_message hk m))) (\<lambda>_.
     then_do (in_world (authorization_step (cmd_authorization bus) hk m context)) (\<lambda>_.
     then_do (\<lambda>st. (find_command_handler (cmd_handlers bus) (ms_type m), st)) (\<lambda>h.
     then_do (in_world (handle_message h m context)) (\<lambda>result.
     then_do (in_world (try_publish_events bus m result)) (\<lambda>_ st.
       (Inr result, record_metric (CommandOk (ms_type m)) st)))))))"

definition command_execute ::
  "'w command_bus \<Rightarrow> 'w message_hooks \<Rightarrow> pyval option \<Rightarrow> message \<Rightarrow> ('w, 'c) bus_state \<Rightarrow> (exn + pyval) \<times> ('w, 'c) bus_state" where
  "command_execute bus hk context m st =
     (case command_pipeline bus hk context m st of
        (Inr result, st') \<Rightarrow> (Inr result, st')
      | (Inl exc, st') \<Rightarrow>
          (Inl (if isinstance_exc exc command_processing then exc
                else Exn command_processing ''Failed to process command {}: {}'' [VStr (ms_type m), VExn exc]),
           record_metric (CommandFailed (ms_type m)) st'))"

definition send :: "'w command_bus \<Rightarrow> 'w message_hooks \<Rightarrow> message \<Rightarrow> ('w, 'c) bus_state \<Rightarrow> (exn + pyval) \<times> ('w, 'c) bus_state" where
  "send bus hk m = command_execute bus hk None m"

definition send_with_context ::
  "'w command_bus \<Rightarrow> 'w message_hooks \<Rightarrow> message \<Rightarrow> pyval \<Rightarrow> ('w, 'c) bus_state \<Rightarrow> (exn + pyval) \<times> ('w, 'c) bus_state" where
  "send_with_context bus hk m context = command_execute bus hk (Some context) m"

section \<open>The query bus\<close>

record ('w, 'c) query_bus =
  qry_handlers :: "'w registry"
  qry_validation :: bool
  qry_authorization :: "bool option"
  qry_cache :: "'c cache_ops option"
  qry_default_cache_ttl :: int

definition build_cache_key :: "'w message_hooks \<Rightarrow> message \<Rightarrow> exn + string option" where
  "build_cache_key hk m =
     (case mh_cache_key hk m of
        Inl e \<Rightarrow> Inl e
      | Inr None \<Rightarrow> Inr None
      | Inr (Some key) \<Rightarrow> Inr (if key = [] then None else Some ('':cqrs:'' @ key)))"

text \<open>\<^verbatim>\<open>VNone\<close> stands for \<^verbatim>\<open>_CACHE_MISS\<close>, as the code treats a cached \<^verbatim>\<open>None\<close> as a miss.\<close>

definition try_cache_get ::
  "('w, 'c) query_bus \<Rightarrow> 'w message_hooks \<Rightarrow> message \<Rightarrow> 'w handler \<Rightarrow> ('w, 'c) bus_state \<Rightarrow> (exn + pyval) \<times> ('w, 'c) bus_state" where
  "try_cache_get bus hk m h st =
     (case qry_cache bus of
        None \<Rightarrow> (Inr VNone, st)
      | Some c \<Rightarrow>
          if \<not> ms_cacheable m \<or> \<not> h_cacheable h then (Inr VNone, st)
          else case build_cache_key hk m of
            Inl e \<Rightarrow> (Inl e, st)
          | Inr None \<Rightarrow> (Inr VNone, st)
          | Inr (Some key) \<Rightarrow>
              (case co_get c (mh_clock hk (bus_world st)) key (bus_cache_state st) of
                 (Inr v, s) \<Rightarrow> (Inr v, st\<lparr>bus_cache_state := s\<rparr>)
               | (Inl _, s) \<Rightarrow> (Inr VNone, st\<lparr>bus_cache_state := s\<rparr>)))"

definition cache_ttl :: "int \<Rightarrow> 'w handler \<Rightarrow> int" where
  "cache_ttl default_ttl h =
     (case h_cache_ttl h of None \<Rightarrow> default_ttl | Some n \<Rightarrow> if n = 0 then default_ttl else n)"

definition try_cache_put ::
  "('w, 'c) query_bus \<Rightarrow> 'w message_hooks \<Rightarrow> message \<Rightarrow> 'w handler \<Rightarrow> pyval \<Rightarrow> ('w, 'c) bus_state \<Rightarrow> (exn + unit) \<times> ('w, 'c) bus_state" where
  "try_cache_put bus hk m h result st =
     (case qry_cache bus of
        None \<Rightarrow> (Inr (), st)
      | Some c \<Rightarrow>
          if \<not> ms_cacheable m \<or> \<not> h_cacheable h then (Inr (), st)
          else case build_cache_key hk m of
            Inl e \<Rightarrow> (Inl e, st)
          | Inr None \<Rightarrow> (Inr (), st)
          | Inr (Some key) \<Rightarrow>
              (case co_put c (mh_clock hk (bus_world st)) key result (Some (of_int (cache_ttl (qry_default_cache_ttl bus) h))) (bus_cache_state st) of
                 (_, s) \<Rightarrow> (Inr (), st\<lparr>bus_cache_state := s\<rparr>)))"

definition answer_query ::
  "('w, 'c) query_bus \<Rightarrow> 'w message_hooks \<Rightarrow> pyval option \<Rightarrow> message \<Rightarrow> 'w handler \<Rightarrow> ('w, 'c) bus_state \<Rightarrow> (exn + pyval) \<times> ('w, 'c) bus_state" where
  "answer_query bus hk context m h =
     then_do (try_cache_get bus hk m h) (\<lambda>cached.
       if cached \<noteq> VNone then (\<lambda>st. (Inr cached, record_metric (QueryOk (ms_type m)) st))
       else then_do (in_world (handle_message h m context)) (\<lambda>result.
            then_do (try_cache_put bus hk m h result) (\<lambda>_ st.
              (Inr result, record_metric (QueryOk (ms_type m)) st))))"

definition query_pipeline ::
  "('w, 'c) query_bus \<Rightarrow> 'w message_hooks \<Rightarrow> pyval option \<Rightarrow> message \<Rightarrow> ('w, 'c) bus_state \<Rightarrow> (exn + pyval) \<times> ('w, 'c) bus_state" where
  "query_pipeline bus hk context m =
     then_do (correlate hk m) (\<lambda>m.
     then_do (in_world (optional_step (qry_validation bus) (validate_message hk m))) (\<lambda>_.
     then_do (in_world (authorization_step (qry_authorization bus) hk m context)) (\<lambda>_.
     then_do (\<lambda>st. (find_query_handler (qry_handlers bus) (ms_type m), st)) (\<lambda>h.
       answer_query bus hk context m h))))"

definition query_execute ::
  "('w, 'c) query_bus \<Rightarrow> 'w message_hooks \<Rightarrow> pyval option \<Rightarrow> message \<Rightarrow> ('w, 'c) bus_state \<Rightarrow> (exn + pyval) \<times> ('w, 'c) bus_state" where
  "query_execute bus hk context m st =
     (case query_pipeline bus hk context m st of
        (Inr result, st') \<Rightarrow> (Inr result, st')
      | (Inl exc, st') \<Rightarrow>
          (Inl (if isinstance_exc exc query_processing then exc
                else Exn query_processing ''Failed to process query {}: {}'' [VStr (ms_type m), VExn exc]),
           record_metric (QueryFailed (ms_type m)) st'))"

definition clear_cache ::
  "('w, 'c) query_bus \<Rightarrow> 'w message_hooks \<Rightarrow> string \<Rightarrow> ('w, 'c) bus_state \<Rightarrow> (exn + unit) \<times> ('w, 'c) bus_state" where
  "clear_cache bus hk cache_key st =
     (case qry_cache bus of
        None \<Rightarrow> (Inr (), st)
      | Some c \<Rightarrow>
          (case co_evict c (mh_clock hk (bus_world st)) cache_key (bus_cache_state st) of
             (Inl e, s) \<Rightarrow> (Inl e, st\<lparr>bus_cache_state := s\<rparr>)
           | (Inr _, s) \<Rightarrow> (Inr (), st\<lparr>bus_cache_state := s\<rparr>)))"

definition clear_all_cache ::
  "('w, 'c) query_bus \<Rightarrow> 'w message_hooks \<Rightarrow> ('w, 'c) bus_state \<Rightarrow> (exn + unit) \<times> ('w, 'c) bus_state" where
  "clear_all_cache bus hk st =
     (case qry_cache bus of
        None \<Rightarrow> (Inr (), st)
      | Some c \<Rightarrow>
          (case co_clear c (mh_clock hk (bus_world st)) (bus_cache_state st) of
             (r, s) \<Rightarrow> (r, st\<lparr>bus_cache_state := s\<rparr>)))"

section \<open>The command bus: outcomes and gates\<close>

text \<open>Steps that leave the metrics and the correlation id alone.\<close>

definition quiet_step :: "(('w, 'c) bus_state \<Rightarrow> (exn + 'a) \<times> ('w, 'c) bus_state) \<Rightarrow> bool" where
  "quiet_step f \<longleftrightarrow>
     (\<forall>st r st'. f st = (r, st') \<longrightarrow> bus_metrics st' = bus_metrics st \<and> bus_correlation st' = bus_correlation st)"

lemma quiet_in_world [simp]: "quiet_step (in_world f)"
  by (auto simp: quiet_step_def in_world_def split: prod.splits)

lemma quiet_pure [simp]: "quiet_step (\<lambda>st. (r, st))"
  by (simp add: quiet_step_def)

text \<open>A pipeline of quiet steps that ends with recording a metric.\<close>

definition ends_with :: "metric \<Rightarrow> (('w, 'c) bus_state \<Rightarrow> (exn + 'a) \<times> ('w, 'c) bus_state) \<Rightarrow> bool" where
  "ends_with x f \<longleftrightarrow>
     (\<forall>st r st'. f st = (r, st') \<longrightarrow>
        bus_metrics st' = bus_metrics st @ (if is_ok r then [x] else []) \<and> bus_correlation st' = bus_correlation st)"

lemma ends_with_record [simp]: "ends_with x (\<lambda>st. (Inr v, record_metric x st))"
  by (simp add: ends_with_def record_metric_def)

lemma ends_with_then [intro]: "\<lbrakk>quiet_step f; \<And>v. ends_with x (g v)\<rbrakk> \<Longrightarrow> ends_with x (then_do f g)"
  unfolding ends_with_def quiet_step_def then_do_def by (fastforce split: prod.splits sum.splits)

definition correlation_of :: "'w message_hooks \<Rightarrow> message \<Rightarrow> ('w, 'c) bus_state \<Rightarrow> string" where
  "correlation_of hk m st =
     (case ms_correlation_id m of
        Some cid \<Rightarrow> if cid \<noteq> [] then cid else fst (get_or_create_correlation_id hk st)
      | None \<Rightarrow> fst (get_or_create_correlation_id hk st))"

lemma correlate_cases:
  "\<exists>st'. correlate hk m st = (Inr (m\<lparr>ms_correlation_id := Some (correlation_of hk m st)\<rparr>), st') \<and>
     bus_correlation st' = Some (correlation_of hk m st) \<and> bus_metrics st' = bus_metrics st \<and>
     bus_cache_state st' = bus_cache_state st \<and>
     (bus_world st' = bus_world st \<or> bus_world st' = snd (mh_uuid hk (bus_world st)))"
  by (auto simp: correlate_def correlation_of_def get_or_create_correlation_id_def split: option.splits prod.splits)

lemma command_pipeline_quiet:
  assumes "command_pipeline bus hk context m st = (r, st')"
  shows "bus_metrics st' = bus_metrics st @ (if is_ok r then [CommandOk (ms_type m)] else []) \<and>
     bus_correlation st' = Some (correlation_of hk m st)"
proof -
  obtain st1 where st1: "correlate hk m st = (Inr (m\<lparr>ms_correlation_id := Some (correlation_of hk m st)\<rparr>), st1)"
    "bus_correlation st1 = Some (correlation_of hk m st)" "bus_metrics st1 = bus_metrics st"
    using correlate_cases [of hk m st] by blast
  let ?m = "m\<lparr>ms_correlation_id := Some (correlation_of hk m st)\<rparr>"
  define rest where "rest = then_do (in_world (optional_step (cmd_validation bus) (validate_message hk ?m))) (\<lambda>_.
     then_do (in_world (authorization_step (cmd_authorization bus) hk ?m context)) (\<lambda>_.
     then_do (\<lambda>st. (find_command_handler (cmd_handlers bus) (ms_type ?m), st)) (\<lambda>h.
     then_do (in_world (handle_message h ?m context)) (\<lambda>result.
     then_do (in_world (try_publish_events bus ?m result)) (\<lambda>_ (st :: ('a, 'b) bus_state).
       (Inr result, record_metric (CommandOk (ms_type ?m)) st))))))"
  have "ends_with (CommandOk (ms_type ?m)) rest" unfolding rest_def by (intro ends_with_then) simp_all
  moreover have "rest st1 = (r, st')" using assms st1(1) by (simp add: command_pipeline_def rest_def)
  ultimately have "bus_metrics st' = bus_metrics st1 @ (if is_ok r then [CommandOk (ms_type ?m)] else []) \<and>
      bus_correlation st' = bus_correlation st1"
    unfolding ends_with_def by blast
  with st1(2,3) show ?thesis by simp
qed

text \<open>What the two gates say about the message with its correlation id.\<close>

definition gates :: "'w command_bus \<Rightarrow> 'w message_hooks \<Rightarrow> pyval option \<Rightarrow> message \<Rightarrow> ('w, 'c) bus_state \<Rightarrow>
    (exn + message) \<times> ('w, 'c) bus_state" where
  "gates bus hk context m =
     then_do (correlate hk m) (\<lambda>m.
     then_do (in_world (optional_step (cmd_validation bus) (validate_message hk m))) (\<lambda>_.
     then_do (in_world (authorization_step (cmd_authorization bus) hk m context)) (\<lambda>_ st. (Inr m, st))))"

lemma then_do_assoc: "then_do (then_do f g) h = then_do f (\<lambda>v. then_do (g v) h)"
  by (auto simp: then_do_def fun_eq_iff split: prod.splits sum.splits)

lemma then_do_return: "then_do (\<lambda>st. (Inr v, st)) f = f v"
  by (simp add: then_do_def fun_eq_iff)

lemma command_pipeline_gates:
  "command_pipeline bus hk context m =
     then_do (gates bus hk context m) (\<lambda>m.
     then_do (\<lambda>st. (find_command_handler (cmd_handlers bus) (ms_type m), st)) (\<lambda>h.
     then_do (in_world (handle_message h m context)) (\<lambda>result.
     then_do (in_world (try_publish_events bus m result)) (\<lambda>_ st.
       (Inr result, record_metric (CommandOk (ms_type m)) st)))))"
  by (simp add: command_pipeline_def gates_def then_do_assoc then_do_return)

text \<open>
  Claim C25. The command bus: whatever fails, the caller gets a \<^verbatim>\<open>CommandProcessingException\<close>, exactly one metric is recorded, of the right kind, and
  the correlation id stays set; and a command that validation or authorization turns away has the same outcome for all
  registries and publishers, so no handler sees it and no event is published.
\<close>

theorem command_bus_correct:
  assumes "command_execute bus hk context m st = (r, st')"
  shows "(case r of Inl e \<Rightarrow> isinstance_exc e command_processing | Inr _ \<Rightarrow> True) \<and>
         bus_metrics st' = bus_metrics st @ [if is_ok r then CommandOk (ms_type m) else CommandFailed (ms_type m)] \<and>
         bus_correlation st' = Some (correlation_of hk m st) \<and>
         (\<not> is_ok (fst (gates bus hk context m st)) \<longrightarrow>
            \<not> is_ok r \<and>
            (\<forall>handlers publisher. command_execute (bus\<lparr>cmd_handlers := handlers, cmd_event_publisher := publisher\<rparr>) hk context m st
               = (r, st')))"
proof -
  obtain r1 st1 where p: "command_pipeline bus hk context m st = (r1, st1)" by fastforce
  note q = command_pipeline_quiet [OF p]
  have "(case r of Inl e \<Rightarrow> isinstance_exc e command_processing | Inr _ \<Rightarrow> True) \<and>
      bus_metrics st' = bus_metrics st @ [if is_ok r then CommandOk (ms_type m) else CommandFailed (ms_type m)] \<and>
      bus_correlation st' = Some (correlation_of hk m st)"
    using assms q by (cases r1) (auto simp: command_execute_def p record_metric_def isinstance_exc_def exc_mro_self)
  moreover have "\<not> is_ok r \<and> (\<forall>handlers publisher.
      command_execute (bus\<lparr>cmd_handlers := handlers, cmd_event_publisher := publisher\<rparr>) hk context m st = (r, st'))"
    if blocked: "\<not> is_ok (fst (gates bus hk context m st))"
  proof -
    obtain e st2 where g: "gates bus hk context m st = (Inl e, st2)"
      using blocked by (cases "gates bus hk context m st"; cases "fst (gates bus hk context m st)") auto
    have same: "gates (bus\<lparr>cmd_handlers := handlers, cmd_event_publisher := publisher\<rparr>) hk context m st = (Inl e, st2)"
      for handlers publisher using g by (simp add: gates_def)
    show ?thesis using assms g same by (auto simp: command_execute_def command_pipeline_gates)
  qed
  ultimately show ?thesis by blast
qed

text \<open>A command that its own \<^verbatim>\<open>authorize\<close> denies; the handler would count its calls.\<close>

definition deny_hooks :: "nat message_hooks" where
  "deny_hooks = \<lparr>mh_pydantic = (\<lambda>m. Inr []), mh_validate = None,
     mh_authorize = Some (\<lambda>m w. (Inr (HkResult (ar_failure ''order'' ''not yours'' ''DENIED'' None)), w)),
     mh_authorize_with_context = None, mh_cache_key = (\<lambda>m. Inr None), mh_str = (\<lambda>e. exc_msg e),
     mh_uuid = (\<lambda>w. (''id'', w)), mh_clock = (\<lambda>w. 0)\<rparr>"

definition counting_handler :: "string \<Rightarrow> nat handler" where
  "counting_handler t =
     \<lparr>h_name = ''Counter'', h_message_type = Some t, h_cacheable = True, h_cache_ttl = None,
      h_pre_process = (\<lambda>m w. (Inr (), w)), h_do_handle = (\<lambda>m w. (Inr (VInt (int (Suc w))), Suc w)),
      h_do_handle_with_context = (\<lambda>m c w. (Inr (VInt (int (Suc w))), Suc w)), h_post_process = (\<lambda>m r w. (Inr (), w)),
      h_on_success = (\<lambda>m r w. (Inr (), w)), h_on_error = (\<lambda>m e w. (Inr (), w)), h_map_error = (\<lambda>m e. e)\<rparr>"

definition cancel_order :: message where
  "cancel_order = \<lparr>ms_type = ''CancelOrder'', ms_correlation_id = Some ''c1'', ms_cacheable = False, ms_fields = None,
     ms_domain_events = []\<rparr>"

definition shop_bus :: "nat command_bus" where
  "shop_bus = \<lparr>cmd_handlers = register_handler (counting_handler ''CancelOrder'') [], cmd_validation = True,
     cmd_authorization = Some True, cmd_event_publisher = None, cmd_event_failure_strategy = EVENTS_LOG\<rparr>"

definition bus_at_rest :: "'w \<Rightarrow> 'c \<Rightarrow> ('w, 'c) bus_state" where
  "bus_at_rest w c = \<lparr>bus_world = w, bus_correlation = None, bus_metrics = [], bus_cache_state = c\<rparr>"

theorem command_bus_correct_witness:
  "\<exists>e st'. send shop_bus deny_hooks cancel_order (bus_at_rest 0 ()) = (Inl e, st') \<and>
     isinstance_exc e command_processing \<and> bus_world st' = 0 \<and> bus_metrics st' = [CommandFailed ''CancelOrder''] \<and>
     send (shop_bus\<lparr>cmd_handlers := []\<rparr>) deny_hooks cancel_order (bus_at_rest 0 ()) = (Inl e, st')"
proof -
  let ?e = "authorization_exception (ar_failure ''order'' ''not yours'' ''DENIED'' None)"
  let ?st = "\<lparr>bus_world = 0, bus_correlation = Some ''c1'', bus_metrics = [], bus_cache_state = ()\<rparr>"
  have g: "gates shop_bus deny_hooks None cancel_order (bus_at_rest 0 ()) = (Inl ?e, ?st)"
    by (simp add: gates_def then_do_def correlate_def cancel_order_def bus_at_rest_def in_world_def optional_step_def
        shop_bus_def validate_message_def validate_with_result_def validate_custom_def deny_hooks_def vr_combine_def
        vr_from_errors_def vr_success_def authorization_step_def authorize_message_def evaluate_def evaluate_plain_def
        ar_failure_def)
  obtain r st' where r: "command_execute shop_bus deny_hooks None cancel_order (bus_at_rest 0 ()) = (r, st')" by fastforce
  note c = command_bus_correct [OF r]
  have blocked: "\<not> is_ok (fst (gates shop_bus deny_hooks None cancel_order (bus_at_rest 0 ())))" by (simp add: g)
  then obtain e where e: "r = Inl e" using c by (cases r) auto
  have "bus_world st' = 0"
    using r by (auto simp: command_execute_def command_pipeline_gates g record_metric_def)
  moreover have "command_execute (shop_bus\<lparr>cmd_handlers := [], cmd_event_publisher := None\<rparr>) deny_hooks None cancel_order
      (bus_at_rest 0 ()) = (r, st')" using c blocked by blast
  moreover have "shop_bus\<lparr>cmd_handlers := [], cmd_event_publisher := None\<rparr> = shop_bus\<lparr>cmd_handlers := []\<rparr>"
    by (simp add: shop_bus_def)
  moreover have "bus_metrics st' = [CommandFailed ''CancelOrder'']" "isinstance_exc e command_processing"
    using c e by (simp_all add: bus_at_rest_def cancel_order_def)
  ultimately show ?thesis using r e by (simp add: send_def)
qed

section \<open>The query bus and its cache\<close>

text \<open>
  Queries whose answer is a function of the message: every handler answers \<open>f\<close>, whatever the world, and time does
  not run backwards; neither the answer nor the cache key depends on the correlation id.
\<close>

definition answers :: "'w registry \<Rightarrow> 'w message_hooks \<Rightarrow> (message \<Rightarrow> pyval) \<Rightarrow> bool" where
  "answers reg hk f \<longleftrightarrow>
     (\<forall>m h w. dget reg (ms_type m) = Some h \<longrightarrow>
        (\<exists>w'. handle_message h m None w = (Inr (f m), w') \<and> mh_clock hk w \<le> mh_clock hk w')) \<and>
     (\<forall>m c. f (m\<lparr>ms_correlation_id := c\<rparr>) = f m \<and> mh_cache_key hk (m\<lparr>ms_correlation_id := c\<rparr>) = mh_cache_key hk m) \<and>
     (\<forall>w. mh_clock hk w \<le> mh_clock hk (snd (mh_uuid hk w)))"

text \<open>Keys are sound for a set of queries: equal keys, equal answers.\<close>

definition keys_sound :: "'w message_hooks \<Rightarrow> (message \<Rightarrow> pyval) \<Rightarrow> message set \<Rightarrow> bool" where
  "keys_sound hk f Q \<longleftrightarrow>
     (\<forall>m \<in> Q. is_ok (mh_cache_key hk m)) \<and>
     (\<forall>m1 \<in> Q. \<forall>m2 \<in> Q. \<forall>k. mh_cache_key hk m1 = Inr (Some k) \<longrightarrow> mh_cache_key hk m2 = Inr (Some k) \<longrightarrow> f m1 = f m2)"

definition open_bus :: "'w registry \<Rightarrow> 'c cache_ops option \<Rightarrow> int \<Rightarrow> ('w, 'c) query_bus" where
  "open_bus reg cache ttl =
     \<lparr>qry_handlers = reg, qry_validation = False, qry_authorization = None, qry_cache = cache, qry_default_cache_ttl = ttl\<rparr>"

fun query_all :: "('w, 'c) query_bus \<Rightarrow> 'w message_hooks \<Rightarrow> message list \<Rightarrow> ('w, 'c) bus_state \<Rightarrow> (exn + pyval) list" where
  "query_all bus hk [] st = []"
| "query_all bus hk (m # ms) st = (case query_execute bus hk None m st of (r, st') \<Rightarrow> r # query_all bus hk ms st')"

lemma open_bus_pipeline:
  assumes "dget reg (ms_type m) = Some h"
    and "correlate hk m st = (Inr (m\<lparr>ms_correlation_id := cid\<rparr>), st1)"
    and "answer_query (open_bus reg c ttl) hk None (m\<lparr>ms_correlation_id := cid\<rparr>) h st1 = (Inr v, st2)"
  shows "query_execute (open_bus reg c ttl) hk None m st = (Inr v, st2)"
proof -
  have "find_query_handler reg (ms_type m) = Inr h" by (simp add: find_query_handler_def find_handler_def assms(1))
  with assms(2,3) show ?thesis
    by (simp add: query_execute_def query_pipeline_def then_do_def in_world_def optional_step_def authorization_step_def
        open_bus_def)
qed

text \<open>Without a cache every query is answered by its handler.\<close>

lemma answer_uncached:
  assumes "handle_message h m None (bus_world st) = (Inr v, w')"
  shows "answer_query (open_bus reg None ttl) hk None m h st = (Inr v, record_metric (QueryOk (ms_type m)) (st\<lparr>bus_world := w'\<rparr>))"
  using assms by (simp add: answer_query_def then_do_def try_cache_get_def try_cache_put_def open_bus_def in_world_def)

lemma query_all_uncached:
  assumes "answers reg hk f" "\<forall>m \<in> set ms. dmem (ms_type m) reg"
  shows "query_all (open_bus reg None ttl) hk ms st = map (Inr \<circ> f) ms"
  using assms(2)
proof (induction ms arbitrary: st)
  case (Cons m ms)
  from Cons.prems obtain h where h: "dget reg (ms_type m) = Some h" by (auto simp: dmem_def)
  let ?m = "m\<lparr>ms_correlation_id := Some (correlation_of hk m st)\<rparr>"
  obtain st1 where st1: "correlate hk m st = (Inr ?m, st1)" using correlate_cases [of hk m st] by blast
  have "dget reg (ms_type ?m) = Some h" using h by simp
  then obtain w' where "handle_message h ?m None (bus_world st1) = (Inr (f ?m), w')"
    using assms(1) unfolding answers_def by blast
  from open_bus_pipeline [OF h st1 answer_uncached [OF this]]
  have "query_execute (open_bus reg None ttl) hk None m st =
      (Inr (f ?m), record_metric (QueryOk (ms_type ?m)) (st1\<lparr>bus_world := w'\<rparr>))" .
  moreover have "f ?m = f m" using assms(1) unfolding answers_def by blast
  ultimately show ?case using Cons.IH Cons.prems by simp
qed simp

text \<open>With a cache: hit, miss, or a query that is not cached.\<close>

definition cache_slot :: "'w message_hooks \<Rightarrow> message \<Rightarrow> 'w handler \<Rightarrow> string option" where
  "cache_slot hk m h =
     (if ms_cacheable m \<and> h_cacheable h
      then (case build_cache_key hk m of Inl e \<Rightarrow> None | Inr k \<Rightarrow> k) else None)"

lemma answer_not_cached:
  assumes "cache_slot hk m h = None" "is_ok (mh_cache_key hk m)" "handle_message h m None (bus_world st) = (Inr v, w')"
  shows "answer_query (open_bus reg (Some c) ttl) hk None m h st = (Inr v, record_metric (QueryOk (ms_type m)) (st\<lparr>bus_world := w'\<rparr>))"
proof -
  have "try_cache_get (open_bus reg (Some c) ttl) hk m h st = (Inr VNone, st)" for st
    using assms(1,2)
    by (auto simp: try_cache_get_def open_bus_def cache_slot_def build_cache_key_def is_ok_iff split: option.splits if_splits)
  moreover have "try_cache_put (open_bus reg (Some c) ttl) hk m h v st = (Inr (), st)" for st
    using assms(1,2)
    by (auto simp: try_cache_put_def open_bus_def cache_slot_def build_cache_key_def is_ok_iff split: option.splits if_splits)
  ultimately show ?thesis
    by (simp add: answer_query_def then_do_def in_world_def assms(3))
qed

lemma cache_slot_Some:
  assumes "cache_slot hk m h = Some key"
  shows "ms_cacheable m" "h_cacheable h" "build_cache_key hk m = Inr (Some key)"
    and "\<exists>k. mh_cache_key hk m = Inr (Some k) \<and> key = '':cqrs:'' @ k"
  using assms by (auto simp: cache_slot_def build_cache_key_def split: if_splits sum.splits option.splits)

context cache_port begin

lemma answer_hit:
  assumes "cache_slot hk m h = Some key" "view (mh_clock hk (bus_world st)) (bus_cache_state st) key \<noteq> VNone"
  shows "\<exists>st'. answer_query (open_bus reg (Some ops) ttl) hk None m h st =
       (Inr (view (mh_clock hk (bus_world st)) (bus_cache_state st) key), st') \<and>
     bus_world st' = bus_world st \<and> bus_correlation st' = bus_correlation st \<and>
     (\<forall>t \<ge> mh_clock hk (bus_world st). view t (bus_cache_state st') = view t (bus_cache_state st))"
proof -
  let ?now = "mh_clock hk (bus_world st)" and ?s = "bus_cache_state st"
  obtain s' where s': "co_get ops ?now key ?s = (Inr (view ?now ?s key), s')" "\<forall>t \<ge> ?now. view t s' = view t ?s"
    using get_view by blast
  have "try_cache_get (open_bus reg (Some ops) ttl) hk m h st = (Inr (view ?now ?s key), st\<lparr>bus_cache_state := s'\<rparr>)"
    using s'(1) cache_slot_Some [OF assms(1)] by (simp add: try_cache_get_def open_bus_def)
  with assms(2) s'(2) show ?thesis by (simp add: answer_query_def record_metric_def)
qed

lemma answer_miss:
  assumes "cache_slot hk m h = Some key" "view (mh_clock hk (bus_world st)) (bus_cache_state st) key = VNone"
    and "handle_message h m None (bus_world st) = (Inr v, w')" "mh_clock hk (bus_world st) \<le> mh_clock hk w'"
  shows "\<exists>st'. answer_query (open_bus reg (Some ops) ttl) hk None m h st = (Inr v, st') \<and>
     bus_world st' = w' \<and> bus_correlation st' = bus_correlation st \<and>
     (\<forall>t \<ge> mh_clock hk w'. view t (bus_cache_state st') =
        (view t (bus_cache_state st))
          (key := put_view (mh_clock hk w') v (Some (of_int (cache_ttl ttl h))) t))"
proof -
  let ?bus = "open_bus reg (Some ops) ttl"
  let ?now = "mh_clock hk (bus_world st)" and ?s = "bus_cache_state st" and ?later = "mh_clock hk w'"
  obtain s1 where s1: "co_get ops ?now key ?s = (Inr (view ?now ?s key), s1)" "\<forall>t \<ge> ?now. view t s1 = view t ?s"
    using get_view by blast
  obtain s2 where s2: "co_put ops ?later key v (Some (of_int (cache_ttl ttl h))) s1 = (Inr (), s2)"
    "\<forall>t \<ge> ?later. view t s2 = (view t s1)(key := put_view ?later v (Some (of_int (cache_ttl ttl h))) t)"
    using put_view by blast
  have "try_cache_get ?bus hk m h st = (Inr VNone, st\<lparr>bus_cache_state := s1\<rparr>)"
    using s1(1) assms(2) cache_slot_Some [OF assms(1)] by (simp add: try_cache_get_def open_bus_def)
  moreover have "try_cache_put ?bus hk m h v (st\<lparr>bus_cache_state := s1, bus_world := w'\<rparr>) =
      (Inr (), st\<lparr>bus_cache_state := s2, bus_world := w'\<rparr>)"
    using s2(1) cache_slot_Some [OF assms(1)] by (simp add: try_cache_put_def open_bus_def)
  ultimately have "answer_query ?bus hk None m h st =
      (Inr v, record_metric (QueryOk (ms_type m)) (st\<lparr>bus_cache_state := s2, bus_world := w'\<rparr>))"
    by (simp add: answer_query_def in_world_def assms(3) then_do_def)
  moreover have "view t s2 = (view t ?s)(key := put_view ?later v (Some (of_int (cache_ttl ttl h))) t)"
    if "?later \<le> t" for t using s1(2) s2(2) that assms(4) by simp
  ultimately show ?thesis by (simp add: record_metric_def)
qed

text \<open>What the cache holds under the keys of the bus are answers to queries with these keys.\<close>

definition cache_sound :: "'w message_hooks \<Rightarrow> (message \<Rightarrow> pyval) \<Rightarrow> message set \<Rightarrow> rat \<Rightarrow> 's \<Rightarrow> bool" where
  "cache_sound hk f Q now s \<longleftrightarrow>
     (\<forall>t \<ge> now. \<forall>k. view t s ('':cqrs:'' @ k) \<noteq> VNone \<longrightarrow>
        (\<exists>m \<in> Q. mh_cache_key hk m = Inr (Some k) \<and> view t s ('':cqrs:'' @ k) = f m))"

lemma cache_sound_later:
  "\<lbrakk>cache_sound hk f Q now s; now \<le> u; \<forall>t \<ge> u. view t s' = view t s\<rbrakk> \<Longrightarrow> cache_sound hk f Q u s'"
  by (simp add: cache_sound_def)

lemma cache_sound_put:
  assumes "cache_sound hk f Q now s" "now \<le> u" "m \<in> Q" "mh_cache_key hk m = Inr (Some k)"
    and "\<forall>t \<ge> u. view t s' = (view t s)('':cqrs:'' @ k := put_view u (f m) ttl t)"
  shows "cache_sound hk f Q u s'"
  using assms unfolding cache_sound_def put_view_def by (auto split: if_splits)

lemma query_cached_step:
  assumes "answers reg hk f" "keys_sound hk f Q" "m \<in> Q" "dmem (ms_type m) reg"
    and "cache_sound hk f Q (mh_clock hk (bus_world st)) (bus_cache_state st)"
  shows "\<exists>st'. query_execute (open_bus reg (Some ops) ttl) hk None m st = (Inr (f m), st') \<and>
     cache_sound hk f Q (mh_clock hk (bus_world st')) (bus_cache_state st')"
proof -
  from assms(4) obtain h where h: "dget reg (ms_type m) = Some h" by (auto simp: dmem_def)
  let ?m = "m\<lparr>ms_correlation_id := Some (correlation_of hk m st)\<rparr>"
  obtain st1 where st1: "correlate hk m st = (Inr ?m, st1)" "bus_cache_state st1 = bus_cache_state st"
    "bus_world st1 = bus_world st \<or> bus_world st1 = snd (mh_uuid hk (bus_world st))"
    using correlate_cases [of hk m st] by blast
  let ?now = "mh_clock hk (bus_world st1)"
  have clock: "mh_clock hk (bus_world st) \<le> ?now" using st1(3) assms(1) unfolding answers_def by auto
  have sound: "cache_sound hk f Q ?now (bus_cache_state st1)"
    by (rule cache_sound_later [OF assms(5) clock]) (simp add: st1(2))
  have same: "f ?m = f m" "mh_cache_key hk ?m = mh_cache_key hk m" using assms(1) unfolding answers_def by blast+
  have "dget reg (ms_type ?m) = Some h" using h by simp
  then obtain w' where w': "handle_message h ?m None (bus_world st1) = (Inr (f m), w')" "?now \<le> mh_clock hk w'"
    using assms(1) same(1) unfolding answers_def by metis
  have "\<exists>st2. answer_query (open_bus reg (Some ops) ttl) hk None ?m h st1 = (Inr (f m), st2) \<and>
      cache_sound hk f Q (mh_clock hk (bus_world st2)) (bus_cache_state st2)"
  proof (cases "cache_slot hk ?m h")
    case None
    have "is_ok (mh_cache_key hk ?m)" using assms(2,3) by (simp add: keys_sound_def same)
    from answer_not_cached [OF None this w'(1)] cache_sound_later [OF sound w'(2)] show ?thesis
      by (simp add: record_metric_def)
  next
    case (Some key)
    then obtain k where k: "mh_cache_key hk m = Inr (Some k)" "key = '':cqrs:'' @ k"
      using cache_slot_Some(4) same(2) by metis
    show ?thesis
    proof (cases "view ?now (bus_cache_state st1) key = VNone")
      case True
      from answer_miss [OF Some True w'] obtain st2 where
        st2: "answer_query (open_bus reg (Some ops) ttl) hk None ?m h st1 = (Inr (f m), st2)" "bus_world st2 = w'"
          "\<forall>t \<ge> mh_clock hk w'. view t (bus_cache_state st2) = (view t (bus_cache_state st1))
            (key := put_view (mh_clock hk w') (f m) (Some (of_int (cache_ttl ttl h))) t)"
        by blast
      from cache_sound_put [OF sound w'(2) assms(3) k(1) st2(3) [unfolded k(2)]] st2(1,2) show ?thesis by auto
    next
      case False
      from sound False obtain m' where "m' \<in> Q" "mh_cache_key hk m' = Inr (Some k)"
        "view ?now (bus_cache_state st1) key = f m'" unfolding cache_sound_def k(2) by blast
      with assms(2,3) k(1) have v: "view ?now (bus_cache_state st1) key = f m" unfolding keys_sound_def by metis
      from answer_hit [OF Some False] obtain st2 where
        "answer_query (open_bus reg (Some ops) ttl) hk None ?m h st1 = (Inr (f m), st2)" "bus_world st2 = bus_world st1"
        "\<forall>t \<ge> ?now. view t (bus_cache_state st2) = view t (bus_cache_state st1)" unfolding v by blast
      with cache_sound_later [OF sound order_refl, of "bus_cache_state st2"] show ?thesis by auto
    qed
  qed
  then show ?thesis using open_bus_pipeline [OF h st1(1)] by blast
qed

lemma query_all_cached:
  assumes "answers reg hk f" "keys_sound hk f (set ms)" "\<forall>m \<in> set ms. dmem (ms_type m) reg"
    and "\<forall>t k. view t (bus_cache_state st) k = VNone"
  shows "query_all (open_bus reg (Some ops) ttl) hk ms st = map (Inr \<circ> f) ms"
proof -
  have "query_all (open_bus reg (Some ops) ttl) hk ns st = map (Inr \<circ> f) ns"
    if "cache_sound hk f (set ms) (mh_clock hk (bus_world st)) (bus_cache_state st)" "set ns \<subseteq> set ms" for ns st
    using that
  proof (induction ns arbitrary: st)
    case (Cons n ns)
    then have n: "n \<in> set ms" by simp
    with assms(3) have d: "dmem (ms_type n) reg" by blast
    obtain st' where "query_execute (open_bus reg (Some ops) ttl) hk None n st = (Inr (f n), st')"
      "cache_sound hk f (set ms) (mh_clock hk (bus_world st')) (bus_cache_state st')"
      using query_cached_step [OF assms(1,2) n d Cons.prems(1)] by blast
    with Cons show ?case by simp
  qed simp
  moreover have "cache_sound hk f (set ms) (mh_clock hk (bus_world st)) (bus_cache_state st)"
    using assms(4) by (simp add: cache_sound_def)
  ultimately show ?thesis by blast
qed

end

context cache_port begin

text \<open>A second query with the same key is answered from the cache: its handler does not run.\<close>

lemma second_query_hits:
  assumes "answers reg hk f" "dget reg (ms_type m1) = Some h1" "dget reg (ms_type m2) = Some h2"
    and "h_cacheable h1" "h_cacheable h2" "ms_cacheable m1" "ms_cacheable m2" "0 \<le> cache_ttl ttl h1"
    and "mh_cache_key hk m1 = Inr (Some k)" "mh_cache_key hk m2 = Inr (Some k)" "k \<noteq> []" "f m1 \<noteq> VNone"
    and "\<forall>t k. view t (bus_cache_state st) k = VNone"
  shows "\<exists>st1 st2. query_execute (open_bus reg (Some ops) ttl) hk None m1 st = (Inr (f m1), st1) \<and>
     query_execute (open_bus reg (Some ops) ttl) hk None m2 st1 = (Inr (f m1), st2) \<and> bus_world st2 = bus_world st1"
proof -
  let ?key = "'':cqrs:'' @ k" and ?bus = "open_bus reg (Some ops) ttl"
  let ?m1 = "m1\<lparr>ms_correlation_id := Some (correlation_of hk m1 st)\<rparr>"
  have same: "f ?m1 = f m1" "mh_cache_key hk (m\<lparr>ms_correlation_id := c\<rparr>) = mh_cache_key hk m" for m c
    using assms(1) unfolding answers_def by blast+
  have slot: "cache_slot hk (m1\<lparr>ms_correlation_id := c\<rparr>) h1 = Some ?key"
    "cache_slot hk (m2\<lparr>ms_correlation_id := c\<rparr>) h2 = Some ?key" for c
    using assms(4-11) by (simp_all add: cache_slot_def build_cache_key_def same)
  obtain st0 where st0: "correlate hk m1 st = (Inr ?m1, st0)" "bus_cache_state st0 = bus_cache_state st"
    "bus_correlation st0 = Some (correlation_of hk m1 st)" using correlate_cases [of hk m1 st] by blast
  have "dget reg (ms_type ?m1) = Some h1" using assms(2) by simp
  then obtain w' where w': "handle_message h1 ?m1 None (bus_world st0) = (Inr (f m1), w')"
    "mh_clock hk (bus_world st0) \<le> mh_clock hk w'" using assms(1) same(1) unfolding answers_def by metis
  have "view (mh_clock hk (bus_world st0)) (bus_cache_state st0) ?key = VNone" using assms(13) st0(2) by simp
  from answer_miss [OF slot(1) this w', of reg ttl] obtain st1 where
    st1: "answer_query ?bus hk None ?m1 h1 st0 = (Inr (f m1), st1)" "bus_world st1 = w'"
      "bus_correlation st1 = bus_correlation st0"
      "\<forall>t \<ge> mh_clock hk w'. view t (bus_cache_state st1) = (view t (bus_cache_state st0))
        (?key := put_view (mh_clock hk w') (f m1) (Some (of_int (cache_ttl ttl h1))) t)" by blast
  have q1: "query_execute ?bus hk None m1 st = (Inr (f m1), st1)"
    using open_bus_pipeline [OF assms(2) st0(1)] st1(1) by blast
  let ?m2 = "m2\<lparr>ms_correlation_id := Some (correlation_of hk m2 st1)\<rparr>"
  have "bus_correlation st1 \<noteq> None" using st1(3) st0(3) by simp
  then have "correlate hk m2 st1 = (Inr ?m2, st1\<lparr>bus_correlation := Some (correlation_of hk m2 st1)\<rparr>)"
    by (auto simp: correlate_def correlation_of_def get_or_create_correlation_id_def split: option.splits)
  moreover define st2 where "st2 = st1\<lparr>bus_correlation := Some (correlation_of hk m2 st1)\<rparr>"
  ultimately have c2: "correlate hk m2 st1 = (Inr ?m2, st2)" by simp
  have w2: "bus_world st2 = w'" "bus_cache_state st2 = bus_cache_state st1" by (simp_all add: st2_def st1(2))
  have "view (mh_clock hk w') (bus_cache_state st1) ?key = f m1"
    using st1(4) assms(8) by (simp add: put_view_def expired_def)
  then have hit: "view (mh_clock hk (bus_world st2)) (bus_cache_state st2) ?key = f m1" by (simp add: w2)
  with assms(12) have "view (mh_clock hk (bus_world st2)) (bus_cache_state st2) ?key \<noteq> VNone" by simp
  from answer_hit [OF slot(2) this, of reg ttl] obtain st3 where
    "answer_query ?bus hk None ?m2 h2 st2 = (Inr (f m1), st3)" "bus_world st3 = bus_world st2" unfolding hit by blast
  then show ?thesis using q1 open_bus_pipeline [OF assms(3) c2] st1(2) w2(1) by (intro exI conjI) (rule q1, blast, simp)
qed

end


text \<open>A handler that answers with the fields of the query, and Python's hash of small integers.\<close>

definition echo_answer :: "message \<Rightarrow> pyval" where
  "echo_answer m = VList [VStr (ms_type m), VDict (case ms_fields m of None \<Rightarrow> [] | Some fs \<Rightarrow> fs)]"

definition echo_handler :: "string \<Rightarrow> nat handler" where
  "echo_handler t = (counting_handler t)\<lparr>h_do_handle := (\<lambda>m w. (Inr (echo_answer m), Suc w))\<rparr>"

definition toy_hash :: hashing where
  "toy_hash = \<lparr>hs_value = (\<lambda>v. case v of VInt n \<Rightarrow> Some (if n = -1 then -2 else n) | VStr s \<Rightarrow> Some (int (length s)) | _ \<Rightarrow> None),
     hs_tuple = (\<lambda>hs. foldr (\<lambda>x y. 31 * y + x) hs 7), hs_repr = (\<lambda>v. ''?''), hs_digits = (\<lambda>n. if n < 0 then ''-'' else replicate (nat n) CHR ''1'')\<rparr>"

definition key_hooks :: "nat message_hooks" where
  "key_hooks = deny_hooks\<lparr>mh_cache_key := (\<lambda>m. Inr (Some (default_cache_key toy_hash m))), mh_clock := (\<lambda>w. of_nat w)\<rparr>"

definition get_item :: "int \<Rightarrow> message" where
  "get_item n = \<lparr>ms_type = ''GetItem'', ms_correlation_id = None, ms_cacheable = True, ms_fields = Some [(''id'', VInt n)],
     ms_domain_events = []\<rparr>"

definition item_registry :: "nat registry" where
  "item_registry = register_handler (echo_handler ''GetItem'') []"

lemma echo_answers: "answers item_registry key_hooks echo_answer"
  by (auto simp: answers_def item_registry_def register_handler_def echo_handler_def counting_handler_def
      handle_message_def then_do_def echo_answer_def key_hooks_def default_cache_key_def deny_hooks_def
      split: if_splits option.split)


text \<open>
  The automatic key confuses queries: Python gives -1 and -2 the same hash, so two queries of a dataclass with one field that hold them have
  the same key, and the second is answered with the answer to the first, without running its handler.
\<close>

theorem cache_key_collision:
  assumes "answers reg hk f" "dget reg (ms_type m) = Some h" "h_cacheable h" "ms_cacheable m" "0 \<le> cache_ttl ttl h"
    and "\<forall>m. mh_cache_key hk m = Inr (Some (default_cache_key hs m))"
    and "hs_value hs (VInt (- 1)) = hs_value hs (VInt (- 2))" "hs_value hs (VInt (- 2)) \<noteq> None"
    and "ms_fields m = Some [(name, VInt (- 1))]" "f m \<noteq> VNone" "bus_cache_state st = []"
  shows "query_all (open_bus reg (Some memory_cache) ttl) hk [m, m\<lparr>ms_fields := Some [(name, VInt (- 2))]\<rparr>] st
         = [Inr (f m), Inr (f m)]"
proof -
  let ?m2 = "m\<lparr>ms_fields := Some [(name, VInt (- 2))]\<rparr>"
  let ?k = "default_cache_key hs m"
  have "default_cache_key hs ?m2 = ?k"
    using assms(7-9) by (auto simp: default_cache_key_def fields_hash_def hash_of_def)
  then have keys: "mh_cache_key hk m = Inr (Some ?k)" "mh_cache_key hk ?m2 = Inr (Some ?k)" using assms(6) by simp_all
  have "?k \<noteq> []" using assms(9) by (simp add: default_cache_key_def)
  from memory_port.second_query_hits [OF assms(1,2) _ assms(3) assms(3,4) _ assms(5) keys this assms(10), of st] assms(2,4,11)
  obtain st1 st2 where "query_execute (open_bus reg (Some memory_cache) ttl) hk None m st = (Inr (f m), st1)"
    "query_execute (open_bus reg (Some memory_cache) ttl) hk None ?m2 st1 = (Inr (f m), st2)" by auto
  then show ?thesis by simp
qed

theorem cache_key_collision_witness:
  "query_all (open_bus item_registry (Some memory_cache) 900) key_hooks [get_item (- 1), get_item (- 2)] (bus_at_rest 0 [])
     = [Inr (echo_answer (get_item (- 1))), Inr (echo_answer (get_item (- 1)))] \<and>
   echo_answer (get_item (- 2)) \<noteq> echo_answer (get_item (- 1))"
proof -
  have r: "dget item_registry (ms_type (get_item (- 1))) = Some (echo_handler ''GetItem'')"
    by (simp add: item_registry_def get_item_def register_handler_def echo_handler_def counting_handler_def)
  have "query_all (open_bus item_registry (Some memory_cache) 900) key_hooks
      [get_item (- 1), (get_item (- 1))\<lparr>ms_fields := Some [(''id'', VInt (- 2))]\<rparr>] (bus_at_rest 0 [])
     = [Inr (echo_answer (get_item (- 1))), Inr (echo_answer (get_item (- 1)))]"
    by (rule cache_key_collision [OF echo_answers r, where hs = toy_hash])
      (simp_all add: echo_handler_def counting_handler_def get_item_def cache_ttl_def key_hooks_def toy_hash_def
        echo_answer_def bus_at_rest_def)
  moreover have "(get_item (- 1))\<lparr>ms_fields := Some [(''id'', VInt (- 2))]\<rparr> = get_item (- 2)" by (simp add: get_item_def)
  ultimately show ?thesis by (simp add: echo_answer_def get_item_def)
qed

text \<open>
  \<^verbatim>\<open>clear_cache\<close> with the key of a query leaves the entry of that query where it is, since the bus stores it under the
  prefixed key.
\<close>

theorem clear_cache_keeps_entry:
  assumes "clear_cache (open_bus reg (Some memory_cache) ttl) hk k st = (r, st')" "mh_clock hk (bus_world st) \<le> t"
  shows "mem_view t (bus_cache_state st') ('':cqrs:'' @ k) = mem_view t (bus_cache_state st) ('':cqrs:'' @ k)"
proof -
  obtain b s' where s': "co_evict memory_cache (mh_clock hk (bus_world st)) k (bus_cache_state st) = (Inr b, s')"
    "\<forall>t \<ge> mh_clock hk (bus_world st). mem_view t s' = (mem_view t (bus_cache_state st))(k := VNone)"
    using memory_port.evict_view by blast
  have "k \<noteq> '':cqrs:'' @ k" by (metis append_self_conv2 list.distinct(1))
  with assms s' show ?thesis by (auto simp: clear_cache_def open_bus_def)
qed

end
