(* ===== verification/ServiceClient.thy ===== *)
theory ServiceClient
  imports Exceptions
begin

text \<open>
  The resilience of declarative service clients: \<^verbatim>\<open>client/circuit_breaker.py\<close>, \<^verbatim>\<open>client/retry.py\<close> and
  the part of \<^verbatim>\<open>client/post_processor.py\<close> that wraps the generated methods (retry outside, circuit breaker inside).
  A world \<open>'w\<close> stands for everything outside: the clock reads it, a call and a sleep change it.
\<close>

section \<open>CircuitBreaker\<close>

datatype circuit_state = CB_CLOSED | CB_OPEN | CB_HALF_OPEN

record circuit_breaker =
  cb_failure_threshold :: int
  cb_recovery_timeout :: rat
  cb_failure_count :: int
  cb_last_failure_time :: "rat option"
  cb_state :: circuit_state

definition new_circuit_breaker :: "int \<Rightarrow> rat \<Rightarrow> circuit_breaker" where
  "new_circuit_breaker failure_threshold recovery_timeout =
     \<lparr>cb_failure_threshold = failure_threshold, cb_recovery_timeout = recovery_timeout,
      cb_failure_count = 0, cb_last_failure_time = None, cb_state = CB_CLOSED\<rparr>"

definition current_state :: "rat \<Rightarrow> circuit_breaker \<Rightarrow> circuit_state" where
  "current_state now cb =
     (case cb_last_failure_time cb of
        Some t \<Rightarrow>
          if cb_state cb = CB_OPEN \<and> cb_recovery_timeout cb \<le> now - t then CB_HALF_OPEN else cb_state cb
      | None \<Rightarrow> cb_state cb)"

definition on_success :: "circuit_breaker \<Rightarrow> circuit_breaker" where
  "on_success cb = cb\<lparr>cb_failure_count := 0, cb_state := CB_CLOSED, cb_last_failure_time := None\<rparr>"

definition on_failure :: "rat \<Rightarrow> circuit_breaker \<Rightarrow> circuit_breaker" where
  "on_failure now cb =
     (if cb_state cb = CB_HALF_OPEN
      then cb\<lparr>cb_failure_count := cb_failure_threshold cb, cb_state := CB_OPEN, cb_last_failure_time := Some now\<rparr>
      else let cb' = cb\<lparr>cb_failure_count := cb_failure_count cb + 1, cb_last_failure_time := Some now\<rparr>
           in if cb_failure_threshold cb' \<le> cb_failure_count cb' then cb'\<lparr>cb_state := CB_OPEN\<rparr> else cb')"

definition breaker_open :: exn where
  "breaker_open = Exn CircuitBreakerException ''Circuit breaker is open'' []"

definition cb_call ::
  "('w \<Rightarrow> rat) \<Rightarrow> ('w \<Rightarrow> (exn + 'a) \<times> 'w) \<Rightarrow> circuit_breaker \<Rightarrow> 'w \<Rightarrow> (exn + 'a) \<times> circuit_breaker \<times> 'w" where
  "cb_call clock func cb w =
     (if current_state (clock w) cb = CB_OPEN then (Inl breaker_open, cb, w)
      else case func w of
        (Inr v, w') \<Rightarrow> (Inr v, on_success cb, w')
      | (Inl e, w') \<Rightarrow>
          if isinstance_exc e CircuitBreakerException then (Inl e, cb, w')
          else (Inl e, on_failure (clock w') cb, w'))"

text \<open>
  Calls that overlap: a call begins, when the breaker may turn it away, and ends with one of three
  outcomes. The breaker changes only when a call ends.
\<close>

datatype cb_outcome = CbSucceeded | CbFailed rat | CbNested

fun cb_record :: "cb_outcome \<Rightarrow> circuit_breaker \<Rightarrow> circuit_breaker" where
  "cb_record CbSucceeded cb = on_success cb"
| "cb_record (CbFailed now) cb = on_failure now cb"
| "cb_record CbNested cb = cb"

datatype cb_event = CbBegin rat nat | CbEnd nat cb_outcome

record cb_system =
  cs_breaker :: circuit_breaker
  cs_running :: "nat list"
  cs_rejected :: "nat list"

fun cb_step :: "cb_event \<Rightarrow> cb_system \<Rightarrow> cb_system option" where
  "cb_step (CbBegin now t) s =
     (if current_state now (cs_breaker s) = CB_OPEN then Some (s\<lparr>cs_rejected := cs_rejected s @ [t]\<rparr>)
      else Some (s\<lparr>cs_running := cs_running s @ [t]\<rparr>))"
| "cb_step (CbEnd t out) s =
     (if t \<in> set (cs_running s)
      then Some (s\<lparr>cs_breaker := cb_record out (cs_breaker s), cs_running := remove1 t (cs_running s)\<rparr>)
      else None)"

fun cb_run :: "cb_event list \<Rightarrow> cb_system \<Rightarrow> cb_system option" where
  "cb_run [] s = Some s"
| "cb_run (e # es) s = (case cb_step e s of None \<Rightarrow> None | Some s' \<Rightarrow> cb_run es s')"

definition cb_idle :: "circuit_breaker \<Rightarrow> cb_system" where
  "cb_idle cb = \<lparr>cs_breaker = cb, cs_running = [], cs_rejected = []\<rparr>"

text \<open>The sequential call is one begin and one end.\<close>

lemma cb_call_cases:
  "cb_call clock func cb w =
     (if current_state (clock w) cb = CB_OPEN then (Inl breaker_open, cb, w)
      else (fst (func w),
            cb_record (case fst (func w) of
                Inr _ \<Rightarrow> CbSucceeded
              | Inl e \<Rightarrow> if isinstance_exc e CircuitBreakerException then CbNested else CbFailed (clock (snd (func w)))) cb,
            snd (func w)))"
  by (auto simp: cb_call_def split: prod.splits sum.splits)

subsection \<open>The breaker as a function of the outcomes\<close>

text \<open>The times of the failures since the last success, the latest first.\<close>

fun recent_failures :: "cb_outcome list \<Rightarrow> rat list \<Rightarrow> rat list" where
  "recent_failures [] fs = fs"
| "recent_failures (CbSucceeded # os) fs = recent_failures os []"
| "recent_failures (CbFailed t # os) fs = recent_failures os (t # fs)"
| "recent_failures (CbNested # os) fs = recent_failures os fs"

definition breaker_of :: "int \<Rightarrow> rat \<Rightarrow> rat list \<Rightarrow> circuit_breaker" where
  "breaker_of threshold timeout fs =
     \<lparr>cb_failure_threshold = threshold, cb_recovery_timeout = timeout, cb_failure_count = int (length fs),
      cb_last_failure_time = (case fs of [] \<Rightarrow> None | t # _ \<Rightarrow> Some t),
      cb_state = (if fs \<noteq> [] \<and> threshold \<le> int (length fs) then CB_OPEN else CB_CLOSED)\<rparr>"

lemma cb_record_of:
  "cb_record out (breaker_of thr tmo fs) = breaker_of thr tmo (recent_failures [out] fs)"
  by (cases out) (auto simp: breaker_of_def on_success_def on_failure_def Let_def)

lemma recent_failures_Cons: "recent_failures (out # os) fs = recent_failures os (recent_failures [out] fs)"
  by (cases out) simp_all

fun outcomes_of :: "cb_event list \<Rightarrow> cb_outcome list" where
  "outcomes_of [] = []"
| "outcomes_of (CbBegin now t # es) = outcomes_of es"
| "outcomes_of (CbEnd t out # es) = out # outcomes_of es"

lemma cb_run_of:
  "\<lbrakk>cb_run es s = Some s'; cs_breaker s = breaker_of thr tmo fs\<rbrakk> \<Longrightarrow>
     cs_breaker s' = breaker_of thr tmo (recent_failures (outcomes_of es) fs)"
proof (induction es arbitrary: s fs)
  case (Cons e es)
  obtain s1 where s1: "cb_step e s = Some s1" "cb_run es s1 = Some s'"
    using Cons.prems(1) by (auto split: option.splits)
  show ?case
  proof (cases e)
    case (CbBegin now t)
    with s1(1) have "cs_breaker s1 = cs_breaker s" by (auto split: if_splits)
    with Cons.IH [OF s1(2)] Cons.prems(2) CbBegin show ?thesis by simp
  next
    case (CbEnd t out)
    with s1(1) have "cs_breaker s1 = cb_record out (cs_breaker s)" by (auto split: if_splits)
    then have "cs_breaker s1 = breaker_of thr tmo (recent_failures [out] fs)"
      by (simp add: Cons.prems(2) cb_record_of)
    from Cons.IH [OF s1(2) this] CbEnd show ?thesis
      using recent_failures_Cons [of out "outcomes_of es" fs] by simp
  qed
qed simp

lemma new_circuit_breaker_of: "new_circuit_breaker thr tmo = breaker_of thr tmo []"
  by (simp add: new_circuit_breaker_def breaker_of_def)

lemma current_state_of:
  "current_state now (breaker_of thr tmo fs) =
     (if fs = [] \<or> int (length fs) < thr then CB_CLOSED
      else if tmo \<le> now - hd fs then CB_HALF_OPEN else CB_OPEN)"
  by (cases fs) (auto simp: current_state_def breaker_of_def)

text \<open>
  Claim C22. The circuit breaker, for every interleaving of overlapping calls: a call is turned away exactly when the calls that have
  ended show at least the threshold of failures since the last success and the last of them is less than the recovery
  timeout ago. The stored state is never \<^verbatim>\<open>HALF_OPEN\<close>, so that branch of \<^verbatim>\<open>_on_failure\<close> is dead.
\<close>

theorem circuit_breaker_correct:
  assumes "cb_run es (cb_idle (new_circuit_breaker thr tmo)) = Some s"
    and "fs = recent_failures (outcomes_of es) []"
  shows "current_state now (cs_breaker s) =
           (if fs = [] \<or> int (length fs) < thr then CB_CLOSED
            else if tmo \<le> now - hd fs then CB_HALF_OPEN else CB_OPEN) \<and>
         (\<exists>s'. cb_step (CbBegin now t) s = Some s' \<and>
            (if fs \<noteq> [] \<and> thr \<le> int (length fs) \<and> now - hd fs < tmo
             then cs_rejected s' = cs_rejected s @ [t] \<and> cs_running s' = cs_running s
             else cs_running s' = cs_running s @ [t] \<and> cs_rejected s' = cs_rejected s)) \<and>
         cb_state (cs_breaker s) \<noteq> CB_HALF_OPEN"
proof -
  have b: "cs_breaker s = breaker_of thr tmo fs"
    using cb_run_of [OF assms(1), of thr tmo "[]"] assms(2) by (simp add: cb_idle_def new_circuit_breaker_of)
  show ?thesis
    by (auto simp: b current_state_of) (auto simp: breaker_of_def)
qed

theorem circuit_breaker_correct_witness:
  "\<exists>s. cb_run [CbBegin 0 1, CbBegin 0 2, CbEnd 1 (CbFailed 1), CbEnd 2 (CbFailed 2), CbBegin 5 3, CbBegin 12 4, CbBegin 12 5]
         (cb_idle (new_circuit_breaker 2 10)) = Some s \<and>
       cs_rejected s = [3] \<and> cs_running s = [4, 5] \<and> current_state 12 (cs_breaker s) = CB_HALF_OPEN"
proof -
  let ?s = "\<lparr>cs_breaker = breaker_of 2 10 [2, 1], cs_running = [4, 5], cs_rejected = [3]\<rparr>"
  have r: "cb_run [CbBegin 0 1, CbBegin 0 2, CbEnd 1 (CbFailed 1), CbEnd 2 (CbFailed 2), CbBegin 5 3, CbBegin 12 4, CbBegin 12 5]
         (cb_idle (new_circuit_breaker 2 10)) = Some ?s"
    by (simp add: cb_idle_def new_circuit_breaker_def breaker_of_def current_state_def on_failure_def Let_def)
  have "current_state 12 (cs_breaker ?s) = CB_HALF_OPEN"
    using circuit_breaker_correct [OF r refl, of 12] by simp
  with r show ?thesis by (intro exI [of _ ?s]) simp
qed

text \<open>
  After the recovery timeout every call is let through until one of them ends, not a single probe.
\<close>

theorem half_open_admits_any_number:
  assumes "current_state now cb = CB_HALF_OPEN"
  shows "\<exists>s. cb_run (map (CbBegin now) ts) (cb_idle cb) = Some s \<and> cs_running s = ts"
proof -
  have "\<exists>s'. cb_run (map (CbBegin now) ts) s = Some s' \<and> cs_running s' = cs_running s @ ts"
    if "current_state now (cs_breaker s) = CB_HALF_OPEN" for s
    using that
  proof (induction ts arbitrary: s)
    case (Cons t ts)
    from Cons.IH [of "s\<lparr>cs_running := cs_running s @ [t]\<rparr>"] Cons.prems show ?case by simp
  qed simp
  from this [of "cb_idle cb"] assms show ?thesis by (simp add: cb_idle_def)
qed

section \<open>RetryPolicy\<close>

record retry_policy =
  rp_max_attempts :: int
  rp_base_delay :: rat
  rp_retry_on :: "exc_class list"

text \<open>\<^verbatim>\<open>raise last_exception\<close> with \<^verbatim>\<open>None\<close> in it is a \<^verbatim>\<open>TypeError\<close>.\<close>

definition raise_last :: "exn option \<Rightarrow> exn" where
  "raise_last last_exception =
     (case last_exception of
        None \<Rightarrow> Exn TypeErrorC ''exceptions must derive from BaseException'' []
      | Some e \<Rightarrow> e)"

fun retry_loop ::
  "retry_policy \<Rightarrow> (rat \<Rightarrow> 'w \<Rightarrow> 'w) \<Rightarrow> ('w \<Rightarrow> (exn + 'a) \<times> 'w) \<Rightarrow> nat list \<Rightarrow> exn option \<Rightarrow> 'w \<Rightarrow> (exn + 'a) \<times> 'w" where
  "retry_loop p sleep func [] last_exception w = (Inl (raise_last last_exception), w)"
| "retry_loop p sleep func (attempt # attempts) last_exception w =
     (case func w of
        (Inr v, w') \<Rightarrow> (Inr v, w')
      | (Inl exc, w') \<Rightarrow>
          if caught_by (rp_retry_on p) exc
          then retry_loop p sleep func attempts (Some exc)
                 (if int attempt < rp_max_attempts p - 1 then sleep (rp_base_delay p * 2 ^ attempt) w' else w')
          else (Inl exc, w'))"

definition retry_execute ::
  "retry_policy \<Rightarrow> (rat \<Rightarrow> 'w \<Rightarrow> 'w) \<Rightarrow> ('w \<Rightarrow> (exn + 'a) \<times> 'w) \<Rightarrow> 'w \<Rightarrow> (exn + 'a) \<times> 'w" where
  "retry_execute p sleep func w = retry_loop p sleep func [0..<nat (rp_max_attempts p)] None w"

text \<open>
  The world before the \<open>k\<close>-th attempt, if all attempts before it fail, and whether an outcome
  ends the attempts.
\<close>

fun attempt_world :: "retry_policy \<Rightarrow> (rat \<Rightarrow> 'w \<Rightarrow> 'w) \<Rightarrow> ('w \<Rightarrow> (exn + 'a) \<times> 'w) \<Rightarrow> 'w \<Rightarrow> nat \<Rightarrow> 'w" where
  "attempt_world p sleep func w 0 = w"
| "attempt_world p sleep func w (Suc k) =
     sleep (rp_base_delay p * 2 ^ k) (snd (func (attempt_world p sleep func w k)))"

definition final_outcome :: "retry_policy \<Rightarrow> exn + 'a \<Rightarrow> bool" where
  "final_outcome p r = (case r of Inr _ \<Rightarrow> True | Inl e \<Rightarrow> \<not> caught_by (rp_retry_on p) e)"

lemma retry_loop_final:
  assumes "final_outcome p (fst (func w))"
  shows "retry_loop p sleep func (j # js) l w = func w"
  using assms by (cases "func w"; cases "fst (func w)") (auto simp: final_outcome_def)

lemma retry_loop_next:
  assumes "\<not> final_outcome p (fst (func w))"
  shows "\<exists>e. fst (func w) = Inl e \<and>
     retry_loop p sleep func (j # js) l w =
       retry_loop p sleep func js (Some e)
         (if int j < rp_max_attempts p - 1 then sleep (rp_base_delay p * 2 ^ j) (snd (func w)) else snd (func w))"
  using assms by (cases "func w"; cases "fst (func w)") (auto simp: final_outcome_def)

lemma retry_loop_attempts:
  fixes p sleep func w
  defines "W \<equiv> attempt_world p sleep func w"
  assumes "rp_max_attempts p = int (Suc n)" "j \<le> n"
  shows "\<exists>k \<ge> j. k \<le> n \<and> (\<forall>i. j \<le> i \<and> i < k \<longrightarrow> \<not> final_outcome p (fst (func (W i)))) \<and>
     (k = n \<or> final_outcome p (fst (func (W k)))) \<and>
     retry_loop p sleep func [j..<Suc n] l (W j) = func (W k)"
  using assms(3)
proof (induction "n - j" arbitrary: j l)
  case 0
  then have [simp]: "j = n" by simp
  have r: "[n..<Suc n] = [n]" by simp
  show ?case
  proof (cases "final_outcome p (fst (func (W n)))")
    case True
    from retry_loop_final [of p func "W n", OF this] True show ?thesis by (intro exI [of _ n]) (auto simp: r simp del: retry_loop.simps upt_Suc)
  next
    case False
    from retry_loop_next [of p func "W n" sleep n "[]" l, OF this] obtain e where
      e: "fst (func (W n)) = Inl e" "retry_loop p sleep func [n] l (W n) = (Inl e, snd (func (W n)))"
      by (auto simp: assms(2) raise_last_def)
    then have "retry_loop p sleep func [n] l (W n) = func (W n)" by (metis prod.collapse)
    then show ?thesis by (intro exI [of _ n]) (auto simp: r simp del: retry_loop.simps upt_Suc)
  qed
next
  case (Suc d)
  then have j: "j < n" by simp
  have r: "[j..<Suc n] = j # [Suc j..<Suc n]" using j by (simp add: upt_conv_Cons)
  show ?case
  proof (cases "final_outcome p (fst (func (W j)))")
    case True
    from retry_loop_final [of p func "W j", OF this] True j show ?thesis by (intro exI [of _ j]) (auto simp: r simp del: retry_loop.simps upt_Suc)
  next
    case False
    have W: "W (Suc j) = sleep (rp_base_delay p * 2 ^ j) (snd (func (W j)))" by (simp add: W_def)
    from retry_loop_next [of p func "W j" sleep j "[Suc j..<Suc n]" l, OF False] obtain e where
      e: "retry_loop p sleep func [j..<Suc n] l (W j) = retry_loop p sleep func [Suc j..<Suc n] (Some e) (W (Suc j))"
      using j by (auto simp: r assms(2) W simp del: retry_loop.simps upt_Suc)
    have "d = n - Suc j" "Suc j \<le> n" using Suc.hyps(2) j by simp_all
    from Suc.hyps(1) [OF this, of "Some e"] obtain k where
      k: "Suc j \<le> k" "k \<le> n" "\<forall>i. Suc j \<le> i \<and> i < k \<longrightarrow> \<not> final_outcome p (fst (func (W i)))"
         "k = n \<or> final_outcome p (fst (func (W k)))"
         "retry_loop p sleep func [Suc j..<Suc n] (Some e) (W (Suc j)) = func (W k)" by blast
    have "\<forall>i. j \<le> i \<and> i < k \<longrightarrow> \<not> final_outcome p (fst (func (W i)))"
      using False k(3) by (metis Suc_leI le_neq_implies_less)
    with k e show ?thesis by (intro exI [of _ k]) simp
  qed
qed

text \<open>
  The retry policy: the result is that of the first attempt which succeeds or raises an exception that is not to be retried, or of the
  last one allowed; the function was called as often as that, with a doubled sleep between two attempts and none after the last. With no
  attempt allowed the function is never called and a \<^verbatim>\<open>TypeError\<close> is raised.
\<close>

theorem retry_execute_correct:
  "if rp_max_attempts p \<le> 0
   then retry_execute p sleep func w = (Inl (raise_last None), w) \<and> exc_cls (raise_last None) = TypeErrorC
   else \<exists>k < nat (rp_max_attempts p).
     (\<forall>i < k. \<not> final_outcome p (fst (func (attempt_world p sleep func w i)))) \<and>
     (Suc k = nat (rp_max_attempts p) \<or> final_outcome p (fst (func (attempt_world p sleep func w k)))) \<and>
     retry_execute p sleep func w = func (attempt_world p sleep func w k)"
proof (cases "rp_max_attempts p \<le> 0")
  case True
  then show ?thesis by (simp add: retry_execute_def raise_last_def)
next
  case False
  then obtain n where n: "rp_max_attempts p = int (Suc n)" by (metis not_le zero_less_imp_eq_int gr0_implies_Suc)
  have nn: "nat (rp_max_attempts p) = Suc n" by (simp only: n nat_int)
  from retry_loop_attempts [OF n, where j = 0 and sleep = sleep and func = func and w = w and l = None] obtain k where
    "k \<le> n" "\<forall>i. 0 \<le> i \<and> i < k \<longrightarrow> \<not> final_outcome p (fst (func (attempt_world p sleep func w i)))"
    "k = n \<or> final_outcome p (fst (func (attempt_world p sleep func w k)))"
    "retry_loop p sleep func [0..<Suc n] None w = func (attempt_world p sleep func w k)" by auto
  then show ?thesis using False unfolding retry_execute_def nn
    by (simp del: upt_Suc) (metis less_Suc_eq_le)
qed

definition flaky :: "nat \<Rightarrow> (exn + string) \<times> nat" where
  "flaky i = (if i < 2 then (Inl (Exn TimeoutErrorC ''slow'' []), i + 1) else (Inr ''ok'', i + 1))"

theorem retry_execute_correct_witness:
  "retry_execute \<lparr>rp_max_attempts = 5, rp_base_delay = 1, rp_retry_on = [TimeoutErrorC]\<rparr> (\<lambda>d w. w) flaky 0 = (Inr ''ok'', 3)"
proof -
  let ?p = "\<lparr>rp_max_attempts = 5, rp_base_delay = 1, rp_retry_on = [TimeoutErrorC]\<rparr>"
  let ?W = "attempt_world ?p (\<lambda>d w. w) flaky 0"
  have W: "?W 0 = 0" "?W 1 = 1" "?W 2 = 2" by (simp_all add: flaky_def numeral_2_eq_2)
  have c: "caught_by [TimeoutErrorC] (Exn TimeoutErrorC ''slow'' [])" by (simp add: caught_by_def isinstance_exc_def exc_mro_self)
  have f: "\<not> final_outcome ?p (fst (flaky (?W 0)))" "\<not> final_outcome ?p (fst (flaky (?W 1)))" "final_outcome ?p (fst (flaky (?W 2)))"
    unfolding W using c by (simp_all add: flaky_def final_outcome_def)
  from retry_execute_correct [of ?p "\<lambda>d w. w" flaky 0] obtain k where k: "k < 5"
    "\<forall>i < k. \<not> final_outcome ?p (fst (flaky (?W i)))" "Suc k = 5 \<or> final_outcome ?p (fst (flaky (?W k)))"
    "retry_execute ?p (\<lambda>d w. w) flaky 0 = flaky (?W k)" by auto
  have "k \<le> 2" using k(2) f(3) by (meson not_le)
  moreover have "k \<noteq> 0" using k(3) f(1) by (metis One_nat_def numeral_eq_one_iff semiring_norm(84))
  moreover have "k \<noteq> 1" using k(3) f(2) by (metis Suc_1 numeral_eq_iff semiring_norm(88))
  ultimately have "k = 2" by linarith
  with k(4) W(3) show ?thesis by (simp add: flaky_def)
qed

section \<open>Service clients\<close>

text \<open>
  The settings \<^verbatim>\<open>@service_client\<close> stores on a class, and the defaults of the post-processor.
  \<^verbatim>\<open>setting or default\<close> takes the default for \<^verbatim>\<open>None\<close> and for zero.
\<close>

datatype retry_setting = RetryFlag bool | RetryInt int

record resilience_meta =
  rm_retry :: retry_setting
  rm_circuit_breaker :: bool
  rm_retry_base_delay :: "rat option"
  rm_failure_threshold :: "int option"
  rm_recovery_timeout :: "rat option"

record client_defaults =
  cd_max_attempts :: int
  cd_base_delay :: rat
  cd_failure_threshold :: int
  cd_recovery_timeout :: rat

definition service_client :: "retry_setting \<Rightarrow> bool \<Rightarrow> rat option \<Rightarrow> int option \<Rightarrow> rat option \<Rightarrow> resilience_meta" where
  "service_client retry circuit_breaker retry_base_delay failure_threshold recovery_timeout =
     \<lparr>rm_retry = retry, rm_circuit_breaker = circuit_breaker, rm_retry_base_delay = retry_base_delay,
      rm_failure_threshold = failure_threshold, rm_recovery_timeout = recovery_timeout\<rparr>"

definition http_client :: resilience_meta where
  "http_client = service_client (RetryFlag False) False None None None"

definition standard_defaults :: client_defaults where
  "standard_defaults =
     \<lparr>cd_max_attempts = 3, cd_base_delay = 1, cd_failure_threshold = 5, cd_recovery_timeout = 30\<rparr>"

definition or_default :: "'n::zero option \<Rightarrow> 'n \<Rightarrow> 'n" where
  "or_default x d = (case x of None \<Rightarrow> d | Some v \<Rightarrow> if v = 0 then d else v)"

definition build_circuit_breaker :: "client_defaults \<Rightarrow> resilience_meta \<Rightarrow> circuit_breaker option" where
  "build_circuit_breaker d m =
     (if \<not> rm_circuit_breaker m then None
      else Some (new_circuit_breaker (or_default (rm_failure_threshold m) (cd_failure_threshold d))
                   (or_default (rm_recovery_timeout m) (cd_recovery_timeout d))))"

definition retry_enabled :: "retry_setting \<Rightarrow> bool" where
  "retry_enabled r = (case r of RetryFlag b \<Rightarrow> b | RetryInt n \<Rightarrow> n \<noteq> 0)"

definition build_retry_policy :: "client_defaults \<Rightarrow> resilience_meta \<Rightarrow> retry_policy option" where
  "build_retry_policy d m =
     (if \<not> retry_enabled (rm_retry m) then None
      else Some \<lparr>rp_max_attempts = (case rm_retry m of RetryInt n \<Rightarrow> n | RetryFlag _ \<Rightarrow> cd_max_attempts d),
                 rp_base_delay = or_default (rm_retry_base_delay m) (cd_base_delay d),
                 rp_retry_on = [ExceptionC]\<rparr>)"

text \<open>The wrapped method; the breaker of the bean is part of the state.\<close>

definition guarded_call ::
  "('w \<Rightarrow> rat) \<Rightarrow> ('w \<Rightarrow> (exn + 'a) \<times> 'w) \<Rightarrow> circuit_breaker option \<times> 'w \<Rightarrow> (exn + 'a) \<times> circuit_breaker option \<times> 'w" where
  "guarded_call clock original = (\<lambda>(cb, w).
     (case cb of
        None \<Rightarrow> (case original w of (r, w') \<Rightarrow> (r, None, w'))
      | Some b \<Rightarrow> (case cb_call clock original b w of (r, b', w') \<Rightarrow> (r, Some b', w'))))"

definition resilient_impl ::
  "('w \<Rightarrow> rat) \<Rightarrow> (rat \<Rightarrow> 'w \<Rightarrow> 'w) \<Rightarrow> retry_policy option \<Rightarrow> ('w \<Rightarrow> (exn + 'a) \<times> 'w) \<Rightarrow>
   circuit_breaker option \<times> 'w \<Rightarrow> (exn + 'a) \<times> circuit_breaker option \<times> 'w" where
  "resilient_impl clock sleep retry original s =
     (case retry of
        None \<Rightarrow> guarded_call clock original s
      | Some p \<Rightarrow> retry_execute p (\<lambda>d (cb, w). (cb, sleep d w)) (guarded_call clock original) s)"

lemma http_client_plain:
  "build_circuit_breaker d http_client = None \<and> build_retry_policy d http_client = None \<and>
   resilient_impl clock sleep None original (None, w) = (case original w of (r, w') \<Rightarrow> (r, None, w'))"
  by (simp add: http_client_def service_client_def build_circuit_breaker_def build_retry_policy_def
      retry_enabled_def resilient_impl_def guarded_call_def)

subsection \<open>A service that is down\<close>

text \<open>A network with a clock and a count of the requests; \<open>remote i\<close> is what request \<open>i\<close> gives and how long it takes.\<close>

record net =
  net_clock :: rat
  net_calls :: nat

definition net_sleep :: "rat \<Rightarrow> net \<Rightarrow> net" where
  "net_sleep d w = w\<lparr>net_clock := net_clock w + d\<rparr>"

definition remote_call :: "(nat \<Rightarrow> (exn + 'a) \<times> rat) \<Rightarrow> net \<Rightarrow> (exn + 'a) \<times> net" where
  "remote_call remote w =
     (case remote (net_calls w) of
        (r, d) \<Rightarrow> (r, w\<lparr>net_calls := net_calls w + 1, net_clock := net_clock w + d\<rparr>))"

definition down :: "(nat \<Rightarrow> (exn + 'a) \<times> rat) \<Rightarrow> (nat \<Rightarrow> exn) \<Rightarrow> bool" where
  "down remote err \<longleftrightarrow>
     (\<forall>i. fst (remote i) = Inl (err i) \<and> \<not> isinstance_exc (err i) CircuitBreakerException)"

lemma breaker_open_nested: "isinstance_exc breaker_open CircuitBreakerException"
  by (simp add: breaker_open_def isinstance_exc_def exc_mro_self)

text \<open>One attempt while the service is down: either the breaker is open, or a request is sent and fails.\<close>

definition sent :: "(nat \<Rightarrow> (exn + 'a) \<times> rat) \<Rightarrow> net \<Rightarrow> net" where
  "sent remote w = w\<lparr>net_calls := net_calls w + 1, net_clock := net_clock w + snd (remote (net_calls w))\<rparr>"

lemma guarded_down_open:
  assumes "fs \<noteq> []" "thr \<le> int (length fs)" "net_clock w - hd fs < tmo"
  shows "guarded_call net_clock (remote_call remote) (Some (breaker_of thr tmo fs), w) =
     (Inl breaker_open, Some (breaker_of thr tmo fs), w)"
  using assms by (simp add: guarded_call_def cb_call_def current_state_of)

lemma guarded_down_sent:
  assumes "down remote err" "int (length fs) < thr"
  shows "guarded_call net_clock (remote_call remote) (Some (breaker_of thr tmo fs), w) =
     (Inl (err (net_calls w)), Some (breaker_of thr tmo (net_clock (sent remote w) # fs)), sent remote w)"
proof -
  obtain d where d: "remote (net_calls w) = (Inl (err (net_calls w)), d)"
    using assms(1) unfolding down_def by (metis prod.collapse)
  then have "remote_call remote w = (Inl (err (net_calls w)), sent remote w)"
    by (simp add: remote_call_def sent_def)
  moreover have "\<not> isinstance_exc (err (net_calls w)) CircuitBreakerException" using assms(1) by (simp add: down_def)
  moreover have "current_state (net_clock w) (breaker_of thr tmo fs) \<noteq> CB_OPEN"
    using assms(2) by (simp add: current_state_of)
  ultimately show ?thesis
    using cb_record_of [of "CbFailed (net_clock (sent remote w))" thr tmo fs]
    by (simp add: guarded_call_def cb_call_def)
qed

definition outage_policy :: "nat \<Rightarrow> rat \<Rightarrow> retry_policy" where
  "outage_policy m base = \<lparr>rp_max_attempts = int m, rp_base_delay = base, rp_retry_on = [ExceptionC]\<rparr>"

definition outage_world ::
  "(nat \<Rightarrow> (exn + 'a) \<times> rat) \<Rightarrow> nat \<Rightarrow> rat \<Rightarrow> nat \<Rightarrow> rat \<Rightarrow> net \<Rightarrow> nat \<Rightarrow> circuit_breaker option \<times> net" where
  "outage_world remote m base thr tmo w =
     attempt_world (outage_policy m base) (\<lambda>d (cb, w). (cb, net_sleep d w))
       (guarded_call net_clock (remote_call remote)) (Some (new_circuit_breaker (int thr) tmo), w)"

lemma backoff_below:
  assumes "0 < base" "base * 2 ^ n \<le> tmo" "k \<le> n"
  shows "base * (2 ^ k - 1) < (tmo :: rat)"
proof -
  have "base * 2 ^ k \<le> base * 2 ^ n" using assms(1,3) by (intro mult_left_mono power_increasing) auto
  moreover have "base * (2 ^ k - 1) = base * 2 ^ k - base" by (simp add: right_diff_distrib)
  ultimately show ?thesis using assms(1,2) by linarith
qed

lemma outage_attempt:
  assumes "down remote err" "0 < thr" "0 < base" "base * 2 ^ n \<le> tmo" "k \<le> n"
  shows "\<exists>fs v. outage_world remote (Suc n) base thr tmo w k = (Some (breaker_of (int thr) tmo fs), v) \<and>
     length fs = min k thr \<and> net_calls v = net_calls w + min k thr \<and>
     (fs \<noteq> [] \<longrightarrow> net_clock v - hd fs \<le> base * (2 ^ k - 1))"
  using assms(5)
proof (induction k)
  case 0
  show ?case by (simp add: outage_world_def new_circuit_breaker_of)
next
  case (Suc k)
  then obtain fs v where IH: "outage_world remote (Suc n) base thr tmo w k = (Some (breaker_of (int thr) tmo fs), v)"
    "length fs = min k thr" "net_calls v = net_calls w + min k thr"
    "fs \<noteq> [] \<Longrightarrow> net_clock v - hd fs \<le> base * (2 ^ k - 1)" by auto
  have step: "outage_world remote (Suc n) base thr tmo w (Suc k) =
      (\<lambda>(cb, w). (cb, net_sleep (base * 2 ^ k) w))
        (snd (guarded_call net_clock (remote_call remote) (Some (breaker_of (int thr) tmo fs), v)))"
    using IH(1) by (simp add: outage_world_def outage_policy_def)
  have pos: "0 \<le> base * (2 ^ k - 1)" using assms(3) by simp
  show ?case
  proof (cases "k < thr")
    case True
    then have "int (length fs) < int thr" using IH(2) by simp
    from guarded_down_sent [OF assms(1) this] step have "outage_world remote (Suc n) base thr tmo w (Suc k) =
        (Some (breaker_of (int thr) tmo (net_clock (sent remote v) # fs)), net_sleep (base * 2 ^ k) (sent remote v))"
      by simp
    then show ?thesis using True IH(2,3) pos
      by (auto simp: net_sleep_def sent_def algebra_simps)
  next
    case False
    then have fs: "fs \<noteq> []" "int thr \<le> int (length fs)" using IH(2) assms(2) by auto
    have "base * (2 ^ k - 1) < tmo" using Suc.prems by (intro backoff_below [OF assms(3,4)]) simp
    with IH(4) [OF fs(1)] have "net_clock v - hd fs < tmo" by linarith
    from guarded_down_open [where remote = remote, OF fs this] step have "outage_world remote (Suc n) base thr tmo w (Suc k) =
        (Some (breaker_of (int thr) tmo fs), net_sleep (base * 2 ^ k) v)" by simp
    then show ?thesis using False IH(2,3) IH(4) [OF fs(1)]
      by (auto simp: net_sleep_def algebra_simps)
  qed
qed

lemma outage_state:
  assumes "down remote err" "0 < thr" "0 < base" "base * 2 ^ n \<le> tmo" "k \<le> n"
  shows "\<exists>fs v. outage_world remote (Suc n) base thr tmo w k = (Some (breaker_of (int thr) tmo fs), v) \<and>
     length fs = min k thr \<and> net_calls v = net_calls w + min k thr \<and>
     (thr \<le> k \<longrightarrow> fs \<noteq> [] \<and> int thr \<le> int (length fs) \<and> net_clock v - hd fs < tmo)"
proof -
  from outage_attempt [OF assms, of w] obtain fs v where v:
    "outage_world remote (Suc n) base thr tmo w k = (Some (breaker_of (int thr) tmo fs), v)"
    "length fs = min k thr" "net_calls v = net_calls w + min k thr"
    "fs \<noteq> [] \<longrightarrow> net_clock v - hd fs \<le> base * (2 ^ k - 1)" by (elim exE conjE) (rule that)
  have "fs \<noteq> []" if "thr \<le> k" using that v(2) assms(2) by auto
  with v backoff_below [OF assms(3,4,5)] show ?thesis by fastforce
qed

lemma outage_attempt_fails:
  assumes "down remote err" "0 < thr" "0 < base" "base * 2 ^ n \<le> tmo" "k \<le> n"
  shows "\<exists>e. fst (guarded_call net_clock (remote_call remote) (outage_world remote (Suc n) base thr tmo w k)) = Inl e"
proof -
  from outage_state [OF assms, of w] obtain fs v where v:
    "outage_world remote (Suc n) base thr tmo w k = (Some (breaker_of (int thr) tmo fs), v)" "length fs = min k thr"
    "thr \<le> k \<longrightarrow> fs \<noteq> [] \<and> int thr \<le> int (length fs) \<and> net_clock v - hd fs < tmo" by (elim exE conjE) (rule that)
  show ?thesis
  proof (cases "thr \<le> k")
    case True
    with v guarded_down_open [where remote = remote and thr = "int thr"] show ?thesis by simp
  next
    case False
    with v have "int (length fs) < int thr" by simp
    from guarded_down_sent [OF assms(1) this] v(1) show ?thesis by simp
  qed
qed

text \<open>
  A service that is down: one call of a client method on a fresh breaker, with a recovery timeout longer than the sleeps, sends as many
  requests as the attempts allow but not more than the breaker's threshold. If the breaker opens on the way the caller
  sees the breaker's exception and not the service's.
\<close>

theorem outage_requests:
  assumes "down remote err" "0 < thr" "0 < base" "base * 2 ^ n \<le> tmo"
  shows "\<exists>cb w'. resilient_impl net_clock net_sleep (Some (outage_policy (Suc n) base)) (remote_call remote)
           (Some (new_circuit_breaker (int thr) tmo), w)
         = (Inl (if thr \<le> n then breaker_open else err (net_calls w + n)), Some cb, w') \<and>
         net_calls w' = net_calls w + min (Suc n) thr \<and>
         (cb_state cb = CB_OPEN \<longleftrightarrow> thr \<le> Suc n)"
proof -
  let ?p = "outage_policy (Suc n) base"
  let ?call = "guarded_call net_clock (remote_call remote)"
  let ?W = "outage_world remote (Suc n) base thr tmo w"
  obtain k where k: "k \<le> n" "k = n \<or> final_outcome ?p (fst (?call (?W k)))"
      "retry_loop ?p (\<lambda>d (cb, w). (cb, net_sleep d w)) ?call [0..<Suc n] None
        (Some (new_circuit_breaker (int thr) tmo), w) = ?call (?W k)"
    using retry_loop_attempts [where p = ?p and n = n and j = 0 and sleep = "\<lambda>d (cb, w). (cb, net_sleep d w)"
        and func = ?call and w = "(Some (new_circuit_breaker (int thr) tmo), w)" and l = None]
    by (auto simp: outage_world_def outage_policy_def simp del: upt_Suc)
  from outage_attempt_fails [OF assms k(1), of w] have "\<not> final_outcome ?p (fst (?call (?W k)))"
    by (auto simp: final_outcome_def outage_policy_def)
  with k(2) have "k = n" by simp
  with k(3) have res: "resilient_impl net_clock net_sleep (Some ?p) (remote_call remote)
      (Some (new_circuit_breaker (int thr) tmo), w) = ?call (?W n)"
    by (simp only: resilient_impl_def option.case retry_execute_def outage_policy_def retry_policy.simps nat_int)
  from outage_state [OF assms order_refl, of w] obtain fs v where v:
    "?W n = (Some (breaker_of (int thr) tmo fs), v)" "length fs = min n thr" "net_calls v = net_calls w + min n thr"
    "thr \<le> n \<longrightarrow> fs \<noteq> [] \<and> int thr \<le> int (length fs) \<and> net_clock v - hd fs < tmo" by (elim exE conjE) (rule that)
  show ?thesis
  proof (cases "thr \<le> n")
    case True
    with v guarded_down_open [where remote = remote and thr = "int thr" and fs = fs] show ?thesis
      by (simp add: res breaker_of_def min_def)
  next
    case False
    then have "int (length fs) < int thr" using v(2) by simp
    from guarded_down_sent [OF assms(1) this] False v show ?thesis
      by (auto simp: res breaker_of_def sent_def min_def)
  qed
qed

text \<open>Two failures open the breaker, so the default three attempts send two requests.\<close>

definition refused_remote :: "nat \<Rightarrow> (exn + unit) \<times> rat" where
  "refused_remote i = (Inl (Exn ServiceUnavailableException ''refused'' [VInt (int i)]), 1)"

theorem outage_requests_witness:
  "\<exists>cb w'. resilient_impl net_clock net_sleep (Some (outage_policy 3 1)) (remote_call refused_remote)
       (Some (new_circuit_breaker 2 30), \<lparr>net_clock = 0, net_calls = 0\<rparr>) = (Inl breaker_open, Some cb, w') \<and>
     net_calls w' = 2 \<and> cb_state cb = CB_OPEN"
proof -
  have "down refused_remote (\<lambda>i. Exn ServiceUnavailableException ''refused'' [VInt (int i)])"
    by (simp add: down_def refused_remote_def isinstance_exc_def exc_mro.simps)
  from outage_requests [OF this, of 2 1 2 30 "\<lparr>net_clock = 0, net_calls = 0\<rparr>"] show ?thesis
    by (simp add: numeral_3_eq_3 numeral_2_eq_2)
qed

end
