(* ===== verification/Resilience.thy ===== *)
theory Resilience
  imports Exceptions
begin

text \<open>
  The package \<^verbatim>\<open>resilience\<close>: the token bucket of \<^verbatim>\<open>rate_limiter.py\<close>, the bulkhead of
  \<^verbatim>\<open>bulkhead.py\<close>, and the decorators of \<^verbatim>\<open>fallback.py\<close> and \<^verbatim>\<open>time_limiter.py\<close>. The clock readings of
  \<^verbatim>\<open>time.monotonic()\<close> are arguments and floats are rationals. A decorated function is an argument: a state
  transformer for the limiter, calls that start and end for the bulkhead.
\<close>

section \<open>RateLimiter\<close>

record rate_limiter =
  rl_max_tokens :: int
  rl_refill_rate :: rat
  rl_tokens :: rat
  rl_last_refill :: rat

definition new_rate_limiter :: "int \<Rightarrow> rat \<Rightarrow> rat \<Rightarrow> rate_limiter" where
  "new_rate_limiter max_tokens refill_rate now =
     \<lparr>rl_max_tokens = max_tokens, rl_refill_rate = refill_rate,
      rl_tokens = of_int max_tokens, rl_last_refill = now\<rparr>"

definition refilled :: "rat \<Rightarrow> rate_limiter \<Rightarrow> rat" where
  "refilled now l =
     min (of_int (rl_max_tokens l)) (rl_tokens l + (now - rl_last_refill l) * rl_refill_rate l)"

definition refill :: "rat \<Rightarrow> rate_limiter \<Rightarrow> rate_limiter" where
  "refill now l = l\<lparr>rl_tokens := refilled now l, rl_last_refill := now\<rparr>"

definition acquire_token :: "rat \<Rightarrow> rate_limiter \<Rightarrow> (exn + unit) \<times> rate_limiter" where
  "acquire_token now l =
     (let l' = refill now l
      in if rl_tokens l' < 1 then (Inl (Exn RateLimitException ''Rate limit exceeded'' []), l')
         else (Inr (), l'\<lparr>rl_tokens := rl_tokens l' - 1\<rparr>))"

definition available_tokens :: "rat \<Rightarrow> rate_limiter \<Rightarrow> rat" where
  "available_tokens now l = refilled now l"

text \<open>A call of a decorated function: \<open>func\<close> takes the state \<open>s\<close> of everything else.\<close>

definition rate_limited ::
  "rat \<Rightarrow> ('s \<Rightarrow> (exn + 'a) \<times> 's) \<Rightarrow> rate_limiter \<Rightarrow> 's \<Rightarrow> (exn + 'a) \<times> rate_limiter \<times> 's" where
  "rate_limited now func l s =
     (case acquire_token now l of
        (Inl e, l') \<Rightarrow> (Inl e, l', s)
      | (Inr _, l') \<Rightarrow> (case func s of (r, s') \<Rightarrow> (r, l', s')))"

text \<open>The acquisitions at the given times: which of them were granted.\<close>

fun acquire_all :: "rat list \<Rightarrow> rate_limiter \<Rightarrow> bool list \<times> rate_limiter" where
  "acquire_all [] l = ([], l)"
| "acquire_all (t # ts) l =
     (case acquire_token t l of
        (r, l') \<Rightarrow> (case acquire_all ts l' of (gs, l'') \<Rightarrow> (is_ok r # gs, l'')))"

definition granted :: "bool list \<Rightarrow> nat" where
  "granted gs = length (filter (\<lambda>g. g) gs)"

definition limiter_ok :: "rate_limiter \<Rightarrow> bool" where
  "limiter_ok l \<longleftrightarrow> 0 \<le> rl_refill_rate l \<and> 0 \<le> rl_tokens l \<and> rl_tokens l \<le> of_int (rl_max_tokens l)"

lemma new_rate_limiter_ok: "0 \<le> m \<Longrightarrow> 0 \<le> r \<Longrightarrow> limiter_ok (new_rate_limiter m r now)"
  by (simp add: limiter_ok_def new_rate_limiter_def)

lemma refill_ok [simp]: "limiter_ok l \<Longrightarrow> rl_last_refill l \<le> now \<Longrightarrow> limiter_ok (refill now l)"
  by (auto simp: limiter_ok_def refill_def refilled_def)

lemma acquire_token_fields:
  assumes "acquire_token now l = (r, l')"
  shows "rl_max_tokens l' = rl_max_tokens l" "rl_refill_rate l' = rl_refill_rate l" "rl_last_refill l' = now"
    and "is_ok r \<longleftrightarrow> 1 \<le> refilled now l"
    and "rl_tokens l' = refilled now l - (if is_ok r then 1 else 0)"
  using assms by (auto simp: acquire_token_def refill_def Let_def split: if_splits)

lemma acquire_token_ok:
  assumes "limiter_ok l" "rl_last_refill l \<le> now" "acquire_token now l = (r, l')"
  shows "limiter_ok l'"
proof -
  from refill_ok [OF assms(1,2)] have "0 \<le> refilled now l" "refilled now l \<le> of_int (rl_max_tokens l)"
    by (simp_all add: limiter_ok_def refill_def)
  with assms(1) acquire_token_fields [OF assms(3)] show ?thesis by (auto simp: limiter_ok_def)
qed

lemma refilled_le: "refilled now l \<le> rl_tokens l + (now - rl_last_refill l) * rl_refill_rate l"
  by (simp add: refilled_def)

text \<open>No sequence of acquisitions is granted more than what was in the bucket and what came in.\<close>

lemma acquire_all_budget:
  assumes "limiter_ok l" "sorted (rl_last_refill l # ts)" "acquire_all ts l = (gs, l')"
  shows "limiter_ok l' \<and> length gs = length ts \<and> rl_max_tokens l' = rl_max_tokens l \<and>
     rl_refill_rate l' = rl_refill_rate l \<and> rl_last_refill l' = last (rl_last_refill l # ts) \<and>
     of_nat (granted gs) + rl_tokens l'
       \<le> rl_tokens l + (rl_last_refill l' - rl_last_refill l) * rl_refill_rate l"
  using assms
proof (induction ts arbitrary: l gs l')
  case Nil
  then show ?case by (simp add: granted_def)
next
  case (Cons t ts)
  obtain r l1 where a: "acquire_token t l = (r, l1)" by (cases "acquire_token t l")
  obtain hs l2 where b: "acquire_all ts l1 = (hs, l2)" by (cases "acquire_all ts l1")
  note f = acquire_token_fields [OF a]
  have t: "rl_last_refill l \<le> t" using Cons.prems(2) by simp
  have l1: "limiter_ok l1" by (rule acquire_token_ok [OF Cons.prems(1) t a])
  have eq: "gs = is_ok r # hs" "l' = l2" using Cons.prems(3) a b by auto
  have s: "sorted (rl_last_refill l1 # ts)" using Cons.prems(2) f(3) by simp
  note IH = Cons.IH [OF l1 s b]
  have "of_nat (granted gs) + rl_tokens l2 = of_nat (granted hs) + rl_tokens l2 + (if is_ok r then 1 else 0)"
    by (simp add: eq granted_def)
  also have "\<dots> \<le> rl_tokens l1 + (rl_last_refill l2 - t) * rl_refill_rate l + (if is_ok r then 1 else 0)"
    using IH unfolding f(2,3) by (elim conjE) simp
  also have "\<dots> = refilled t l + (rl_last_refill l2 - t) * rl_refill_rate l" using f(5) by simp
  also have "\<dots> \<le> rl_tokens l + (t - rl_last_refill l) * rl_refill_rate l + (rl_last_refill l2 - t) * rl_refill_rate l"
    using refilled_le [of t l] by simp
  also have "\<dots> = rl_tokens l + (rl_last_refill l2 - rl_last_refill l) * rl_refill_rate l"
    by (simp add: algebra_simps)
  finally show ?case using IH f eq by simp
qed

lemma acquire_all_append:
  "acquire_all (ts @ us) l =
     (case acquire_all ts l of (gs, l') \<Rightarrow> (case acquire_all us l' of (hs, l'') \<Rightarrow> (gs @ hs, l'')))"
  by (induction ts arbitrary: l) (auto split: prod.splits)

text \<open>A window of acquisitions starts with at most a full bucket.\<close>

lemma window_budget:
  assumes "limiter_ok l" "sorted (rl_last_refill l # w # ws)" "acquire_all (w # ws) l = (gs, l')"
  shows "of_nat (granted gs) \<le> of_int (rl_max_tokens l) + (last (w # ws) - w) * rl_refill_rate l"
proof -
  obtain r l1 where a: "acquire_token w l = (r, l1)" by (cases "acquire_token w l")
  obtain hs l2 where b: "acquire_all ws l1 = (hs, l2)" by (cases "acquire_all ws l1")
  note f = acquire_token_fields [OF a]
  have l1: "limiter_ok l1" by (rule acquire_token_ok [OF assms(1) _ a]) (use assms(2) in simp)
  have s: "sorted (rl_last_refill l1 # ws)" using assms(2) f(3) by simp
  note B = acquire_all_budget [OF l1 s b]
  have "of_nat (granted gs) = of_nat (granted hs) + (if is_ok r then 1 else (0::rat))"
    using assms(3) a b by (auto simp: granted_def)
  also have "\<dots> \<le> rl_tokens l1 + (last (w # ws) - w) * rl_refill_rate l + (if is_ok r then 1 else 0)"
  proof -
    have "0 \<le> rl_tokens l2" "rl_last_refill l2 = last (w # ws)" using B f(3) by (simp_all add: limiter_ok_def)
    moreover have "of_nat (granted hs) + rl_tokens l2 \<le> rl_tokens l1 + (rl_last_refill l2 - w) * rl_refill_rate l"
      using B unfolding f(2,3) by (elim conjE)
    ultimately show ?thesis by (simp del: last.simps)
  qed
  also have "\<dots> = refilled w l + (last (w # ws) - w) * rl_refill_rate l" using f(5) by simp
  also have "\<dots> \<le> of_int (rl_max_tokens l) + (last (w # ws) - w) * rl_refill_rate l"
    by (simp add: refilled_def)
  finally show ?thesis .
qed

lemma waiting_suffices:
  assumes "limiter_ok l" "0 < rl_refill_rate l" "1 \<le> rl_max_tokens l"
    and "rl_last_refill l + 1 / rl_refill_rate l \<le> now"
  shows "is_ok (fst (acquire_token now l))"
proof -
  obtain r l' where a: "acquire_token now l = (r, l')" by (cases "acquire_token now l")
  have "1 \<le> (now - rl_last_refill l) * rl_refill_rate l"
    using assms(2,4) by (simp add: field_simps)
  moreover have "(1::rat) \<le> of_int (rl_max_tokens l)" using assms(3) by simp
  ultimately have "1 \<le> refilled now l" using assms(1) by (simp add: refilled_def limiter_ok_def)
  with acquire_token_fields(4) [OF a] show ?thesis by (simp add: a)
qed


text \<open>
  Claim C21. The token bucket: for calls at any times that the clock gives in order, the bucket never holds less than nothing or more than its capacity;
  in every window of calls at most the capacity plus what was refilled during the window is granted; and a call that comes
  \<open>1 / rate\<close> after the one before is granted.
\<close>

theorem rate_limit_correct:
  assumes "0 \<le> m" "0 \<le> rate" "sorted (t0 # before @ w # ws)"
    and "acquire_all before (new_rate_limiter m rate t0) = (gs, l)" "acquire_all (w # ws) l = (hs, l')"
  shows "0 \<le> rl_tokens l \<and> rl_tokens l \<le> of_int m \<and>
         of_nat (granted hs) \<le> of_int m + (last (w # ws) - w) * rate \<and>
         (1 \<le> m \<and> 0 < rate \<and> last (t0 # before) + 1 / rate \<le> w \<longrightarrow> hd hs)"
proof -
  let ?l0 = "new_rate_limiter m rate t0"
  have l0: "limiter_ok ?l0" "rl_last_refill ?l0 = t0" "rl_max_tokens ?l0 = m" "rl_refill_rate ?l0 = rate"
    using assms(1,2) by (simp_all add: limiter_ok_def new_rate_limiter_def)
  have s0: "sorted (rl_last_refill ?l0 # before)" using assms(3) by (simp add: l0 sorted_append)
  note b = acquire_all_budget [OF l0(1) s0 assms(4), unfolded l0]
  then have l: "limiter_ok l" "rl_max_tokens l = m" "rl_refill_rate l = rate" "rl_last_refill l = last (t0 # before)"
    by (simp_all del: last.simps)
  have "last (t0 # before) \<in> set (t0 # before)" by (rule last_in_set) simp
  then have s1: "sorted (rl_last_refill l # w # ws)"
    using assms(3) unfolding l(4) by (auto simp: sorted_append)
  have "of_nat (granted hs) \<le> of_int m + (last (w # ws) - w) * rate"
    using window_budget [OF l(1) s1 assms(5)] unfolding l .
  moreover have "hd hs" if "1 \<le> m" "0 < rate" "last (t0 # before) + 1 / rate \<le> w"
  proof -
    have "is_ok (fst (acquire_token w l))" by (rule waiting_suffices) (use l that in simp_all)
    then show ?thesis using assms(5) by (auto split: prod.splits)
  qed
  ultimately show ?thesis using l(1,2) by (auto simp: limiter_ok_def simp del: last.simps)
qed

definition drained_at :: "rat \<Rightarrow> rate_limiter" where
  "drained_at t = \<lparr>rl_max_tokens = 2, rl_refill_rate = 4, rl_tokens = 0, rl_last_refill = t\<rparr>"

theorem rate_limit_correct_witness:
  "acquire_all [0, 0, 0] (new_rate_limiter 2 4 0) = ([True, True, False], drained_at 0) \<and>
   acquire_all [1/4, 1/4, 1/2] (drained_at 0) = ([True, False, True], drained_at (1/2)) \<and>
   (of_nat (granted [True, False, True]) :: rat) \<le> of_int 2 + (last [1/4, 1/4, 1/2] - 1/4) * 4"
proof -
  have a: "acquire_all [0, 0, 0] (new_rate_limiter 2 4 0) = ([True, True, False], drained_at 0)"
    by (simp add: drained_at_def new_rate_limiter_def acquire_token_def refill_def refilled_def Let_def)
  have b: "acquire_all [1/4, 1/4, 1/2] (drained_at 0) = ([True, False, True], drained_at (1/2))"
    by (simp add: drained_at_def acquire_token_def refill_def refilled_def Let_def)
  have "(of_nat (granted [True, False, True]) :: rat) \<le> of_int 2 + (last [1/4, 1/4, 1/2] - 1/4) * 4"
    using rate_limit_correct [OF _ _ _ a b] by simp
  with a b show ?thesis by blast
qed

section \<open>Bulkhead\<close>

text \<open>
  \<open>bh_semaphore\<close> is the value of the \<^verbatim>\<open>asyncio.Semaphore\<close>. Its \<^verbatim>\<open>acquire\<close> takes a permit without
  suspending if the value is positive; otherwise the caller waits.
\<close>

record bulkhead =
  bh_max_concurrent :: int
  bh_semaphore :: int
  bh_active :: int

datatype bh_outcome = BhRejected exn | BhSuspended | BhAcquired bulkhead

definition new_bulkhead :: "int \<Rightarrow> exn + bulkhead" where
  "new_bulkhead m =
     (if m < 0 then Inl (Exn ValueErrorC ''Semaphore initial value must be >= 0'' [])
      else Inr \<lparr>bh_max_concurrent = m, bh_semaphore = m, bh_active = 0\<rparr>)"

definition at_capacity :: "bulkhead \<Rightarrow> exn" where
  "at_capacity b =
     Exn BulkheadException ''Bulkhead at capacity ({} concurrent calls)'' [VInt (bh_max_concurrent b)]"

definition bh_acquire :: "bulkhead \<Rightarrow> bh_outcome" where
  "bh_acquire b =
     (if bh_max_concurrent b \<le> bh_active b then BhRejected (at_capacity b)
      else if bh_semaphore b \<le> 0 then BhSuspended
      else BhAcquired (b\<lparr>bh_semaphore := bh_semaphore b - 1, bh_active := bh_active b + 1\<rparr>))"

definition bh_release :: "bulkhead \<Rightarrow> bulkhead" where
  "bh_release b = b\<lparr>bh_active := bh_active b - 1, bh_semaphore := bh_semaphore b + 1\<rparr>"

definition available_slots :: "bulkhead \<Rightarrow> int" where
  "available_slots b = bh_max_concurrent b - bh_active b"

text \<open>
  Calls of functions decorated with one bulkhead: coroutine functions go through \<^verbatim>\<open>acquire\<close> and
  \<^verbatim>\<open>release\<close>, plain functions only count themselves. A call starts, and unless it was turned away it ends, by
  returning or by raising (the \<^verbatim>\<open>finally\<close> blocks do the same for both).
\<close>

datatype bh_event = AsyncStart nat | AsyncEnd nat | SyncStart nat | SyncEnd nat

record bh_system =
  bs_bulkhead :: bulkhead
  bs_async :: "nat list"
  bs_sync :: "nat list"
  bs_waiting :: "nat list"
  bs_rejected :: "nat list"

fun bh_step :: "bh_event \<Rightarrow> bh_system \<Rightarrow> bh_system option" where
  "bh_step (AsyncStart t) s =
     (case bh_acquire (bs_bulkhead s) of
        BhRejected e \<Rightarrow> Some (s\<lparr>bs_rejected := bs_rejected s @ [t]\<rparr>)
      | BhSuspended \<Rightarrow> Some (s\<lparr>bs_waiting := bs_waiting s @ [t]\<rparr>)
      | BhAcquired b \<Rightarrow> Some (s\<lparr>bs_bulkhead := b, bs_async := bs_async s @ [t]\<rparr>))"
| "bh_step (AsyncEnd t) s =
     (if t \<in> set (bs_async s)
      then Some (s\<lparr>bs_bulkhead := bh_release (bs_bulkhead s), bs_async := remove1 t (bs_async s)\<rparr>)
      else None)"
| "bh_step (SyncStart t) s =
     (let b = bs_bulkhead s
      in if bh_max_concurrent b \<le> bh_active b then Some (s\<lparr>bs_rejected := bs_rejected s @ [t]\<rparr>)
         else Some (s\<lparr>bs_bulkhead := b\<lparr>bh_active := bh_active b + 1\<rparr>, bs_sync := bs_sync s @ [t]\<rparr>))"
| "bh_step (SyncEnd t) s =
     (let b = bs_bulkhead s
      in if t \<in> set (bs_sync s)
         then Some (s\<lparr>bs_bulkhead := b\<lparr>bh_active := bh_active b - 1\<rparr>, bs_sync := remove1 t (bs_sync s)\<rparr>)
         else None)"

fun bh_run :: "bh_event list \<Rightarrow> bh_system \<Rightarrow> bh_system option" where
  "bh_run [] s = Some s"
| "bh_run (e # es) s = (case bh_step e s of None \<Rightarrow> None | Some s' \<Rightarrow> bh_run es s')"

definition bh_idle :: "bulkhead \<Rightarrow> bh_system" where
  "bh_idle b = \<lparr>bs_bulkhead = b, bs_async = [], bs_sync = [], bs_waiting = [], bs_rejected = []\<rparr>"

definition bh_inv :: "int \<Rightarrow> bh_system \<Rightarrow> bool" where
  "bh_inv m s \<longleftrightarrow>
     (let b = bs_bulkhead s; running = int (length (bs_async s)) + int (length (bs_sync s))
      in bh_max_concurrent b = m \<and> bh_active b = running \<and> running \<le> m \<and>
         bh_semaphore b = m - int (length (bs_async s)) \<and> bs_waiting s = [])"

lemma int_length_remove1: "t \<in> set xs \<Longrightarrow> int (length (remove1 t xs)) = int (length xs) - 1"
  by (induction xs) auto

lemma bh_inv_step: "\<lbrakk>bh_step e s = Some s'; bh_inv m s\<rbrakk> \<Longrightarrow> bh_inv m s'"
  by (cases e)
    (auto simp: bh_inv_def Let_def bh_acquire_def bh_release_def int_length_remove1
      split: if_splits bh_outcome.splits)

lemma bh_inv_run: "\<lbrakk>bh_run es s = Some s'; bh_inv m s\<rbrakk> \<Longrightarrow> bh_inv m s'"
  by (induction es arbitrary: s) (auto split: option.splits intro: bh_inv_step)

text \<open>
  Claim C20. The bulkhead's invariant, for every interleaving of calls of coroutine and of plain functions: the counter is the number of calls
  running, at most the maximum; no call ever waits for the semaphore; and a call is turned away exactly when as many calls are
  running as the bulkhead allows, so every slot comes back.
\<close>

theorem bulkhead_invariant:
  assumes "new_bulkhead m = Inr b" "bh_run es (bh_idle b) = Some s"
  shows "bh_active (bs_bulkhead s) = int (length (bs_async s) + length (bs_sync s)) \<and>
         bh_active (bs_bulkhead s) \<le> m \<and> bs_waiting s = [] \<and>
         (if available_slots (bs_bulkhead s) = 0 then bh_acquire (bs_bulkhead s) = BhRejected (at_capacity b)
          else \<exists>b'. bh_acquire (bs_bulkhead s) = BhAcquired b')"
proof -
  have "bh_inv m (bh_idle b)"
    using assms(1) by (auto simp: bh_inv_def bh_idle_def new_bulkhead_def split: if_splits)
  with assms(2) have "bh_inv m s" by (rule bh_inv_run)
  moreover have "bh_max_concurrent b = m" using assms(1) by (auto simp: new_bulkhead_def split: if_splits)
  ultimately show ?thesis
    by (auto simp: bh_inv_def Let_def available_slots_def bh_acquire_def at_capacity_def)
qed

theorem bulkhead_invariant_witness:
  "\<exists>b s. new_bulkhead 2 = Inr b \<and>
     bh_run [AsyncStart 1, SyncStart 2, AsyncStart 3, SyncEnd 2, AsyncStart 4] (bh_idle b) = Some s \<and>
     bs_rejected s = [3] \<and> bs_async s = [1, 4] \<and> bh_acquire (bs_bulkhead s) = BhRejected (at_capacity b)"
proof -
  let ?b = "\<lparr>bh_max_concurrent = 2, bh_semaphore = 2, bh_active = 0\<rparr>"
  let ?s = "\<lparr>bs_bulkhead = \<lparr>bh_max_concurrent = 2, bh_semaphore = 0, bh_active = 2\<rparr>,
    bs_async = [1, 4], bs_sync = [], bs_waiting = [], bs_rejected = [3]\<rparr>"
  have b: "new_bulkhead 2 = Inr ?b" by (simp add: new_bulkhead_def)
  have s: "bh_run [AsyncStart 1, SyncStart 2, AsyncStart 3, SyncEnd 2, AsyncStart 4] (bh_idle ?b) = Some ?s"
    by (simp add: bh_idle_def bh_acquire_def Let_def)
  from bulkhead_invariant [OF b s] have "bh_acquire (bs_bulkhead ?s) = BhRejected (at_capacity ?b)"
    by (simp add: available_slots_def)
  with b s show ?thesis by (intro exI conjI) (assumption | simp)+
qed

section \<open>fallback and time\_limiter\<close>

text \<open>
  What the call of a fallback method does: it raises, returns a value, or returns an awaitable (with
  an identity) that gives a result when it is awaited. \<open>mentions_exc\<close> is the test \<^verbatim>\<open>"exc" in str(te)\<close>.
\<close>

datatype fallback_call = FbRaises exn | FbReturns pyval | FbAwaitable nat "exn + pyval"

type_synonym fallback_method = "string \<times> (exn \<Rightarrow> fallback_call)"

definition check_fallback :: "fallback_method option \<Rightarrow> pyval \<Rightarrow> exn + unit" where
  "check_fallback fallback_method fallback_value =
     (if fallback_method = None \<and> fallback_value = VNone
      then Inl (Exn ValueErrorC ''Either fallback_method or fallback_value must be provided'' [])
      else Inr ())"

definition fallback_sync ::
  "fallback_method option \<Rightarrow> pyval \<Rightarrow> exc_class list \<Rightarrow> exn + pyval \<Rightarrow> exn + pyval" where
  "fallback_sync fallback_method fallback_value on outcome =
     (case outcome of
        Inr v \<Rightarrow> Inr v
      | Inl exc \<Rightarrow>
          if \<not> caught_by on exc then Inl exc
          else case fallback_method of
            None \<Rightarrow> Inr fallback_value
          | Some (name, f) \<Rightarrow>
              (case f exc of FbRaises e \<Rightarrow> Inl e | FbReturns v \<Rightarrow> Inr v | FbAwaitable i r \<Rightarrow> Inr (VCoroutine i)))"

definition fallback_async ::
  "(exn \<Rightarrow> bool) \<Rightarrow> fallback_method option \<Rightarrow> pyval \<Rightarrow> exc_class list \<Rightarrow> exn + pyval \<Rightarrow> exn + pyval" where
  "fallback_async mentions_exc fallback_method fallback_value on outcome =
     (case outcome of
        Inr v \<Rightarrow> Inr v
      | Inl exc \<Rightarrow>
          if \<not> caught_by on exc then Inl exc
          else case fallback_method of
            None \<Rightarrow> Inr fallback_value
          | Some (name, f) \<Rightarrow>
              (case f exc of
                 FbRaises te \<Rightarrow>
                   if isinstance_exc te TypeErrorC \<and> mentions_exc te
                   then Inl (Exn TypeErrorC ''Fallback method '{}' must accept an 'exc' keyword argument'' [VStr name])
                   else Inl te
               | FbReturns v \<Rightarrow> Inr v
               | FbAwaitable i r \<Rightarrow> r))"

text \<open>
  A decorated coroutine finishes in time or is cancelled at the timeout. A \<^verbatim>\<open>TimeoutError\<close> that the function
  itself raises is reported in the same way.
\<close>

datatype 'a limited_run = InTime "exn + 'a" | TimedOut

definition time_limited :: "string \<Rightarrow> rat \<Rightarrow> 'a limited_run \<Rightarrow> exn + 'a" where
  "time_limited name timeout_seconds run =
     (let timeout = Exn OperationTimeoutException ''{} exceeded timeout of {}s'' [VStr name, VFloat timeout_seconds]
      in case run of
           TimedOut \<Rightarrow> Inl timeout
         | InTime (Inr v) \<Rightarrow> Inr v
         | InTime (Inl e) \<Rightarrow> if isinstance_exc e TimeoutErrorC then Inl timeout else Inl e)"

text \<open>The alarm of a plain function: whole seconds, at least one (\<^verbatim>\<open>int(timeout_seconds) or 1\<close>).\<close>

definition alarm_seconds :: "rat \<Rightarrow> int" where
  "alarm_seconds timeout_seconds =
     (let n = (if 0 \<le> timeout_seconds then \<lfloor>timeout_seconds\<rfloor> else \<lceil>timeout_seconds\<rceil>) in if n = 0 then 1 else n)"

lemma fallback_value_never_raises:
  "is_ok (fallback_async p None v [ExceptionC] r) \<and> is_ok (fallback_sync None v [ExceptionC] r)"
  by (cases r) (simp_all add: fallback_async_def fallback_sync_def)

lemma fallback_transparent:
  "\<lbrakk>\<forall>e. r = Inl e \<longrightarrow> \<not> caught_by on e\<rbrakk> \<Longrightarrow>
     fallback_async p m v on r = r \<and> fallback_sync m v on r = r"
  by (cases r) (simp_all add: fallback_async_def fallback_sync_def)

text \<open>A rejected call does not run, and the decorated function decides everything else.\<close>

lemma rate_limited_cases:
  "rate_limited now func l s =
     (if 1 \<le> available_tokens now l
      then (fst (func s), (refill now l)\<lparr>rl_tokens := refilled now l - 1\<rparr>, snd (func s))
      else (Inl (Exn RateLimitException ''Rate limit exceeded'' []), refill now l, s))"
  by (auto simp: rate_limited_def acquire_token_def available_tokens_def Let_def refill_def split: prod.splits)

text \<open>A plain function with a timeout below two seconds is stopped after one second, whatever the timeout.\<close>

lemma alarm_of_fraction: "0 \<le> t \<Longrightarrow> t < 2 \<Longrightarrow> alarm_seconds t = 1"
proof -
  assume t: "0 \<le> t" "t < 2"
  then have "0 \<le> \<lfloor>t\<rfloor>" "\<lfloor>t\<rfloor> < 2" by (simp_all add: floor_less_iff)
  then have "\<lfloor>t\<rfloor> = 0 \<or> \<lfloor>t\<rfloor> = 1" by arith
  with t show ?thesis by (auto simp: alarm_seconds_def Let_def)
qed

end
