(* ===== verification/SagaCore.thy ===== *)
theory SagaCore
  imports Datetime
begin

text \<open>
  The data the saga engine works on: \<^verbatim>\<open>transactional/shared/types.py\<close>,
  \<^verbatim>\<open>saga/core/context.py\<close>, \<^verbatim>\<open>saga/core/result.py\<close>,
  \<^verbatim>\<open>saga/registry/step_definition.py\<close> and \<^verbatim>\<open>saga/registry/saga_definition.py\<close>. User code
  (step and compensation methods) appears as descriptors with the signature the argument resolver
  inspects; what a call of it returns is decided by the environment of each run.
\<close>

section \<open>Shared types\<close>

datatype step_status = PENDING | RUNNING | DONE | FAILED | COMPENSATED

datatype compensation_policy =
  STRICT_SEQUENTIAL | GROUPED_PARALLEL | RETRY_WITH_BACKOFF | CIRCUIT_BREAKER | BEST_EFFORT_PARALLEL

section \<open>User methods\<close>

text \<open>
  The injection markers of \<^verbatim>\<open>saga/annotations.py\<close> and \<^verbatim>\<open>tcc/annotations.py\<close>, type hints as
  \<^verbatim>\<open>get_type_hints(..., include_extras=True)\<close> gives them, and methods: the parameter names of the
  signature in order, the hints (which may hold one for \<^verbatim>\<open>return\<close>), whether
  \<^verbatim>\<open>inspect.iscoroutinefunction\<close> holds of it, and whether a plain call of it returns a coroutine object.
\<close>

datatype marker =
    MInput "string option"
  | MFromStep string
  | MHeader string
  | MHeaders
  | MVariable string
  | MVariables
  | MSetVariable string
  | MFromCompensationResult string
  | MCompensationError
  | MFromTry
  | MOther string

datatype hint =
    HSagaContext
  | HTccContext
  | HStr string
  | HType string
  | HAnnotated hint "marker list"

record py_method =
  m_id :: nat
  m_qualname :: string
  m_params :: "string list"
  m_hints :: "(string, hint) dict"
  m_async :: bool
  m_coro :: bool

text \<open>
  What a function is before any decorator: a coroutine function returns a coroutine, and a plain
  one does not.
\<close>

definition plain_method :: "py_method \<Rightarrow> bool" where
  "plain_method m \<longleftrightarrow> m_coro m = m_async m"

text \<open>
  The wrapper every method decorator of the two engines returns is a synchronous function: it is never a
  coroutine function, and around a coroutine function it returns the coroutine object.
\<close>

definition sync_wrapper :: "py_method \<Rightarrow> py_method" where
  "sync_wrapper func = func\<lparr>m_async := False, m_coro := m_async func \<or> m_coro func\<rparr>"

type_synonym kwargs = "(string, pyval) dict"

section \<open>Step and saga definitions\<close>

record step_def =
  sd_id :: string
  step_method :: "py_method option"
  compensate_name :: "string option"
  compensate_method :: "py_method option"
  depends_on :: "string list"
  retry :: int
  backoff_ms :: int
  timeout_ms :: int
  jitter :: bool
  jitter_factor :: rat
  cpu_bound :: bool
  idempotency_key :: "string option"
  compensation_retry :: "int option"
  compensation_backoff_ms :: "int option"
  compensation_timeout_ms :: "int option"
  compensation_critical :: bool

text \<open>A \<^verbatim>\<open>StepDefinition\<close> with the defaults of the dataclass.\<close>

definition step_default :: "string \<Rightarrow> step_def" where
  "step_default i = \<lparr>sd_id = i, step_method = None, compensate_name = None, compensate_method = None,
     depends_on = [], retry = 0, backoff_ms = 0, timeout_ms = 0, jitter = False, jitter_factor = 0,
     cpu_bound = False, idempotency_key = None, compensation_retry = None,
     compensation_backoff_ms = None, compensation_timeout_ms = None, compensation_critical = False\<rparr>"

record saga_def =
  sg_name :: string
  sg_bean :: pyval
  layer_concurrency :: int
  steps :: "(string, step_def) dict"

text \<open>
  What every definition the registry or the builder produces satisfies: one entry per key, and
  each under its own id.
\<close>

definition saga_def_ok :: "saga_def \<Rightarrow> bool" where
  "saga_def_ok sg \<longleftrightarrow> dict_ok (steps sg) \<and> (\<forall>(k, sd) \<in> set (steps sg). sd_id sd = k)"

definition step_deps :: "saga_def \<Rightarrow> (string, string list) dict" where
  "step_deps sg = map (\<lambda>(step_id, sd). (step_id, depends_on sd)) (steps sg)"

section \<open>Execution context\<close>

record saga_context =
  correlation_id :: string
  saga_name :: string
  headers :: "(string, string) dict"
  variables :: "(string, pyval) dict"
  step_results :: "(string, pyval) dict"
  step_statuses :: "(string, step_status) dict"
  step_attempts :: "(string, int) dict"
  step_latencies_ms :: "(string, rat) dict"
  step_started_at :: "(string, datetime) dict"
  compensation_results :: "(string, pyval) dict"
  compensation_errors :: "(string, exn) dict"
  idempotency_keys :: "string set"
  topology_layers :: "string list list"
  step_dependencies :: "(string, string list) dict"

definition new_saga_context :: "string \<Rightarrow> string \<Rightarrow> (string, string) dict \<Rightarrow> saga_context" where
  "new_saga_context cid name hdrs = \<lparr>correlation_id = cid, saga_name = name, headers = hdrs,
     variables = [], step_results = [], step_statuses = [], step_attempts = [],
     step_latencies_ms = [], step_started_at = [], compensation_results = [],
     compensation_errors = [], idempotency_keys = {}, topology_layers = [], step_dependencies = []\<rparr>"

definition get_result :: "saga_context \<Rightarrow> string \<Rightarrow> pyval" where
  "get_result ctx step_id = opt_val (dget (step_results ctx) step_id)"

definition set_result :: "string \<Rightarrow> pyval \<Rightarrow> saga_context \<Rightarrow> saga_context" where
  "set_result step_id r ctx = ctx\<lparr>step_results := dput step_id r (step_results ctx)\<rparr>"

definition get_variable :: "saga_context \<Rightarrow> string \<Rightarrow> pyval" where
  "get_variable ctx key = opt_val (dget (variables ctx) key)"

definition set_variable :: "string \<Rightarrow> pyval \<Rightarrow> saga_context \<Rightarrow> saga_context" where
  "set_variable key v ctx = ctx\<lparr>variables := dput key v (variables ctx)\<rparr>"

definition set_step_status :: "string \<Rightarrow> step_status \<Rightarrow> saga_context \<Rightarrow> saga_context" where
  "set_step_status step_id st ctx = ctx\<lparr>step_statuses := dput step_id st (step_statuses ctx)\<rparr>"

definition has_idempotency_key :: "saga_context \<Rightarrow> string \<Rightarrow> bool" where
  "has_idempotency_key ctx key \<longleftrightarrow> key \<in> idempotency_keys ctx"

definition add_idempotency_key :: "string \<Rightarrow> saga_context \<Rightarrow> saga_context" where
  "add_idempotency_key key ctx = ctx\<lparr>idempotency_keys := insert key (idempotency_keys ctx)\<rparr>"

lemmas context_ops [step_simps] =
  get_result_def set_result_def get_variable_def set_variable_def set_step_status_def
  has_idempotency_key_def add_idempotency_key_def

section \<open>Results\<close>

record step_outcome =
  so_status :: step_status
  so_attempts :: int
  so_latency_ms :: rat
  so_result :: pyval
  so_error :: "exn option"
  so_compensated :: bool
  so_started_at :: datetime
  so_compensation_result :: pyval
  so_compensation_error :: "exn option"

record saga_result =
  sr_saga_name :: string
  sr_correlation_id :: string
  sr_started_at :: datetime
  sr_completed_at :: datetime
  sr_success :: bool
  sr_error :: "exn option"
  sr_headers :: "(string, string) dict"
  sr_steps :: "(string, step_outcome) dict"

definition result_of :: "saga_result \<Rightarrow> string \<Rightarrow> pyval" where
  "result_of r step_id =
     (case dget (sr_steps r) step_id of None \<Rightarrow> VNone | Some outcome \<Rightarrow> so_result outcome)"

definition failed_steps :: "saga_result \<Rightarrow> (string, step_outcome) dict" where
  "failed_steps r = filter (\<lambda>(step_id, outcome). so_status outcome = FAILED) (sr_steps r)"

definition compensated_steps :: "saga_result \<Rightarrow> (string, step_outcome) dict" where
  "compensated_steps r = filter (\<lambda>(step_id, outcome). so_status outcome = COMPENSATED) (sr_steps r)"

section \<open>Lemmas\<close>

lemma dkeys_step_deps [simp]: "dkeys (step_deps sg) = dkeys (steps sg)"
  by (simp add: step_deps_def comp_def case_prod_unfold)

lemma dget_step_deps: "dget (step_deps sg) k = map_option depends_on (dget (steps sg) k)"
  by (simp add: step_deps_def map_of_map)

lemma saga_def_ok_deps [intro]: "saga_def_ok sg \<Longrightarrow> dict_ok (step_deps sg)"
  by (simp add: saga_def_ok_def)

lemma saga_def_ok_id: "saga_def_ok sg \<Longrightarrow> dget (steps sg) k = Some sd \<Longrightarrow> sd_id sd = k"
  by (auto simp: saga_def_ok_def dest!: map_of_SomeD)

end
