(* ===== verification/ArgResolver.thy ===== *)
theory ArgResolver
  imports SagaCore
begin

text \<open>
  \<^verbatim>\<open>saga/engine/argument_resolver.py\<close> and \<^verbatim>\<open>saga/engine/step_invoker.py\<close>: how the parameters of a
  step or compensation method are supplied, and how the method is invoked. The call itself is
  user code: \<open>call m kwargs\<close> is the environment's answer, an exception or a value.
\<close>

section \<open>ArgumentResolver\<close>

text \<open>
  \<^verbatim>\<open>_extract_key\<close>: a dictionary is subscripted, anything else is asked for an attribute. The
  built-in attributes of strings, numbers and lists are not modelled: they raise.
\<close>

definition extract_key :: "pyval \<Rightarrow> string \<Rightarrow> exn + pyval" where
  "extract_key obj key =
     (case obj of
        VDict d \<Rightarrow> (case dget d key of None \<Rightarrow> Inl (Exn KeyErrorC ''{}'' [VStr key]) | Some v \<Rightarrow> Inr v)
      | VObj _ attrs \<Rightarrow>
          (case dget attrs key of
             None \<Rightarrow> Inl (Exn AttributeErrorC ''object has no attribute {}'' [VStr key])
           | Some v \<Rightarrow> Inr v)
      | _ \<Rightarrow> Inl (Exn AttributeErrorC ''object has no attribute {}'' [VStr key]))"

text \<open>\<^verbatim>\<open>_resolve_marker\<close>: \<open>Inr None\<close> is the sentinel \<^verbatim>\<open>_UNRESOLVED\<close>.\<close>

fun resolve_marker :: "marker \<Rightarrow> saga_context \<Rightarrow> pyval \<Rightarrow> exn + pyval option" where
  "resolve_marker (MInput key) ctx step_input =
     (case key of
        None \<Rightarrow> Inr (Some step_input)
      | Some k \<Rightarrow> (case extract_key step_input k of Inl e \<Rightarrow> Inl e | Inr v \<Rightarrow> Inr (Some v)))"
| "resolve_marker (MFromStep step_id) ctx step_input = Inr (Some (opt_val (dget (step_results ctx) step_id)))"
| "resolve_marker (MHeader name) ctx step_input =
     Inr (Some (case dget (headers ctx) name of None \<Rightarrow> VNone | Some h \<Rightarrow> VStr h))"
| "resolve_marker MHeaders ctx step_input =
     Inr (Some (VDict (map (\<lambda>(k, h). (k, VStr h)) (headers ctx))))"
| "resolve_marker (MVariable name) ctx step_input = Inr (Some (opt_val (dget (variables ctx) name)))"
| "resolve_marker MVariables ctx step_input = Inr (Some (VDict (variables ctx)))"
| "resolve_marker (MSetVariable name) ctx step_input = Inr (Some VNone)"
| "resolve_marker (MFromCompensationResult step_id) ctx step_input =
     Inr (Some (opt_val (dget (compensation_results ctx) step_id)))"
| "resolve_marker MCompensationError ctx step_input =
     Inr (Some (case compensation_errors ctx of [] \<Rightarrow> VNone | (_, e) # _ \<Rightarrow> VExn e))"
| "resolve_marker MFromTry ctx step_input = Inr None"
| "resolve_marker (MOther _) ctx step_input = Inr None"

definition is_saga_context :: "hint \<Rightarrow> bool" where
  "is_saga_context h = (case h of HStr s \<Rightarrow> s = ''SagaContext'' | HSagaContext \<Rightarrow> True | _ \<Rightarrow> False)"

text \<open>The loop over the extras of an \<^verbatim>\<open>Annotated\<close> hint: the first recognised marker decides.\<close>

fun first_marker :: "marker list \<Rightarrow> saga_context \<Rightarrow> pyval \<Rightarrow> exn + pyval option" where
  "first_marker [] ctx step_input = Inr None"
| "first_marker (m # ms) ctx step_input =
     (case resolve_marker m ctx step_input of
        Inl e \<Rightarrow> Inl e
      | Inr (Some v) \<Rightarrow> Inr (Some v)
      | Inr None \<Rightarrow> first_marker ms ctx step_input)"

definition unresolvable :: "string \<Rightarrow> exn" where
  "unresolvable name =
     Exn TypeErrorC ''Cannot resolve parameter {}: no matching injection marker found'' [VStr name]"

definition resolve_parameter :: "string \<Rightarrow> hint \<Rightarrow> saga_context \<Rightarrow> pyval \<Rightarrow> exn + pyval" where
  "resolve_parameter name h ctx step_input =
     (if is_saga_context h then Inr VCtx
      else case h of
        HAnnotated base extras \<Rightarrow>
          (if is_saga_context base then Inr VCtx
           else case first_marker extras ctx step_input of
                  Inl e \<Rightarrow> Inl e
                | Inr (Some v) \<Rightarrow> Inr v
                | Inr None \<Rightarrow> Inl (unresolvable name))
      | _ \<Rightarrow> Inl (unresolvable name))"

fun resolve_params ::
  "py_method \<Rightarrow> string list \<Rightarrow> saga_context \<Rightarrow> pyval \<Rightarrow> kwargs \<Rightarrow> exn + kwargs"
where
  "resolve_params func [] ctx step_input resolved = Inr resolved"
| "resolve_params func (name # names) ctx step_input resolved =
     (if name = ''self'' then resolve_params func names ctx step_input resolved
      else case dget (m_hints func) name of
        None \<Rightarrow> Inl (Exn TypeErrorC ''Cannot resolve parameter {}: no type hint found on {}''
                   [VStr name, VStr (m_qualname func)])
      | Some h \<Rightarrow>
          (case resolve_parameter name h ctx step_input of
             Inl e \<Rightarrow> Inl e
           | Inr v \<Rightarrow> resolve_params func names ctx step_input (dput name v resolved)))"

definition resolve :: "py_method \<Rightarrow> saga_context \<Rightarrow> pyval \<Rightarrow> exn + kwargs" where
  "resolve func ctx step_input = resolve_params func (m_params func) ctx step_input []"

section \<open>StepInvoker\<close>

text \<open>
  \<^verbatim>\<open>_call\<close> awaits a coroutine function, hands a CPU-bound synchronous one to the executor, and
  calls any other directly. \<open>call\<close> gives the outcome of running the method's body for the mode, the
  method and its arguments. A callable that is not a coroutine function but returns a coroutine is
  called and not awaited: its body does not run, and the coroutine object is the value.
\<close>

datatype call_mode = Awaited | InExecutor | Direct

type_synonym user_call = "call_mode \<Rightarrow> py_method \<Rightarrow> kwargs \<Rightarrow> exn + pyval"

definition body_runs :: "py_method \<Rightarrow> bool" where
  "body_runs m \<longleftrightarrow> m_async m \<or> \<not> m_coro m"

definition call_method :: "user_call \<Rightarrow> py_method \<Rightarrow> bool \<Rightarrow> kwargs \<Rightarrow> exn + pyval" where
  "call_method call m cpu kw =
     (if m_async m then call Awaited m kw
      else if m_coro m then Inr (VCoroutine (m_id m))
      else if cpu then call InExecutor m kw
      else call Direct m kw)"

text \<open>
  The call expression \<^verbatim>\<open>method(bean, **kwargs)\<close> binds the bean to the first parameter, whatever its
  name; it raises before the body runs when there is none, or when a keyword argument has that name too.
  The arguments of a call are what resolution finds, if they bind.
\<close>

definition bind_args :: "py_method \<Rightarrow> kwargs \<Rightarrow> exn option" where
  "bind_args m kw =
     (case m_params m of
        [] \<Rightarrow> Some (Exn TypeErrorC ''{} takes 0 positional arguments but 1 was given'' [VStr (m_qualname m)])
      | p # _ \<Rightarrow>
          if dmem p kw
          then Some (Exn TypeErrorC ''{} got multiple values for argument {}'' [VStr (m_qualname m), VStr p])
          else None)"

definition prepare_call :: "py_method \<Rightarrow> saga_context \<Rightarrow> pyval \<Rightarrow> exn + kwargs" where
  "prepare_call m ctx step_input =
     (case resolve m ctx step_input of
        Inl e \<Rightarrow> Inl e
      | Inr kw \<Rightarrow> (case bind_args m kw of Some e \<Rightarrow> Inl e | None \<Rightarrow> Inr kw))"

text \<open>\<^verbatim>\<open>_apply_set_variables\<close>: every \<^verbatim>\<open>SetVariable\<close> extra of every hint stores the result.\<close>

fun apply_extras :: "marker list \<Rightarrow> pyval \<Rightarrow> saga_context \<Rightarrow> saga_context" where
  "apply_extras [] result ctx = ctx"
| "apply_extras (MSetVariable name # extras) result ctx =
     apply_extras extras result (set_variable name result ctx)"
| "apply_extras (_ # extras) result ctx = apply_extras extras result ctx"

fun apply_hints :: "hint list \<Rightarrow> pyval \<Rightarrow> saga_context \<Rightarrow> saga_context" where
  "apply_hints [] result ctx = ctx"
| "apply_hints (HAnnotated base extras # hints) result ctx =
     apply_hints hints result (apply_extras extras result ctx)"
| "apply_hints (_ # hints) result ctx = apply_hints hints result ctx"

definition apply_set_variables :: "py_method \<Rightarrow> pyval \<Rightarrow> saga_context \<Rightarrow> saga_context" where
  "apply_set_variables m result ctx = apply_hints (dvals (m_hints m)) result ctx"

text \<open>
  \<^verbatim>\<open>invoke_step\<close> in its two halves around the call of user code, and as a whole. The orchestrator
  runs other tasks between the halves.
\<close>

definition prepare_step :: "step_def \<Rightarrow> saga_context \<Rightarrow> pyval \<Rightarrow> exn + py_method \<times> kwargs" where
  "prepare_step sd ctx step_input =
     (case step_method sd of
        None \<Rightarrow> Inl (Exn ValueErrorC ''Step {} has no step method defined.'' [VStr (sd_id sd)])
      | Some m \<Rightarrow>
          (case prepare_call m ctx step_input of Inl e \<Rightarrow> Inl e | Inr kw \<Rightarrow> Inr (m, kw)))"

definition finish_step :: "step_def \<Rightarrow> pyval \<Rightarrow> saga_context \<Rightarrow> saga_context" where
  "finish_step sd result ctx =
     (case step_method sd of None \<Rightarrow> ctx | Some m \<Rightarrow> apply_set_variables m result ctx)"

definition invoke_step ::
  "user_call \<Rightarrow> step_def \<Rightarrow> saga_context \<Rightarrow> pyval \<Rightarrow> (exn + pyval) \<times> saga_context"
where
  "invoke_step call sd ctx step_input =
     (case prepare_step sd ctx step_input of
        Inl e \<Rightarrow> (Inl e, ctx)
      | Inr (m, kw) \<Rightarrow>
          (case call_method call m (cpu_bound sd) kw of
             Inl e \<Rightarrow> (Inl e, ctx)
           | Inr v \<Rightarrow> (Inr v, finish_step sd v ctx)))"

definition invoke_compensation ::
  "user_call \<Rightarrow> step_def \<Rightarrow> saga_context \<Rightarrow> pyval \<Rightarrow> exn + pyval"
where
  "invoke_compensation call sd ctx step_input =
     (case compensate_method sd of
        None \<Rightarrow> Inl (Exn ValueErrorC ''Step {} has no compensation method defined.'' [VStr (sd_id sd)])
      | Some m \<Rightarrow>
          (case prepare_call m ctx step_input of
             Inl e \<Rightarrow> Inl e
           | Inr kw \<Rightarrow> call_method call m False kw))"

section \<open>What the invoker changes\<close>

text \<open>Storing the result in variables touches nothing but the variables.\<close>

lemma apply_extras_eq: "\<exists>vs. apply_extras ms r ctx = ctx\<lparr>variables := vs\<rparr>"
proof (induction ms r ctx rule: apply_extras.induct)
  case (1 r ctx)
  have "ctx = ctx\<lparr>variables := variables ctx\<rparr>" by simp
  then show ?case by (metis apply_extras.simps(1))
next
  case (2 name ms r ctx)
  then show ?case by (auto simp: set_variable_def)
qed auto

lemma apply_hints_eq: "\<exists>vs. apply_hints hs r ctx = ctx\<lparr>variables := vs\<rparr>"
proof (induction hs r ctx rule: apply_hints.induct)
  case (1 r ctx)
  have "ctx = ctx\<lparr>variables := variables ctx\<rparr>" by simp
  then show ?case by (metis apply_hints.simps(1))
next
  case (2 base extras hs r ctx)
  then show ?case using apply_extras_eq [of extras r ctx] by auto
qed auto

lemma finish_step_eq: "\<exists>vs. finish_step sd r ctx = ctx\<lparr>variables := vs\<rparr>"
proof (cases "step_method sd")
  case None
  have "ctx = ctx\<lparr>variables := variables ctx\<rparr>" by simp
  with None show ?thesis by (metis finish_step_def option.simps(4))
next
  case (Some m)
  then show ?thesis by (simp add: finish_step_def apply_set_variables_def apply_hints_eq)
qed

lemma finish_step_fields [simp]:
  "step_statuses (finish_step sd r ctx) = step_statuses ctx"
  "step_results (finish_step sd r ctx) = step_results ctx"
  "step_attempts (finish_step sd r ctx) = step_attempts ctx"
  "step_latencies_ms (finish_step sd r ctx) = step_latencies_ms ctx"
  "compensation_results (finish_step sd r ctx) = compensation_results ctx"
  "compensation_errors (finish_step sd r ctx) = compensation_errors ctx"
  "topology_layers (finish_step sd r ctx) = topology_layers ctx"
  "headers (finish_step sd r ctx) = headers ctx"
  "correlation_id (finish_step sd r ctx) = correlation_id ctx"
  "saga_name (finish_step sd r ctx) = saga_name ctx"
  using finish_step_eq [of sd r ctx] by auto

text \<open>The keyword arguments are the parameters of the signature but \<^verbatim>\<open>self\<close>, each once.\<close>

lemma resolve_params_keys:
  assumes "resolve_params func names ctx inp resolved = Inr kw"
  shows "set (dkeys kw) = set (dkeys resolved) \<union> (set names - {''self''})"
  using assms
  by (induction func names ctx inp resolved rule: resolve_params.induct)
    (auto split: if_splits option.splits sum.splits)

lemma resolve_keys: "resolve func ctx inp = Inr kw \<Longrightarrow> set (dkeys kw) = set (m_params func) - {''self''}"
  using resolve_params_keys [of func "m_params func" ctx inp "[]" kw] by (simp add: resolve_def)

text \<open>So a call binds exactly when the method's first parameter is \<^verbatim>\<open>self\<close>.\<close>

lemma prepare_call_first:
  assumes "m_params m = p # ps"
  shows "prepare_call m ctx inp = (case resolve m ctx inp of
     Inl e \<Rightarrow> Inl e
   | Inr kw \<Rightarrow> if p = ''self'' then Inr kw
       else Inl (Exn TypeErrorC ''{} got multiple values for argument {}'' [VStr (m_qualname m), VStr p]))"
proof (cases "resolve m ctx inp")
  case (Inr kw)
  from resolve_keys [OF Inr] assms have "dmem p kw \<longleftrightarrow> p \<noteq> ''self''" by (auto simp: dmem_iff)
  with Inr assms show ?thesis by (simp add: prepare_call_def bind_args_def)
qed (simp add: prepare_call_def)

text \<open>What resolution reads of the context: results, headers, variables and compensation data.\<close>

lemma resolve_marker_cong:
  assumes "step_results c = step_results c'" "headers c = headers c'" "variables c = variables c'"
    "compensation_results c = compensation_results c'" "compensation_errors c = compensation_errors c'"
  shows "resolve_marker m c inp = resolve_marker m c' inp"
  using assms by (cases m) auto

end
