(* ===== verification/TccCore.thy ===== *)
theory TccCore
  imports ArgResolver
begin

text \<open>
  The data model of the TCC engine and where its definitions come from: \<^verbatim>\<open>tcc/core/phase.py\<close>,
  \<^verbatim>\<open>context.py\<close> and \<^verbatim>\<open>result.py\<close>, the decorators of \<^verbatim>\<open>tcc/annotations.py\<close>, the definitions and the registry of
  \<^verbatim>\<open>tcc/registry/\<close>, and the argument resolver of \<^verbatim>\<open>tcc/engine/argument_resolver.py\<close>.
\<close>

section \<open>Phases, context and results\<close>

datatype tcc_phase = TRY | CONFIRM | CANCEL

record tcc_context =
  tx_correlation_id :: string
  tx_name :: string
  tx_headers :: "(string, string) dict"
  tx_variables :: "(string, pyval) dict"
  try_results :: "(string, pyval) dict"
  current_phase :: tcc_phase
  participant_statuses :: "(string, tcc_phase) dict"

definition new_tcc_context :: "string \<Rightarrow> string \<Rightarrow> (string, string) dict \<Rightarrow> tcc_context" where
  "new_tcc_context cid name hdrs =
     \<lparr>tx_correlation_id = cid, tx_name = name, tx_headers = hdrs, tx_variables = [], try_results = [],
      current_phase = TRY, participant_statuses = []\<rparr>"

definition get_try_result :: "tcc_context \<Rightarrow> string \<Rightarrow> pyval" where
  "get_try_result ctx participant_id = opt_val (dget (try_results ctx) participant_id)"

definition set_try_result :: "string \<Rightarrow> pyval \<Rightarrow> tcc_context \<Rightarrow> tcc_context" where
  "set_try_result participant_id result ctx = ctx\<lparr>try_results := dput participant_id result (try_results ctx)\<rparr>"

definition set_phase :: "tcc_phase \<Rightarrow> tcc_context \<Rightarrow> tcc_context" where
  "set_phase phase ctx = ctx\<lparr>current_phase := phase\<rparr>"

definition set_participant_status :: "string \<Rightarrow> tcc_phase \<Rightarrow> tcc_context \<Rightarrow> tcc_context" where
  "set_participant_status participant_id phase ctx =
     ctx\<lparr>participant_statuses := dput participant_id phase (participant_statuses ctx)\<rparr>"

lemmas tcc_context_ops [step_simps] =
  get_try_result_def set_try_result_def set_phase_def set_participant_status_def

record participant_result =
  pr_participant_id :: string
  pr_try_result :: pyval
  pr_try_error :: "exn option"
  pr_confirm_error :: "exn option"
  pr_cancel_error :: "exn option"
  pr_final_phase :: tcc_phase
  pr_latency_ms :: rat

record tcc_result =
  tr_correlation_id :: string
  tr_name :: string
  tr_success :: bool
  tr_final_phase :: tcc_phase
  tr_try_results :: "(string, pyval) dict"
  tr_participants :: "(string, participant_result) dict"
  tr_started_at :: datetime
  tr_completed_at :: datetime
  tr_error :: "exn option"
  tr_failed_id :: "string option"

definition tcc_result_of :: "tcc_result \<Rightarrow> string \<Rightarrow> pyval" where
  "tcc_result_of r participant_id =
     (case dget (tr_participants r) participant_id of None \<Rightarrow> VNone | Some pr \<Rightarrow> pr_try_result pr)"

definition failed_participants :: "tcc_result \<Rightarrow> (string, participant_result) dict" where
  "failed_participants r =
     filter (\<lambda>(pid, pr). pr_try_error pr \<noteq> None \<or> pr_confirm_error pr \<noteq> None \<or> pr_cancel_error pr \<noteq> None)
       (tr_participants r)"

section \<open>Decorators\<close>

text \<open>
  A method of a participant class with the metadata its decorators left on it. A decorator wraps the method in a
  synchronous function and adds its own metadata; \<^verbatim>\<open>functools.wraps\<close> carries over those already there.
\<close>

record phase_meta =
  ph_timeout_ms :: int
  ph_retry :: int
  ph_backoff_ms :: int

record tcc_method =
  tm_method :: py_method
  tm_try :: "phase_meta option"
  tm_confirm :: "phase_meta option"
  tm_cancel :: "phase_meta option"

definition plain_attr :: "py_method \<Rightarrow> tcc_method" where
  "plain_attr m = \<lparr>tm_method = m, tm_try = None, tm_confirm = None, tm_cancel = None\<rparr>"

definition try_method :: "phase_meta \<Rightarrow> tcc_method \<Rightarrow> tcc_method" where
  "try_method meta func = func\<lparr>tm_method := sync_wrapper (tm_method func), tm_try := Some meta\<rparr>"

definition confirm_method :: "phase_meta \<Rightarrow> tcc_method \<Rightarrow> tcc_method" where
  "confirm_method meta func = func\<lparr>tm_method := sync_wrapper (tm_method func), tm_confirm := Some meta\<rparr>"

definition cancel_method :: "phase_meta \<Rightarrow> tcc_method \<Rightarrow> tcc_method" where
  "cancel_method meta func = func\<lparr>tm_method := sync_wrapper (tm_method func), tm_cancel := Some meta\<rparr>"

record participant_meta =
  pm_id :: string
  pm_order :: int
  pm_timeout_ms :: int
  pm_optional :: bool

text \<open>
  A nested class and a bean's class, with their attributes by name, inherited ones included; the value of
  an attribute may be \<^verbatim>\<open>None\<close> or, in a bean's class, no class.
\<close>

record participant_class =
  pc_meta :: "participant_meta option"
  pc_attrs :: "(string, tcc_method option) dict"

record tcc_meta =
  tcm_name :: string
  tcm_timeout_ms :: int
  tcm_retry_enabled :: bool
  tcm_max_retries :: int
  tcm_backoff_ms :: int

record tcc_class =
  tcl_qualname :: string
  tcl_meta :: "tcc_meta option"
  tcl_attrs :: "(string, participant_class option) dict"

definition tcc_participant :: "participant_meta \<Rightarrow> participant_class \<Rightarrow> participant_class" where
  "tcc_participant meta cls = cls\<lparr>pc_meta := Some meta\<rparr>"

definition tcc_decorator :: "tcc_meta \<Rightarrow> tcc_class \<Rightarrow> tcc_class" where
  "tcc_decorator meta cls = cls\<lparr>tcl_meta := Some meta\<rparr>"

section \<open>Definitions and registry\<close>

record participant_def =
  pd_id :: string
  pd_order :: int
  pd_timeout_ms :: int
  pd_optional :: bool
  pd_class :: "participant_class option"
  pd_try :: "tcc_method option"
  pd_confirm :: "tcc_method option"
  pd_cancel :: "tcc_method option"

record tcc_def =
  td_name :: string
  td_bean :: pyval
  td_timeout_ms :: int
  td_retry_enabled :: bool
  td_max_retries :: int
  td_backoff_ms :: int
  participants :: "(string, participant_def) dict"

text \<open>\<^verbatim>\<open>dir\<close> lists the attribute names in sorted order; a later method of a phase replaces an earlier one.\<close>

fun resolve_phases ::
  "tcc_method option list \<Rightarrow> tcc_method option \<times> tcc_method option \<times> tcc_method option \<Rightarrow>
     tcc_method option \<times> tcc_method option \<times> tcc_method option"
where
  "resolve_phases [] acc = acc"
| "resolve_phases (None # methods) acc = resolve_phases methods acc"
| "resolve_phases (Some m # methods) (t, cf, cn) =
     resolve_phases methods
       (if tm_try m \<noteq> None then (Some m, cf, cn)
        else if tm_confirm m \<noteq> None then (t, Some m, cn)
        else if tm_cancel m \<noteq> None then (t, cf, Some m)
        else (t, cf, cn))"

definition dir_values :: "(string, 'a option) dict \<Rightarrow> 'a option list" where
  "dir_values attrs = map (\<lambda>n. case dget attrs n of None \<Rightarrow> None | Some v \<Rightarrow> v) (sort (dkeys attrs))"

definition participant_of :: "string \<Rightarrow> participant_class \<Rightarrow> participant_meta \<Rightarrow> exn + participant_def" where
  "participant_of name cls meta =
     (case resolve_phases (dir_values (pc_attrs cls)) (None, None, None) of
        (None, _) \<Rightarrow>
          Inl (Exn TccValidationErrorC ''Participant {} in TCC {} must have a @try_method'' [VStr (pm_id meta), VStr name])
      | (Some t, cf, cn) \<Rightarrow>
          Inr \<lparr>pd_id = pm_id meta, pd_order = pm_order meta, pd_timeout_ms = pm_timeout_ms meta,
               pd_optional = pm_optional meta, pd_class = Some cls,
               pd_try = Some t, pd_confirm = cf, pd_cancel = cn\<rparr>)"

fun collect_participants ::
  "string \<Rightarrow> participant_class option list \<Rightarrow> participant_def list \<Rightarrow> exn + participant_def list"
where
  "collect_participants name [] acc = Inr acc"
| "collect_participants name (None # attrs) acc = collect_participants name attrs acc"
| "collect_participants name (Some cls # attrs) acc =
     (case pc_meta cls of
        None \<Rightarrow> collect_participants name attrs acc
      | Some meta \<Rightarrow>
          if pm_id meta \<in> set (map pd_id acc)
          then Inl (Exn TccValidationErrorC ''Duplicate participant id {} in TCC {}'' [VStr (pm_id meta), VStr name])
          else (case participant_of name cls meta of
                  Inl e \<Rightarrow> Inl e
                | Inr p \<Rightarrow> collect_participants name attrs (acc @ [p])))"

fun index_participants :: "participant_def list \<Rightarrow> (string, participant_def) dict \<Rightarrow> (string, participant_def) dict" where
  "index_participants [] d = d"
| "index_participants (p # ps) d = index_participants ps (dput (pd_id p) p d)"

type_synonym tcc_registry = "(string, tcc_def) dict"

definition tcc_register :: "tcc_class \<Rightarrow> pyval \<Rightarrow> tcc_registry \<Rightarrow> exn + tcc_def \<times> tcc_registry" where
  "tcc_register cls bean reg =
     (case tcl_meta cls of
        None \<Rightarrow> Inl (Exn TccValidationErrorC ''{} is not decorated with @tcc'' [VStr (tcl_qualname cls)])
      | Some meta \<Rightarrow>
          (case collect_participants (tcm_name meta) (dir_values (tcl_attrs cls)) [] of
             Inl e \<Rightarrow> Inl e
           | Inr ps \<Rightarrow>
               (let definition =
                  \<lparr>td_name = tcm_name meta, td_bean = bean, td_timeout_ms = tcm_timeout_ms meta,
                   td_retry_enabled = tcm_retry_enabled meta, td_max_retries = tcm_max_retries meta,
                   td_backoff_ms = tcm_backoff_ms meta,
                   participants = index_participants (sort_key pd_order ps) []\<rparr>
                in Inr (definition, dput (tcm_name meta) definition reg))))"

definition tcc_get :: "tcc_registry \<Rightarrow> string \<Rightarrow> tcc_def option" where
  "tcc_get reg name = dget reg name"

definition tcc_get_all :: "tcc_registry \<Rightarrow> tcc_def list" where
  "tcc_get_all reg = dvals reg"

section \<open>Argument resolution\<close>

text \<open>\<open>Inr None\<close> is the sentinel \<^verbatim>\<open>_UNRESOLVED\<close>.\<close>

definition tcc_resolve_marker :: "marker \<Rightarrow> tcc_context \<Rightarrow> pyval \<Rightarrow> string option \<Rightarrow> exn + pyval option" where
  "tcc_resolve_marker m ctx input_data participant_id =
     (case m of
        MInput None \<Rightarrow> Inr (Some input_data)
      | MInput (Some k) \<Rightarrow> (case extract_key input_data k of Inl e \<Rightarrow> Inl e | Inr v \<Rightarrow> Inr (Some v))
      | MFromTry \<Rightarrow>
          Inr (Some (case participant_id of None \<Rightarrow> VNone | Some pid \<Rightarrow> get_try_result ctx pid))
      | _ \<Rightarrow> Inr None)"

definition is_tcc_context :: "hint \<Rightarrow> bool" where
  "is_tcc_context h = (case h of HStr s \<Rightarrow> s = ''TccContext'' | HTccContext \<Rightarrow> True | _ \<Rightarrow> False)"

fun tcc_first_marker :: "marker list \<Rightarrow> tcc_context \<Rightarrow> pyval \<Rightarrow> string option \<Rightarrow> exn + pyval option" where
  "tcc_first_marker [] ctx input_data pid = Inr None"
| "tcc_first_marker (m # ms) ctx input_data pid =
     (case tcc_resolve_marker m ctx input_data pid of
        Inl e \<Rightarrow> Inl e
      | Inr (Some v) \<Rightarrow> Inr (Some v)
      | Inr None \<Rightarrow> tcc_first_marker ms ctx input_data pid)"

definition tcc_resolve_parameter :: "string \<Rightarrow> hint \<Rightarrow> tcc_context \<Rightarrow> pyval \<Rightarrow> string option \<Rightarrow> exn + pyval" where
  "tcc_resolve_parameter name h ctx input_data pid =
     (if is_tcc_context h then Inr VCtx
      else case h of
        HAnnotated base extras \<Rightarrow>
          (if is_tcc_context base then Inr VCtx
           else case tcc_first_marker extras ctx input_data pid of
                  Inl e \<Rightarrow> Inl e
                | Inr (Some v) \<Rightarrow> Inr v
                | Inr None \<Rightarrow> Inl (unresolvable name))
      | _ \<Rightarrow> Inl (unresolvable name))"

fun tcc_resolve_params ::
  "py_method \<Rightarrow> string list \<Rightarrow> tcc_context \<Rightarrow> pyval \<Rightarrow> string option \<Rightarrow> kwargs \<Rightarrow> exn + kwargs"
where
  "tcc_resolve_params func [] ctx input_data pid resolved = Inr resolved"
| "tcc_resolve_params func (name # names) ctx input_data pid resolved =
     (if name = ''self'' then tcc_resolve_params func names ctx input_data pid resolved
      else case dget (m_hints func) name of
        None \<Rightarrow> Inl (Exn TypeErrorC ''Cannot resolve parameter {}: no type hint found on {}''
                   [VStr name, VStr (m_qualname func)])
      | Some h \<Rightarrow>
          (case tcc_resolve_parameter name h ctx input_data pid of
             Inl e \<Rightarrow> Inl e
           | Inr v \<Rightarrow> tcc_resolve_params func names ctx input_data pid (dput name v resolved)))"

definition tcc_resolve :: "py_method \<Rightarrow> tcc_context \<Rightarrow> pyval \<Rightarrow> string option \<Rightarrow> exn + kwargs" where
  "tcc_resolve func ctx input_data pid = tcc_resolve_params func (m_params func) ctx input_data pid []"


section \<open>What registration accepts\<close>

text \<open>The participants a class declares, in the order of \<^verbatim>\<open>dir\<close>, and well-formed definitions.\<close>

definition declared :: "participant_class option list \<Rightarrow> (participant_class \<times> participant_meta) list" where
  "declared attrs = List.map_filter (\<lambda>a. case a of None \<Rightarrow> None | Some c \<Rightarrow> map_option (Pair c) (pc_meta c)) attrs"

definition has_try :: "participant_class \<Rightarrow> bool" where
  "has_try c \<longleftrightarrow> (\<exists>m. Some m \<in> set (dir_values (pc_attrs c)) \<and> tm_try m \<noteq> None)"

definition tcc_ok :: "tcc_def \<Rightarrow> bool" where
  "tcc_ok d \<longleftrightarrow> dict_ok (participants d) \<and> (\<forall>(k, p) \<in> set (participants d). pd_id p = k \<and> pd_try p \<noteq> None)"

lemma declared_simps [simp]:
  "declared [] = []"
  "declared (None # attrs) = declared attrs"
  "declared (Some c # attrs) = (case pc_meta c of None \<Rightarrow> declared attrs | Some m \<Rightarrow> (c, m) # declared attrs)"
  by (simp_all add: declared_def map_filter_simps split: option.split)

lemma resolve_phases_try:
  "fst (resolve_phases ms (t, cf, cn)) \<noteq> None \<longleftrightarrow> t \<noteq> None \<or> (\<exists>m. Some m \<in> set ms \<and> tm_try m \<noteq> None)"
  by (induction ms "(t, cf, cn)" arbitrary: t cf cn rule: resolve_phases.induct) auto

lemma participant_of_cases:
  obtains (ok) p where "has_try c" "participant_of name c m = Inr p" "pd_id p = pm_id m" "pd_try p \<noteq> None"
  | (no_try) e where "\<not> has_try c" "participant_of name c m = Inl e" "exc_cls e = TccValidationErrorC"
proof -
  obtain t cf cn where r: "resolve_phases (dir_values (pc_attrs c)) (None, None, None) = (t, cf, cn)"
    by (cases "resolve_phases (dir_values (pc_attrs c)) (None, None, None)") auto
  have "has_try c \<longleftrightarrow> t \<noteq> None"
    using resolve_phases_try [of "dir_values (pc_attrs c)" None None None] by (simp add: r has_try_def)
  then show thesis using that r by (cases t) (auto simp: participant_of_def)
qed

lemma collect_participants_Inr:
  "collect_participants name attrs acc = Inr ps' \<Longrightarrow> distinct (map pd_id acc) \<Longrightarrow>
     \<exists>ps. ps' = acc @ ps \<and> map Inr ps = map (\<lambda>(c, m). participant_of name c m) (declared attrs) \<and>
       distinct (map pd_id ps') \<and> (\<forall>p \<in> set ps. pd_try p \<noteq> None) \<and>
       map pd_id ps = map (\<lambda>(c, m). pm_id m) (declared attrs)"
proof (induction name attrs acc rule: collect_participants.induct)
  case (3 name c attrs acc)
  show ?case
  proof (cases "pc_meta c")
    case (Some m)
    then have new: "pm_id m \<notin> set (map pd_id acc)" using 3(3) by (auto split: if_splits)
    show ?thesis
    proof (cases rule: participant_of_cases [where c = c and name = name and m = m])
      case (ok p)
      then have "collect_participants name attrs (acc @ [p]) = Inr ps'" "distinct (map pd_id (acc @ [p]))"
        using 3(3,4) new by (simp_all add: Some)
      from 3(2) [OF Some new ok(2) this] obtain ps where "ps' = (acc @ [p]) @ ps"
        "map Inr ps = map (\<lambda>(c, m). participant_of name c m) (declared attrs)" "distinct (map pd_id ps')"
        "\<forall>p \<in> set ps. pd_try p \<noteq> None" "map pd_id ps = map (\<lambda>(c, m). pm_id m) (declared attrs)"
        by (elim exE conjE) (rule that)
      with ok Some show ?thesis by (intro exI [of _ "p # ps"]) simp
    next
      case (no_try e)
      then show ?thesis using 3(3) Some new by simp
    qed
  qed (use 3 in simp)
qed simp_all

lemma collect_participants_Inl:
  "collect_participants name attrs acc = Inl e \<Longrightarrow>
     exc_cls e = TccValidationErrorC \<and>
     (\<not> distinct (map pd_id acc @ map (\<lambda>(c, m). pm_id m) (declared attrs)) \<or>
      (\<exists>(c, m) \<in> set (declared attrs). \<not> has_try c))"
proof (induction name attrs acc rule: collect_participants.induct)
  case (3 name c attrs acc)
  show ?case
  proof (cases "pc_meta c")
    case (Some m)
    show ?thesis
    proof (cases "pm_id m \<in> set (map pd_id acc)")
      case True
      then show ?thesis using 3(3) Some by auto
    next
      case new: False
      show ?thesis
      proof (cases rule: participant_of_cases [where c = c and name = name and m = m])
        case (ok p)
        then have "collect_participants name attrs (acc @ [p]) = Inl e" using 3(3) new by (simp add: Some)
        from 3(2) [OF Some new ok(2) this] ok(3) show ?thesis by (auto simp: Some)
      next
        case (no_try e')
        then show ?thesis using 3(3) Some new by auto
      qed
    qed
  qed (use 3 in simp)
qed simp_all

lemma index_participants_eq:
  "distinct (map pd_id ps) \<Longrightarrow> set (map pd_id ps) \<inter> set (dkeys d) = {} \<Longrightarrow>
     index_participants ps d = d @ map (\<lambda>p. (pd_id p, p)) ps"
proof (induction ps arbitrary: d)
  case (Cons p ps)
  have "dput (pd_id p) p d = d @ [(pd_id p, p)]"
    using Cons.prems(2) by (intro dput_new) auto
  then show ?case using Cons.prems Cons.IH [of "d @ [(pd_id p, p)]"] by simp
qed simp

section \<open>Properties\<close>

text \<open>
  Claim C16. Registration of a TCC class: it fails, with a validation error, exactly when the class is not decorated, two
  participants share an id or one has no try method; otherwise the definition is well formed, lists the declared
  participants by their order, equal ones as \<^verbatim>\<open>dir\<close> lists them, and the registry finds it and every other as before.
\<close>

theorem tcc_register_correct:
  "case tcc_register cls bean reg of
     Inl e \<Rightarrow> exc_cls e = TccValidationErrorC \<and>
       (tcl_meta cls = None \<or> \<not> distinct (map (\<lambda>(c, m). pm_id m) (declared (dir_values (tcl_attrs cls)))) \<or>
        (\<exists>(c, m) \<in> set (declared (dir_values (tcl_attrs cls))). \<not> has_try c))
   | Inr (d, reg') \<Rightarrow> tcc_ok d \<and> tcl_meta cls \<noteq> None \<and>
       (\<exists>ps. map Inr ps = map (\<lambda>(c, m). participant_of (td_name d) c m) (declared (dir_values (tcl_attrs cls))) \<and>
          distinct (map pd_id ps) \<and> dvals (participants d) = sort_key pd_order ps) \<and>
       (\<forall>n. tcc_get reg' n = (if n = td_name d then Some d else tcc_get reg n))"
proof (cases "tcl_meta cls")
  case None
  then show ?thesis by (simp add: tcc_register_def)
next
  case (Some meta)
  let ?attrs = "dir_values (tcl_attrs cls)"
  show ?thesis
  proof (cases "collect_participants (tcm_name meta) ?attrs []")
    case (Inl e)
    from collect_participants_Inl [OF this] Inl Some show ?thesis by (simp add: tcc_register_def)
  next
    case (Inr ps')
    from collect_participants_Inr [OF this] have ps:
      "map Inr ps' = map (\<lambda>(c, m). participant_of (tcm_name meta) c m) (declared ?attrs)"
      "distinct (map pd_id ps')" "\<forall>p \<in> set ps'. pd_try p \<noteq> None" by auto
    then have "index_participants (sort_key pd_order ps') [] = map (\<lambda>p. (pd_id p, p)) (sort_key pd_order ps')"
      by (subst index_participants_eq) (auto simp: distinct_map)
    with ps Inr Some show ?thesis
      by (auto simp: tcc_register_def Let_def tcc_ok_def tcc_get_def distinct_map comp_def inj_on_def)
  qed
qed

text \<open>A class that declares its participants in one order and numbers them in the other.\<close>

definition pay_class :: tcc_class where
  "pay_class =
     (let m = \<lambda>n. plain_attr \<lparr>m_id = n, m_qualname = ''Pay.fn'', m_params = [''self''], m_hints = [],
                m_async = True, m_coro = True\<rparr>;
          ph = \<lparr>ph_timeout_ms = 0, ph_retry = 0, ph_backoff_ms = 0\<rparr>;
          part = \<lambda>n. \<lparr>pc_meta = None, pc_attrs = [(''reserve'', Some (try_method ph (m n))), (''doc'', None)]\<rparr>
      in tcc_decorator \<lparr>tcm_name = ''pay'', tcm_timeout_ms = 0, tcm_retry_enabled = False, tcm_max_retries = 0, tcm_backoff_ms = 0\<rparr>
           \<lparr>tcl_qualname = ''Pay'', tcl_meta = None, tcl_attrs =
             [(''Alpha'', Some (tcc_participant \<lparr>pm_id = ''a'', pm_order = 2, pm_timeout_ms = 0, pm_optional = False\<rparr> (part 1))),
              (''Beta'', Some (tcc_participant \<lparr>pm_id = ''b'', pm_order = 1, pm_timeout_ms = 0, pm_optional = False\<rparr> (part 2))),
              (''note'', None)]\<rparr>)"

theorem tcc_register_correct_witness:
  "\<exists>d reg. tcc_register pay_class VNone [] = Inr (d, reg) \<and> tcc_ok d \<and> dkeys (participants d) = [''b'', ''a'']"
proof -
  have c: "(case tcc_register pay_class VNone [] of Inl _ \<Rightarrow> False
    | Inr (d, reg) \<Rightarrow> dkeys (participants d) = [''b'', ''a''])" by code_simp
  then obtain d reg where e: "tcc_register pay_class VNone [] = Inr (d, reg)" by (auto split: sum.splits)
  have "tcc_ok d" using tcc_register_correct [where cls = pay_class and bean = VNone and reg = "[]"] unfolding e sum.case prod.case by blast
  with e c show ?thesis by auto
qed

end
