(* ===== verification/TccOrch.thy ===== *)
theory TccOrch
  imports TccCore "HOL-Library.Sublist"
begin

text \<open>
  The TCC protocol: the participant invoker of \<^verbatim>\<open>tcc/engine/participant_invoker.py\<close> and the three-phase
  coordinator of \<^verbatim>\<open>tcc/engine/execution_orchestrator.py\<close>, with an abstract specification of the protocol that the
  coordinator refines.
\<close>

section \<open>Environment and log\<close>

text \<open>
  The coordinator runs one call at a time. \<open>te_call\<close> is the user code: for the log so far, the method and its
  arguments, whether the call is still suspended when a timeout of its phase expires, and what it gives in the end.
  The log has every attempt of a phase of a participant with what it raised, and every sleep in seconds.
\<close>

datatype tcc_event = Attempted tcc_phase string "exn option" | Paused tcc_phase string rat

type_synonym tcc_log = "tcc_event list"

type_synonym tcc_user = "tcc_log \<Rightarrow> py_method \<Rightarrow> kwargs \<Rightarrow> bool \<times> (exn + pyval)"

section \<open>The participant invoker\<close>

definition tcc_call :: "tcc_user \<Rightarrow> tcc_log \<Rightarrow> py_method \<Rightarrow> kwargs \<Rightarrow> bool \<times> (exn + pyval)" where
  "tcc_call user lg m kw =
     (if m_async m then user lg m kw
      else if m_coro m then (False, Inr (VCoroutine (m_id m)))
      else (False, snd (user lg m kw)))"

definition tcc_resolve_and_call ::
  "tcc_user \<Rightarrow> tcc_log \<Rightarrow> participant_def \<Rightarrow> tcc_method \<Rightarrow> tcc_context \<Rightarrow> pyval \<Rightarrow> bool \<times> (exn + pyval)"
where
  "tcc_resolve_and_call user lg p m ctx input_data =
     (case tcc_resolve (tm_method m) ctx input_data (Some (pd_id p)) of
        Inl e \<Rightarrow> (False, Inl e)
      | Inr kw \<Rightarrow>
          (case bind_args (tm_method m) kw of
             Some e \<Rightarrow> (False, Inl e)
           | None \<Rightarrow> tcc_call user lg (tm_method m) kw))"

definition no_method :: "string \<Rightarrow> participant_def \<Rightarrow> bool \<times> (exn + pyval)" where
  "no_method which p =
     (False, Inl (Exn ValueErrorC ''Participant {} has no {} defined.'' [VStr (pd_id p), VStr which]))"

definition invoke_try ::
  "tcc_user \<Rightarrow> tcc_log \<Rightarrow> participant_def \<Rightarrow> tcc_context \<Rightarrow> pyval \<Rightarrow> bool \<times> (exn + pyval)"
where
  "invoke_try user lg p ctx input_data =
     (case pd_try p of
        None \<Rightarrow> no_method ''try_method'' p
      | Some m \<Rightarrow> tcc_resolve_and_call user lg p m ctx input_data)"

definition invoke_confirm ::
  "tcc_user \<Rightarrow> tcc_log \<Rightarrow> participant_def \<Rightarrow> tcc_context \<Rightarrow> bool \<times> (exn + pyval)"
where
  "invoke_confirm user lg p ctx =
     (case pd_confirm p of
        None \<Rightarrow> no_method ''confirm_method'' p
      | Some m \<Rightarrow> tcc_resolve_and_call user lg p m ctx VNone)"

definition invoke_cancel ::
  "tcc_user \<Rightarrow> tcc_log \<Rightarrow> participant_def \<Rightarrow> tcc_context \<Rightarrow> bool \<times> (exn + pyval)"
where
  "invoke_cancel user lg p ctx =
     (case pd_cancel p of
        None \<Rightarrow> no_method ''cancel_method'' p
      | Some m \<Rightarrow> tcc_resolve_and_call user lg p m ctx VNone)"

section \<open>One phase of one participant\<close>

text \<open>The attribute \<^verbatim>\<open>__pyfly_*_method__\<close> names the phase; the model passes the phase itself.\<close>

definition get_phase_method :: "participant_def \<Rightarrow> tcc_phase \<Rightarrow> tcc_method option" where
  "get_phase_method p ph = (case ph of TRY \<Rightarrow> pd_try p | CONFIRM \<Rightarrow> pd_confirm p | CANCEL \<Rightarrow> pd_cancel p)"

definition phase_attr :: "tcc_phase \<Rightarrow> tcc_method \<Rightarrow> phase_meta option" where
  "phase_attr ph m = (case ph of TRY \<Rightarrow> tm_try m | CONFIRM \<Rightarrow> tm_confirm m | CANCEL \<Rightarrow> tm_cancel m)"

definition phase_settings :: "participant_def \<Rightarrow> tcc_phase \<Rightarrow> phase_meta" where
  "phase_settings p ph =
     (case Option.bind (get_phase_method p ph) (phase_attr ph) of
        None \<Rightarrow> \<lparr>ph_timeout_ms = 0, ph_retry = 0, ph_backoff_ms = 0\<rparr>
      | Some meta \<Rightarrow> meta)"

definition phase_retries :: "participant_def \<Rightarrow> tcc_phase \<Rightarrow> nat" where
  "phase_retries p ph = nat (max (ph_retry (phase_settings p ph)) 1)"

definition phase_timeout :: "participant_def \<Rightarrow> tcc_phase \<Rightarrow> int" where
  "phase_timeout p ph =
     (if ph_timeout_ms (phase_settings p ph) \<noteq> 0 then ph_timeout_ms (phase_settings p ph) else pd_timeout_ms p)"

definition build_coro ::
  "tcc_user \<Rightarrow> tcc_log \<Rightarrow> tcc_phase \<Rightarrow> participant_def \<Rightarrow> tcc_context \<Rightarrow> pyval \<Rightarrow> bool \<times> (exn + pyval)"
where
  "build_coro user lg ph p ctx input_data =
     (case ph of
        TRY \<Rightarrow> invoke_try user lg p ctx input_data
      | CONFIRM \<Rightarrow> invoke_confirm user lg p ctx
      | CANCEL \<Rightarrow> invoke_cancel user lg p ctx)"

definition tcc_wait_for :: "int \<Rightarrow> bool \<times> (exn + pyval) \<Rightarrow> exn + pyval" where
  "tcc_wait_for timeout coro =
     (if 0 < timeout \<and> fst coro then Inl (Exn TimeoutErrorC [] []) else snd coro)"

text \<open>The attempt loop: \<open>n\<close> attempts are left.\<close>

fun attempt_phase ::
  "tcc_user \<Rightarrow> tcc_phase \<Rightarrow> participant_def \<Rightarrow> tcc_context \<Rightarrow> pyval \<Rightarrow> nat \<Rightarrow> rat \<Rightarrow> tcc_log \<Rightarrow>
     (exn + pyval) \<times> tcc_log"
where
  "attempt_phase user ph p ctx input_data 0 wait_ms lg = (Inl (Exn RuntimeErrorC ''Unreachable'' []), lg)"
| "attempt_phase user ph p ctx input_data (Suc n) wait_ms lg =
     (case tcc_wait_for (phase_timeout p ph) (build_coro user lg ph p ctx input_data) of
        Inr v \<Rightarrow> (Inr v, lg @ [Attempted ph (pd_id p) None])
      | Inl e \<Rightarrow>
          if 0 < n
          then attempt_phase user ph p ctx input_data n (wait_ms * 2)
                 (lg @ Attempted ph (pd_id p) (Some e) #
                  (if 0 < wait_ms then [Paused ph (pd_id p) (wait_ms / 1000)] else []))
          else (Inl e, lg @ [Attempted ph (pd_id p) (Some e)]))"

definition invoke_with_retry_and_timeout ::
  "tcc_user \<Rightarrow> tcc_phase \<Rightarrow> participant_def \<Rightarrow> tcc_context \<Rightarrow> pyval \<Rightarrow> tcc_log \<Rightarrow> (exn + pyval) \<times> tcc_log"
where
  "invoke_with_retry_and_timeout user ph p ctx input_data lg =
     attempt_phase user ph p ctx input_data (phase_retries p ph) (of_int (ph_backoff_ms (phase_settings p ph))) lg"

section \<open>The coordinator\<close>

fun try_phase ::
  "tcc_user \<Rightarrow> pyval \<Rightarrow> participant_def list \<Rightarrow> string list \<Rightarrow> tcc_context \<Rightarrow> tcc_log \<Rightarrow>
     string option \<times> string list \<times> tcc_context \<times> tcc_log"
where
  "try_phase user input_data [] tried_ids ctx lg = (None, tried_ids, ctx, lg)"
| "try_phase user input_data (p # ps) tried_ids ctx lg =
     (case invoke_with_retry_and_timeout user TRY p ctx input_data lg of
        (Inr result, lg) \<Rightarrow>
          try_phase user input_data ps (tried_ids @ [pd_id p])
            (set_participant_status (pd_id p) TRY (set_try_result (pd_id p) result ctx)) lg
      | (Inl exc, lg) \<Rightarrow>
          if pd_optional p then try_phase user input_data ps tried_ids ctx lg
          else (Some (pd_id p), tried_ids, ctx, lg))"

fun confirm_phase ::
  "tcc_user \<Rightarrow> string list \<Rightarrow> participant_def list \<Rightarrow> tcc_context \<Rightarrow> tcc_log \<Rightarrow> string option \<times> tcc_context \<times> tcc_log"
where
  "confirm_phase user tried_ids [] ctx lg = (None, ctx, lg)"
| "confirm_phase user tried_ids (p # ps) ctx lg =
     (if pd_id p \<notin> set tried_ids then confirm_phase user tried_ids ps ctx lg
      else case invoke_with_retry_and_timeout user CONFIRM p ctx VNone lg of
        (Inr _, lg) \<Rightarrow> confirm_phase user tried_ids ps (set_participant_status (pd_id p) CONFIRM ctx) lg
      | (Inl exc, lg) \<Rightarrow> (Some (pd_id p), ctx, lg))"

text \<open>
  \<^verbatim>\<open>_cancel_participants\<close> takes the ids already reversed. Every one of them is a key of the definition; the
  subscription that would raise is not reached.
\<close>

fun cancel_participants ::
  "tcc_user \<Rightarrow> tcc_def \<Rightarrow> string list \<Rightarrow> tcc_context \<Rightarrow> tcc_log \<Rightarrow> tcc_context \<times> tcc_log"
where
  "cancel_participants user d [] ctx lg = (ctx, lg)"
| "cancel_participants user d (pid # pids) ctx lg =
     (case dget (participants d) pid of
        None \<Rightarrow> (ctx, lg)
      | Some p \<Rightarrow>
          if pd_cancel p = None then cancel_participants user d pids ctx lg
          else (case invoke_with_retry_and_timeout user CANCEL p ctx VNone lg of
                  (Inr _, lg) \<Rightarrow> cancel_participants user d pids (set_participant_status pid CANCEL ctx) lg
                | (Inl exc, lg) \<Rightarrow> cancel_participants user d pids ctx lg))"

definition tcc_execute ::
  "tcc_user \<Rightarrow> tcc_def \<Rightarrow> pyval \<Rightarrow> tcc_context \<Rightarrow> (bool \<times> string option) \<times> tcc_context \<times> tcc_log"
where
  "tcc_execute user d input_data ctx =
     (case try_phase user input_data (dvals (participants d)) [] (set_phase TRY ctx) [] of
        (Some failed, tried_ids, ctx, lg) \<Rightarrow>
          ((False, Some failed), cancel_participants user d (rev tried_ids) (set_phase CANCEL ctx) lg)
      | (None, tried_ids, ctx, lg) \<Rightarrow>
          (case confirm_phase user tried_ids (dvals (participants d)) (set_phase CONFIRM ctx) lg of
             (Some failed, ctx, lg) \<Rightarrow>
               ((False, Some failed), cancel_participants user d (rev tried_ids) (set_phase CANCEL ctx) lg)
           | (None, ctx, lg) \<Rightarrow> ((True, None), ctx, lg)))"

section \<open>The protocol, abstractly\<close>

text \<open>
  What the coordinator promises, given which phase of which participant succeeds in the end. Participants are reserved in
  order up to the first mandatory one that fails; when there is none, the reserved ones are confirmed up to the first that
  fails; after either failure all reserved ones that can be cancelled are, in reverse. The summary has the result, the
  phase, the status of each participant and the phases that were run.
\<close>

type_synonym verdict = "tcc_phase \<Rightarrow> string \<Rightarrow> bool"

definition upto_first :: "('a \<Rightarrow> bool) \<Rightarrow> 'a list \<Rightarrow> 'a list" where
  "upto_first P xs = takeWhile P xs @ (case find (\<lambda>x. \<not> P x) xs of None \<Rightarrow> [] | Some x \<Rightarrow> [x])"

definition passable :: "verdict \<Rightarrow> participant_def \<Rightarrow> bool" where
  "passable ok p \<longleftrightarrow> ok TRY (pd_id p) \<or> pd_optional p"

definition reserved :: "verdict \<Rightarrow> participant_def list \<Rightarrow> participant_def list" where
  "reserved ok ps = filter (\<lambda>p. ok TRY (pd_id p)) (takeWhile (passable ok) ps)"

definition confirms :: "verdict \<Rightarrow> participant_def \<Rightarrow> bool" where
  "confirms ok p \<longleftrightarrow> ok CONFIRM (pd_id p)"

definition cancellable :: "participant_def \<Rightarrow> bool" where
  "cancellable p \<longleftrightarrow> pd_cancel p \<noteq> None"

record tcc_summary =
  sm_result :: "bool \<times> string option"
  sm_phase :: tcc_phase
  sm_status :: "string \<Rightarrow> tcc_phase option"
  sm_calls :: "(tcc_phase \<times> string) list"

definition undo_calls :: "participant_def list \<Rightarrow> (tcc_phase \<times> string) list" where
  "undo_calls R = map (\<lambda>p. (CANCEL, pd_id p)) (filter cancellable (rev R))"

definition undone :: "verdict \<Rightarrow> participant_def list \<Rightarrow> string set" where
  "undone ok R = {pd_id p |p. p \<in> set R \<and> cancellable p \<and> ok CANCEL (pd_id p)}"

definition tcc_spec :: "verdict \<Rightarrow> participant_def list \<Rightarrow> tcc_summary" where
  "tcc_spec ok ps =
     (let R = reserved ok ps; C = takeWhile (confirms ok) R;
          tries = map (\<lambda>p. (TRY, pd_id p)) (upto_first (passable ok) ps);
          tried = (\<lambda>pid. if pid \<in> pd_id ` set R then Some TRY else None);
          confirmed = (\<lambda>pid. if pid \<in> pd_id ` set C then Some CONFIRM else tried pid);
          confs = map (\<lambda>p. (CONFIRM, pd_id p)) (upto_first (confirms ok) R);
          cancelled = (\<lambda>st pid. if pid \<in> undone ok R then Some CANCEL else st pid)
      in case find (\<lambda>p. \<not> passable ok p) ps of
           Some q \<Rightarrow> \<lparr>sm_result = (False, Some (pd_id q)), sm_phase = CANCEL, sm_status = cancelled tried,
                      sm_calls = tries @ undo_calls R\<rparr>
         | None \<Rightarrow>
             (case find (\<lambda>p. \<not> confirms ok p) R of
                Some q \<Rightarrow> \<lparr>sm_result = (False, Some (pd_id q)), sm_phase = CANCEL, sm_status = cancelled confirmed,
                           sm_calls = tries @ confs @ undo_calls R\<rparr>
              | None \<Rightarrow> \<lparr>sm_result = (True, None), sm_phase = CONFIRM, sm_status = confirmed,
                         sm_calls = tries @ confs\<rparr>))"

section \<open>Blocks of attempts\<close>

type_synonym block = "(tcc_phase \<times> string) \<times> exn option list"

definition attempts :: "tcc_log \<Rightarrow> ((tcc_phase \<times> string) \<times> exn option) list" where
  "attempts lg = List.map_filter (\<lambda>ev. case ev of Attempted ph pid r \<Rightarrow> Some ((ph, pid), r) | Paused _ _ _ \<Rightarrow> None) lg"

definition flatten_calls :: "block list \<Rightarrow> ((tcc_phase \<times> string) \<times> exn option) list" where
  "flatten_calls bs = concat (map (\<lambda>(k, rs). map (Pair k) rs) bs)"

text \<open>A block: failures and then at most one success; only a block of the full length ends in a failure.\<close>

definition valid_block :: "nat \<Rightarrow> exn option list \<Rightarrow> bool" where
  "valid_block n rs \<longleftrightarrow> rs \<noteq> [] \<and> length rs \<le> n \<and> (\<forall>r \<in> set (butlast rs). r \<noteq> None) \<and>
     (last rs \<noteq> None \<longrightarrow> length rs = n)"

definition blocks_ok :: "participant_def list \<Rightarrow> block list \<Rightarrow> bool" where
  "blocks_ok ps bs \<longleftrightarrow>
     (\<forall>((ph, pid), rs) \<in> set bs. \<exists>p \<in> set ps. pd_id p = pid \<and> valid_block (phase_retries p ph) rs)"

definition agrees :: "verdict \<Rightarrow> block list \<Rightarrow> bool" where
  "agrees ok bs \<longleftrightarrow> (\<forall>((ph, pid), rs) \<in> set bs. ok ph pid \<longleftrightarrow> last rs = None)"

lemma attempts_append [simp]: "attempts (xs @ ys) = attempts xs @ attempts ys"
  by (induction xs) (auto simp: attempts_def map_filter_simps split: tcc_event.splits)

lemma attempts_simps [simp]:
  "attempts [] = []" "attempts (Attempted ph pid r # lg) = ((ph, pid), r) # attempts lg"
  "attempts (Paused ph pid t # lg) = attempts lg"
  by (simp_all add: attempts_def map_filter_simps)

lemma flatten_calls_simps [simp]:
  "flatten_calls [] = []" "flatten_calls ((k, rs) # bs) = map (Pair k) rs @ flatten_calls bs"
  "flatten_calls (as @ bs) = flatten_calls as @ flatten_calls bs"
  by (simp_all add: flatten_calls_def)

lemma blocks_ok_simps [simp]:
  "blocks_ok ps []"
  "blocks_ok ps (((ph, pid), rs) # bs) \<longleftrightarrow>
     (\<exists>p \<in> set ps. pd_id p = pid \<and> valid_block (phase_retries p ph) rs) \<and> blocks_ok ps bs"
  "blocks_ok ps (as @ bs) \<longleftrightarrow> blocks_ok ps as \<and> blocks_ok ps bs"
  by (simp_all add: blocks_ok_def ball_Un)

lemma agrees_simps [simp]:
  "agrees ok []"
  "agrees ok (((ph, pid), rs) # bs) \<longleftrightarrow> (ok ph pid \<longleftrightarrow> last rs = None) \<and> agrees ok bs"
  "agrees ok (as @ bs) \<longleftrightarrow> agrees ok as \<and> agrees ok bs"
  by (simp_all add: agrees_def ball_Un)

lemma blocks_ok_mono: "blocks_ok ps bs \<Longrightarrow> set ps \<subseteq> set qs \<Longrightarrow> blocks_ok qs bs"
  by (fastforce simp: blocks_ok_def)

lemma upto_first_simps [simp]:
  "upto_first P [] = []"
  "upto_first P (x # xs) = x # (if P x then upto_first P xs else [])"
  by (simp_all add: upto_first_def)

lemma reserved_simps [simp]:
  "reserved ok [] = []"
  "reserved ok (p # ps) =
     (if ok TRY (pd_id p) then p # reserved ok ps else if pd_optional p then reserved ok ps else [])"
  by (simp_all add: reserved_def passable_def)

lemma attempt_phase_block:
  "attempt_phase user ph p ctx input_data (Suc n) b lg = (r, lg') \<Longrightarrow>
     \<exists>rs. attempts lg' = attempts lg @ map (Pair (ph, pd_id p)) rs \<and> valid_block (Suc n) rs \<and>
       (is_ok r \<longleftrightarrow> last rs = None)"
proof (induction n arbitrary: b lg)
  case 0
  then show ?case
  proof (cases "tcc_wait_for (phase_timeout p ph) (build_coro user lg ph p ctx input_data)")
    case (Inl e)
    with 0 have "r = Inl e" "lg' = lg @ [Attempted ph (pd_id p) (Some e)]" by simp_all
    then show ?thesis by (intro exI [of _ "[Some e]"]) (simp add: valid_block_def)
  next
    case (Inr v)
    with 0 have "r = Inr v" "lg' = lg @ [Attempted ph (pd_id p) None]" by simp_all
    then show ?thesis by (intro exI [of _ "[None]"]) (simp add: valid_block_def)
  qed
next
  case (Suc n)
  show ?case
  proof (cases "tcc_wait_for (phase_timeout p ph) (build_coro user lg ph p ctx input_data)")
    case (Inl e)
    let ?l = "lg @ Attempted ph (pd_id p) (Some e) # (if 0 < b then [Paused ph (pd_id p) (b / 1000)] else [])"
    from Suc.prems Inl have "attempt_phase user ph p ctx input_data (Suc n) (b * 2) ?l = (r, lg')"
      by (simp only: attempt_phase.simps(2) [of user ph p ctx input_data "Suc n"] sum.case zero_less_Suc if_True)
    from Suc.IH [OF this] obtain rs where "attempts lg' = attempts ?l @ map (Pair (ph, pd_id p)) rs"
      "valid_block (Suc n) rs" "is_ok r \<longleftrightarrow> last rs = None"
      by (elim exE conjE) (rule that)
    moreover have "valid_block (Suc (Suc n)) (Some e # rs)" "last (Some e # rs) = last rs"
      using \<open>valid_block (Suc n) rs\<close> by (simp_all add: valid_block_def)
    moreover have "attempts ?l = attempts lg @ [((ph, pd_id p), Some e)]" by simp
    ultimately show ?thesis by (intro exI [of _ "Some e # rs"]) simp
  next
    case (Inr v)
    with Suc.prems have "r = Inr v" "lg' = lg @ [Attempted ph (pd_id p) None]" by simp_all
    then show ?thesis by (intro exI [of _ "[None]"]) (simp add: valid_block_def)
  qed
qed

lemma invoke_block:
  assumes "invoke_with_retry_and_timeout user ph p ctx input_data lg = (r, lg')"
  obtains rs where "attempts lg' = attempts lg @ map (Pair (ph, pd_id p)) rs" "valid_block (phase_retries p ph) rs"
    "is_ok r \<longleftrightarrow> last rs = None"
proof -
  obtain n where n: "phase_retries p ph = Suc n" by (cases "phase_retries p ph") (simp_all add: phase_retries_def)
  from attempt_phase_block [OF assms [unfolded invoke_with_retry_and_timeout_def n]] show thesis
    unfolding n [symmetric] by (elim exE conjE) (rule that)
qed

section \<open>The phases\<close>

text \<open>What each phase leaves, given a verdict that agrees with its blocks.\<close>

definition statuses :: "tcc_context \<Rightarrow> string \<Rightarrow> tcc_phase option" where
  "statuses ctx = dget (participant_statuses ctx)"

definition settle :: "tcc_phase \<Rightarrow> string set \<Rightarrow> (string \<Rightarrow> tcc_phase option) \<Rightarrow> (string \<Rightarrow> tcc_phase option)" where
  "settle ph A st = (\<lambda>pid. if pid \<in> A then Some ph else st pid)"

lemma settle_simps:
  "settle ph {} st = st" "settle ph A (settle ph (insert x {}) st) = settle ph (insert x A) st"
  by (auto simp: settle_def)

lemma context_frame [simp]:
  "current_phase (set_participant_status pid ph ctx) = current_phase ctx"
  "current_phase (set_try_result pid v ctx) = current_phase ctx"
  "statuses (set_participant_status pid ph ctx) = settle ph {pid} (statuses ctx)"
  "statuses (set_try_result pid v ctx) = statuses ctx"
  "statuses (set_phase ph ctx) = statuses ctx" "current_phase (set_phase ph ctx) = ph"
  by (auto simp: step_simps statuses_def settle_def)

definition try_post ::
  "participant_def list \<Rightarrow> string list \<Rightarrow> tcc_context \<Rightarrow> string option \<times> string list \<times> tcc_context \<Rightarrow>
     block list \<Rightarrow> verdict \<Rightarrow> bool"
where
  "try_post ps T ctx post bs ok \<longleftrightarrow> (case post of (f, T', ctx') \<Rightarrow>
     map fst bs = map (\<lambda>p. (TRY, pd_id p)) (upto_first (passable ok) ps) \<and>
     T' = T @ map pd_id (reserved ok ps) \<and> f = map_option pd_id (find (\<lambda>p. \<not> passable ok p) ps) \<and>
     current_phase ctx' = current_phase ctx \<and>
     statuses ctx' = settle TRY (pd_id ` set (reserved ok ps)) (statuses ctx))"

definition confirm_post ::
  "participant_def list \<Rightarrow> tcc_context \<Rightarrow> string option \<times> tcc_context \<Rightarrow> block list \<Rightarrow> verdict \<Rightarrow> bool"
where
  "confirm_post R ctx post bs ok \<longleftrightarrow> (case post of (f, ctx') \<Rightarrow>
     map fst bs = map (\<lambda>p. (CONFIRM, pd_id p)) (upto_first (confirms ok) R) \<and>
     f = map_option pd_id (find (\<lambda>p. \<not> confirms ok p) R) \<and>
     current_phase ctx' = current_phase ctx \<and>
     statuses ctx' = settle CONFIRM (pd_id ` set (takeWhile (confirms ok) R)) (statuses ctx))"

definition cancel_post :: "participant_def list \<Rightarrow> tcc_context \<Rightarrow> tcc_context \<Rightarrow> block list \<Rightarrow> verdict \<Rightarrow> bool" where
  "cancel_post qs ctx ctx' bs ok \<longleftrightarrow>
     map fst bs = map (\<lambda>p. (CANCEL, pd_id p)) (filter cancellable qs) \<and>
     current_phase ctx' = current_phase ctx \<and>
     statuses ctx' = settle CANCEL (undone ok qs) (statuses ctx)"

lemma try_phase_spec:
  "try_phase user input_data ps T ctx lg = (f, T', ctx', lg') \<Longrightarrow>
     \<exists>bs. attempts lg' = attempts lg @ flatten_calls bs \<and> blocks_ok ps bs \<and>
       subseq (map fst bs) (map (\<lambda>p. (TRY, pd_id p)) ps) \<and> (\<forall>ok. agrees ok bs \<longrightarrow> try_post ps T ctx (f, T', ctx') bs ok)"
proof (induction ps arbitrary: T ctx lg)
  case Nil
  then show ?case by (intro exI [of _ "[]"]) (simp add: try_post_def settle_simps)
next
  case (Cons p ps)
  obtain r l where inv: "invoke_with_retry_and_timeout user TRY p ctx input_data lg = (r, l)" by fastforce
  obtain rs where rs: "attempts l = attempts lg @ map (Pair (TRY, pd_id p)) rs" "valid_block (phase_retries p TRY) rs"
    "is_ok r \<longleftrightarrow> last rs = None" by (rule invoke_block [OF inv])
  let ?b = "((TRY, pd_id p), rs)"
  have pass: "passable ok p \<longleftrightarrow> ok TRY (pd_id p) \<or> pd_optional p" for ok by (simp add: passable_def)
  show ?case
  proof (cases "is_ok r \<or> pd_optional p")
    case True
    let ?T = "if is_ok r then T @ [pd_id p] else T"
    define c where "c = (case r of Inl _ \<Rightarrow> ctx
      | Inr v \<Rightarrow> set_participant_status (pd_id p) TRY (set_try_result (pd_id p) v ctx))"
    have c: "try_phase user input_data ps ?T c l = (f, T', ctx', lg')" "current_phase c = current_phase ctx"
      "statuses c = (if is_ok r then settle TRY {pd_id p} (statuses ctx) else statuses ctx)"
      using Cons.prems inv True by (cases r; simp add: c_def)+
    from Cons.IH [OF c(1)] obtain bs where bs: "attempts lg' = attempts l @ flatten_calls bs" "blocks_ok ps bs"
      "subseq (map fst bs) (map (\<lambda>p. (TRY, pd_id p)) ps)" "\<And>ok. agrees ok bs \<Longrightarrow> try_post ps ?T c (f, T', ctx') bs ok" by blast
    have "try_post (p # ps) T ctx (f, T', ctx') (?b # bs) ok" if "agrees ok (?b # bs)" for ok
    proof -
      have a: "ok TRY (pd_id p) \<longleftrightarrow> is_ok r" "agrees ok bs" using that rs(3) by simp_all
      from bs(4) [OF a(2)] a(1) True show ?thesis
        by (cases "is_ok r") (simp_all add: try_post_def pass c(2,3) settle_simps)
    qed
    then show ?thesis
      by (intro exI [of _ "?b # bs"]) (use rs bs(1,3) blocks_ok_mono [OF bs(2), of "p # ps"] in auto)
  next
    case False
    with Cons.prems inv have post: "f = Some (pd_id p)" "T' = T" "ctx' = ctx" "lg' = l" by (cases r; simp)+
    have "try_post (p # ps) T ctx (f, T', ctx') [?b] ok" if "agrees ok [?b]" for ok
    proof -
      have "\<not> ok TRY (pd_id p)" "\<not> pd_optional p" using that rs(3) False by simp_all
      with post show ?thesis by (simp add: try_post_def pass settle_simps)
    qed
    with rs post show ?thesis by (intro exI [of _ "[?b]"]) simp
  qed
qed

lemma confirm_phase_spec:
  "confirm_phase user T ps ctx lg = (f, ctx', lg') \<Longrightarrow>
     \<exists>bs. attempts lg' = attempts lg @ flatten_calls bs \<and> blocks_ok ps bs \<and>
       subseq (map fst bs) (map (\<lambda>p. (CONFIRM, pd_id p)) ps) \<and>
       (\<forall>ok. agrees ok bs \<longrightarrow> confirm_post (filter (\<lambda>p. pd_id p \<in> set T) ps) ctx (f, ctx') bs ok)"
proof (induction ps arbitrary: ctx lg)
  case Nil
  then show ?case by (intro exI [of _ "[]"]) (simp add: confirm_post_def settle_simps)
next
  case (Cons p ps)
  show ?case
  proof (cases "pd_id p \<in> set T")
    case False
    with Cons.prems have "confirm_phase user T ps ctx lg = (f, ctx', lg')" by simp
    from Cons.IH [OF this] obtain bs where bs: "attempts lg' = attempts lg @ flatten_calls bs" "blocks_ok ps bs"
      "subseq (map fst bs) (map (\<lambda>p. (CONFIRM, pd_id p)) ps)" "\<forall>ok. agrees ok bs \<longrightarrow> confirm_post (filter (\<lambda>p. pd_id p \<in> set T) ps) ctx (f, ctx') bs ok" by blast
    then show ?thesis using False blocks_ok_mono [OF bs(2), of "p # ps"] by (intro exI [of _ bs]) auto
  next
    case True
    obtain r l where inv: "invoke_with_retry_and_timeout user CONFIRM p ctx VNone lg = (r, l)" by fastforce
    obtain rs where rs: "attempts l = attempts lg @ map (Pair (CONFIRM, pd_id p)) rs"
      "valid_block (phase_retries p CONFIRM) rs" "is_ok r \<longleftrightarrow> last rs = None" by (rule invoke_block [OF inv])
    let ?b = "((CONFIRM, pd_id p), rs)"
    have conf: "confirms ok p \<longleftrightarrow> ok CONFIRM (pd_id p)" for ok by (simp add: confirms_def)
    show ?thesis
    proof (cases r)
      case (Inr v)
      let ?ctx = "set_participant_status (pd_id p) CONFIRM ctx"
      from Cons.prems inv Inr True have "confirm_phase user T ps ?ctx l = (f, ctx', lg')" by simp
      from Cons.IH [OF this] obtain bs where bs: "attempts lg' = attempts l @ flatten_calls bs" "blocks_ok ps bs"
        "subseq (map fst bs) (map (\<lambda>p. (CONFIRM, pd_id p)) ps)" "\<And>ok. agrees ok bs \<Longrightarrow> confirm_post (filter (\<lambda>p. pd_id p \<in> set T) ps) ?ctx (f, ctx') bs ok" by blast
      have "confirm_post (filter (\<lambda>p. pd_id p \<in> set T) (p # ps)) ctx (f, ctx') (?b # bs) ok" if "agrees ok (?b # bs)" for ok
        using bs(4) [of ok] that rs(3) Inr True by (simp add: confirm_post_def conf settle_simps)
      then show ?thesis
        by (intro exI [of _ "?b # bs"]) (use rs bs(1,3) blocks_ok_mono [OF bs(2), of "p # ps"] in auto)
    next
      case (Inl e)
      with Cons.prems inv True have post: "f = Some (pd_id p)" "ctx' = ctx" "lg' = l" by simp_all
      have "confirm_post (filter (\<lambda>p. pd_id p \<in> set T) (p # ps)) ctx (f, ctx') [?b] ok" if "agrees ok [?b]" for ok
      proof -
        have "\<not> ok CONFIRM (pd_id p)" using that rs(3) Inl by simp
        with post True show ?thesis by (simp add: confirm_post_def conf settle_simps)
      qed
      with rs post show ?thesis by (intro exI [of _ "[?b]"]) simp
    qed
  qed
qed

lemma cancel_spec:
  "cancel_participants user d (map pd_id qs) ctx lg = (ctx', lg') \<Longrightarrow>
     (\<And>q. q \<in> set qs \<Longrightarrow> dget (participants d) (pd_id q) = Some q) \<Longrightarrow>
     \<exists>bs. attempts lg' = attempts lg @ flatten_calls bs \<and> blocks_ok qs bs \<and>
       subseq (map fst bs) (map (\<lambda>p. (CANCEL, pd_id p)) qs) \<and> (\<forall>ok. agrees ok bs \<longrightarrow> cancel_post qs ctx ctx' bs ok)"
proof (induction qs arbitrary: ctx lg)
  case Nil
  then show ?case by (intro exI [of _ "[]"]) (simp add: cancel_post_def settle_simps undone_def)
next
  case (Cons p qs)
  have p: "dget (participants d) (pd_id p) = Some p" by (simp add: Cons.prems(2))
  show ?case
  proof (cases "cancellable p")
    case False
    then have c: "pd_cancel p = None" by (simp add: cancellable_def)
    with Cons.prems p have "cancel_participants user d (map pd_id qs) ctx lg = (ctx', lg')" by simp
    from Cons.IH [OF this] Cons.prems(2) obtain bs where bs: "attempts lg' = attempts lg @ flatten_calls bs" "blocks_ok qs bs"
      "subseq (map fst bs) (map (\<lambda>p. (CANCEL, pd_id p)) qs)" "\<And>ok. agrees ok bs \<Longrightarrow> cancel_post qs ctx ctx' bs ok" by auto
    moreover have "undone ok (p # qs) = undone ok qs" for ok using False by (auto simp: undone_def)
    ultimately show ?thesis using False blocks_ok_mono [OF bs(2), of "p # qs"]
      by (intro exI [of _ bs]) (auto simp: cancel_post_def)
  next
    case True
    then have c: "pd_cancel p \<noteq> None" by (simp add: cancellable_def)
    obtain r l where inv: "invoke_with_retry_and_timeout user CANCEL p ctx VNone lg = (r, l)" by fastforce
    obtain rs where rs: "attempts l = attempts lg @ map (Pair (CANCEL, pd_id p)) rs"
      "valid_block (phase_retries p CANCEL) rs" "is_ok r \<longleftrightarrow> last rs = None" by (rule invoke_block [OF inv])
    let ?b = "((CANCEL, pd_id p), rs)"
    let ?ctx = "if is_ok r then set_participant_status (pd_id p) CANCEL ctx else ctx"
    from Cons.prems inv p c have "cancel_participants user d (map pd_id qs) ?ctx l = (ctx', lg')"
      by (cases r) auto
    from Cons.IH [OF this] Cons.prems(2) obtain bs where bs: "attempts lg' = attempts l @ flatten_calls bs" "blocks_ok qs bs"
      "subseq (map fst bs) (map (\<lambda>p. (CANCEL, pd_id p)) qs)" "\<And>ok. agrees ok bs \<Longrightarrow> cancel_post qs ?ctx ctx' bs ok" by auto
    have "cancel_post (p # qs) ctx ctx' (?b # bs) ok" if "agrees ok (?b # bs)" for ok
    proof -
      have a: "ok CANCEL (pd_id p) \<longleftrightarrow> is_ok r" "agrees ok bs" using that rs(3) by simp_all
      have "undone ok (p # qs) = (if is_ok r then insert (pd_id p) (undone ok qs) else undone ok qs)"
        using True a(1) by (auto simp: undone_def)
      with bs(4) [OF a(2)] True show ?thesis
        by (cases "is_ok r") (simp_all add: cancel_post_def settle_simps)
    qed
    then show ?thesis
      by (intro exI [of _ "?b # bs"]) (use rs bs(1,3) blocks_ok_mono [OF bs(2), of "p # qs"] in auto)
  qed
qed

section \<open>The coordinator refines the protocol\<close>

definition verdict_of :: "block list \<Rightarrow> verdict" where
  "verdict_of bs ph pid \<longleftrightarrow> (\<exists>rs. ((ph, pid), rs) \<in> set bs \<and> last rs = None)"

lemma verdict_agrees: "distinct (map fst bs) \<Longrightarrow> agrees (verdict_of bs) bs"
  by (auto simp: agrees_def verdict_of_def dest: eq_key_imp_eq_value)

lemma subseq_keys:
  assumes "subseq (map fst bs) (map (\<lambda>p. (ph, pd_id p)) ps)"
  shows "fst ` set bs \<subseteq> Pair ph ` pd_id ` set ps" "distinct (map pd_id ps) \<Longrightarrow> distinct (map fst bs)"
proof -
  obtain N where N: "map fst bs = nths (map (\<lambda>p. (ph, pd_id p)) ps) N"
    using assms by (auto simp: subseq_conv_nths)
  have "set (map fst bs) \<subseteq> set (map (\<lambda>p. (ph, pd_id p)) ps)" unfolding N by (rule set_nths_subset)
  then show "fst ` set bs \<subseteq> Pair ph ` pd_id ` set ps" by (simp add: image_image)
  show "distinct (map fst bs)" if "distinct (map pd_id ps)"
    unfolding N using that by (intro distinct_nthsI) (auto simp: distinct_map inj_on_def)
qed

lemma reserved_all: "find (\<lambda>p. \<not> passable ok p) ps = None \<Longrightarrow> distinct (map pd_id ps) \<Longrightarrow>
    filter (\<lambda>p. pd_id p \<in> pd_id ` set (reserved ok ps)) ps = reserved ok ps"
proof -
  assume "find (\<lambda>p. \<not> passable ok p) ps = None" "distinct (map pd_id ps)"
  then have r: "reserved ok ps = filter (\<lambda>p. ok TRY (pd_id p)) ps"
    by (auto simp: reserved_def find_None_iff intro!: arg_cong [of _ _ "filter _"] takeWhile_eq_all_conv [THEN iffD2])
  have "pd_id p \<in> pd_id ` set (reserved ok ps) \<longleftrightarrow> ok TRY (pd_id p)" if "p \<in> set ps" for p
    using that unfolding r by (auto simp: image_iff)
  then show ?thesis unfolding r by (intro filter_cong refl)
qed

lemma tcc_ok_participants:
  assumes "tcc_ok d"
  shows "distinct (map pd_id (dvals (participants d)))"
    "q \<in> set (dvals (participants d)) \<Longrightarrow> dget (participants d) (pd_id q) = Some q"
proof -
  have "map pd_id (dvals (participants d)) = dkeys (participants d)"
    using assms by (auto simp: tcc_ok_def)
  with assms show "distinct (map pd_id (dvals (participants d)))" unfolding tcc_ok_def by (simp only:)
  show "dget (participants d) (pd_id q) = Some q" if "q \<in> set (dvals (participants d))"
    using that assms by (auto simp: tcc_ok_def in_dict_dget [symmetric])
qed

lemma set_reserved: "set (reserved ok ps) \<subseteq> set ps"
  by (auto simp: reserved_def dest: set_takeWhileD)

lemma reserved_distinct: "distinct (map pd_id ps) \<Longrightarrow> distinct (map pd_id (reserved ok ps))"
proof (induction ps)
  case (Cons p ps)
  then have "pd_id p \<notin> pd_id ` set (reserved ok ps)" using set_reserved [of ok ps] by auto
  with Cons show ?case by simp
qed simp

lemma keys_apart: "A \<subseteq> Pair a ` X \<Longrightarrow> B \<subseteq> Pair b ` Y \<Longrightarrow> a \<noteq> b \<Longrightarrow> A \<inter> B = {}"
  by blast

lemma undone_rev: "undone ok (rev R) = undone ok R"
  by (simp add: undone_def)

text \<open>A run of the coordinator: the blocks of its phases, which agree with what the protocol does.\<close>

lemma tcc_execute_spec:
  assumes ok: "tcc_ok d" and fresh: "statuses ctx = (\<lambda>_. None)"
    and ex: "tcc_execute user d input_data ctx = (res, ctx', lg)"
  obtains bs where "attempts lg = flatten_calls bs" "blocks_ok (dvals (participants d)) bs" "distinct (map fst bs)"
    "tcc_spec (verdict_of bs) (dvals (participants d)) =
       \<lparr>sm_result = res, sm_phase = current_phase ctx', sm_status = statuses ctx', sm_calls = map fst bs\<rparr>"
proof -
  define ps where "ps = dvals (participants d)"
  note ids = tcc_ok_participants [OF ok, folded ps_def] and conclude = that [folded ps_def]
    and ex = ex [unfolded tcc_execute_def, folded ps_def]
  obtain f T c1 l1 where t: "try_phase user input_data ps [] (set_phase TRY ctx) [] = (f, T, c1, l1)"
    by (rule prod_cases4)
  from try_phase_spec [OF t] obtain b1 where b1': "attempts l1 = attempts [] @ flatten_calls b1" "blocks_ok ps b1"
    "subseq (map fst b1) (map (\<lambda>p. (TRY, pd_id p)) ps)"
    "\<forall>ok. agrees ok b1 \<longrightarrow> try_post ps [] (set_phase TRY ctx) (f, T, c1) b1 ok"
    by (elim exE conjE) (rule that)
  have b1: "attempts l1 = flatten_calls b1" "blocks_ok ps b1"
    "subseq (map fst b1) (map (\<lambda>p. (TRY, pd_id p)) ps)"
    "\<And>ok. agrees ok b1 \<Longrightarrow> try_post ps [] (set_phase TRY ctx) (f, T, c1) b1 ok"
    using b1' by simp_all
  note k1 = subseq_keys [OF b1(3)]
  have T: "T = map pd_id (reserved (verdict_of b1) ps)"
    using b1(4) [OF verdict_agrees [OF k1(2) [OF ids(1)]]] by (simp add: try_post_def)
  define R where "R = reserved (verdict_of b1) ps"
  have R: "set R \<subseteq> set ps" "distinct (map pd_id R)"
    unfolding R_def by (rule set_reserved, rule reserved_distinct [OF ids(1)])
  have cancel: "\<exists>b3. attempts l3 = attempts l @ flatten_calls b3 \<and> blocks_ok ps b3 \<and> distinct (map fst b3) \<and>
      fst ` set b3 \<subseteq> Pair CANCEL ` UNIV \<and> (\<forall>ok. agrees ok b3 \<longrightarrow> cancel_post (rev R) c c3 b3 ok)"
    if c: "cancel_participants user d (rev T) c l = (c3, l3)" for c l c3 l3
  proof -
    have "cancel_participants user d (map pd_id (rev R)) c l = (c3, l3)" using c by (simp add: T R_def rev_map)
    from cancel_spec [OF this] R(1) ids(2) obtain b3 where b3: "attempts l3 = attempts l @ flatten_calls b3"
      "blocks_ok (rev R) b3" "subseq (map fst b3) (map (\<lambda>p. (CANCEL, pd_id p)) (rev R))"
      "\<forall>ok. agrees ok b3 \<longrightarrow> cancel_post (rev R) c c3 b3 ok" by auto
    from subseq_keys [OF b3(3)] R(2) blocks_ok_mono [OF b3(2), of ps] R(1) b3(1,4) show ?thesis
      by (intro exI [of _ b3]) (auto simp: rev_map [symmetric])
  qed
  have res1: "reserved ok ps = R" if "agrees ok b1" for ok
  proof -
    have "map pd_id (reserved ok ps) = map pd_id R"
      using b1(4) [OF that] T by (simp add: try_post_def R_def)
    moreover have "inj_on pd_id (set (reserved ok ps) \<union> set R)"
      using ids(1) set_reserved [of ok ps] R(1) by (auto simp: distinct_map intro: inj_on_subset)
    ultimately show ?thesis by (rule map_inj_on)
  qed
  show thesis
  proof (cases f)
    case (Some q)
    obtain c3 l3 where c: "cancel_participants user d (rev T) (set_phase CANCEL c1) l1 = (c3, l3)" by fastforce
    from cancel [OF c] obtain b3 where b3: "attempts l3 = attempts l1 @ flatten_calls b3" "blocks_ok ps b3"
      "distinct (map fst b3)" "fst ` set b3 \<subseteq> Pair CANCEL ` UNIV"
      "\<forall>ok. agrees ok b3 \<longrightarrow> cancel_post (rev R) (set_phase CANCEL c1) c3 b3 ok"
      by (elim exE conjE) (rule that)
    have out: "res = (False, Some q)" "ctx' = c3" "lg = l3" using ex t c Some by simp_all
    have dis: "distinct (map fst (b1 @ b3))" using k1(2) ids(1) b3(3) keys_apart [OF k1(1) b3(4)] by auto
    let ?ok = "verdict_of (b1 @ b3)"
    have ag: "agrees ?ok b1" "agrees ?ok b3" using verdict_agrees [OF dis] by simp_all
    show thesis
    proof (rule conclude [of "b1 @ b3"])
      show "tcc_spec ?ok ps = \<lparr>sm_result = res, sm_phase = current_phase ctx', sm_status = statuses ctx',
          sm_calls = map fst (b1 @ b3)\<rparr>"
      proof -
        obtain p where p: "find (\<lambda>p. \<not> passable ?ok p) ps = Some p" "q = pd_id p"
          using b1(4) [OF ag(1)] Some
          by (cases "find (\<lambda>p. \<not> passable ?ok p) ps") (auto simp: try_post_def)
        show ?thesis
          using b1(4) [OF ag(1)] b3(5) [rule_format, OF ag(2)] p res1 [OF ag(1)]
          by (simp add: tcc_spec_def try_post_def cancel_post_def Let_def out undo_calls_def settle_def fresh undone_rev)
      qed
    qed (use b1 b3 dis out in auto)
  next
    case None
    obtain f2 c2 l2 where cf: "confirm_phase user T ps (set_phase CONFIRM c1) l1 = (f2, c2, l2)"
      by (rule prod_cases3)
    from confirm_phase_spec [OF cf] obtain b2 where b2: "attempts l2 = attempts l1 @ flatten_calls b2" "blocks_ok ps b2"
      "subseq (map fst b2) (map (\<lambda>p. (CONFIRM, pd_id p)) ps)"
      "\<forall>ok. agrees ok b2 \<longrightarrow> confirm_post (filter (\<lambda>p. pd_id p \<in> set T) ps) (set_phase CONFIRM c1) (f2, c2) b2 ok"
      by (elim exE conjE) (rule that)
    note k2 = subseq_keys [OF b2(3)]
    have tried: "filter (\<lambda>p. pd_id p \<in> set T) ps = R" if "agrees ok b1" for ok
    proof -
      have "find (\<lambda>p. \<not> passable ok p) ps = None" using b1(4) [OF that] None by (simp add: try_post_def)
      from reserved_all [OF this ids(1)] show ?thesis by (simp add: res1 [OF that] T R_def [symmetric])
    qed
    show thesis
    proof (cases f2)
      case None2: None
      have out: "res = (True, None)" "ctx' = c2" "lg = l2" using ex t cf None None2 by simp_all
      have dis: "distinct (map fst (b1 @ b2))" using k1(2) k2(2) ids(1) keys_apart [OF k1(1) k2(1)] by auto
      let ?ok = "verdict_of (b1 @ b2)"
      have ag: "agrees ?ok b1" "agrees ?ok b2" using verdict_agrees [OF dis] by simp_all
      show thesis
      proof (rule conclude [of "b1 @ b2"])
        show "tcc_spec ?ok ps = \<lparr>sm_result = res, sm_phase = current_phase ctx', sm_status = statuses ctx',
            sm_calls = map fst (b1 @ b2)\<rparr>"
          using b1(4) [OF ag(1)] b2(4) [rule_format, OF ag(2)] None None2 res1 [OF ag(1)] tried [OF ag(1)]
          by (simp add: tcc_spec_def try_post_def confirm_post_def Let_def out settle_def fresh)
      qed (use b1 b2 dis out in auto)
    next
      case (Some q)
      obtain c3 l3 where c: "cancel_participants user d (rev T) (set_phase CANCEL c2) l2 = (c3, l3)" by fastforce
      from cancel [OF c] obtain b3 where b3: "attempts l3 = attempts l2 @ flatten_calls b3" "blocks_ok ps b3"
        "distinct (map fst b3)" "fst ` set b3 \<subseteq> Pair CANCEL ` UNIV"
        "\<forall>ok. agrees ok b3 \<longrightarrow> cancel_post (rev R) (set_phase CANCEL c2) c3 b3 ok"
        by (elim exE conjE) (rule that)
      have out: "res = (False, Some q)" "ctx' = c3" "lg = l3"
        using ex t cf c None Some by simp_all
      have dis: "distinct (map fst (b1 @ b2 @ b3))" using k1(2) k2(2) ids(1) b3(3) keys_apart [OF k1(1) k2(1)] keys_apart [OF k1(1) b3(4)]
          keys_apart [OF k2(1) b3(4)] by auto
      let ?ok = "verdict_of (b1 @ b2 @ b3)"
      have ag: "agrees ?ok b1" "agrees ?ok b2" "agrees ?ok b3" using verdict_agrees [OF dis] by simp_all
      show thesis
      proof (rule conclude [of "b1 @ b2 @ b3"])
        show "tcc_spec ?ok ps = \<lparr>sm_result = res, sm_phase = current_phase ctx', sm_status = statuses ctx',
            sm_calls = map fst (b1 @ b2 @ b3)\<rparr>"
        proof -
          obtain p where p: "find (\<lambda>p. \<not> confirms ?ok p) R = Some p" "q = pd_id p"
            using b2(4) [rule_format, OF ag(2)] Some tried [OF ag(1)]
            by (cases "find (\<lambda>p. \<not> confirms ?ok p) R") (auto simp: confirm_post_def)
          show ?thesis
            using b1(4) [OF ag(1)] b2(4) [rule_format, OF ag(2), unfolded tried [OF ag(1)]]
              b3(5) [rule_format, OF ag(3)] None p res1 [OF ag(1)]
            by (simp add: tcc_spec_def try_post_def confirm_post_def cancel_post_def Let_def out undo_calls_def settle_def
                fresh undone_rev)
        qed
      qed (use b1 b2 b3 dis out in auto)
    qed
  qed
qed

section \<open>Consequences of the protocol\<close>

lemma spec_success:
  assumes "sm_result (tcc_spec ok ps) = (True, x)"
  shows "x = None" "sm_phase (tcc_spec ok ps) = CONFIRM"
    "p \<in> set ps \<Longrightarrow> \<not> pd_optional p \<Longrightarrow> sm_status (tcc_spec ok ps) (pd_id p) = Some CONFIRM"
    "sm_status (tcc_spec ok ps) pid \<in> {None, Some CONFIRM}" "(CANCEL, pid) \<notin> set (sm_calls (tcc_spec ok ps))"
proof -
  let ?R = "reserved ok ps"
  from assms have f: "find (\<lambda>p. \<not> passable ok p) ps = None" "find (\<lambda>p. \<not> confirms ok p) ?R = None"
    by (auto simp: tcc_spec_def Let_def split: option.splits)
  then have C: "takeWhile (confirms ok) ?R = ?R" by (auto simp: find_None_iff takeWhile_eq_all_conv)
  from assms f show "x = None" "sm_phase (tcc_spec ok ps) = CONFIRM"
    "sm_status (tcc_spec ok ps) pid \<in> {None, Some CONFIRM}" "(CANCEL, pid) \<notin> set (sm_calls (tcc_spec ok ps))"
    by (auto simp: tcc_spec_def Let_def C)
  have t: "takeWhile (passable ok) ps = ps" using f(1) by (auto simp: find_None_iff takeWhile_eq_all_conv)
  then have "p \<in> set ?R" if "p \<in> set ps" "\<not> pd_optional p" for p
    unfolding reserved_def t using that f(1) by (auto simp: find_None_iff passable_def)
  then show "p \<in> set ps \<Longrightarrow> \<not> pd_optional p \<Longrightarrow> sm_status (tcc_spec ok ps) (pd_id p) = Some CONFIRM"
    using f by (simp add: tcc_spec_def Let_def C)
qed

lemma upto_first_set: "set (upto_first P xs) \<subseteq> set xs"
  by (induction xs) auto

lemma spec_failure:
  assumes "sm_result (tcc_spec ok ps) = (False, x)"
  shows "x \<in> Some ` pd_id ` set ps" "sm_phase (tcc_spec ok ps) = CANCEL"
    "p \<in> set (reserved ok ps) \<Longrightarrow> cancellable p \<Longrightarrow> (CANCEL, pd_id p) \<in> set (sm_calls (tcc_spec ok ps))"
    "(ph, pid) \<in> set (sm_calls (tcc_spec ok ps)) \<Longrightarrow> ph \<noteq> TRY \<Longrightarrow> pid \<in> pd_id ` set (reserved ok ps)"
proof -
  have sub: "set (upto_first P (reserved ok ps)) \<subseteq> set (reserved ok ps)" for P by (rule upto_first_set)
  from assms show "sm_phase (tcc_spec ok ps) = CANCEL"
    by (auto simp: tcc_spec_def Let_def split: option.splits)
  obtain P qs q where "find P qs = Some q" "x = Some (pd_id q)" "set qs \<subseteq> set ps"
    using assms set_reserved [of ok ps] by (auto simp: tcc_spec_def Let_def split: option.splits)
  moreover from this have "q \<in> set qs" by (auto simp: find_Some_iff)
  ultimately show "x \<in> Some ` pd_id ` set ps" by auto
  from assms show "p \<in> set (reserved ok ps) \<Longrightarrow> cancellable p \<Longrightarrow> (CANCEL, pd_id p) \<in> set (sm_calls (tcc_spec ok ps))"
    by (auto simp: tcc_spec_def Let_def undo_calls_def split: option.splits)
  from assms show "(ph, pid) \<in> set (sm_calls (tcc_spec ok ps)) \<Longrightarrow> ph \<noteq> TRY \<Longrightarrow> pid \<in> pd_id ` set (reserved ok ps)"
    using sub by (auto simp: tcc_spec_def Let_def undo_calls_def split: option.splits)
qed

lemma reserved_tried:
  assumes "p \<in> set (upto_first (passable ok) ps)" "ok TRY (pd_id p)"
  shows "p \<in> set (reserved ok ps)"
  using assms by (induction ps) (auto simp: passable_def split: if_splits)

text \<open>What the log of a run shows of its blocks.\<close>

lemma valid_block_success:
  assumes "valid_block n rs"
  shows "None \<in> set rs \<longleftrightarrow> last rs = None"
proof -
  have "rs = butlast rs @ [last rs]" using assms by (simp add: valid_block_def)
  then have "set rs = set (butlast rs @ [last rs])" by (rule arg_cong)
  then show ?thesis using assms by (auto simp: valid_block_def)
qed

lemma in_flatten_calls: "(k, r) \<in> set (flatten_calls bs) \<longleftrightarrow> (\<exists>rs. (k, rs) \<in> set bs \<and> r \<in> set rs)"
  by (induction bs rule: list.induct) auto

lemma block_success:
  assumes "blocks_ok ps bs"
  shows "((ph, pid), None) \<in> set (flatten_calls bs) \<longleftrightarrow> verdict_of bs ph pid"
proof -
  have "None \<in> set rs \<longleftrightarrow> last rs = None" if b: "((ph, pid), rs) \<in> set bs" for rs
    using assms b valid_block_success by (fastforce simp: blocks_ok_def)
  then show ?thesis unfolding in_flatten_calls verdict_of_def by blast
qed

lemma block_called:
  assumes "blocks_ok ps bs"
  shows "(\<exists>r. (k, r) \<in> set (flatten_calls bs)) \<longleftrightarrow> k \<in> set (map fst bs)"
proof -
  have "\<exists>r. r \<in> set rs" if b: "(k, rs) \<in> set bs" for rs
  proof -
    obtain n where "valid_block n rs" using assms b unfolding blocks_ok_def by (cases k) fastforce
    then show ?thesis by (cases rs) (auto simp: valid_block_def)
  qed
  then show ?thesis unfolding in_flatten_calls by force
qed

section \<open>Progress and user code\<close>

text \<open>
  User code settles when every try and confirm succeeds once it has been attempted a number of times that is below
  the attempts its phase allows.
\<close>

definition attempted :: "tcc_phase \<Rightarrow> string \<Rightarrow> tcc_log \<Rightarrow> nat" where
  "attempted ph pid lg = length (filter (\<lambda>(k, r). k = (ph, pid)) (attempts lg))"

definition settles_at :: "tcc_user \<Rightarrow> tcc_phase \<Rightarrow> participant_def \<Rightarrow> pyval \<Rightarrow> nat \<Rightarrow> bool" where
  "settles_at user ph p input_data n \<longleftrightarrow>
     (\<forall>lg ctx. n \<le> attempted ph (pd_id p) lg \<longrightarrow>
        is_ok (tcc_wait_for (phase_timeout p ph) (build_coro user lg ph p ctx input_data)))"

lemma attempt_phase_settles:
  assumes "settles_at user ph p input_data n"
  shows "n \<le> attempted ph (pd_id p) lg + m \<Longrightarrow> is_ok (fst (attempt_phase user ph p ctx input_data (Suc m) b lg))"
proof (induction m arbitrary: b lg)
  case 0
  then have "is_ok (tcc_wait_for (phase_timeout p ph) (build_coro user lg ph p ctx input_data))"
    using assms by (simp add: settles_at_def)
  then show ?case by (auto simp: is_ok_iff)
next
  case (Suc m)
  show ?case
  proof (cases "tcc_wait_for (phase_timeout p ph) (build_coro user lg ph p ctx input_data)")
    case (Inl e)
    let ?l = "lg @ Attempted ph (pd_id p) (Some e) # (if 0 < b then [Paused ph (pd_id p) (b / 1000)] else [])"
    have "n \<le> attempted ph (pd_id p) ?l + m" using Suc.prems by (simp add: attempted_def)
    from Suc.IH [OF this, of "b * 2"] show ?thesis
      by (simp only: attempt_phase.simps(2) [of user ph p ctx input_data "Suc m"] Inl sum.case zero_less_Suc if_True)
  qed simp
qed

lemma invoke_settles:
  assumes "settles_at user ph p input_data n" "n < phase_retries p ph"
  shows "\<exists>v lg'. invoke_with_retry_and_timeout user ph p ctx input_data lg = (Inr v, lg')"
proof -
  obtain m where m: "phase_retries p ph = Suc m" "n \<le> m" using assms(2) by (cases "phase_retries p ph") auto
  have "is_ok (fst (invoke_with_retry_and_timeout user ph p ctx input_data lg))"
    unfolding invoke_with_retry_and_timeout_def m(1) by (rule attempt_phase_settles [OF assms(1)]) (use m(2) in simp)
  then show ?thesis by (cases "invoke_with_retry_and_timeout user ph p ctx input_data lg") (auto simp: is_ok_iff)
qed

lemma try_phase_settles:
  "(\<And>p. p \<in> set ps \<Longrightarrow> \<exists>n < phase_retries p TRY. settles_at user TRY p input_data n) \<Longrightarrow>
     fst (try_phase user input_data ps T ctx lg) = None"
proof (induction ps arbitrary: T ctx lg)
  case (Cons p ps)
  obtain n where n: "settles_at user TRY p input_data n" "n < phase_retries p TRY" using Cons.prems [of p] by auto
  from invoke_settles [OF n] obtain v l where "invoke_with_retry_and_timeout user TRY p ctx input_data lg = (Inr v, l)" by blast
  then show ?case using Cons by simp
qed simp

lemma confirm_phase_settles:
  "(\<And>p. p \<in> set ps \<Longrightarrow> \<exists>n < phase_retries p CONFIRM. settles_at user CONFIRM p VNone n) \<Longrightarrow>
     fst (confirm_phase user T ps ctx lg) = None"
proof (induction ps arbitrary: ctx lg)
  case (Cons p ps)
  obtain n where n: "settles_at user CONFIRM p VNone n" "n < phase_retries p CONFIRM" using Cons.prems [of p] by auto
  from invoke_settles [OF n] obtain v l where "invoke_with_retry_and_timeout user CONFIRM p ctx VNone lg = (Inr v, l)" by blast
  then show ?case using Cons by simp
qed simp

text \<open>A method whose wrapper hides a coroutine function: no call of it reaches user code.\<close>

definition hidden_coroutine :: "tcc_method option \<Rightarrow> bool" where
  "hidden_coroutine m \<longleftrightarrow> (case m of None \<Rightarrow> True | Some m \<Rightarrow> \<not> m_async (tm_method m) \<and> m_coro (tm_method m))"

lemma hidden_decorated:
  "m_async (tm_method f) \<Longrightarrow> hidden_coroutine (Some (try_method meta f))"
  "m_async (tm_method f) \<Longrightarrow> hidden_coroutine (Some (confirm_method meta f))"
  "m_async (tm_method f) \<Longrightarrow> hidden_coroutine (Some (cancel_method meta f))"
  by (simp_all add: hidden_coroutine_def try_method_def confirm_method_def cancel_method_def sync_wrapper_def)

definition hidden_participant :: "participant_def \<Rightarrow> bool" where
  "hidden_participant p \<longleftrightarrow> hidden_coroutine (pd_try p) \<and> hidden_coroutine (pd_confirm p) \<and> hidden_coroutine (pd_cancel p)"

lemma hidden_build_coro:
  "hidden_participant p \<Longrightarrow> build_coro user lg ph p ctx input_data = build_coro user' lg' ph p ctx input_data"
  by (cases ph)
    (auto simp: hidden_participant_def hidden_coroutine_def build_coro_def invoke_try_def invoke_confirm_def
      invoke_cancel_def tcc_resolve_and_call_def tcc_call_def split: option.splits sum.splits)

lemma hidden_invoke:
  assumes "hidden_participant p"
  shows "invoke_with_retry_and_timeout user ph p ctx input_data lg = invoke_with_retry_and_timeout user' ph p ctx input_data lg"
proof -
  have same: "build_coro user l ph p ctx input_data = build_coro user' l ph p ctx input_data" for l
    by (rule hidden_build_coro [OF assms])
  have "attempt_phase user ph p ctx input_data n b lg = attempt_phase user' ph p ctx input_data n b lg" for n b lg
    by (induction n arbitrary: b lg) (simp_all add: same split: sum.split)
  then show ?thesis by (simp add: invoke_with_retry_and_timeout_def)
qed

lemma hidden_try:
  "\<forall>p \<in> set ps. hidden_participant p \<Longrightarrow>
     try_phase user input_data ps T ctx lg = try_phase user' input_data ps T ctx lg"
  by (induction ps arbitrary: T ctx lg) (simp_all add: hidden_invoke [of _ user _ _ _ _ user'] split: prod.split sum.split)

lemma hidden_confirm:
  "\<forall>p \<in> set ps. hidden_participant p \<Longrightarrow> confirm_phase user T ps ctx lg = confirm_phase user' T ps ctx lg"
  by (induction ps arbitrary: ctx lg) (simp_all add: hidden_invoke [of _ user _ _ _ _ user'] split: prod.split sum.split)

lemma hidden_cancel:
  "\<forall>p \<in> set (dvals (participants d)). hidden_participant p \<Longrightarrow>
     cancel_participants user d pids ctx lg = cancel_participants user' d pids ctx lg"
proof (induction pids arbitrary: ctx lg)
  case (Cons pid pids)
  show ?case
  proof (cases "dget (participants d) pid")
    case (Some p)
    then have "hidden_participant p" using Cons.prems by (force dest: map_of_SomeD)
    then show ?thesis using Some Cons
      by (simp add: hidden_invoke [of p user _ _ _ _ user'] split: prod.split sum.split)
  qed simp
qed simp

lemma confirm_needs_method:
  assumes "pd_confirm p = None"
  shows "\<not> is_ok (fst (invoke_with_retry_and_timeout user CONFIRM p ctx input_data lg))"
proof -
  have "\<not> is_ok (fst (attempt_phase user CONFIRM p ctx input_data n b lg))" for n b lg
    by (induction n arbitrary: b lg)
      (simp_all add: build_coro_def invoke_confirm_def assms no_method_def tcc_wait_for_def)
  then show ?thesis by (simp add: invoke_with_retry_and_timeout_def)
qed

lemma try_phase_mandatory:
  "try_phase user input_data ps T ctx lg = (None, T', ctx', lg') \<Longrightarrow> set T \<subseteq> set T' \<and>
     (\<forall>p \<in> set ps. \<not> pd_optional p \<longrightarrow> pd_id p \<in> set T')"
proof (induction ps arbitrary: T ctx lg)
  case (Cons p ps)
  show ?case
  proof (cases "invoke_with_retry_and_timeout user TRY p ctx input_data lg")
    case (Pair r l)
    show ?thesis
    proof (cases r)
      case (Inl e)
      with Cons.prems Pair have "pd_optional p" "try_phase user input_data ps T ctx l = (None, T', ctx', lg')"
        by (simp_all split: if_splits)
      with Cons.IH [of T ctx l] show ?thesis by auto
    next
      case (Inr v)
      with Cons.prems Pair Cons.IH [of "T @ [pd_id p]"] show ?thesis by fastforce
    qed
  qed
qed simp

lemma confirm_phase_methods:
  "confirm_phase user T ps ctx lg = (None, ctx', lg') \<Longrightarrow>
     \<forall>p \<in> set ps. pd_id p \<in> set T \<longrightarrow> pd_confirm p \<noteq> None"
proof (induction ps arbitrary: ctx lg)
  case (Cons p ps)
  show ?case
  proof (cases "pd_id p \<in> set T")
    case True
    obtain r l where inv: "invoke_with_retry_and_timeout user CONFIRM p ctx VNone lg = (r, l)" by fastforce
    with Cons.prems True obtain v where r: "r = Inr v" by (cases r) auto
    then have "pd_confirm p \<noteq> None" using confirm_needs_method [of p user ctx VNone lg] inv by auto
    with Cons.prems Cons.IH inv r True show ?thesis by auto
  qed (use Cons in auto)
qed simp

section \<open>Properties\<close>

text \<open>
  A transfer between two accounts, with plain methods: the first try of the debit may fail once, or the confirmation of
  the credit.
\<close>

definition tcc_fn :: "nat \<Rightarrow> tcc_method" where
  "tcc_fn n = plain_attr \<lparr>m_id = n, m_qualname = ''Transfer.fn'', m_params = [''self''], m_hints = [],
     m_async = False, m_coro = False\<rparr>"

definition once :: phase_meta where
  "once = \<lparr>ph_timeout_ms = 0, ph_retry = 0, ph_backoff_ms = 0\<rparr>"

definition debit :: participant_def where
  "debit = \<lparr>pd_id = ''debit'', pd_order = 0, pd_timeout_ms = 0, pd_optional = False, pd_class = None,
     pd_try = Some (try_method \<lparr>ph_timeout_ms = 0, ph_retry = 2, ph_backoff_ms = 100\<rparr> (tcc_fn 1)),
     pd_confirm = Some (confirm_method once (tcc_fn 2)), pd_cancel = Some (cancel_method once (tcc_fn 3))\<rparr>"

definition credit :: participant_def where
  "credit = \<lparr>pd_id = ''credit'', pd_order = 1, pd_timeout_ms = 0, pd_optional = False, pd_class = None,
     pd_try = Some (try_method once (tcc_fn 4)), pd_confirm = Some (confirm_method once (tcc_fn 5)), pd_cancel = None\<rparr>"

definition transfer :: tcc_def where
  "transfer = \<lparr>td_name = ''transfer'', td_bean = VNone, td_timeout_ms = 0, td_retry_enabled = False,
     td_max_retries = 0, td_backoff_ms = 0, participants = [(''debit'', debit), (''credit'', credit)]\<rparr>"

definition transfer_user :: "nat \<Rightarrow> tcc_user" where
  "transfer_user bad lg m kw =
     (False, if m_id m = bad \<and> (bad \<noteq> 1 \<or> lg = []) then Inl (Exn RuntimeErrorC ''busy'' []) else Inr VNone)"

abbreviation transfer_ctx :: tcc_context where
  "transfer_ctx \<equiv> new_tcc_context ''c1'' ''transfer'' []"

lemma transfer_ok: "tcc_ok transfer"
  by (simp add: tcc_ok_def transfer_def debit_def credit_def)

lemma transfer_fresh: "participant_statuses transfer_ctx = []"
  by (simp add: new_tcc_context_def)

lemma transfer_refused:
  obtains ctx' where "tcc_execute (transfer_user 5) transfer VNone transfer_ctx = ((False, Some ''credit''), ctx',
      [Attempted TRY ''debit'' None, Attempted TRY ''credit'' None, Attempted CONFIRM ''debit'' None,
       Attempted CONFIRM ''credit'' (Some (Exn RuntimeErrorC ''busy'' [])), Attempted CANCEL ''debit'' None])"
    "participant_statuses ctx' = [(''debit'', CANCEL), (''credit'', TRY)]"
proof -
  have "(case tcc_execute (transfer_user 5) transfer VNone transfer_ctx of (r, ctx', lg) \<Rightarrow>
      r = (False, Some ''credit'') \<and> participant_statuses ctx' = [(''debit'', CANCEL), (''credit'', TRY)] \<and>
      lg = [Attempted TRY ''debit'' None, Attempted TRY ''credit'' None, Attempted CONFIRM ''debit'' None,
       Attempted CONFIRM ''credit'' (Some (Exn RuntimeErrorC ''busy'' [])), Attempted CANCEL ''debit'' None])"
    by code_simp
  with that show thesis by (cases "tcc_execute (transfer_user 5) transfer VNone transfer_ctx") auto
qed





text \<open>
  Claim C15. Progress: when every try and every confirm succeeds after fewer failed attempts than its retries allow,
  the transaction is confirmed.
\<close>

theorem tcc_commits:
  assumes "\<And>p. p \<in> set (dvals (participants d)) \<Longrightarrow> \<exists>n < phase_retries p TRY. settles_at user TRY p input_data n"
    and "\<And>p. p \<in> set (dvals (participants d)) \<Longrightarrow> \<exists>n < phase_retries p CONFIRM. settles_at user CONFIRM p VNone n"
  shows "fst (tcc_execute user d input_data ctx) = (True, None)"
proof -
  let ?ps = "dvals (participants d)"
  obtain f T c1 l1 where t: "try_phase user input_data ?ps [] (set_phase TRY ctx) [] = (f, T, c1, l1)"
    by (rule prod_cases4)
  obtain f2 c2 l2 where c: "confirm_phase user T ?ps (set_phase CONFIRM c1) l1 = (f2, c2, l2)"
    by (rule prod_cases3)
  have "fst (try_phase user input_data ?ps [] (set_phase TRY ctx) []) = None"
    by (rule try_phase_settles) (rule assms(1))
  moreover have "fst (confirm_phase user T ?ps (set_phase CONFIRM c1) l1) = None"
    by (rule confirm_phase_settles) (rule assms(2))
  ultimately show ?thesis by (simp add: tcc_execute_def t c)
qed

theorem tcc_commits_witness: "fst (tcc_execute (transfer_user 1) transfer VNone transfer_ctx) = (True, None)"
proof (rule tcc_commits)
  note defs = settles_at_def attempted_def build_coro_def invoke_try_def invoke_confirm_def tcc_resolve_and_call_def
    tcc_resolve_def bind_args_def tcc_call_def transfer_user_def tcc_wait_for_def phase_retries_def phase_timeout_def
    phase_settings_def get_phase_method_def phase_attr_def try_method_def confirm_method_def tcc_fn_def plain_attr_def
    sync_wrapper_def once_def debit_def credit_def dmem_def
  have d: "settles_at (transfer_user 1) TRY debit VNone 1" "1 < phase_retries debit TRY"
    by (auto simp: defs)
  have c: "settles_at (transfer_user 1) TRY credit VNone 0" "0 < phase_retries credit TRY"
    by (simp_all add: defs)
  have cf: "settles_at (transfer_user 1) CONFIRM debit VNone 0" "0 < phase_retries debit CONFIRM"
    "settles_at (transfer_user 1) CONFIRM credit VNone 0" "0 < phase_retries credit CONFIRM"
    by (simp_all add: defs)
  have ps: "dvals (participants transfer) = [debit, credit]" by (simp add: transfer_def)
  show "\<exists>n < phase_retries p TRY. settles_at (transfer_user 1) TRY p VNone n" if "p \<in> set (dvals (participants transfer))" for p
    using that d c unfolding ps by auto
  show "\<exists>n < phase_retries p CONFIRM. settles_at (transfer_user 1) CONFIRM p VNone n"
    if "p \<in> set (dvals (participants transfer))" for p
    using that cf unfolding ps by auto
qed

text \<open>
  A confirm method is required: when a mandatory participant has none, which registration accepts, no
  execution succeeds.
\<close>

theorem tcc_confirm_required:
  assumes "p \<in> set (dvals (participants d))" "\<not> pd_optional p" "pd_confirm p = None"
  shows "\<not> fst (fst (tcc_execute user d input_data ctx))"
proof
  assume "fst (fst (tcc_execute user d input_data ctx))"
  then obtain T c1 l1 c2 l2 where
    t: "try_phase user input_data (dvals (participants d)) [] (set_phase TRY ctx) [] = (None, T, c1, l1)"
    and c: "confirm_phase user T (dvals (participants d)) (set_phase CONFIRM c1) l1 = (None, c2, l2)"
    by (auto simp: tcc_execute_def split: prod.splits option.splits)
  from try_phase_mandatory [OF t] assms(1,2) have "pd_id p \<in> set T" by blast
  with confirm_phase_methods [OF c] assms(1,3) show False by blast
qed

definition audit :: participant_def where
  "audit = debit\<lparr>pd_id := ''audit'', pd_confirm := None\<rparr>"

theorem tcc_confirm_required_witness:
  "\<not> fst (fst (tcc_execute (transfer_user 0) (transfer\<lparr>participants := [(''audit'', audit)]\<rparr>) VNone transfer_ctx))"
  by (rule tcc_confirm_required [of audit]) (simp_all add: audit_def debit_def)

text \<open>
  Decorated coroutine functions are never awaited: when all methods of a transaction are coroutine functions
  under the phase decorators, as the documentation writes them, an execution does not depend on what they do.
\<close>

theorem tcc_coroutines_not_awaited:
  assumes "\<And>p. p \<in> set (dvals (participants d)) \<Longrightarrow> \<exists>f t c. pd_try p = Some (try_method t f) \<and> m_async (tm_method f) \<and>
      (pd_confirm p = None \<or> (\<exists>g. pd_confirm p = Some (confirm_method c g) \<and> m_async (tm_method g))) \<and>
      (pd_cancel p = None \<or> (\<exists>g. pd_cancel p = Some (cancel_method c g) \<and> m_async (tm_method g)))"
  shows "tcc_execute user d input_data ctx = tcc_execute user' d input_data ctx"
proof -
  have none: "hidden_coroutine None" by (simp add: hidden_coroutine_def)
  have h: "\<forall>p \<in> set (dvals (participants d)). hidden_participant p"
  proof
    fix p assume "p \<in> set (dvals (participants d))"
    from assms [OF this] show "hidden_participant p"
      unfolding hidden_participant_def by (elim exE conjE disjE) (simp_all add: hidden_decorated none)
  qed
  show ?thesis
    unfolding tcc_execute_def hidden_try [OF h, of user _ _ _ _ user'] hidden_confirm [OF h, of user _ _ _ user']
      hidden_cancel [OF h, of user _ _ _ user'] ..
qed

definition coroutine_fn :: "nat \<Rightarrow> tcc_method" where
  "coroutine_fn n = (tcc_fn n)\<lparr>tm_method := (tm_method (tcc_fn n))\<lparr>m_async := True\<rparr>\<rparr>"

definition coroutine_debit :: participant_def where
  "coroutine_debit = debit\<lparr>pd_try := Some (try_method once (coroutine_fn 1)),
     pd_confirm := Some (confirm_method once (coroutine_fn 2)), pd_cancel := None\<rparr>"

theorem tcc_coroutines_not_awaited_witness:
  "fst (tcc_execute (\<lambda>_ _ _. (False, Inl (Exn RuntimeErrorC ''boom'' [])))
          (transfer\<lparr>participants := [(''debit'', coroutine_debit)]\<rparr>) VNone transfer_ctx) = (True, None)"
proof -
  let ?d = "transfer\<lparr>participants := [(''debit'', coroutine_debit)]\<rparr>"
  have "tcc_execute (\<lambda>_ _ _. (False, Inl (Exn RuntimeErrorC ''boom'' []))) ?d VNone transfer_ctx =
      tcc_execute (\<lambda>_ _ _. (False, Inr VNone)) ?d VNone transfer_ctx"
  proof (rule tcc_coroutines_not_awaited)
    fix p assume "p \<in> set (dvals (participants ?d))"
    then have p: "p = coroutine_debit" by simp
    show "\<exists>f t c. pd_try p = Some (try_method t f) \<and> m_async (tm_method f) \<and>
        (pd_confirm p = None \<or> (\<exists>g. pd_confirm p = Some (confirm_method c g) \<and> m_async (tm_method g))) \<and>
        (pd_cancel p = None \<or> (\<exists>g. pd_cancel p = Some (cancel_method c g) \<and> m_async (tm_method g)))"
      unfolding p
      by (intro exI [of _ "coroutine_fn 1"] exI [of _ once])
        (simp add: coroutine_debit_def coroutine_fn_def exI [of _ "coroutine_fn 2"])
  qed
  moreover have "fst (tcc_execute (\<lambda>_ _ _. (False, Inr VNone)) ?d VNone transfer_ctx) = (True, None)" by code_simp
  ultimately show ?thesis by simp
qed

end
