(* ===== verification/Topology.thy ===== *)
theory Topology
  imports Prelude
begin

text \<open>
  \<^verbatim>\<open>transactional/saga/engine/topology.py\<close>: the layers in which the steps of a saga
  (and the sagas of a composition) run, by Kahn's algorithm.
\<close>

section \<open>The code\<close>

text \<open>
  \<open>deps\<close> is the dictionary from a node to the list of its predecessors. The first loop
  builds the in-degrees and the adjacency lists.
\<close>

type_synonym 'a dep_map = "('a, 'a list) dict"

fun add_preds :: "'a \<Rightarrow> 'a list \<Rightarrow> ('a \<Rightarrow> int) \<times> ('a \<Rightarrow> 'a list) \<Rightarrow> ('a \<Rightarrow> int) \<times> ('a \<Rightarrow> 'a list)" where
  "add_preds node [] (in_degree, adjacency) = (in_degree, adjacency)"
| "add_preds node (pred # preds) (in_degree, adjacency) =
     add_preds node preds
       (in_degree(node := in_degree node + 1), adjacency(pred := adjacency pred @ [node]))"

fun build_graph :: "'a dep_map \<Rightarrow> ('a \<Rightarrow> int) \<times> ('a \<Rightarrow> 'a list) \<Rightarrow> ('a \<Rightarrow> int) \<times> ('a \<Rightarrow> 'a list)" where
  "build_graph [] g = g"
| "build_graph ((node, predecessors) # deps) g = build_graph deps (add_preds node predecessors g)"

definition graph_of :: "'a dep_map \<Rightarrow> ('a \<Rightarrow> int) \<times> ('a \<Rightarrow> 'a list)" where
  "graph_of deps = build_graph deps (\<lambda>_. 0, \<lambda>_. [])"

text \<open>The inner loops of the breadth-first search: one node's neighbours, then one layer's nodes.\<close>

fun relax_neighbours :: "'a list \<Rightarrow> ('a \<Rightarrow> int) \<times> 'a list \<Rightarrow> ('a \<Rightarrow> int) \<times> 'a list" where
  "relax_neighbours [] (in_degree, next_queue) = (in_degree, next_queue)"
| "relax_neighbours (neighbour # rest) (in_degree, next_queue) =
     (let in_degree' = in_degree(neighbour := in_degree neighbour - 1)
      in relax_neighbours rest
           (in_degree', if in_degree' neighbour = 0 then next_queue @ [neighbour] else next_queue))"

fun relax_layer :: "('a \<Rightarrow> 'a list) \<Rightarrow> 'a list \<Rightarrow> ('a \<Rightarrow> int) \<times> 'a list \<Rightarrow> ('a \<Rightarrow> int) \<times> 'a list" where
  "relax_layer adjacency [] st = st"
| "relax_layer adjacency (node # layer) st =
     relax_layer adjacency layer (relax_neighbours (adjacency node) st)"

section \<open>The two inner loops\<close>

definition preds :: "'a dep_map \<Rightarrow> 'a \<Rightarrow> 'a list" where
  "preds deps n = dget_default deps n []"

lemma preds_Nil [simp]: "preds [] n = []"
  by (simp add: preds_def)

lemma preds_Cons: "preds ((m, ps) # deps) n = (if n = m then ps else preds deps n)"
  by (simp add: preds_def dget_default_def)

lemma preds_not_key: "n \<notin> set (dkeys deps) \<Longrightarrow> preds deps n = []"
  by (simp add: preds_def dget_default_def dget_None_iff [THEN iffD2])

lemma add_preds_eq:
  "add_preds n ps (d, a) = (d(n := d n + int (length ps)), \<lambda>p. a p @ replicate (count_list ps p) n)"
proof (induction ps arbitrary: d a)
  case (Cons q ps)
  show ?case by (auto simp: Cons.IH fun_eq_iff replicate_app_Cons_same)
qed simp

lemma build_graph_deg:
  "dict_ok deps \<Longrightarrow> fst (build_graph deps (d, a)) n = d n + int (length (preds deps n))"
  by (induction deps arbitrary: d a) (auto simp: add_preds_eq preds_Cons preds_not_key)

lemma build_graph_adj:
  "snd (build_graph deps (d, a)) p = a p @ concat (map (\<lambda>(n, ps). replicate (count_list ps p) n) deps)"
  by (induction deps arbitrary: d a) (auto simp: add_preds_eq)

lemma count_list_concat: "count_list (concat xss) x = sum_list (map (\<lambda>xs. count_list xs x) xss)"
  by (induction xss) auto

lemma count_list_replicate: "count_list (replicate k y) x = (if x = y then k else 0)"
  by (induction k) auto

lemma in_degree_graph: "dict_ok deps \<Longrightarrow> fst (graph_of deps) n = int (length (preds deps n))"
  by (simp add: graph_of_def build_graph_deg)

lemma count_adjacency:
  "dict_ok deps \<Longrightarrow> count_list (snd (graph_of deps) p) n = count_list (preds deps n) p"
proof (induction deps)
  case Nil
  show ?case by (simp add: graph_of_def)
next
  case (Cons e deps)
  obtain m ps where e: "e = (m, ps)" by (cases e)
  have adj: "snd (graph_of ((m, ps) # deps)) p = replicate (count_list ps p) m @ snd (graph_of deps) p"
    by (simp add: graph_of_def build_graph_adj add_preds_eq)
  from Cons.prems e have "m \<notin> set (dkeys deps)" and "dict_ok deps" by auto
  with Cons.IH show ?case unfolding e adj
    by (auto simp: preds_Cons count_list_replicate preds_not_key)
qed

lemma adjacency_keys: 
  assumes "n \<in> set (snd (graph_of deps) p)"
  shows "n \<in> set (dkeys deps)"
  using assms by (auto simp: graph_of_def build_graph_adj count_list_0_iff[symmetric] split: if_splits) force

lemma relax_neighbours_append:
  "relax_neighbours (xs @ ys) st = relax_neighbours ys (relax_neighbours xs st)"
  by (induction xs st rule: relax_neighbours.induct) (auto simp: Let_def)

lemma relax_neighbours_Nil: "relax_neighbours [] st = st"
  by (cases st) simp

lemma relax_layer_concat: "relax_layer adj layer st = relax_neighbours (concat (map adj layer)) st"
  by (induction layer arbitrary: st) (auto simp: relax_neighbours_append relax_neighbours_Nil)

text \<open>
  What relaxing a list of neighbours does: every in-degree drops by the number of occurrences,
  and the nodes whose in-degree reaches zero on the way are appended, each once.
\<close>

lemma relax_neighbours_deg:
  "fst (relax_neighbours ns (d, q)) n = d n - int (count_list ns n)"
  by (induction ns arbitrary: d q) (auto simp: Let_def)

lemma relax_neighbours_queue:
  "\<exists>zs. snd (relax_neighbours ns (d, q)) = q @ zs \<and> distinct zs \<and>
        set zs = {n. 0 < d n \<and> d n \<le> int (count_list ns n)}"
proof (induction ns arbitrary: d q)
  case (Cons n ns)
  let ?d = "d(n := d n - 1)"
  let ?q = "if ?d n = 0 then q @ [n] else q"
  from Cons.IH [of ?d ?q] obtain zs where zs: "snd (relax_neighbours ns (?d, ?q)) = ?q @ zs"
    "distinct zs" "set zs = {m. 0 < ?d m \<and> ?d m \<le> int (count_list ns m)}"
    by blast
  show ?case
  proof (cases "d n = 1")
    case True
    with zs show ?thesis by (intro exI [of _ "n # zs"]) (auto simp: Let_def)
  next
    case False
    with zs show ?thesis by (intro exI [of _ zs]) (auto simp: Let_def)
  qed
qed simp

text \<open>Relaxing moves nodes from a positive in-degree to the queue, so together they do not grow.\<close>

lemma relax_neighbours_measure:
  assumes "finite A" "set ns \<subseteq> A"
  shows "card {n \<in> A. 0 < fst (relax_neighbours ns (d, q)) n} + length (snd (relax_neighbours ns (d, q)))
           \<le> card {n \<in> A. 0 < d n} + length q"
proof -
  obtain zs where q: "snd (relax_neighbours ns (d, q)) = q @ zs" and dist: "distinct zs"
      and zs: "set zs = {n. 0 < d n \<and> d n \<le> int (count_list ns n)}"
    using relax_neighbours_queue [of ns d q] by (elim exE conjE)
  define P where "P = {n \<in> A. 0 < fst (relax_neighbours ns (d, q)) n}"
  have P: "n \<in> P \<longleftrightarrow> n \<in> A \<and> int (count_list ns n) < d n" for n
    by (simp add: P_def relax_neighbours_deg)
  have disj: "P \<inter> set zs = {}" by (rule equals0I) (auto simp: P zs)
  have "n \<in> A" if "n \<in> set zs" for n
  proof (rule ccontr)
    assume "n \<notin> A"
    then have "n \<notin> set ns" using assms(2) by blast
    then have "count_list ns n = 0" by (simp add: count_list_0_iff)
    with that show False by (auto simp: zs)
  qed
  moreover have "0 < d n" if "n \<in> P \<union> set zs" for n
    using that P [of n] of_nat_0_le_iff [of "count_list ns n"] unfolding zs by (auto simp del: of_nat_0_le_iff)
  ultimately have sub: "P \<union> set zs \<subseteq> {n \<in> A. 0 < d n}" using P by blast
  have fin: "finite P" "finite {n \<in> A. 0 < d n}" using assms(1) by (simp_all add: P_def)
  have "card P + card (set zs) = card (P \<union> set zs)"
    by (rule card_Un_disjoint [symmetric]) (simp_all add: fin disj)
  also have "\<dots> \<le> card {n \<in> A. 0 < d n}" by (rule card_mono [OF fin(2) sub])
  finally show ?thesis using distinct_card [OF dist] unfolding q P_def by simp
qed

section \<open>The breadth-first search\<close>

text \<open>
  The outer loop. It stops because every further iteration that finds a node takes at least one
  node of the graph from a positive in-degree to zero.
\<close>

abbreviation positive_nodes :: "'a dep_map \<Rightarrow> ('a \<Rightarrow> int) \<Rightarrow> 'a set" where
  "positive_nodes deps in_degree \<equiv> {n \<in> set (dkeys deps). 0 < in_degree n}"

function kahn_loop ::
  "('a::linorder) dep_map \<Rightarrow> ('a \<Rightarrow> int) \<Rightarrow> 'a list \<Rightarrow> 'a list list \<Rightarrow> nat \<Rightarrow> 'a list list \<times> nat"
where
  "kahn_loop deps in_degree queue layers processed =
     (if queue = [] then (layers, processed)
      else
        let layer = sort queue;
            relaxed = relax_layer (snd (graph_of deps)) layer (in_degree, [])
        in kahn_loop deps (fst relaxed) (sort (snd relaxed)) (layers @ [layer])
             (processed + length layer))"
  by pat_completeness auto

termination kahn_loop
proof (relation "measure (\<lambda>(deps, in_degree, queue, _, _).
      card (positive_nodes deps in_degree) + (if queue = [] then 0 else 1))", goal_cases)
  case 1
  show ?case by simp
next
  case (2 deps in_degree queue layers processed layer relaxed)
  define ns where "ns = concat (map (snd (graph_of deps)) layer)"
  have rel: "relaxed = relax_neighbours ns (in_degree, [])"
    by (simp add: 2(3) relax_layer_concat ns_def)
  have deg: "fst relaxed n = in_degree n - int (count_list ns n)" for n
    by (simp add: rel relax_neighbours_deg)
  obtain zs where zs: "snd relaxed = zs" "set zs = {n. 0 < in_degree n \<and> in_degree n \<le> int (count_list ns n)}"
    using relax_neighbours_queue [of ns in_degree "[]"] by (auto simp: rel)
  have sub: "positive_nodes deps (fst relaxed) \<subseteq> positive_nodes deps in_degree"
    by (auto simp: deg)
  have less: "card (positive_nodes deps (fst relaxed)) < card (positive_nodes deps in_degree)" if "z \<in> set zs" for z
  proof (rule psubset_card_mono)
    from that zs have z: "0 < in_degree z" "in_degree z \<le> int (count_list ns z)" by auto
    then have "z \<in> set ns" by (metis count_list_0_iff linorder_not_less of_nat_0)
    then have "z \<in> set (dkeys deps)" by (auto simp: ns_def dest: adjacency_keys)
    with z have "z \<in> positive_nodes deps in_degree" "z \<notin> positive_nodes deps (fst relaxed)"
      by (auto simp: deg)
    with sub show "positive_nodes deps (fst relaxed) \<subset> positive_nodes deps in_degree" by blast
  qed simp
  show ?case
  proof (cases zs)
    case Nil
    with sub 2(1) show ?thesis by (simp add: zs(1) card_mono le_imp_less_Suc)
  next
    case (Cons z zs')
    with less [of z] 2(1) show ?thesis by (simp add: zs(1))
  qed
qed

declare kahn_loop.simps [simp del]

text \<open>\<^verbatim>\<open>SagaTopology.compute_layers\<close>, with the cycle check at its end.\<close>

definition compute_layers :: "('a::linorder) dep_map \<Rightarrow> exn + 'a list list" where
  "compute_layers deps =
     (if deps = [] then Inr []
      else
        let in_degree = fst (graph_of deps);
            queue = sort (filter (\<lambda>node. in_degree node = 0) (dkeys deps));
            (layers, processed) = kahn_loop deps in_degree queue [] 0
        in if processed \<noteq> length deps
           then Inl (Exn ValueErrorC
                  ''Dependency graph contains a cycle: processed {} of {} steps''
                  [VInt (int processed), VInt (int (length deps))])
           else Inr layers)"

section \<open>What the layers promise\<close>

text \<open>
  \<open>valid_layers deps ls\<close>: the layers list every node once; each layer is sorted and not empty;
  the predecessors of a node lie in earlier layers; and a node is in the earliest layer its
  predecessors allow.
\<close>

definition deps_before :: "'a dep_map \<Rightarrow> 'a list list \<Rightarrow> bool" where
  "deps_before deps ls =
     (\<forall>i < length ls. \<forall>n \<in> set (ls ! i). set (preds deps n) \<subseteq> set (concat (take i ls)))"

definition earliest :: "'a dep_map \<Rightarrow> 'a list list \<Rightarrow> bool" where
  "earliest deps ls =
     (\<forall>i < length ls. 0 < i \<longrightarrow>
        (\<forall>n \<in> set (ls ! i). \<not> set (preds deps n) \<subseteq> set (concat (take (i - 1) ls))))"

definition valid_layers :: "('a::linorder) dep_map \<Rightarrow> 'a list list \<Rightarrow> bool" where
  "valid_layers deps ls \<longleftrightarrow>
     distinct (concat ls) \<and> set (concat ls) = set (dkeys deps) \<and>
     (\<forall>l \<in> set ls. sorted l \<and> l \<noteq> []) \<and> deps_before deps ls \<and> earliest deps ls"

text \<open>
  When a layering exists at all: every predecessor is a node, and the predecessor relation has
  no cycle.
\<close>

definition closed_deps :: "'a dep_map \<Rightarrow> bool" where
  "closed_deps deps \<longleftrightarrow> (\<forall>n \<in> set (dkeys deps). set (preds deps n) \<subseteq> set (dkeys deps))"

definition dep_edges :: "'a dep_map \<Rightarrow> ('a \<times> 'a) set" where
  "dep_edges deps = {(p, n). n \<in> set (dkeys deps) \<and> p \<in> set (preds deps n)}"

definition is_dag :: "'a dep_map \<Rightarrow> bool" where
  "is_dag deps \<longleftrightarrow> closed_deps deps \<and> acyclic (dep_edges deps)"

section \<open>Correctness of the search\<close>

lemma finite_dep_edges: "closed_deps deps \<Longrightarrow> finite (dep_edges deps)"
  by (rule finite_subset [of _ "set (dkeys deps) \<times> set (dkeys deps)"])
    (auto simp: dep_edges_def closed_deps_def)

lemma dag_progress:
  assumes dag: "is_dag deps" and sub: "P \<subset> set (dkeys deps)"
  shows "\<exists>n \<in> set (dkeys deps) - P. set (preds deps n) \<subseteq> P"
proof -
  have "wf (dep_edges deps)"
    using dag by (auto simp: is_dag_def intro: finite_acyclic_wf finite_dep_edges)
  moreover obtain x where "x \<in> set (dkeys deps) - P" using sub by blast
  ultimately obtain n where n: "n \<in> set (dkeys deps) - P"
    and min: "\<And>p. (p, n) \<in> dep_edges deps \<Longrightarrow> p \<notin> set (dkeys deps) - P"
    by (metis wf_eq_minimal)
  have "set (preds deps n) \<subseteq> P"
    using n min dag by (fastforce simp: dep_edges_def is_dag_def closed_deps_def)
  with n show ?thesis by blast
qed

lemma deps_before_take: "deps_before deps ls \<Longrightarrow> i < length ls \<Longrightarrow> n \<in> set (ls ! i) \<Longrightarrow>
    set (preds deps n) \<subseteq> set (concat (take i ls))"
  by (simp add: deps_before_def)

lemma deps_before_concat:
  assumes "deps_before deps ls" "n \<in> set (concat ls)"
  shows "set (preds deps n) \<subseteq> set (concat ls)"
proof -
  from assms(2) obtain l where "l \<in> set ls" "n \<in> set l" by auto
  then obtain i where i: "i < length ls" "n \<in> set (ls ! i)"
    by (metis in_set_conv_nth)
  with assms(1) have "set (preds deps n) \<subseteq> set (concat (take i ls))" by (simp add: deps_before_def)
  also have "\<dots> \<subseteq> set (concat ls)" by (auto dest: in_set_takeD)
  finally show ?thesis .
qed

lemma deps_before_snoc:
  "deps_before deps (ls @ [l]) \<longleftrightarrow>
     deps_before deps ls \<and> (\<forall>n \<in> set l. set (preds deps n) \<subseteq> set (concat ls))"
  by (simp add: deps_before_def nth_append All_less_Suc) (auto simp: Ball_def)

lemma earliest_snoc:
  "earliest deps (ls @ [l]) \<longleftrightarrow>
     earliest deps ls \<and> (ls \<noteq> [] \<longrightarrow> (\<forall>n \<in> set l. \<not> set (preds deps n) \<subseteq> set (concat (butlast ls))))"
  by (simp add: earliest_def nth_append All_less_Suc butlast_conv_take) (auto simp: Ball_def)

text \<open>
  The invariant of the breadth-first search. \<open>concat layers\<close> are the nodes already emitted: an
  in-degree counts the predecessors that are not among them, the queue holds the nodes that are
  ready, and the layers so far (with the queue as the next one) have the promised shape.
\<close>

definition kahn_inv ::
  "('a::linorder) dep_map \<Rightarrow> ('a \<Rightarrow> int) \<Rightarrow> 'a list \<Rightarrow> 'a list list \<Rightarrow> nat \<Rightarrow> bool"
where
  "kahn_inv deps in_degree queue layers processed \<longleftrightarrow>
     distinct (concat layers @ queue) \<and> set (concat layers) \<union> set queue \<subseteq> set (dkeys deps) \<and>
     (\<forall>n. in_degree n = int (length (filter (\<lambda>p. p \<notin> set (concat layers)) (preds deps n)))) \<and>
     set queue = {n \<in> set (dkeys deps). n \<notin> set (concat layers) \<and> in_degree n = 0} \<and>
     processed = length (concat layers) \<and>
     (\<forall>l \<in> set layers. sorted l \<and> l \<noteq> []) \<and> deps_before deps layers \<and> earliest deps (layers @ [queue])"

lemma sum_count_list_filter:
  "finite S \<Longrightarrow> (\<Sum>p\<in>S. count_list xs p) = length (filter (\<lambda>p. p \<in> S) xs)"
proof (induction xs)
  case (Cons a xs)
  have "(\<Sum>p\<in>S. count_list (a # xs) p) = (\<Sum>p\<in>S. (if p = a then 1 else 0) + count_list xs p)"
    by (intro sum.cong) auto
  with Cons show ?case by (simp add: sum.distrib)
qed simp

lemma count_list_layer:
  assumes "dict_ok deps" "distinct layer"
  shows "count_list (concat (map (snd (graph_of deps)) layer)) n =
         length (filter (\<lambda>p. p \<in> set layer) (preds deps n))"
proof -
  have "count_list (concat (map (snd (graph_of deps)) layer)) n =
        (\<Sum>p\<leftarrow>layer. count_list (preds deps n) p)"
    by (simp add: count_list_concat count_adjacency assms(1) comp_def)
  also have "\<dots> = (\<Sum>p\<in>set layer. count_list (preds deps n) p)"
    using assms(2) by (rule sum_list_distinct_conv_sum_set)
  also have "\<dots> = length (filter (\<lambda>p. p \<in> set layer) (preds deps n))"
    by (rule sum_count_list_filter) simp
  finally show ?thesis .
qed

lemma length_filter_split:
  "A \<inter> L = {} \<Longrightarrow> length (filter (\<lambda>p. p \<notin> A) xs) =
     length (filter (\<lambda>p. p \<in> L) xs) + length (filter (\<lambda>p. p \<notin> A \<union> L) xs)"
  by (induction xs) auto

lemma kahn_step:
  assumes ok: "dict_ok deps" and inv: "kahn_inv deps in_degree queue layers processed"
    and ne: "queue \<noteq> []"
    and rel: "relaxed = relax_layer (snd (graph_of deps)) (sort queue) (in_degree, [])"
  shows "kahn_inv deps (fst relaxed) (sort (snd relaxed)) (layers @ [sort queue])
           (processed + length (sort queue))"
proof -
  let ?P = "set (concat layers)" and ?L = "set queue"
  let ?un = "\<lambda>S n. filter (\<lambda>p. p \<notin> S) (preds deps n)"
  have dis: "distinct queue" "?P \<inter> ?L = {}" "distinct (concat layers)"
    and keys: "?P \<union> ?L \<subseteq> set (dkeys deps)"
    and deg0: "\<And>n. in_degree n = int (length (?un ?P n))"
    and q: "?L = {n \<in> set (dkeys deps). n \<notin> ?P \<and> in_degree n = 0}"
    and before: "deps_before deps layers"
    using inv by (auto simp: kahn_inv_def)
  define ns where "ns = concat (map (snd (graph_of deps)) (sort queue))"
  have cnt: "count_list ns n = length (filter (\<lambda>p. p \<in> ?L) (preds deps n))" for n
    unfolding ns_def using count_list_layer [OF ok, of "sort queue" n] dis(1) by simp
  have r: "relaxed = relax_neighbours ns (in_degree, [])"
    by (simp add: rel relax_layer_concat ns_def)
  have split: "length (?un ?P n) = length (filter (\<lambda>p. p \<in> ?L) (preds deps n)) + length (?un (?P \<union> ?L) n)" for n
    by (rule length_filter_split) (use dis(2) in simp)
  have deg: "fst relaxed n = int (length (?un (?P \<union> ?L) n))" for n
    using split [of n] by (simp add: r relax_neighbours_deg deg0 cnt)
  obtain zs where zs: "snd relaxed = zs" "distinct zs"
      "set zs = {n. 0 < in_degree n \<and> in_degree n \<le> int (count_list ns n)}"
    using relax_neighbours_queue [of ns in_degree "[]"] by (auto simp: r)
  have le: "int (count_list ns n) \<le> in_degree n" for n
    using split [of n] by (simp add: deg0 cnt)
  have setz: "set zs = {n. 0 < in_degree n \<and> fst relaxed n = 0}"
    unfolding zs(3) using le by (auto simp: r relax_neighbours_deg intro: antisym)
  have P0: "in_degree n = 0" if "n \<in> ?P" for n
    using deps_before_concat [OF before that] by (auto simp: deg0 filter_empty_conv)
  have newq: "set zs = {n \<in> set (dkeys deps). n \<notin> ?P \<union> ?L \<and> fst relaxed n = 0}"
  proof (intro equalityI subsetI)
    fix n assume "n \<in> set zs"
    then have n: "0 < in_degree n" "fst relaxed n = 0" by (auto simp: setz)
    then have "n \<in> set (dkeys deps)"
      by (metis deg0 filter.simps(1) less_irrefl list.size(3) of_nat_0 preds_not_key)
    with n P0 q show "n \<in> {n \<in> set (dkeys deps). n \<notin> ?P \<union> ?L \<and> fst relaxed n = 0}" by force
  next
    fix n assume n: "n \<in> {n \<in> set (dkeys deps). n \<notin> ?P \<union> ?L \<and> fst relaxed n = 0}"
    then have "in_degree n \<noteq> 0" using q by auto
    with n show "n \<in> set zs" by (auto simp: setz deg0)
  qed
  have late: "\<not> set (preds deps n) \<subseteq> ?P" if "n \<in> set zs" for n
    using that by (auto simp: setz deg0 filter_empty_conv subset_iff)
  have ready: "set (preds deps n) \<subseteq> ?P" if "n \<in> ?L" for n
    using that by (auto simp: q deg0 filter_empty_conv)
  have cc: "set (concat (layers @ [sort queue])) = ?P \<union> ?L" by simp
  have ne': "sort queue \<noteq> []" using ne by (metis set_empty set_sort)
  show ?thesis
    unfolding kahn_inv_def
  proof (intro conjI)
    show "distinct (concat (layers @ [sort queue]) @ sort (snd relaxed))"
      using dis zs newq by auto
    show "set (concat (layers @ [sort queue])) \<union> set (sort (snd relaxed)) \<subseteq> set (dkeys deps)"
      using keys zs(1) newq by auto
    show "deps_before deps (layers @ [sort queue])"
      using before ready by (simp add: deps_before_snoc)
    show "earliest deps ((layers @ [sort queue]) @ [sort (snd relaxed)])"
      using inv late zs(1) unfolding earliest_snoc kahn_inv_def by simp
    show "\<forall>n. fst relaxed n = int (length (filter (\<lambda>p. p \<notin> set (concat (layers @ [sort queue]))) (preds deps n)))"
      by (simp only: cc deg simp_thms)
    show "set (sort (snd relaxed)) =
        {n \<in> set (dkeys deps). n \<notin> set (concat (layers @ [sort queue])) \<and> fst relaxed n = 0}"
      by (simp only: cc newq zs(1) set_sort)
    show "processed + length (sort queue) = length (concat (layers @ [sort queue]))"
      using inv by (simp add: kahn_inv_def)
    show "\<forall>l \<in> set (layers @ [sort queue]). sorted l \<and> l \<noteq> []"
      using inv ne' by (simp add: kahn_inv_def)
  qed
qed

lemma kahn_loop_inv:
  assumes "dict_ok deps" "kahn_inv deps in_degree queue layers processed"
    and "kahn_loop deps in_degree queue layers processed = (ls, k)"
  shows "\<exists>d. kahn_inv deps d [] ls k"
  using assms
proof (induction deps in_degree queue layers processed rule: kahn_loop.induct)
  case (1 deps in_degree queue layers processed)
  show ?case
  proof (cases "queue = []")
    case True
    with 1(3,4) show ?thesis by (auto simp: kahn_loop.simps)
  next
    case False
    from 1(1) [OF False refl refl 1(2) kahn_step [OF 1(2,3) False refl]] 1(4) False
    show ?thesis by (simp add: kahn_loop.simps [of deps in_degree queue] Let_def)
  qed
qed

lemma kahn_init:
  assumes "dict_ok deps"
  shows "kahn_inv deps (fst (graph_of deps))
           (sort (filter (\<lambda>n. fst (graph_of deps) n = 0) (dkeys deps))) [] 0"
  using assms by (auto simp: kahn_inv_def in_degree_graph deps_before_def earliest_def)

lemma kahn_final:
  assumes inv: "kahn_inv deps d [] ls k"
  shows "k = length (concat ls)" "set (concat ls) \<subseteq> set (dkeys deps)" "distinct (concat ls)"
    and "\<forall>l \<in> set ls. sorted l \<and> l \<noteq> []" "deps_before deps ls" "earliest deps ls"
  using inv by (auto simp: kahn_inv_def earliest_snoc)

lemma kahn_final_stuck:
  assumes "kahn_inv deps d [] ls k" "n \<in> set (dkeys deps)" "set (preds deps n) \<subseteq> set (concat ls)"
  shows "n \<in> set (concat ls)"
proof -
  have "filter (\<lambda>p. p \<notin> set (concat ls)) (preds deps n) = []"
    using assms(3) by (auto simp: filter_empty_conv)
  then have "d n = 0" using assms(1) by (simp add: kahn_inv_def)
  moreover have "set [] = {m \<in> set (dkeys deps). m \<notin> set (concat ls) \<and> d m = 0}"
    using assms(1) unfolding kahn_inv_def by (elim conjE)
  ultimately show ?thesis using assms(2) by (metis (mono_tags, lifting) emptyE list.set(1) mem_Collect_eq)
qed

lemma compute_layers_cases:
  assumes "dict_ok deps"
  obtains (Ok) ls where "compute_layers deps = Inr ls" "valid_layers deps ls"
  | (Cycle) e P where "compute_layers deps = Inl e" "P \<subset> set (dkeys deps)"
      "\<And>n. n \<in> set (dkeys deps) \<Longrightarrow> set (preds deps n) \<subseteq> P \<Longrightarrow> n \<in> P"
proof (cases "deps = []")
  case True
  with Ok [of "[]"] show ?thesis
    by (simp add: compute_layers_def valid_layers_def deps_before_def earliest_def)
next
  case False
  obtain ls k where run: "kahn_loop deps (fst (graph_of deps))
      (sort (filter (\<lambda>n. fst (graph_of deps) n = 0) (dkeys deps))) [] 0 = (ls, k)"
    by fastforce
  from kahn_loop_inv [OF assms kahn_init [OF assms] run] obtain d where d: "kahn_inv deps d [] ls k" by blast
  note fin = kahn_final [OF d]
  have card: "length (concat ls) = card (set (concat ls))" "length deps = card (set (dkeys deps))"
    using fin(3) assms by (metis distinct_card, metis distinct_card length_map)
  show ?thesis
  proof (cases "k = length deps")
    case True
    have "set (concat ls) = set (dkeys deps)"
      using card True fin(1,2) by (metis List.finite_set card_subset_eq)
    with fin have "valid_layers deps ls" by (simp add: valid_layers_def)
    moreover from run True False have "compute_layers deps = Inr ls"
      by (simp add: compute_layers_def Let_def)
    ultimately show ?thesis using Ok by blast
  next
    case False
    with \<open>deps \<noteq> []\<close> run obtain e where "compute_layers deps = Inl e"
      by (simp add: compute_layers_def Let_def)
    moreover have "set (concat ls) \<subset> set (dkeys deps)"
      using card False fin(1,2) by (metis psubsetI)
    ultimately show ?thesis using Cycle kahn_final_stuck [OF d] by blast
  qed
qed

lemma in_concat_nth: "n \<in> set (concat ls) \<longleftrightarrow> (\<exists>i < length ls. n \<in> set (ls ! i))"
  by (simp add: in_set_conv_nth [of _ ls] Bex_def) (metis nth_mem)

lemma layered_acyclic:
  assumes before: "deps_before deps ls" and nodes: "set (dkeys deps) \<subseteq> set (concat ls)"
  shows "acyclic (dep_edges deps)"
proof -
  define level where "level n = (LEAST i. i < length ls \<and> n \<in> set (ls ! i))" for n
  have "level p < level n" if "(p, n) \<in> dep_edges deps" for p n
  proof -
    from that nodes have "n \<in> set (concat ls)" and p: "p \<in> set (preds deps n)"
      unfolding dep_edges_def by blast+
    then have "\<exists>i. i < length ls \<and> n \<in> set (ls ! i)" by (simp only: in_concat_nth)
    then have ln: "level n < length ls \<and> n \<in> set (ls ! level n)" unfolding level_def by (rule LeastI_ex)
    with p have "p \<in> set (concat (take (level n) ls))" using deps_before_take [OF before] by blast
    then obtain j where "j < level n" "j < length ls" "p \<in> set (ls ! j)"
      unfolding in_concat_nth by auto
    then show ?thesis unfolding level_def [of p] by (metis (mono_tags, lifting) Least_le le_less_trans)
  qed
  then have "dep_edges deps \<subseteq> measure level" by auto
  then show ?thesis by (metis acyclic_subset wf_acyclic wf_measure)
qed

lemma valid_layers_dag: "valid_layers deps ls \<Longrightarrow> is_dag deps"
proof -
  assume v: "valid_layers deps ls"
  then have before: "deps_before deps ls" and nodes: "set (concat ls) = set (dkeys deps)"
    by (simp_all add: valid_layers_def)
  from nodes have "acyclic (dep_edges deps)" by (intro layered_acyclic [OF before]) simp
  moreover have "closed_deps deps"
    using deps_before_concat [OF before] unfolding closed_deps_def nodes by blast
  ultimately show ?thesis by (simp add: is_dag_def)
qed

text \<open>Soundness and completeness together: a layering is returned exactly for the closed, acyclic graphs.\<close>

lemma compute_layers_sound:
  assumes "dict_ok deps" "compute_layers deps = Inr ls"
  shows "valid_layers deps ls"
  using assms(1) by (rule compute_layers_cases) (use assms(2) in auto)

lemma compute_layers_complete:
  assumes "dict_ok deps"
  shows "is_ok (compute_layers deps) \<longleftrightarrow> is_dag deps"
  using assms
proof (cases rule: compute_layers_cases)
  case (Ok ls)
  then show ?thesis by (simp add: valid_layers_dag)
next
  case (Cycle e P)
  then show ?thesis using dag_progress [of deps P] by auto
qed

section \<open>The interface its clients rely on\<close>

text \<open>
  The saga orchestrator, the compositor and the composition validator call
  \<open>compute_layers\<close> and rely on two laws only: a result is a valid layering, and there is a result
  exactly when the graph is closed and acyclic. Their lemmas about layers are proved from these laws.
\<close>

locale layering =
  fixes layers_of :: "('a::linorder) dep_map \<Rightarrow> exn + 'a list list"
  assumes layers_valid: "dict_ok deps \<Longrightarrow> layers_of deps = Inr ls \<Longrightarrow> valid_layers deps ls"
    and layers_exist: "dict_ok deps \<Longrightarrow> is_ok (layers_of deps) \<longleftrightarrow> is_dag deps"
begin

lemma layer_nodes: "dict_ok deps \<Longrightarrow> layers_of deps = Inr ls \<Longrightarrow> set (concat ls) = set (dkeys deps)"
  by (drule (1) layers_valid) (simp add: valid_layers_def)

lemma layers_distinct: "dict_ok deps \<Longrightarrow> layers_of deps = Inr ls \<Longrightarrow> distinct (concat ls)"
  by (drule (1) layers_valid) (simp add: valid_layers_def)

lemma layer_not_empty: "dict_ok deps \<Longrightarrow> layers_of deps = Inr ls \<Longrightarrow> l \<in> set ls \<Longrightarrow> l \<noteq> []"
  by (drule (1) layers_valid) (simp add: valid_layers_def)

lemma deps_in_earlier_layers:
  assumes "dict_ok deps" "layers_of deps = Inr (before @ l # after)" "n \<in> set l"
  shows "set (preds deps n) \<subseteq> set (concat before)"
proof -
  have "deps_before deps (before @ l # after)"
    using layers_valid [OF assms(1,2)] by (simp add: valid_layers_def)
  from deps_before_take [OF this, of "length before" n] assms(3) show ?thesis by simp
qed

lemma dag_has_layers: "dict_ok deps \<Longrightarrow> is_dag deps \<Longrightarrow> \<exists>ls. layers_of deps = Inr ls"
  using layers_exist by (simp add: is_ok_iff)

lemma no_layers_not_dag: "dict_ok deps \<Longrightarrow> layers_of deps = Inl e \<Longrightarrow> \<not> is_dag deps"
  using layers_exist [of deps] by simp

end

interpretation kahn: layering compute_layers
  by unfold_locales (auto simp: compute_layers_sound compute_layers_complete)

section \<open>Properties\<close>

text \<open>
  Claim C4. \<^verbatim>\<open>SagaTopology.compute_layers\<close> is correct and complete: on a dependency map it
  either returns layers that list every node exactly once, sorted within a layer, each node after
  all of its predecessors and as early as they allow; or it raises, and then some predecessor is not
  a node or the graph has a cycle.
\<close>

theorem compute_layers_correct:
  assumes "dict_ok deps"
  shows "case compute_layers deps of
           Inr ls \<Rightarrow> valid_layers deps ls \<and> is_dag deps
         | Inl e \<Rightarrow> exc_cls e = ValueErrorC \<and> \<not> is_dag deps"
proof (cases "compute_layers deps")
  case (Inl e)
  then have "exc_cls e = ValueErrorC"
    by (auto simp: compute_layers_def Let_def split: if_splits prod.splits)
  with Inl kahn.no_layers_not_dag [OF assms Inl] show ?thesis by simp
next
  case (Inr ls)
  with kahn.layers_valid [OF assms Inr] show ?thesis by (simp add: valid_layers_dag)
qed

theorem compute_layers_correct_witness:
  "compute_layers [(4::nat, [2, 3]), (2, [1]), (3, [1]), (1, [])] = Inr [[1], [2, 3], [4]] \<and>
   valid_layers [(4::nat, [2, 3]), (2, [1]), (3, [1]), (1, [])] [[1], [2, 3], [4]]"
proof -
  have "compute_layers [(4::nat, [2, 3]), (2, [1]), (3, [1]), (1, [])] = Inr [[1], [2, 3], [4]]"
    by (simp add: compute_layers_def graph_of_def kahn_loop.simps)
  with compute_layers_correct [of "[(4::nat, [2, 3]), (2, [1]), (3, [1]), (1, [])]"] show ?thesis by simp
qed

end
