(* ===== verification/SagaRegistry.thy ===== *)
theory SagaRegistry
  imports ArgResolver Topology
begin

text \<open>
  Where saga definitions come from: the decorators of \<^verbatim>\<open>saga/annotations.py\<close>, the registry of
  \<^verbatim>\<open>saga/registry/saga_registry.py\<close> and the builder of \<^verbatim>\<open>saga/registry/saga_builder.py\<close>, with the
  validation of the dependency graph that both run.
\<close>

section \<open>Decorators\<close>

text \<open>
  The metadata \<^verbatim>\<open>@saga_step\<close> writes. The wrapper it returns is a synchronous function that calls
  the decorated one: it is never a coroutine function, and around a coroutine function it returns the
  coroutine object.
\<close>

record step_meta =
  mt_id :: string
  mt_compensate :: "string option"
  mt_depends_on :: "string list"
  mt_retry :: int
  mt_backoff_ms :: int
  mt_timeout_ms :: int
  mt_jitter :: bool
  mt_jitter_factor :: rat
  mt_cpu_bound :: bool
  mt_idempotency_key :: "string option"
  mt_compensation_retry :: "int option"
  mt_compensation_backoff_ms :: "int option"
  mt_compensation_timeout_ms :: "int option"
  mt_compensation_critical :: bool

text \<open>An attribute of a class: a decorated step, any other callable, or \<^verbatim>\<open>None\<close>.\<close>

datatype class_attr = StepAttr step_meta py_method | MethodAttr py_method | NoneAttr

definition saga_step :: "step_meta \<Rightarrow> py_method \<Rightarrow> class_attr" where
  "saga_step meta func = StepAttr meta (sync_wrapper func)"

text \<open>The class of a bean: \<^verbatim>\<open>__pyfly_saga__\<close> if \<^verbatim>\<open>@saga\<close> set it, and the attributes by name.\<close>

record saga_class =
  cl_qualname :: string
  cl_saga_meta :: "(string \<times> int) option"
  cl_attrs :: "(string, class_attr) dict"

definition saga_decorator :: "string \<Rightarrow> int \<Rightarrow> saga_class \<Rightarrow> saga_class" where
  "saga_decorator name lc cls = cls\<lparr>cl_saga_meta := Some (name, lc)\<rparr>"

definition attr_callable :: "class_attr \<Rightarrow> py_method option" where
  "attr_callable a = (case a of StepAttr _ m \<Rightarrow> Some m | MethodAttr m \<Rightarrow> Some m | NoneAttr \<Rightarrow> None)"

text \<open>\<^verbatim>\<open>getattr(cls, name, None)\<close>\<close>

definition class_getattr :: "saga_class \<Rightarrow> string \<Rightarrow> class_attr" where
  "class_getattr cls name = dget_default (cl_attrs cls) name NoneAttr"

section \<open>Validation of the dependency graph\<close>

text \<open>
  \<^verbatim>\<open>_validate_dag\<close>. The set of step ids is iterated in an order the hash decides; \<open>order\<close>
  is that order. Unlike \<open>compute_layers\<close>, the loop asks \<^verbatim>\<open>current in step_def.depends_on\<close> and so
  takes one off the in-degree per predecessor, while the in-degree counts every occurrence.
\<close>

fun missing_dep :: "string set \<Rightarrow> string \<Rightarrow> string list \<Rightarrow> string option" where
  "missing_dep step_ids step_id [] = None"
| "missing_dep step_ids step_id (dep # deps) =
     (if dep \<notin> step_ids then Some dep else missing_dep step_ids step_id deps)"

fun check_refs :: "string \<Rightarrow> string set \<Rightarrow> (string, step_def) dict \<Rightarrow> exn option" where
  "check_refs name step_ids [] = None"
| "check_refs name step_ids ((step_id, sd) # rest) =
     (case missing_dep step_ids step_id (depends_on sd) of
        Some dep \<Rightarrow> Some (Exn SagaValidationErrorC ''Step {} in saga {} depends on {} which is nonexistent''
                       [VStr step_id, VStr name, VStr dep])
      | None \<Rightarrow> check_refs name step_ids rest)"

fun count_deps :: "step_def list \<Rightarrow> (string \<Rightarrow> int) \<Rightarrow> (string \<Rightarrow> int)" where
  "count_deps [] in_degree = in_degree"
| "count_deps (sd # sds) in_degree =
     count_deps sds (in_degree(sd_id sd := in_degree (sd_id sd) + int (length (depends_on sd))))"

fun release_deps ::
  "string \<Rightarrow> step_def list \<Rightarrow> (string \<Rightarrow> int) \<times> string list \<Rightarrow> (string \<Rightarrow> int) \<times> string list"
where
  "release_deps current [] (in_degree, queue) = (in_degree, queue)"
| "release_deps current (sd # sds) (in_degree, queue) =
     (if current \<in> set (depends_on sd)
      then let in_degree' = in_degree(sd_id sd := in_degree (sd_id sd) - 1)
           in release_deps current sds
                (in_degree', if in_degree' (sd_id sd) = 0 then queue @ [sd_id sd] else queue)
      else release_deps current sds (in_degree, queue))"

text \<open>
  Releasing is the relaxation of the topology's search on the steps that name the node. The loop
  takes the head of the queue; it stops since a node enters the queue only when its in-degree reaches
  zero from above.
\<close>

lemma release_deps_relax:
  "release_deps c sds st = relax_neighbours (map sd_id (filter (\<lambda>sd. c \<in> set (depends_on sd)) sds)) st"
  by (induction c sds st rule: release_deps.induct) (auto simp: Let_def)

function drain :: "step_def list \<Rightarrow> (string \<Rightarrow> int) \<Rightarrow> string list \<Rightarrow> nat \<Rightarrow> nat" where
  "drain sds in_degree [] processed = processed"
| "drain sds in_degree (current # queue) processed =
     drain sds (fst (release_deps current sds (in_degree, queue)))
       (snd (release_deps current sds (in_degree, queue))) (Suc processed)"
  by pat_completeness auto
termination
proof (relation "measure (\<lambda>(sds, d, q, _). card {n \<in> sd_id ` set sds. 0 < d n} + length q)", goal_cases)
  case (2 sds d c q k)
  have "set (map sd_id (filter (\<lambda>sd. c \<in> set (depends_on sd)) sds)) \<subseteq> sd_id ` set sds" by auto
  from relax_neighbours_measure [OF _ this, of d q] show ?case by (simp add: release_deps_relax)
qed simp

definition validate_dag :: "string list \<Rightarrow> saga_def \<Rightarrow> exn option" where
  "validate_dag order sg =
     (let step_ids = set (dkeys (steps sg)); sds = dvals (steps sg)
      in case check_refs (sg_name sg) step_ids (steps sg) of
           Some e \<Rightarrow> Some e
         | None \<Rightarrow>
             let in_degree = count_deps sds (\<lambda>_. 0);
                 processed = drain sds in_degree (filter (\<lambda>sid. in_degree sid = 0) order) 0
             in if processed \<noteq> length (steps sg)
                then Some (Exn SagaValidationErrorC
                       ''Saga {} contains a dependency cycle (processed {}/{} steps)''
                       [VStr (sg_name sg), VInt (int processed), VInt (int (length (steps sg)))])
                else None)"

section \<open>SagaRegistry\<close>

definition step_def_of_meta :: "saga_class \<Rightarrow> step_meta \<Rightarrow> py_method \<Rightarrow> step_def" where
  "step_def_of_meta cls meta m =
     \<lparr>sd_id = mt_id meta, step_method = Some m, compensate_name = mt_compensate meta,
      compensate_method = (case mt_compensate meta of None \<Rightarrow> None
                           | Some name \<Rightarrow> attr_callable (class_getattr cls name)),
      depends_on = mt_depends_on meta, retry = mt_retry meta, backoff_ms = mt_backoff_ms meta,
      timeout_ms = mt_timeout_ms meta, jitter = mt_jitter meta,
      jitter_factor = mt_jitter_factor meta, cpu_bound = mt_cpu_bound meta,
      idempotency_key = mt_idempotency_key meta, compensation_retry = mt_compensation_retry meta,
      compensation_backoff_ms = mt_compensation_backoff_ms meta,
      compensation_timeout_ms = mt_compensation_timeout_ms meta,
      compensation_critical = mt_compensation_critical meta\<rparr>"

text \<open>The loop over \<^verbatim>\<open>dir(cls)\<close>, which lists the attribute names in sorted order.\<close>

fun collect_steps :: "saga_class \<Rightarrow> string list \<Rightarrow> (string, step_def) dict \<Rightarrow> (string, step_def) dict" where
  "collect_steps cls [] acc = acc"
| "collect_steps cls (attr_name # names) acc =
     (case class_getattr cls attr_name of
        StepAttr meta m \<Rightarrow> collect_steps cls names (dput (mt_id meta) (step_def_of_meta cls meta m) acc)
      | _ \<Rightarrow> collect_steps cls names acc)"

type_synonym saga_registry = "(string, saga_def) dict"

definition register_from_bean ::
  "string list \<Rightarrow> saga_class \<Rightarrow> pyval \<Rightarrow> saga_registry \<Rightarrow> exn + saga_def \<times> saga_registry"
where
  "register_from_bean order cls bean reg =
     (case cl_saga_meta cls of
        None \<Rightarrow> Inl (Exn SagaValidationErrorC ''{} is not decorated with @saga'' [VStr (cl_qualname cls)])
      | Some (name, lc) \<Rightarrow>
          (let definition = \<lparr>sg_name = name, sg_bean = bean, layer_concurrency = lc,
                             steps = collect_steps cls (sort (dkeys (cl_attrs cls))) []\<rparr>
           in case validate_dag order definition of
                Some e \<Rightarrow> Inl e
              | None \<Rightarrow> Inr (definition, dput name definition reg)))"

definition registry_get :: "saga_registry \<Rightarrow> string \<Rightarrow> saga_def option" where
  "registry_get reg name = dget reg name"

definition registry_get_all :: "saga_registry \<Rightarrow> saga_def list" where
  "registry_get_all reg = dvals reg"

section \<open>SagaBuilder\<close>

record step_builder =
  stb_step_id :: string
  stb_handler_fn :: "py_method option"
  stb_compensate_fn :: "py_method option"
  stb_depends_on :: "string list"
  stb_retry :: int
  stb_backoff_ms :: int
  stb_timeout_ms :: int
  stb_jitter :: bool
  stb_jitter_factor :: rat
  stb_cpu_bound :: bool

definition new_step_builder :: "string \<Rightarrow> step_builder" where
  "new_step_builder step_id = \<lparr>stb_step_id = step_id, stb_handler_fn = None, stb_compensate_fn = None,
     stb_depends_on = [], stb_retry = 0, stb_backoff_ms = 0, stb_timeout_ms = 0,
     stb_jitter = False, stb_jitter_factor = 0, stb_cpu_bound = False\<rparr>"

text \<open>The fluent setters; \<^verbatim>\<open>depends_on\<close> extends, the others overwrite.\<close>

datatype step_setting =
    Handler py_method
  | Compensate py_method
  | DependsOn "string list"
  | Retry int
  | BackoffMs int
  | TimeoutMs int
  | Jitter bool rat
  | CpuBound bool

fun configure :: "step_setting \<Rightarrow> step_builder \<Rightarrow> step_builder" where
  "configure (Handler f) sb = sb\<lparr>stb_handler_fn := Some f\<rparr>"
| "configure (Compensate f) sb = sb\<lparr>stb_compensate_fn := Some f\<rparr>"
| "configure (DependsOn ids) sb = sb\<lparr>stb_depends_on := stb_depends_on sb @ ids\<rparr>"
| "configure (Retry count) sb = sb\<lparr>stb_retry := count\<rparr>"
| "configure (BackoffMs ms) sb = sb\<lparr>stb_backoff_ms := ms\<rparr>"
| "configure (TimeoutMs ms) sb = sb\<lparr>stb_timeout_ms := ms\<rparr>"
| "configure (Jitter enabled factor) sb = sb\<lparr>stb_jitter := enabled, stb_jitter_factor := factor\<rparr>"
| "configure (CpuBound enabled) sb = sb\<lparr>stb_cpu_bound := enabled\<rparr>"

definition build_step :: "step_builder \<Rightarrow> step_def" where
  "build_step sb = (step_default (stb_step_id sb))
     \<lparr>step_method := stb_handler_fn sb, compensate_method := stb_compensate_fn sb,
      depends_on := stb_depends_on sb, retry := stb_retry sb, backoff_ms := stb_backoff_ms sb,
      timeout_ms := stb_timeout_ms sb, jitter := stb_jitter sb,
      jitter_factor := stb_jitter_factor sb, cpu_bound := stb_cpu_bound sb\<rparr>"

record saga_builder =
  sb_name :: string
  sb_layer_concurrency :: int
  sb_step_builders :: "step_builder list"
  sb_step_ids :: "string set"

definition new_saga_builder :: "string \<Rightarrow> saga_builder" where
  "new_saga_builder name = \<lparr>sb_name = name, sb_layer_concurrency = 0, sb_step_builders = [], sb_step_ids = {}\<rparr>"

definition set_layer_concurrency :: "int \<Rightarrow> saga_builder \<Rightarrow> saga_builder" where
  "set_layer_concurrency n b = b\<lparr>sb_layer_concurrency := n\<rparr>"

definition add_step :: "step_builder \<Rightarrow> saga_builder \<Rightarrow> exn + saga_builder" where
  "add_step sb b =
     (if stb_step_id sb \<in> sb_step_ids b
      then Inl (Exn SagaValidationErrorC ''Step {} already exists in saga {}''
                  [VStr (stb_step_id sb), VStr (sb_name b)])
      else Inr (b\<lparr>sb_step_ids := insert (stb_step_id sb) (sb_step_ids b),
                 sb_step_builders := sb_step_builders b @ [sb]\<rparr>))"

fun build_steps :: "string \<Rightarrow> step_builder list \<Rightarrow> (string, step_def) dict \<Rightarrow> exn + (string, step_def) dict" where
  "build_steps name [] acc = Inr acc"
| "build_steps name (sb # sbs) acc =
     (let sd = build_step sb
      in case step_method sd of
           None \<Rightarrow> Inl (Exn SagaValidationErrorC ''Step {} in saga {} must have a handler''
                      [VStr (sd_id sd), VStr name])
         | Some _ \<Rightarrow> build_steps name sbs (dput (sd_id sd) sd acc))"

text \<open>The builder has its own copy of the validation, line for line that of the registry.\<close>

definition builder_validate_dag :: "string list \<Rightarrow> saga_def \<Rightarrow> exn option" where
  "builder_validate_dag order sg = validate_dag order sg"

definition build_saga :: "string list \<Rightarrow> saga_builder \<Rightarrow> exn + saga_def" where
  "build_saga order b =
     (if sb_step_builders b = []
      then Inl (Exn SagaValidationErrorC ''Saga {} must have at least one step'' [VStr (sb_name b)])
      else case build_steps (sb_name b) (sb_step_builders b) [] of
             Inl e \<Rightarrow> Inl e
           | Inr sds \<Rightarrow>
               (let definition = \<lparr>sg_name = sb_name b, sg_bean = VNone,
                                  layer_concurrency = sb_layer_concurrency b, steps = sds\<rparr>
                in case builder_validate_dag order definition of
                     Some e \<Rightarrow> Inl e
                   | None \<Rightarrow> Inr definition))"

section \<open>Correctness of the validation\<close>

lemma missing_dep_iff: "missing_dep ids sid deps = None \<longleftrightarrow> set deps \<subseteq> ids"
  by (induction ids sid deps rule: missing_dep.induct) auto

lemma check_refs_iff:
  "check_refs name ids sds = None \<longleftrightarrow> (\<forall>(k, sd) \<in> set sds. set (depends_on sd) \<subseteq> ids)"
proof (induction name ids sds rule: check_refs.induct)
  case (2 name ids sid sd rest)
  then show ?case
    by (cases "missing_dep ids sid (depends_on sd)") (simp_all add: missing_dep_iff [of ids sid, symmetric])
qed simp

lemma count_deps_other: "n \<notin> sd_id ` set sds \<Longrightarrow> count_deps sds d n = d n"
  by (induction sds arbitrary: d) auto

lemma count_deps_eq:
  "distinct (map sd_id sds) \<Longrightarrow> sd \<in> set sds \<Longrightarrow>
     count_deps sds d (sd_id sd) = d (sd_id sd) + int (length (depends_on sd))"
  by (induction sds arbitrary: d) (auto simp: count_deps_other rev_image_eqI)

lemma count_dependants:
  "distinct (map sd_id sds) \<Longrightarrow> sd \<in> set sds \<Longrightarrow>
     count_list (map sd_id (filter (\<lambda>sd. c \<in> set (depends_on sd)) sds)) (sd_id sd) =
       (if c \<in> set (depends_on sd) then 1 else 0)"
proof (induction sds)
  case (Cons x sds)
  have none: "count_list (map sd_id (filter P sds)) (sd_id x) = 0" for P
    using Cons.prems(1) by (auto simp: count_list_0_iff)
  from Cons none show ?case by (auto simp: rev_image_eqI)
qed simp

text \<open>
  The invariant of the loop. \<open>P\<close> are the processed nodes in order: an in-degree is the number of
  occurrences in \<^verbatim>\<open>depends_on\<close> less the number of distinct processed predecessors, and the nodes
  of in-degree zero are those processed or queued.
\<close>

definition drain_inv :: "saga_def \<Rightarrow> string list \<Rightarrow> (string \<Rightarrow> int) \<Rightarrow> string list \<Rightarrow> bool" where
  "drain_inv sg P d queue \<longleftrightarrow>
     distinct (P @ queue) \<and>
     (\<forall>n \<in> set (dkeys (steps sg)). d n =
        int (length (preds (step_deps sg) n)) - int (card (set (preds (step_deps sg) n) \<inter> set P))) \<and>
     set (P @ queue) = {n \<in> set (dkeys (steps sg)). d n = 0} \<and>
     deps_before (step_deps sg) (map (\<lambda>n. [n]) P)"

lemma preds_step_deps: "dget (steps sg) n = Some sd \<Longrightarrow> preds (step_deps sg) n = depends_on sd"
  by (simp add: preds_def dget_default_def dget_step_deps)

lemma saga_step_at:
  assumes "saga_def_ok sg" "n \<in> set (dkeys (steps sg))"
  obtains sd where "sd \<in> set (dvals (steps sg))" "sd_id sd = n" "preds (step_deps sg) n = depends_on sd"
proof -
  from assms(2) obtain sd where sd: "dget (steps sg) n = Some sd" using in_keys_dget by metis
  moreover from sd have "sd \<in> set (dvals (steps sg))" by (force dest: map_of_SomeD)
  ultimately show ?thesis using that saga_def_ok_id [OF assms(1)] preds_step_deps by blast
qed

lemma saga_ids:
  assumes "saga_def_ok sg"
  shows "map sd_id (dvals (steps sg)) = dkeys (steps sg)" "distinct (map sd_id (dvals (steps sg)))"
proof -
  show *: "map sd_id (dvals (steps sg)) = dkeys (steps sg)"
    using assms by (force simp: saga_def_ok_def)
  show "distinct (map sd_id (dvals (steps sg)))"
    unfolding * using assms by (simp add: saga_def_ok_def)
qed

lemma drain_step:
  assumes ok: "saga_def_ok sg" and inv: "drain_inv sg P d (c # queue)"
    and rel: "r = release_deps c (dvals (steps sg)) (d, queue)"
  shows "drain_inv sg (P @ [c]) (fst r) (snd r)"
proof -
  let ?sds = "dvals (steps sg)" and ?K = "set (dkeys (steps sg))"
  let ?pr = "preds (step_deps sg)"
  define ns where "ns = map sd_id (filter (\<lambda>sd. c \<in> set (depends_on sd)) ?sds)"
  have cnt: "count_list ns n = (if c \<in> set (?pr n) then 1 else 0)" if n: "n \<in> ?K" for n
  proof -
    obtain sd where "sd \<in> set ?sds" "sd_id sd = n" "?pr n = depends_on sd"
      using saga_step_at [OF ok n] .
    then show ?thesis using count_dependants [OF saga_ids(2) [OF ok], of sd c] by (simp add: ns_def)
  qed
  have out: "count_list ns n = 0" if "n \<notin> ?K" for n
    using that saga_ids(1) [OF ok] by (auto simp: ns_def count_list_0_iff)
  have dis: "distinct (P @ c # queue)" and c: "c \<notin> set P"
    and dn: "\<And>n. n \<in> ?K \<Longrightarrow> d n = int (length (?pr n)) - int (card (set (?pr n) \<inter> set P))"
    and q: "set (P @ c # queue) = {n \<in> ?K. d n = 0}"
    and before: "deps_before (step_deps sg) (map (\<lambda>n. [n]) P)"
    using inv by (auto simp: drain_inv_def)
  have r: "r = relax_neighbours ns (d, queue)" by (simp add: rel release_deps_relax ns_def)
  have deg: "fst r n = d n - int (count_list ns n)" for n by (simp add: r relax_neighbours_deg)
  obtain zs where zs: "snd r = queue @ zs" "distinct zs"
      "set zs = {n. 0 < d n \<and> d n \<le> int (count_list ns n)}"
    using relax_neighbours_queue [of ns d queue] unfolding r [symmetric] by (elim exE conjE)
  have card: "card (set (?pr n) \<inter> set (P @ [c])) =
      card (set (?pr n) \<inter> set P) + (if c \<in> set (?pr n) then 1 else 0)" for n
    using c by (simp add: Int_insert_right)
  have nonneg: "0 \<le> d n" if "n \<in> ?K" for n
    using dn [OF that] card_mono [of "set (?pr n)" "set (?pr n) \<inter> set P"] card_length [of "?pr n"]
    by simp
  have deg': "fst r n = int (length (?pr n)) - int (card (set (?pr n) \<inter> set (P @ [c])))"
    if "n \<in> ?K" for n
    using deg [of n] dn [OF that] cnt [OF that] card [of n] by simp
  have nonneg': "0 \<le> fst r n" if "n \<in> ?K" for n
    using deg' [OF that] card_mono [of "set (?pr n)" "set (?pr n) \<inter> set (P @ [c])"] card_length [of "?pr n"]
    by simp
  have zsK: "n \<in> ?K" if "n \<in> set zs" for n
  proof (rule ccontr)
    assume "n \<notin> ?K"
    from out [OF this] that show False by (auto simp: zs(3))
  qed
  have all: "set ((P @ [c]) @ snd r) = {n \<in> ?K. fst r n = 0}"
  proof (intro equalityI subsetI)
    fix n assume "n \<in> set ((P @ [c]) @ snd r)"
    then consider "n \<in> set (P @ c # queue)" | "n \<in> set zs" by (auto simp: zs(1))
    then show "n \<in> {n \<in> ?K. fst r n = 0}"
    proof cases
      case 1
      then have "n \<in> ?K" "d n = 0" unfolding q by auto
      with deg [of n] nonneg' [of n] show ?thesis by simp
    next
      case 2
      with deg [of n] nonneg' [of n] zsK [of n] show ?thesis by (auto simp: zs(3))
    qed
  next
    fix n assume n: "n \<in> {n \<in> ?K. fst r n = 0}"
    show "n \<in> set ((P @ [c]) @ snd r)"
    proof (cases "d n = 0")
      case True
      with n have "n \<in> set (P @ c # queue)" unfolding q by simp
      then show ?thesis by (auto simp: zs(1))
    next
      case False
      with n nonneg [of n] deg [of n] have "n \<in> set zs" by (auto simp: zs(3))
      then show ?thesis by (simp add: zs(1))
    qed
  qed
  have "set zs \<inter> set (P @ c # queue) = {}" unfolding q by (auto simp: zs(3))
  then have dis': "distinct ((P @ [c]) @ snd r)" using dis zs(1,2) by auto
  have "d c = 0" "c \<in> ?K" using q by auto
  then have "length (?pr c) = card (set (?pr c) \<inter> set P)" using dn by simp
  then have "card (set (?pr c)) \<le> card (set (?pr c) \<inter> set P)" using card_length [of "?pr c"] by simp
  then have "set (?pr c) \<inter> set P = set (?pr c)"
    by (intro card_seteq) auto
  then have "set (?pr c) \<subseteq> set P" by blast
  then have "deps_before (step_deps sg) (map (\<lambda>n. [n]) (P @ [c]))"
    using before by (simp add: deps_before_snoc)
  with dis' all deg' show ?thesis by (simp add: drain_inv_def)
qed

lemma drain_inv_final:
  assumes "saga_def_ok sg" "drain_inv sg P d queue"
  shows "\<exists>P' d'. drain_inv sg P' d' [] \<and> drain (dvals (steps sg)) d queue (length P) = length P'"
  using assms
proof (induction "dvals (steps sg)" d queue "length P" arbitrary: P rule: drain.induct)
  case (1 d)
  then show ?case by auto
next
  case (2 d c queue)
  from drain_step [OF 2(2,3) refl] 2(1) [of "P @ [c]"] 2(2) show ?case by simp
qed

lemma drain_inv_init:
  assumes ok: "saga_def_ok sg" and ord: "distinct order" "set order = set (dkeys (steps sg))"
  shows "drain_inv sg [] (count_deps (dvals (steps sg)) (\<lambda>_. 0))
           (filter (\<lambda>sid. count_deps (dvals (steps sg)) (\<lambda>_. 0) sid = 0) order)"
proof -
  have "count_deps (dvals (steps sg)) (\<lambda>_. 0) n = int (length (preds (step_deps sg) n))"
    if n: "n \<in> set (dkeys (steps sg))" for n
  proof -
    obtain sd where "sd \<in> set (dvals (steps sg))" "sd_id sd = n" "preds (step_deps sg) n = depends_on sd"
      using saga_step_at [OF ok n] .
    then show ?thesis using count_deps_eq [OF saga_ids(2) [OF ok], of sd "\<lambda>_. 0"] by simp
  qed
  with ord show ?thesis by (simp add: drain_inv_def deps_before_def)
qed

text \<open>
  The validation accepts a definition exactly when its graph has a layering and no step names a
  predecessor twice, in whatever order the set of ids is iterated.
\<close>

lemma drained_all_iff:
  assumes ok: "saga_def_ok sg" and inv: "drain_inv sg P d []" and closed: "closed_deps (step_deps sg)"
  shows "length P = length (steps sg) \<longleftrightarrow>
           is_dag (step_deps sg) \<and> (\<forall>sd \<in> set (dvals (steps sg)). distinct (depends_on sd))"
    (is "?L \<longleftrightarrow> ?R")
proof -
  let ?K = "set (dkeys (steps sg))" and ?pr = "preds (step_deps sg)"
  have dP: "distinct P" and P: "set P = {n \<in> ?K. d n = 0}"
    and dn: "\<And>n. n \<in> ?K \<Longrightarrow> d n = int (length (?pr n)) - int (card (set (?pr n) \<inter> set P))"
    and before: "deps_before (step_deps sg) (map (\<lambda>n. [n]) P)"
    using inv by (auto simp: drain_inv_def)
  have len: "length P = length (steps sg) \<longleftrightarrow> set P = ?K"
  proof -
    have "length P = card (set P)" "length (steps sg) = card ?K"
      using dP ok distinct_card [of P] distinct_card [of "dkeys (steps sg)"] by (simp_all add: saga_def_ok_def)
    moreover have "set P \<subseteq> ?K" using P by blast
    ultimately show ?thesis by (metis List.finite_set card_subset_eq)
  qed
  show ?thesis
  proof
    assume ?L
    then have PK: "set P = ?K" using len by simp
    have "is_dag (step_deps sg)"
    proof -
      have "acyclic (dep_edges (step_deps sg))"
        using PK by (intro layered_acyclic [OF before]) simp
      with closed show ?thesis by (simp add: is_dag_def)
    qed
    moreover have "distinct (depends_on sd)" if sd: "sd \<in> set (dvals (steps sg))" for sd
    proof -
      have n: "sd_id sd \<in> ?K" using saga_ids(1) [OF ok] sd by (metis image_eqI list.set_map)
      obtain sd' where "sd' \<in> set (dvals (steps sg))" "sd_id sd' = sd_id sd" "?pr (sd_id sd) = depends_on sd'"
        using saga_step_at [OF ok n] .
      with sd saga_ids(2) [OF ok] have pr: "?pr (sd_id sd) = depends_on sd" by (metis distinct_map inj_onD)
      have "d (sd_id sd) = 0" using n PK P by auto
      then have "length (?pr (sd_id sd)) = card (set (?pr (sd_id sd)) \<inter> set P)"
        using dn [OF n] by simp
      also have "\<dots> \<le> card (set (?pr (sd_id sd)))" by (simp add: card_mono)
      finally show ?thesis using card_length [of "depends_on sd"] by (simp add: pr card_distinct)
    qed
    ultimately show ?R by blast
  next
    assume R: ?R
    have "set P = ?K"
    proof (rule ccontr)
      assume "set P \<noteq> ?K"
      then have "set P \<subset> set (dkeys (step_deps sg))" using P by auto
      with R obtain n where n: "n \<in> ?K" "n \<notin> set P" "set (?pr n) \<subseteq> set P"
        using dag_progress [of "step_deps sg" "set P"] by auto
      obtain sd where "sd \<in> set (dvals (steps sg))" "?pr n = depends_on sd"
        using saga_step_at [OF ok n(1)] .
      with R have "distinct (?pr n)" by metis
      then have "d n = 0" using dn [OF n(1)] n(3) by (simp add: distinct_card Int_absorb2)
      with n P show False by blast
    qed
    with len show ?L by simp
  qed
qed

lemma check_refs_closed:
  assumes ok: "saga_def_ok sg"
  shows "check_refs (sg_name sg) (set (dkeys (steps sg))) (steps sg) = None \<longleftrightarrow> closed_deps (step_deps sg)"
proof -
  have pr: "preds (step_deps sg) k = depends_on sd" if "(k, sd) \<in> set (steps sg)" for k sd
    using that ok by (intro preds_step_deps) (simp add: saga_def_ok_def)
  have "closed_deps (step_deps sg) \<longleftrightarrow>
      (\<forall>e \<in> set (steps sg). set (preds (step_deps sg) (fst e)) \<subseteq> set (dkeys (steps sg)))"
    unfolding closed_deps_def dkeys_step_deps by (simp only: set_map ball_simps)
  also have "\<dots> \<longleftrightarrow> (\<forall>(k, sd) \<in> set (steps sg). set (depends_on sd) \<subseteq> set (dkeys (steps sg)))"
  proof (intro ball_cong refl)
    fix e assume "e \<in> set (steps sg)"
    then have "preds (step_deps sg) (fst e) = depends_on (snd e)" by (intro pr) simp
    then show "set (preds (step_deps sg) (fst e)) \<subseteq> set (dkeys (steps sg)) \<longleftrightarrow>
        (case e of (k, sd) \<Rightarrow> set (depends_on sd) \<subseteq> set (dkeys (steps sg)))"
      by (simp add: split_beta)
  qed
  finally show ?thesis unfolding check_refs_iff by (rule sym)
qed

lemma validate_dag_iff:
  assumes ok: "saga_def_ok sg" and ord: "distinct order" "set order = set (dkeys (steps sg))"
  shows "validate_dag order sg = None \<longleftrightarrow>
           is_dag (step_deps sg) \<and> (\<forall>sd \<in> set (dvals (steps sg)). distinct (depends_on sd))"
proof -
  let ?d = "count_deps (dvals (steps sg)) (\<lambda>_. 0)"
  let ?q = "filter (\<lambda>sid. ?d sid = 0) order"
  obtain P d where inv: "drain_inv sg P d []" and dr: "drain (dvals (steps sg)) ?d ?q 0 = length P"
    using drain_inv_final [OF ok drain_inv_init [OF ok ord]] by auto
  have refs: "check_refs (sg_name sg) (set (dkeys (steps sg))) (steps sg) = None \<longleftrightarrow>
      closed_deps (step_deps sg)"
    by (rule check_refs_closed [OF ok])
  have val: "validate_dag order sg = None \<longleftrightarrow> closed_deps (step_deps sg) \<and> length P = length (steps sg)"
    unfolding refs [symmetric] by (auto simp: validate_dag_def Let_def dr split: option.splits)
  show ?thesis
  proof (cases "closed_deps (step_deps sg)")
    case True
    with val drained_all_iff [OF ok inv] show ?thesis by blast
  next
    case False
    with val show ?thesis by (simp add: is_dag_def)
  qed
qed

section \<open>What the registry and the builder produce\<close>

lemma validate_dag_error: "validate_dag order sg = Some e \<Longrightarrow> exc_cls e = SagaValidationErrorC"
proof -
  have refs: "exc_cls e = SagaValidationErrorC" if "check_refs name ids sds = Some e" for name ids sds
    using that by (induction name ids sds rule: check_refs.induct) (auto split: option.splits)
  assume "validate_dag order sg = Some e"
  then show ?thesis by (auto simp: validate_dag_def Let_def intro: refs split: option.splits if_splits)
qed

definition steps_ok :: "(string, step_def) dict \<Rightarrow> bool" where
  "steps_ok sds \<longleftrightarrow> dict_ok sds \<and> (\<forall>e \<in> set sds. sd_id (snd e) = fst e)"

lemma saga_def_ok_iff: "saga_def_ok sg \<longleftrightarrow> steps_ok (steps sg)"
  by (simp add: saga_def_ok_def steps_ok_def split_beta)

lemma steps_ok_dput: "steps_ok sds \<Longrightarrow> steps_ok (dput (sd_id sd) sd sds)"
  unfolding steps_ok_def by (intro conjI dput_all) simp_all

lemma collect_steps_ok: "steps_ok acc \<Longrightarrow> steps_ok (collect_steps cls names acc)"
proof (induction cls names acc rule: collect_steps.induct)
  case (2 cls attr_name names acc)
  show ?case
  proof (cases "class_getattr cls attr_name")
    case (StepAttr meta m)
    have "sd_id (step_def_of_meta cls meta m) = mt_id meta" by (simp add: step_def_of_meta_def)
    then have "steps_ok (dput (mt_id meta) (step_def_of_meta cls meta m) acc)"
      using steps_ok_dput [OF 2(4)] by metis
    from 2(1) [OF StepAttr this] StepAttr show ?thesis by simp
  qed (simp_all add: 2)
qed simp

text \<open>A registered step is the last decorated attribute, in sorted order, that declares its id.\<close>

fun step_attr :: "saga_class \<Rightarrow> string \<Rightarrow> string list \<Rightarrow> (step_meta \<times> py_method) option" where
  "step_attr cls step_id [] = None"
| "step_attr cls step_id (attr_name # names) =
     (case step_attr cls step_id names of
        Some r \<Rightarrow> Some r
      | None \<Rightarrow> (case class_getattr cls attr_name of
                  StepAttr meta m \<Rightarrow> if mt_id meta = step_id then Some (meta, m) else None
                | _ \<Rightarrow> None))"

lemma dget_collect_steps:
  "dget (collect_steps cls names acc) k =
     (case step_attr cls k names of
        Some (meta, m) \<Rightarrow> Some (step_def_of_meta cls meta m)
      | None \<Rightarrow> dget acc k)"
  by (induction cls names acc rule: collect_steps.induct) (auto split: class_attr.splits option.splits)

lemma register_cases:
  assumes "register_from_bean order cls bean reg = Inr (sg, reg')"
  obtains name lc where "cl_saga_meta cls = Some (name, lc)"
    "sg = \<lparr>sg_name = name, sg_bean = bean, layer_concurrency = lc,
           steps = collect_steps cls (sort (dkeys (cl_attrs cls))) []\<rparr>"
    "validate_dag order sg = None" "reg' = dput name sg reg"
  using assms by (auto simp: register_from_bean_def Let_def split: option.splits)

lemma register_ok: "register_from_bean order cls bean reg = Inr (sg, reg') \<Longrightarrow> saga_def_ok sg"
  by (erule register_cases) (simp add: saga_def_ok_iff collect_steps_ok steps_ok_def [of "[]"])

text \<open>The builder keeps its list of steps and its set of ids in agreement.\<close>

definition builder_ok :: "saga_builder \<Rightarrow> bool" where
  "builder_ok b \<longleftrightarrow> distinct (map stb_step_id (sb_step_builders b)) \<and>
     sb_step_ids b = set (map stb_step_id (sb_step_builders b))"

lemma new_saga_builder_ok [inv_intros]: "builder_ok (new_saga_builder name)"
  by (simp add: builder_ok_def new_saga_builder_def)

lemma add_step_ok [inv_intros]: "builder_ok b \<Longrightarrow> add_step sb b = Inr b' \<Longrightarrow> builder_ok b'"
  by (auto simp: builder_ok_def add_step_def split: if_splits)

lemma build_step_fields [simp]:
  "sd_id (build_step sb) = stb_step_id sb" "step_method (build_step sb) = stb_handler_fn sb"
  "depends_on (build_step sb) = stb_depends_on sb"
  by (simp_all add: build_step_def step_default_def)

lemma build_steps_eq:
  assumes "distinct (map fst acc @ map stb_step_id sbs)"
  shows "build_steps name sbs acc = Inr sds \<longleftrightarrow>
           (\<forall>sb \<in> set sbs. stb_handler_fn sb \<noteq> None) \<and>
           sds = acc @ map (\<lambda>sb. (stb_step_id sb, build_step sb)) sbs"
  using assms
proof (induction sbs arbitrary: acc)
  case (Cons sb sbs)
  then have "dput (stb_step_id sb) (build_step sb) acc = acc @ [(stb_step_id sb, build_step sb)]"
    by (intro dput_new) auto
  with Cons show ?case by (cases "stb_handler_fn sb") (simp_all add: Let_def)
qed auto

definition built :: "saga_builder \<Rightarrow> saga_def" where
  "built b = \<lparr>sg_name = sb_name b, sg_bean = VNone, layer_concurrency = sb_layer_concurrency b,
              steps = map (\<lambda>sb. (stb_step_id sb, build_step sb)) (sb_step_builders b)\<rparr>"

lemma built_ok: "builder_ok b \<Longrightarrow> saga_def_ok (built b)"
  by (auto simp: built_def builder_ok_def saga_def_ok_def comp_def)

lemma build_saga_Inr:
  assumes "builder_ok b"
  shows "build_saga order b = Inr sg \<longleftrightarrow>
           sb_step_builders b \<noteq> [] \<and> (\<forall>sb \<in> set (sb_step_builders b). stb_handler_fn sb \<noteq> None) \<and>
           sg = built b \<and> validate_dag order (built b) = None"
proof (cases "build_steps (sb_name b) (sb_step_builders b) []")
  case (Inl e)
  then have "\<not> (\<forall>sb \<in> set (sb_step_builders b). stb_handler_fn sb \<noteq> None)"
    using build_steps_eq [of "[]" "sb_step_builders b" "sb_name b"] assms by (simp add: builder_ok_def) blast
  with Inl show ?thesis by (auto simp: build_saga_def)
next
  case (Inr sds)
  then have "\<forall>sb \<in> set (sb_step_builders b). stb_handler_fn sb \<noteq> None"
    and sds: "sds = map (\<lambda>sb. (stb_step_id sb, build_step sb)) (sb_step_builders b)"
    using build_steps_eq [of "[]" "sb_step_builders b" "sb_name b"] assms by (auto simp: builder_ok_def)
  moreover have "\<lparr>sg_name = sb_name b, sg_bean = VNone, layer_concurrency = sb_layer_concurrency b,
      steps = sds\<rparr> = built b" by (simp add: sds built_def)
  ultimately show ?thesis
    by (auto simp: build_saga_def Inr Let_def builder_validate_dag_def split: option.splits)
qed

section \<open>Properties\<close>

text \<open>
  Claim C7. The validation of the dependency graph, in whatever order the set of step ids is
  iterated: it accepts a definition exactly when every predecessor is a step, the graph has no cycle, and no
  step names a predecessor twice; what it raises is a \<^verbatim>\<open>SagaValidationError\<close>.
\<close>

theorem validate_dag_correct:
  assumes "saga_def_ok sg" "distinct order" "set order = set (dkeys (steps sg))"
  shows "case validate_dag order sg of
           None \<Rightarrow> is_dag (step_deps sg) \<and> (\<forall>sd \<in> set (dvals (steps sg)). distinct (depends_on sd))
         | Some e \<Rightarrow> exc_cls e = SagaValidationErrorC \<and>
             (is_dag (step_deps sg) \<longrightarrow> (\<exists>sd \<in> set (dvals (steps sg)). \<not> distinct (depends_on sd)))"
  using validate_dag_iff [OF assms] validate_dag_error [of order sg] by (auto split: option.splits)

definition diamond :: saga_def where
  "diamond = \<lparr>sg_name = ''order'', sg_bean = VNone, layer_concurrency = 0,
     steps = [(''d'', (step_default ''d'')\<lparr>depends_on := [''b'', ''c'']\<rparr>),
              (''b'', (step_default ''b'')\<lparr>depends_on := [''a'']\<rparr>),
              (''c'', (step_default ''c'')\<lparr>depends_on := [''a'']\<rparr>),
              (''a'', step_default ''a'')]\<rparr>"

lemma diamond_ok: "saga_def_ok diamond"
  by (simp add: saga_def_ok_def diamond_def step_default_def)

theorem validate_dag_correct_witness:
  "validate_dag [''c'', ''a'', ''d'', ''b''] diamond = None \<and> is_dag (step_deps diamond)"
proof -
  have "validate_dag [''c'', ''a'', ''d'', ''b''] diamond = None" by code_simp
  with validate_dag_correct [OF diamond_ok, of "[''c'', ''a'', ''d'', ''b'']"] show ?thesis
    by (simp add: diamond_def insert_commute)
qed

text \<open>
  Claim C8. Registration: an accepted class yields a well-formed definition that carries the name
  and concurrency of \<^verbatim>\<open>@saga\<close>, whose steps are the decorated attributes (the last in sorted order
  wins when two declare one id), which the topology can layer, and which the registry returns under its name, every other
  entry unchanged.
\<close>

theorem register_from_bean_correct:
  assumes reg: "register_from_bean order cls bean reg = Inr (sg, reg')"
    and ord: "distinct order" "set order = set (dkeys (steps sg))"
  shows "saga_def_ok sg \<and> cl_saga_meta cls = Some (sg_name sg, layer_concurrency sg) \<and>
         (\<forall>k. dget (steps sg) k = map_option (\<lambda>(meta, m). step_def_of_meta cls meta m)
                                   (step_attr cls k (sort (dkeys (cl_attrs cls))))) \<and>
         (\<exists>ls. compute_layers (step_deps sg) = Inr ls) \<and>
         (\<forall>name. registry_get reg' name = (if name = sg_name sg then Some sg else registry_get reg name))"
proof -
  have ok: "saga_def_ok sg" using reg by (rule register_ok)
  from reg obtain name lc where meta: "cl_saga_meta cls = Some (name, lc)"
    and sg: "sg = \<lparr>sg_name = name, sg_bean = bean, layer_concurrency = lc,
           steps = collect_steps cls (sort (dkeys (cl_attrs cls))) []\<rparr>"
    and val: "validate_dag order sg = None" and reg': "reg' = dput name sg reg"
    by (rule register_cases)
  have "is_dag (step_deps sg)" using validate_dag_iff [OF ok ord] val by simp
  then have layers: "\<exists>ls. compute_layers (step_deps sg) = Inr ls"
    by (intro kahn.dag_has_layers saga_def_ok_deps ok)
  have "dget (steps sg) k = map_option (\<lambda>(meta, m). step_def_of_meta cls meta m)
      (step_attr cls k (sort (dkeys (cl_attrs cls))))" for k
    by (simp add: sg dget_collect_steps split: option.splits)
  with ok meta layers reg' show ?thesis by (simp add: sg registry_get_def)
qed

definition order_meta :: "string \<Rightarrow> string list \<Rightarrow> step_meta" where
  "order_meta step_id deps = \<lparr>mt_id = step_id, mt_compensate = Some ''undo'', mt_depends_on = deps,
     mt_retry = 0, mt_backoff_ms = 0, mt_timeout_ms = 0, mt_jitter = False, mt_jitter_factor = 0,
     mt_cpu_bound = False, mt_idempotency_key = None, mt_compensation_retry = None,
     mt_compensation_backoff_ms = None, mt_compensation_timeout_ms = None, mt_compensation_critical = False\<rparr>"

definition order_method :: py_method where
  "order_method = \<lparr>m_id = 7, m_qualname = ''OrderSaga.pay'', m_params = [''self''], m_hints = [],
     m_async = True, m_coro = True\<rparr>"

definition checkout_class :: saga_class where
  "checkout_class = saga_decorator ''order'' 2
     \<lparr>cl_qualname = ''OrderSaga'', cl_saga_meta = None,
      cl_attrs = [(''pay'', saga_step (order_meta ''pay'' [''reserve'']) order_method),
                  (''a_reserve'', saga_step (order_meta ''reserve'' []) order_method),
                  (''undo'', MethodAttr order_method)]\<rparr>"

theorem register_from_bean_correct_witness:
  "\<exists>sg reg'. register_from_bean [''reserve'', ''pay''] checkout_class VNone [] = Inr (sg, reg') \<and>
     dkeys (steps sg) = [''reserve'', ''pay''] \<and> (\<exists>ls. compute_layers (step_deps sg) = Inr ls)"
proof -
  obtain sg reg' where reg: "register_from_bean [''reserve'', ''pay''] checkout_class VNone [] = Inr (sg, reg')"
    "dkeys (steps sg) = [''reserve'', ''pay'']"
  proof -
    have "(case register_from_bean [''reserve'', ''pay''] checkout_class VNone [] of
        Inl e \<Rightarrow> False | Inr (sg, reg') \<Rightarrow> dkeys (steps sg) = [''reserve'', ''pay''])"
      by code_simp
    then show ?thesis using that by (auto split: sum.splits)
  qed
  with register_from_bean_correct [OF reg(1)] have "\<exists>ls. compute_layers (step_deps sg) = Inr ls" by simp
  with reg show ?thesis by (intro exI [of _ sg] exI [of _ reg']) simp
qed

text \<open>
  The builder: from the builders its operations reach, \<^verbatim>\<open>build\<close> succeeds exactly when
  there is a step, every step has a handler, every predecessor is a step, the graph is acyclic and no step
  names a predecessor twice; the definition then lists the configured steps in the order they were added.
\<close>

theorem build_saga_correct:
  assumes "builder_ok b" "distinct order" "set order = set (map stb_step_id (sb_step_builders b))"
  shows "build_saga order b = Inr sg \<longleftrightarrow>
           sb_step_builders b \<noteq> [] \<and> (\<forall>sb \<in> set (sb_step_builders b). stb_handler_fn sb \<noteq> None) \<and>
           is_dag (step_deps (built b)) \<and> (\<forall>sb \<in> set (sb_step_builders b). distinct (stb_depends_on sb)) \<and>
           sg = built b"
proof -
  have "set order = set (dkeys (steps (built b)))" using assms(3) by (simp add: built_def image_image)
  from validate_dag_iff [OF built_ok [OF assms(1)] assms(2) this] build_saga_Inr [OF assms(1)]
  show ?thesis by (auto simp: built_def)
qed

definition order_handler :: py_method where
  "order_handler = \<lparr>m_id = 7, m_qualname = ''reserve'', m_params = [], m_hints = [],
     m_async = True, m_coro = True\<rparr>"

definition order_builder :: saga_builder where
  "order_builder = (case add_step ((new_step_builder ''b'')
       \<lparr>stb_handler_fn := Some order_handler, stb_depends_on := [''a'']\<rparr>) (new_saga_builder ''order'') of
     Inl _ \<Rightarrow> new_saga_builder ''none''
   | Inr b \<Rightarrow> (case add_step ((new_step_builder ''a'')\<lparr>stb_handler_fn := Some order_handler\<rparr>) b of
       Inl _ \<Rightarrow> new_saga_builder ''none'' | Inr b \<Rightarrow> b))"

theorem build_saga_correct_witness: "build_saga [''a'', ''b''] order_builder = Inr (built order_builder)"
proof -
  have steps: "sb_step_builders order_builder =
      [(new_step_builder ''b'')\<lparr>stb_handler_fn := Some order_handler, stb_depends_on := [''a'']\<rparr>,
       (new_step_builder ''a'')\<lparr>stb_handler_fn := Some order_handler\<rparr>]"
    and ids: "sb_step_ids order_builder = {''a'', ''b''}"
    by (simp_all add: order_builder_def add_step_def new_saga_builder_def new_step_builder_def)
  have "valid_layers (step_deps (built order_builder)) [[''a''], [''b'']]"
    by (simp add: valid_layers_def deps_before_def earliest_def built_def steps step_deps_def
        preds_def dget_default_def new_step_builder_def All_less_Suc nth_Cons' doubleton_eq_iff)
  then have "is_dag (step_deps (built order_builder))" by (rule valid_layers_dag)
  with build_saga_correct [of order_builder "[''a'', ''b'']" "built order_builder"]
  show ?thesis by (auto simp: builder_ok_def steps ids new_step_builder_def doubleton_eq_iff)
qed

text \<open>
  A coroutine function under \<^verbatim>\<open>@saga_step\<close> is never run: whatever its body would do, the
  invocation of the registered step succeeds with the coroutine object as the step's result. The builder, which
  stores the handler undecorated, awaits the same function.
\<close>

theorem decorated_coroutine_not_awaited:
  assumes "plain_method func" "m_async func"
    and "saga_step meta func = StepAttr meta m" "prepare_call func ctx inp = Inr kw"
  shows "fst (invoke_step call (step_def_of_meta cls meta m) ctx inp) = Inr (VCoroutine (m_id func)) \<and>
         fst (invoke_step call (build_step ((new_step_builder step_id)\<lparr>stb_handler_fn := Some func\<rparr>)) ctx inp)
           = call Awaited func kw"
proof -
  have m: "m = sync_wrapper func" using assms(3) by (simp add: saga_step_def)
  have res: "prepare_call (sync_wrapper func) ctx inp = Inr kw"
  proof -
    have "resolve_params (sync_wrapper func) xs ctx inp acc = resolve_params func xs ctx inp acc"
      for xs :: "string list" and acc
      by (induction xs arbitrary: acc) (auto simp: sync_wrapper_def split: option.splits sum.splits)
    moreover have sel: "m_params (sync_wrapper func) = m_params func"
      "m_qualname (sync_wrapper func) = m_qualname func" by (simp_all add: sync_wrapper_def)
    ultimately have "resolve (sync_wrapper func) ctx inp = resolve func ctx inp"
      by (simp only: resolve_def sel)
    moreover have "bind_args (sync_wrapper func) xs = bind_args func xs" for xs
      by (simp only: bind_args_def sel)
    ultimately show ?thesis using assms(4) by (simp only: prepare_call_def)
  qed
  show ?thesis
    using assms(2,4) res
    by (auto simp: invoke_step_def prepare_step_def step_def_of_meta_def call_method_def m
        sync_wrapper_def build_step_def new_step_builder_def step_default_def split: sum.splits)
qed

theorem decorated_coroutine_not_awaited_witness:
  "fst (invoke_step (\<lambda>_ _ _. Inl (Exn RuntimeErrorC ''payment refused'' []))
          (step_def_of_meta checkout_class (order_meta ''pay'' []) (sync_wrapper order_method))
          (new_saga_context ''c'' ''order'' []) VNone) = Inr (VCoroutine 7)"
  using decorated_coroutine_not_awaited [of order_method "order_meta ''pay'' []" "sync_wrapper order_method"
      "new_saga_context ''c'' ''order'' []" VNone "[]"
      "\<lambda>_ _ _. Inl (Exn RuntimeErrorC ''payment refused'' [])" checkout_class]
  by (simp add: plain_method_def order_method_def saga_step_def prepare_call_def bind_args_def
      resolve_def dmem_def)

text \<open>
  A handler of the builder whose first parameter is not named \<^verbatim>\<open>self\<close>, such as
  \<^verbatim>\<open>async def reserve(ctx: SagaContext)\<close>, is never run: the invoker passes the bean of the definition as
  first positional argument besides the keyword argument, and every invocation raises \<^verbatim>\<open>TypeError\<close>
  or what resolution raises.
\<close>

theorem plain_function_handler_fails:
  assumes "m_params func = p # ps" "p \<noteq> ''self''"
  shows "\<exists>e. invoke_step call (build_step ((new_step_builder step_id)\<lparr>stb_handler_fn := Some func\<rparr>)) ctx inp
              = (Inl e, ctx) \<and>
           (e = Exn TypeErrorC ''{} got multiple values for argument {}'' [VStr (m_qualname func), VStr p] \<or>
            resolve func ctx inp = Inl e)"
  using assms
  by (simp add: invoke_step_def prepare_step_def build_step_def new_step_builder_def step_default_def
      prepare_call_first split: sum.splits)

theorem plain_function_handler_fails_witness:
  "fst (invoke_step (\<lambda>_ _ _. Inr (VStr ''reserved''))
      (build_step ((new_step_builder ''reserve'')\<lparr>stb_handler_fn := Some
         \<lparr>m_id = 1, m_qualname = ''reserve_fn'', m_params = [''ctx''],
          m_hints = [(''ctx'', HSagaContext), (''return'', HType ''str'')], m_async = True, m_coro = True\<rparr>\<rparr>))
      (new_saga_context ''c'' ''order'' []) VNone) =
   Inl (Exn TypeErrorC ''{} got multiple values for argument {}'' [VStr ''reserve_fn'', VStr ''ctx''])"
proof -
  let ?f = "\<lparr>m_id = 1, m_qualname = ''reserve_fn'', m_params = [''ctx''],
    m_hints = [(''ctx'', HSagaContext), (''return'', HType ''str'')], m_async = True, m_coro = True\<rparr>"
  have "resolve ?f (new_saga_context ''c'' ''order'' []) VNone = Inr [(''ctx'', VCtx)]"
    by (simp add: resolve_def resolve_parameter_def is_saga_context_def)
  with plain_function_handler_fails [of ?f "''ctx''" "[]" "\<lambda>_ _ _. Inr (VStr ''reserved'')" "''reserve''"
      "new_saga_context ''c'' ''order'' []" VNone]
  show ?thesis by auto
qed

definition twice :: saga_def where
  "twice = \<lparr>sg_name = ''order'', sg_bean = VNone, layer_concurrency = 0,
     steps = [(''a'', step_default ''a''), (''b'', (step_default ''b'')\<lparr>depends_on := [''a'', ''a'']\<rparr>)]\<rparr>"

text \<open>
  The two graph algorithms disagree on a repeated predecessor: the layering runs the step after it,
  and the validation, which takes one off an in-degree that counted two, reports a dependency cycle.
\<close>

theorem repeated_predecessor_rejected:
  "compute_layers (step_deps twice) = Inr [[''a''], [''b'']] \<and>
   validate_dag [''a'', ''b''] twice =
     Some (Exn SagaValidationErrorC ''Saga {} contains a dependency cycle (processed {}/{} steps)''
             [VStr ''order'', VInt 1, VInt 2])"
proof
  show "compute_layers (step_deps twice) = Inr [[''a''], [''b'']]"
    by (simp add: twice_def step_deps_def step_default_def compute_layers_def graph_of_def kahn_loop.simps)
  show "validate_dag [''a'', ''b''] twice =
     Some (Exn SagaValidationErrorC ''Saga {} contains a dependency cycle (processed {}/{} steps)''
             [VStr ''order'', VInt 1, VInt 2])"
    by (simp add: twice_def step_default_def validate_dag_def)
qed

end
