(* ===== verification/SagaOrch.thy ===== *)
theory SagaOrch
  imports ArgResolver Topology
begin

text \<open>
  \<^verbatim>\<open>saga/engine/execution_orchestrator.py\<close>: the steps of a saga run layer by layer, those of a
  layer as concurrent tasks under an optional semaphore, each with retries, back-off and timeout. The
  orchestrator is a state machine: an event is one scheduling point of the event loop, at which one task
  or the orchestrator itself runs from one \<^verbatim>\<open>await\<close> to the next, and the user code answers what the task
  awaited.
\<close>

section \<open>State\<close>

text \<open>
  Where a task of \<^verbatim>\<open>_execute_step\<close> is suspended: not started or queued at the semaphore, inside the
  user's method in some attempt, inside \<^verbatim>\<open>on_step_success\<close>, in the back-off sleep, inside
  \<^verbatim>\<open>on_step_failed\<close>; or how it ended. The rational is the current \<^verbatim>\<open>backoff_ms\<close>.
\<close>

datatype pc =
    Waiting
  | Calling nat rat
  | NotifyingOk nat rat
  | Sleeping nat rat
  | NotifyingFail exn
  | Finished
  | Crashed exn
  | Cancelled

record orch =
  o_ctx :: saga_context
  o_completed :: "string list"
  o_permits :: "int option"
  o_index :: nat
  o_tasks :: "(string, pc) dict"
  o_cancelled :: "string set"
  o_first_error :: "exn option"
  o_outcome :: "(exn + string list) option"
  o_sleeps :: "(string \<times> nat \<times> rat) list"

text \<open>
  What may happen next. \<open>EvStart\<close>, \<open>EvReturn\<close>, \<open>EvRaise\<close>, \<open>EvTimeout\<close>, \<open>EvNotified\<close> and \<open>EvWake\<close>
  resume a task; \<open>EvCancel\<close> delivers the \<^verbatim>\<open>CancelledError\<close> requested of it. The rational is
  the value of \<^verbatim>\<open>random.uniform\<close> should this resumption end in a back-off, or the measured latency.
  \<open>EvLayerDone\<close> and \<open>EvLayerFailed\<close> are the returns of the first \<^verbatim>\<open>asyncio.wait\<close>, the latter with
  the failed task that the iteration over the set of finished tasks meets first; \<open>EvDrained\<close> is the
  return of the second.
\<close>

datatype orch_event =
    EvStart string rat
  | EvReturn string pyval rat
  | EvRaise string exn rat
  | EvTimeout string rat
  | EvNotified string "exn option" rat
  | EvWake string rat
  | EvCancel string
  | EvLayerDone
  | EvLayerFailed string
  | EvDrained

definition step_of :: "saga_def \<Rightarrow> string \<Rightarrow> step_def" where
  "step_of sg n = (case dget (steps sg) n of Some sd \<Rightarrow> sd | None \<Rightarrow> step_default n)"

definition max_retries :: "step_def \<Rightarrow> nat" where
  "max_retries sd = nat (max (retry sd) 1)"

definition set_pc :: "string \<Rightarrow> pc \<Rightarrow> orch \<Rightarrow> orch" where
  "set_pc n p o' = o'\<lparr>o_tasks := dput n p (o_tasks o'), o_cancelled := o_cancelled o' - {n}\<rparr>"

text \<open>The end of a task leaves the \<^verbatim>\<open>async with semaphore\<close> block.\<close>

definition end_task :: "string \<Rightarrow> pc \<Rightarrow> orch \<Rightarrow> orch" where
  "end_task n p o' = set_pc n p (o'\<lparr>o_permits := map_option (\<lambda>k. k + 1) (o_permits o')\<rparr>)"

section \<open>One attempt of a step\<close>

definition uniform_ok :: "step_def \<Rightarrow> rat \<Rightarrow> bool" where
  "uniform_ok sd u \<longleftrightarrow> (jitter sd \<longrightarrow> \<bar>u\<bar> \<le> \<bar>jitter_factor sd\<bar>)"

definition backoff_delay :: "step_def \<Rightarrow> rat \<Rightarrow> rat \<Rightarrow> rat" where
  "backoff_delay sd b u = (if jitter sd then b / 1000 * (1 + u) else b / 1000)"

text \<open>The \<^verbatim>\<open>except Exception\<close> handler: sleep and try again, or give up.\<close>

definition fail_attempt :: "bool \<Rightarrow> step_def \<Rightarrow> nat \<Rightarrow> rat \<Rightarrow> exn \<Rightarrow> rat \<Rightarrow> orch \<Rightarrow> orch" where
  "fail_attempt port sd attempt b exc u o' =
     (if attempt < max_retries sd
      then set_pc (sd_id sd) (Sleeping attempt b)
             (o'\<lparr>o_sleeps := o_sleeps o' @ [(sd_id sd, attempt, backoff_delay sd b u)]\<rparr>)
      else let ctx = set_step_status (sd_id sd) FAILED (o_ctx o');
               ctx = ctx\<lparr>step_attempts := dput (sd_id sd) (int attempt) (step_attempts ctx)\<rparr>;
               o' = o'\<lparr>o_ctx := ctx\<rparr>
           in if port then set_pc (sd_id sd) (NotifyingFail exc) o'
              else end_task (sd_id sd) (Crashed exc) o')"

text \<open>
  The start of an attempt, up to the await of the user's method; an argument that cannot be
  resolved fails the attempt at once.
\<close>

definition start_attempt ::
  "bool \<Rightarrow> pyval \<Rightarrow> step_def \<Rightarrow> nat \<Rightarrow> rat \<Rightarrow> rat \<Rightarrow> orch \<Rightarrow> orch"
where
  "start_attempt port step_input sd attempt b u o' =
     (let ctx = set_step_status (sd_id sd) RUNNING (o_ctx o');
          o' = o'\<lparr>o_ctx := ctx\<rparr>
      in case prepare_step sd ctx step_input of
           Inl e \<Rightarrow> fail_attempt port sd attempt b e u o'
         | Inr _ \<Rightarrow> set_pc (sd_id sd) (Calling attempt b) o')"

text \<open>After a successful attempt and its notification.\<close>

definition complete_step :: "step_def \<Rightarrow> orch \<Rightarrow> orch" where
  "complete_step sd o' =
     end_task (sd_id sd) Finished (o'\<lparr>o_completed := o_completed o' @ [sd_id sd]\<rparr>)"

definition succeed_attempt :: "bool \<Rightarrow> step_def \<Rightarrow> nat \<Rightarrow> rat \<Rightarrow> pyval \<Rightarrow> rat \<Rightarrow> orch \<Rightarrow> orch" where
  "succeed_attempt port sd attempt b result latency o' =
     (let ctx = finish_step sd result (o_ctx o');
          ctx = set_result (sd_id sd) result ctx;
          ctx = set_step_status (sd_id sd) DONE ctx;
          ctx = ctx\<lparr>step_attempts := dput (sd_id sd) (int attempt) (step_attempts ctx)\<rparr>;
          ctx = ctx\<lparr>step_latencies_ms := dput (sd_id sd) latency (step_latencies_ms ctx)\<rparr>;
          o' = o'\<lparr>o_ctx := ctx\<rparr>
      in if port then set_pc (sd_id sd) (NotifyingOk attempt b) o' else complete_step sd o')"

text \<open>
  What the called method can do: a coroutine that nobody awaits is the result at once, a body that
  runs may return or raise, and one that suspends may time out or be cancelled.
\<close>

definition may_return :: "step_def \<Rightarrow> pyval \<Rightarrow> bool" where
  "may_return sd v = (case step_method sd of None \<Rightarrow> False
     | Some m \<Rightarrow> body_runs m \<or> v = VCoroutine (m_id m))"

definition may_raise :: "step_def \<Rightarrow> bool" where
  "may_raise sd = (case step_method sd of None \<Rightarrow> False | Some m \<Rightarrow> body_runs m)"

definition may_suspend :: "step_def \<Rightarrow> bool" where
  "may_suspend sd = (case step_method sd of None \<Rightarrow> False
     | Some m \<Rightarrow> m_async m \<or> cpu_bound sd)"

definition timeout_error :: exn where
  "timeout_error = Exn TimeoutErrorC [] []"

section \<open>The tasks\<close>

text \<open>
  One resumption of the task of step \<open>n\<close>; \<open>None\<close> when the event cannot happen. A task that has
  been cancelled while suspended in user code may still return or raise, when that code swallows the
  \<^verbatim>\<open>CancelledError\<close>; one that waits or sleeps may not.
\<close>

definition acquire :: "orch \<Rightarrow> orch option" where
  "acquire o' = (case o_permits o' of
     None \<Rightarrow> Some o'
   | Some k \<Rightarrow> if 0 < k then Some (o'\<lparr>o_permits := Some (k - 1)\<rparr>) else None)"

definition resume :: "bool \<Rightarrow> pyval \<Rightarrow> saga_def \<Rightarrow> orch_event \<Rightarrow> string \<Rightarrow> pc \<Rightarrow> orch \<Rightarrow> orch option" where
  "resume port step_input sg ev n p o' =
     (let sd = step_of sg n in
      case (ev, p) of
        (EvStart _ u, Waiting) \<Rightarrow>
          if n \<in> o_cancelled o' \<or> \<not> uniform_ok sd u then None
          else map_option (start_attempt port step_input sd 1 (of_int (backoff_ms sd)) u) (acquire o')
      | (EvReturn _ v latency, Calling k b) \<Rightarrow>
          if may_return sd v then Some (succeed_attempt port sd k b v latency o') else None
      | (EvRaise _ e u, Calling k b) \<Rightarrow>
          if may_raise sd \<and> uniform_ok sd u then Some (fail_attempt port sd k b e u o') else None
      | (EvTimeout _ u, Calling k b) \<Rightarrow>
          if may_suspend sd \<and> 0 < timeout_ms sd \<and> n \<notin> o_cancelled o' \<and> uniform_ok sd u
          then Some (fail_attempt port sd k b timeout_error u o') else None
      | (EvNotified _ None u, NotifyingOk k b) \<Rightarrow> Some (complete_step sd o')
      | (EvNotified _ (Some e) u, NotifyingOk k b) \<Rightarrow>
          if uniform_ok sd u then Some (fail_attempt port sd k b e u o') else None
      | (EvNotified _ r u, NotifyingFail e) \<Rightarrow>
          Some (end_task n (Crashed (case r of None \<Rightarrow> e | Some e' \<Rightarrow> e')) o')
      | (EvWake _ u, Sleeping k b) \<Rightarrow>
          if n \<in> o_cancelled o' \<or> \<not> uniform_ok sd u then None
          else Some (start_attempt port step_input sd (Suc k) (b * 2) u o')
      | (EvCancel _, Waiting) \<Rightarrow> if n \<in> o_cancelled o' then Some (set_pc n Cancelled o') else None
      | (EvCancel _, Calling k b) \<Rightarrow>
          if n \<in> o_cancelled o' \<and> may_suspend sd then Some (end_task n Cancelled o') else None
      | (EvCancel _, NotifyingOk k b) \<Rightarrow>
          if n \<in> o_cancelled o' then Some (end_task n Cancelled o') else None
      | (EvCancel _, Sleeping k b) \<Rightarrow>
          if n \<in> o_cancelled o' then Some (end_task n Cancelled o') else None
      | (EvCancel _, NotifyingFail e) \<Rightarrow>
          if n \<in> o_cancelled o' then Some (end_task n Cancelled o') else None
      | _ \<Rightarrow> None)"

section \<open>The orchestrator\<close>

definition ended :: "pc \<Rightarrow> bool" where
  "ended p = (case p of Finished \<Rightarrow> True | Crashed _ \<Rightarrow> True | Cancelled \<Rightarrow> True | _ \<Rightarrow> False)"

definition all_ended :: "orch \<Rightarrow> bool" where
  "all_ended o' = list_all ended (dvals (o_tasks o'))"

definition crashed :: "pc \<Rightarrow> bool" where
  "crashed p = (case p of Crashed _ \<Rightarrow> True | _ \<Rightarrow> False)"

definition start_layer :: "nat \<Rightarrow> orch \<Rightarrow> orch" where
  "start_layer i o' =
     (let layers = topology_layers (o_ctx o')
      in if i < length layers
         then o'\<lparr>o_index := i, o_tasks := map (\<lambda>n. (n, Waiting)) (layers ! i)\<rparr>
         else o'\<lparr>o_outcome := Some (Inr (o_completed o'))\<rparr>)"

definition orch_init :: "saga_def \<Rightarrow> saga_context \<Rightarrow> exn + orch" where
  "orch_init sg ctx =
     (case compute_layers (step_deps sg) of
        Inl e \<Rightarrow> Inl e
      | Inr layers \<Rightarrow>
          Inr (start_layer 0
            \<lparr>o_ctx = ctx\<lparr>topology_layers := layers\<rparr>, o_completed = [],
             o_permits = (if 0 < layer_concurrency sg then Some (layer_concurrency sg) else None),
             o_index = 0, o_tasks = [], o_cancelled = {}, o_first_error = None, o_outcome = None,
             o_sleeps = []\<rparr>))"

definition event_task :: "orch_event \<Rightarrow> string option" where
  "event_task ev = (case ev of
     EvStart n _ \<Rightarrow> Some n | EvReturn n _ _ \<Rightarrow> Some n | EvRaise n _ _ \<Rightarrow> Some n | EvTimeout n _ \<Rightarrow> Some n
   | EvNotified n _ _ \<Rightarrow> Some n | EvWake n _ \<Rightarrow> Some n | EvCancel n \<Rightarrow> Some n
   | EvLayerDone \<Rightarrow> None | EvLayerFailed _ \<Rightarrow> None | EvDrained \<Rightarrow> None)"

text \<open>The layer loop of \<^verbatim>\<open>execute\<close>: the three places where it resumes.\<close>

definition layer_done :: "orch \<Rightarrow> orch option" where
  "layer_done o' =
     (if o_first_error o' = None \<and> all_ended o' \<and> \<not> list_ex crashed (dvals (o_tasks o'))
      then Some (start_layer (Suc (o_index o')) o') else None)"

definition layer_failed :: "string \<Rightarrow> orch \<Rightarrow> orch option" where
  "layer_failed n o' =
     (case (o_first_error o', dget (o_tasks o') n) of
        (None, Some (Crashed e)) \<Rightarrow>
          (let pending = set (map fst (filter (\<lambda>(_, p). \<not> ended p) (o_tasks o')))
           in Some (if pending = {} then o'\<lparr>o_first_error := Some e, o_outcome := Some (Inl e)\<rparr>
                    else o'\<lparr>o_first_error := Some e, o_cancelled := pending\<rparr>))
      | _ \<Rightarrow> None)"

definition drained :: "orch \<Rightarrow> orch option" where
  "drained o' =
     (case o_first_error o' of
        None \<Rightarrow> None
      | Some e \<Rightarrow> if all_ended o' then Some (o'\<lparr>o_outcome := Some (Inl e)\<rparr>) else None)"

definition orch_step :: "bool \<Rightarrow> pyval \<Rightarrow> saga_def \<Rightarrow> orch_event \<Rightarrow> orch \<Rightarrow> orch option" where
  "orch_step port step_input sg ev o' =
     (if o_outcome o' \<noteq> None then None
      else case event_task ev of
        Some n \<Rightarrow>
          (case dget (o_tasks o') n of None \<Rightarrow> None | Some p \<Rightarrow> resume port step_input sg ev n p o')
      | None \<Rightarrow>
          (case ev of
             EvLayerDone \<Rightarrow> layer_done o'
           | EvLayerFailed n \<Rightarrow> layer_failed n o'
           | EvDrained \<Rightarrow> drained o'
           | _ \<Rightarrow> None))"

text \<open>A schedule is a sequence of events; \<open>execute\<close> is the run it determines.\<close>

fun orch_run :: "bool \<Rightarrow> pyval \<Rightarrow> saga_def \<Rightarrow> orch_event list \<Rightarrow> orch \<Rightarrow> orch option" where
  "orch_run port step_input sg [] o' = Some o'"
| "orch_run port step_input sg (ev # evs) o' =
     (case orch_step port step_input sg ev o' of
        None \<Rightarrow> None
      | Some o'' \<Rightarrow> orch_run port step_input sg evs o'')"

definition orch_execute ::
  "bool \<Rightarrow> pyval \<Rightarrow> saga_def \<Rightarrow> orch_event list \<Rightarrow> saga_context \<Rightarrow>
     ((exn + string list) \<times> saga_context) option"
where
  "orch_execute port step_input sg evs ctx =
     (case orch_init sg ctx of
        Inl e \<Rightarrow> Some (Inl e, ctx)
      | Inr o' \<Rightarrow>
          (case orch_run port step_input sg evs o' of
             None \<Rightarrow> None
           | Some o'' \<Rightarrow> (case o_outcome o'' of None \<Rightarrow> None | Some r \<Rightarrow> Some (r, o_ctx o''))))"

inductive orch_reach :: "bool \<Rightarrow> pyval \<Rightarrow> saga_def \<Rightarrow> saga_context \<Rightarrow> orch \<Rightarrow> bool"
  for port :: bool and step_input :: pyval and sg :: saga_def and ctx :: saga_context
where
  init: "orch_init sg ctx = Inr o' \<Longrightarrow> orch_reach port step_input sg ctx o'"
| step: "orch_reach port step_input sg ctx o' \<Longrightarrow> orch_step port step_input sg ev o' = Some o'' \<Longrightarrow>
           orch_reach port step_input sg ctx o''"

section \<open>The invariant of one task\<close>

definition nth_backoff :: "step_def \<Rightarrow> nat \<Rightarrow> rat" where
  "nth_backoff sd k = of_int (backoff_ms sd) * 2 ^ (k - 1)"

definition attempt_in_range :: "step_def \<Rightarrow> nat \<Rightarrow> bool" where
  "attempt_in_range sd k \<longleftrightarrow> 1 \<le> k \<and> k \<le> max_retries sd"

text \<open>
  How the status, the recorded attempts and the result of a step go with the point its task is at.
\<close>

definition pc_ok :: "step_def \<Rightarrow> saga_context \<Rightarrow> pc \<Rightarrow> bool" where
  "pc_ok sd ctx p =
     (let st = dget (step_statuses ctx) (sd_id sd);
          att = dget (step_attempts ctx) (sd_id sd);
          res = dget (step_results ctx) (sd_id sd) in
      st \<noteq> Some COMPENSATED \<and>
      (\<forall>a. att = Some a \<longrightarrow> (\<exists>k. a = int k \<and> attempt_in_range sd k)) \<and>
      (case p of
         Waiting \<Rightarrow> st = None
       | Calling k b \<Rightarrow> st = Some RUNNING \<and> attempt_in_range sd k \<and> b = nth_backoff sd k \<and>
           step_method sd \<noteq> None
       | NotifyingOk k b \<Rightarrow> st = Some DONE \<and> att \<noteq> None \<and> res \<noteq> None \<and>
           attempt_in_range sd k \<and> b = nth_backoff sd k
       | Sleeping k b \<Rightarrow> st \<noteq> None \<and> st \<noteq> Some FAILED \<and> 1 \<le> k \<and> k < max_retries sd \<and> b = nth_backoff sd k
       | NotifyingFail e \<Rightarrow> st = Some FAILED \<and> att = Some (int (max_retries sd))
       | Crashed e \<Rightarrow> st = Some FAILED \<and> att = Some (int (max_retries sd))
       | Finished \<Rightarrow> st = Some DONE \<and> att \<noteq> None \<and> res \<noteq> None
       | Cancelled \<Rightarrow> True))"

text \<open>How far a task still has to go.\<close>

definition rank :: "step_def \<Rightarrow> pc \<Rightarrow> nat" where
  "rank sd p =
     (case p of
        Waiting \<Rightarrow> 3 * max_retries sd + 2
      | Calling k _ \<Rightarrow> 3 * (max_retries sd - k) + 4
      | NotifyingOk k _ \<Rightarrow> 3 * (max_retries sd - k) + 3
      | Sleeping k _ \<Rightarrow> 3 * (max_retries sd - k) + 2
      | NotifyingFail _ \<Rightarrow> 1
      | _ \<Rightarrow> 0)"

definition holds_permit :: "pc \<Rightarrow> int" where
  "holds_permit p = (case p of
     Calling _ _ \<Rightarrow> 1 | NotifyingOk _ _ \<Rightarrow> 1 | Sleeping _ _ \<Rightarrow> 1 | NotifyingFail _ \<Rightarrow> 1 | _ \<Rightarrow> 0)"

definition sleep_ok :: "saga_def \<Rightarrow> string \<times> nat \<times> rat \<Rightarrow> bool" where
  "sleep_ok sg e = (case e of (n, k, delay) \<Rightarrow>
     1 \<le> k \<and> k < max_retries (step_of sg n) \<and>
     (\<exists>u. uniform_ok (step_of sg n) u \<and>
          delay = backoff_delay (step_of sg n) (nth_backoff (step_of sg n) k) u))"

text \<open>A dictionary in which at most \<open>n\<close> is new, and then last.\<close>

definition grows :: "string \<Rightarrow> (string, 'v) dict \<Rightarrow> (string, 'v) dict \<Rightarrow> bool" where
  "grows n d d' \<longleftrightarrow> dkeys d' = dkeys d \<or> (n \<notin> set (dkeys d) \<and> dkeys d' = dkeys d @ [n])"

lemma grows_refl [simp]: "grows n d d"
  by (simp add: grows_def)

lemma grows_put [simp]:
  assumes "grows n d d'"
  shows "grows n d (dput n v d')"
proof (cases "n \<in> set (dkeys d')")
  case True
  then have "dkeys (dput n v d') = dkeys d'" by (simp only: dkeys_dput if_True)
  with assms show ?thesis unfolding grows_def by (simp only:)
next
  case False
  then have eq: "dkeys d' = dkeys d" using assms unfolding grows_def by (metis in_set_conv_decomp)
  have "dkeys (dput n v d') = dkeys d' @ [n]" using False by (simp only: dkeys_dput if_False)
  with eq False show ?thesis unfolding grows_def by metis
qed

lemma grows_put_left:
  assumes "grows n (dput n v d) d'"
  shows "grows n d d'"
proof -
  have n: "n \<in> set (dkeys (dput n v d))" by simp
  then have eq: "dkeys d' = dkeys (dput n v d)" using assms unfolding grows_def by blast
  show ?thesis
  proof (cases "n \<in> set (dkeys d)")
    case True
    with eq show ?thesis unfolding grows_def dkeys_dput by metis
  next
    case False
    with eq show ?thesis unfolding grows_def dkeys_dput by metis
  qed
qed

text \<open>
  The effect of moving the task of \<open>n\<close>, which holds \<open>h\<close> permits, to \<open>p'\<close>: nothing is touched but
  what belongs to the task.
\<close>

definition moves :: "string \<Rightarrow> int \<Rightarrow> pc \<Rightarrow> orch \<Rightarrow> orch \<Rightarrow> bool" where
  "moves n h p' o1 o2 \<longleftrightarrow>
     o_tasks o2 = dput n p' (o_tasks o1) \<and> o_cancelled o2 = o_cancelled o1 - {n} \<and>
     o_index o2 = o_index o1 \<and> o_first_error o2 = o_first_error o1 \<and> o_outcome o2 = o_outcome o1 \<and>
     topology_layers (o_ctx o2) = topology_layers (o_ctx o1) \<and>
     (\<forall>m. m \<noteq> n \<longrightarrow> dget (step_statuses (o_ctx o2)) m = dget (step_statuses (o_ctx o1)) m \<and>
        dget (step_attempts (o_ctx o2)) m = dget (step_attempts (o_ctx o1)) m \<and>
        dget (step_results (o_ctx o2)) m = dget (step_results (o_ctx o1)) m) \<and>
     grows n (step_statuses (o_ctx o1)) (step_statuses (o_ctx o2)) \<and>
     o_completed o2 = (if p' = Finished then o_completed o1 @ [n] else o_completed o1) \<and>
     o_permits o2 = map_option (\<lambda>k. k + h - holds_permit p') (o_permits o1)"

definition same_base :: "orch \<Rightarrow> orch \<Rightarrow> bool" where
  "same_base o1 o2 \<longleftrightarrow>
     correlation_id (o_ctx o2) = correlation_id (o_ctx o1) \<and> saga_name (o_ctx o2) = saga_name (o_ctx o1) \<and>
     headers (o_ctx o2) = headers (o_ctx o1) \<and>
     compensation_results (o_ctx o2) = compensation_results (o_ctx o1) \<and>
     compensation_errors (o_ctx o2) = compensation_errors (o_ctx o1)"

lemma step_of_id [simp]: "saga_def_ok sg \<Longrightarrow> sd_id (step_of sg n) = n"
  by (auto simp: step_of_def step_default_def dest: saga_def_ok_id split: option.splits)

lemma max_retries_pos [simp]: "0 < max_retries sd" "Suc 0 \<le> max_retries sd"
  by (auto simp: max_retries_def)

lemma first_attempt [simp]: "attempt_in_range sd 1" "attempt_in_range sd (Suc 0)"
  by (simp_all add: attempt_in_range_def Suc_leI)

lemma nth_backoff_simps [simp]:
  "nth_backoff sd (Suc 0) = of_int (backoff_ms sd)"
  "1 \<le> k \<Longrightarrow> nth_backoff sd (Suc k) = nth_backoff sd k * 2"
  by (simp_all add: nth_backoff_def power_eq_if)

lemmas task_defs = set_pc_def end_task_def fail_attempt_def start_attempt_def complete_step_def
  succeed_attempt_def acquire_def

text \<open>
  What any resumption of a task achieves: it moves to a point where its part of the invariant
  holds and with a smaller rank than \<open>r\<close>, and adds at most a sleep of the prescribed length.
\<close>

definition advance :: "saga_def \<Rightarrow> step_def \<Rightarrow> int \<Rightarrow> nat \<Rightarrow> orch \<Rightarrow> orch \<Rightarrow> bool" where
  "advance sg sd h r o1 o2 \<longleftrightarrow>
     (\<exists>p'. moves (sd_id sd) h p' o1 o2 \<and> pc_ok sd (o_ctx o2) p' \<and> rank sd p' < r \<and>
        (p' = Cancelled \<longrightarrow> sd_id sd \<in> o_cancelled o1)) \<and>
     same_base o1 o2 \<and>
     (\<forall>e \<in> set (o_sleeps o2) - set (o_sleeps o1). sleep_ok sg e) \<and>
     (\<forall>k. o_permits o1 = Some k \<and> 0 \<le> k \<longrightarrow> (\<exists>k'. o_permits o2 = Some k' \<and> 0 \<le> k'))"

lemma advanceI:
  assumes "moves (sd_id sd) h p' o1 o2" "pc_ok sd (o_ctx o2) p'" "rank sd p' < r"
    "p' = Cancelled \<Longrightarrow> sd_id sd \<in> o_cancelled o1" "same_base o1 o2"
    "\<forall>e \<in> set (o_sleeps o2) - set (o_sleeps o1). sleep_ok sg e" "holds_permit p' \<le> h"
  shows "advance sg sd h r o1 o2"
proof -
  have "\<forall>k. o_permits o1 = Some k \<and> 0 \<le> k \<longrightarrow> (\<exists>k'. o_permits o2 = Some k' \<and> 0 \<le> k')"
    using assms(1,7) by (auto simp: moves_def)
  with assms show ?thesis unfolding advance_def by blast
qed

lemmas advance_simps = task_defs moves_def pc_ok_def Let_def rank_def holds_permit_def
  attempt_in_range_def sleep_ok_def same_base_def option.map_ident step_simps

definition attempts_ok :: "step_def \<Rightarrow> saga_context \<Rightarrow> bool" where
  "attempts_ok sd ctx \<longleftrightarrow> (\<forall>a. dget (step_attempts ctx) (sd_id sd) = Some a \<longrightarrow>
     (\<exists>k. a = int k \<and> attempt_in_range sd k))"

lemma fail_attempt_advance:
  assumes "step_of sg (sd_id sd) = sd" "attempt_in_range sd k" "uniform_ok sd u"
    "3 * (max_retries sd - k) + 2 < r \<or> (k = max_retries sd \<and> 1 < r)"
    "dget (step_statuses (o_ctx o1)) (sd_id sd) \<in> {Some RUNNING, Some DONE}"
    "attempts_ok sd (o_ctx o1)" "b = nth_backoff sd k"
  shows "advance sg sd 1 r o1 (fail_attempt port sd k b e u o1)"
proof (cases "k < max_retries sd")
  case True
  with assms show ?thesis
    by (intro advanceI [where p' = "Sleeping k b"]) (auto simp: advance_simps attempts_ok_def)
next
  case False
  with assms(2) have k: "k = max_retries sd" by (simp add: attempt_in_range_def)
  with assms show ?thesis
    by (cases port; intro advanceI [where p' = "if port then NotifyingFail e else Crashed e"])
      (auto simp: advance_simps)
qed

lemma start_attempt_advance:
  assumes "step_of sg (sd_id sd) = sd" "attempt_in_range sd k" "uniform_ok sd u"
    "3 * (max_retries sd - k) + 4 < r" "attempts_ok sd (o_ctx o1)" "b = nth_backoff sd k"
  shows "advance sg sd 1 r o1 (start_attempt port inp sd k b u o1)"
proof -
  let ?o = "o1\<lparr>o_ctx := set_step_status (sd_id sd) RUNNING (o_ctx o1)\<rparr>"
  show ?thesis
  proof (cases "prepare_step sd (o_ctx ?o) inp")
    case (Inl e)
    have "advance sg sd 1 r ?o (fail_attempt port sd k b e u ?o)"
      using assms by (intro fail_attempt_advance) (auto simp: step_simps attempts_ok_def)
    then have "advance sg sd 1 r o1 (fail_attempt port sd k b e u ?o)"
      unfolding advance_def by (auto simp: moves_def same_base_def step_simps dest!: grows_put_left)
    with Inl show ?thesis by (simp add: start_attempt_def Let_def)
  next
    case (Inr x)
    then have "step_method sd \<noteq> None" by (auto simp: prepare_step_def split: option.splits)
    with assms Inr show ?thesis
      by (intro advanceI [where p' = "Calling k b"]) (auto simp: advance_simps attempts_ok_def)
  qed
qed

lemma succeed_attempt_advance:
  assumes "attempt_in_range sd k" "b = nth_backoff sd k" "3 * (max_retries sd - k) + 3 < r"
  shows "advance sg sd 1 r o1 (succeed_attempt port sd k b v lat o1)"
  using assms
  by (cases port; intro advanceI [where p' = "if port then NotifyingOk k b else Finished"])
    (auto simp: advance_simps)

lemma complete_step_advance:
  assumes "pc_ok sd (o_ctx o1) (NotifyingOk k b)" "0 < r"
  shows "advance sg sd 1 r o1 (complete_step sd o1)"
  using assms by (intro advanceI [where p' = Finished]) (auto simp: advance_simps)

lemma end_task_advance:
  assumes "pc_ok sd (o_ctx o1) p'" "0 < r" "ended p'" "p' \<noteq> Finished"
    "p' = Cancelled \<Longrightarrow> sd_id sd \<in> o_cancelled o1"
  shows "advance sg sd 1 r o1 (end_task (sd_id sd) p' o1)"
  using assms by (intro advanceI [where p' = p']) (auto simp: advance_simps ended_def split: pc.splits)

lemma cancel_advance:
  assumes "pc_ok sd (o_ctx o1) p" "sd_id sd \<in> o_cancelled o1" "o2 = end_task (sd_id sd) Cancelled o1"
    "0 < rank sd p"
  shows "advance sg sd 1 (rank sd p) o1 o2"
  unfolding assms(3) using assms
  by (intro end_task_advance) (auto simp: ended_def pc_ok_def Let_def)

lemma acquire_advance:
  "acquire o1 = Some o1' \<Longrightarrow> advance sg sd 1 r o1' o2 \<Longrightarrow> advance sg sd 0 r o1 o2"
  unfolding advance_def
  by (auto simp: acquire_def moves_def same_base_def split: option.splits if_splits)

lemma resume_advance:
  assumes ok: "saga_def_ok sg" and pc: "pc_ok (step_of sg n) (o_ctx o1) p"
    and res: "resume port inp sg ev n p o1 = Some o2"
  shows "advance sg (step_of sg n) (holds_permit p) (rank (step_of sg n) p) o1 o2"
proof -
  let ?sd = "step_of sg n"
  have id: "step_of sg (sd_id ?sd) = ?sd" "sd_id ?sd = n" using ok by simp_all
  have att: "attempts_ok ?sd (o_ctx o1)" using pc by (simp add: pc_ok_def attempts_ok_def Let_def)
  show ?thesis
  proof (cases p)
    case Waiting
    note p = this
    from res p consider
      (start) n' u o1' where "ev = EvStart n' u" "uniform_ok ?sd u" "acquire o1 = Some o1'"
        "o2 = start_attempt port inp ?sd 1 (of_int (backoff_ms ?sd)) u o1'"
    | (cancel) n' where "ev = EvCancel n'" "n \<in> o_cancelled o1" "o2 = set_pc n Cancelled o1"
      by (auto simp: resume_def Let_def split: orch_event.splits if_splits option.splits)
    then show ?thesis
    proof cases
      case start
      then have "o_ctx o1' = o_ctx o1" by (auto simp: acquire_def split: option.splits if_splits)
      moreover obtain N where "max_retries ?sd = Suc N"
        using max_retries_pos(1) [of ?sd] gr0_implies_Suc by blast
      ultimately have "advance sg ?sd 1 (rank ?sd p) o1' o2"
        unfolding start(4) using id att start(2) p
        by (intro start_attempt_advance) (auto simp: rank_def)
      from acquire_advance [OF start(3) this] p show ?thesis by (simp add: holds_permit_def)
    next
      case cancel
      with id pc p show ?thesis by (intro advanceI [where p' = Cancelled]) (auto simp: advance_simps)
    qed
  next
    case (Calling k b)
    note p = this
    with pc have k: "attempt_in_range ?sd k" "b = nth_backoff ?sd k"
      "dget (step_statuses (o_ctx o1)) n = Some RUNNING" using id by (auto simp: pc_ok_def Let_def)
    from res p consider
      (ret) v lat where "o2 = succeed_attempt port ?sd k b v lat o1"
    | (fail) e u where "uniform_ok ?sd u" "o2 = fail_attempt port ?sd k b e u o1"
    | (cancel) "n \<in> o_cancelled o1" "o2 = end_task n Cancelled o1"
      by (auto simp: resume_def Let_def split: orch_event.splits if_splits option.splits)
    then show ?thesis
    proof cases
      case ret
      with k p show ?thesis using succeed_attempt_advance [OF k(1,2), of "rank ?sd p" sg o1 port]
        by (simp add: holds_permit_def rank_def)
    next
      case fail
      with k p id att show ?thesis using fail_attempt_advance [OF id(1) k(1) fail(1)]
        by (simp add: holds_permit_def rank_def)
    next
      case cancel
      from cancel_advance [OF pc, of o2 sg] cancel id p show ?thesis
        by (simp add: holds_permit_def rank_def)
    qed
  next
    case (NotifyingOk k b)
    note p = this
    with pc have k: "attempt_in_range ?sd k" "b = nth_backoff ?sd k"
      "dget (step_statuses (o_ctx o1)) n = Some DONE" using id by (auto simp: pc_ok_def Let_def)
    from res p consider
      (ok) "o2 = complete_step ?sd o1"
    | (fail) e u where "uniform_ok ?sd u" "o2 = fail_attempt port ?sd k b e u o1"
    | (cancel) "n \<in> o_cancelled o1" "o2 = end_task n Cancelled o1"
      by (auto simp: resume_def Let_def split: orch_event.splits if_splits option.splits)
    then show ?thesis
    proof cases
      case ok
      with p pc show ?thesis using complete_step_advance [of ?sd o1 k b "rank ?sd p" sg]
        by (simp add: holds_permit_def rank_def)
    next
      case fail
      with k p id att show ?thesis using fail_attempt_advance [OF id(1) k(1) fail(1)]
        by (simp add: holds_permit_def rank_def)
    next
      case cancel
      from cancel_advance [OF pc, of o2 sg] cancel id p show ?thesis
        by (simp add: holds_permit_def rank_def)
    qed
  next
    case (Sleeping k b)
    note p = this
    with pc have k: "1 \<le> k" "k < max_retries ?sd" "b = nth_backoff ?sd k" by (auto simp: pc_ok_def Let_def)
    from res p consider
      (wake) u where "uniform_ok ?sd u" "o2 = start_attempt port inp ?sd (Suc k) (b * 2) u o1"
    | (cancel) "n \<in> o_cancelled o1" "o2 = end_task n Cancelled o1"
      by (auto simp: resume_def Let_def split: orch_event.splits if_splits option.splits)
    then show ?thesis
    proof cases
      case wake
      with k p id att show ?thesis
        by (auto simp: holds_permit_def rank_def attempt_in_range_def intro!: start_attempt_advance)
    next
      case cancel
      from cancel_advance [OF pc, of o2 sg] cancel id p show ?thesis
        by (simp add: holds_permit_def rank_def)
    qed
  next
    case (NotifyingFail e)
    note p = this
    from res p consider
      (fail) e where "o2 = end_task n (Crashed e) o1"
    | (cancel) "n \<in> o_cancelled o1" "o2 = end_task n Cancelled o1"
      by (auto simp: resume_def Let_def split: orch_event.splits if_splits option.splits)
    then show ?thesis
    proof cases
      case (fail e')
      with id p pc show ?thesis using end_task_advance [of ?sd o1 "Crashed e'" "rank ?sd p" sg]
        by (simp add: holds_permit_def rank_def ended_def pc_ok_def Let_def)
    next
      case cancel
      from cancel_advance [OF pc, of o2 sg] cancel id p show ?thesis
        by (simp add: holds_permit_def rank_def)
    qed
  qed (use res in \<open>auto simp: resume_def Let_def split: orch_event.splits option.splits\<close>)
qed

section \<open>The invariant of the orchestrator\<close>

definition current_layer :: "orch \<Rightarrow> string list" where
  "current_layer o1 = (if o_index o1 < length (topology_layers (o_ctx o1))
     then topology_layers (o_ctx o1) ! o_index o1 else [])"

definition before_layer :: "orch \<Rightarrow> string list" where
  "before_layer o1 = concat (take (o_index o1) (topology_layers (o_ctx o1)))"

definition task_inv :: "saga_def \<Rightarrow> orch \<Rightarrow> string \<Rightarrow> pc \<Rightarrow> bool" where
  "task_inv sg o1 n p \<longleftrightarrow>
     pc_ok (step_of sg n) (o_ctx o1) p \<and> (n \<in> set (o_completed o1) \<longleftrightarrow> p = Finished)"

definition deps_first :: "string dep_map \<Rightarrow> string list \<Rightarrow> bool" where
  "deps_first deps ns \<longleftrightarrow> deps_before deps (map (\<lambda>n. [n]) ns)"

lemma deps_first_simps [simp]:
  "deps_first deps []"
  "deps_first deps (ns @ [n]) \<longleftrightarrow> deps_first deps ns \<and> set (preds deps n) \<subseteq> set ns"
proof -
  show "deps_first deps []" by (simp add: deps_first_def deps_before_def)
  have "concat (map (\<lambda>n. [n]) ns) = ns" by (induction ns) auto
  then show "deps_first deps (ns @ [n]) \<longleftrightarrow> deps_first deps ns \<and> set (preds deps n) \<subseteq> set ns"
    by (simp add: deps_first_def deps_before_snoc)
qed

text \<open>The statuses are listed in the order in which the steps were first started.\<close>

definition start_order :: "saga_def \<Rightarrow> saga_context \<Rightarrow> bool" where
  "start_order sg ctx \<longleftrightarrow> distinct (dkeys (step_statuses ctx)) \<and>
     deps_first (step_deps sg) (dkeys (step_statuses ctx))"

definition steps_inv :: "saga_def \<Rightarrow> orch \<Rightarrow> bool" where
  "steps_inv sg o1 \<longleftrightarrow>
     (\<forall>n \<in> set (before_layer o1). task_inv sg o1 n Finished) \<and>
     (\<forall>(n, p) \<in> set (o_tasks o1). task_inv sg o1 n p) \<and>
     (\<forall>n. n \<notin> set (before_layer o1) \<union> set (current_layer o1) \<longrightarrow> task_inv sg o1 n Waiting) \<and>
     distinct (o_completed o1) \<and> deps_before (step_deps sg) (map (\<lambda>n. [n]) (o_completed o1)) \<and>
     start_order sg (o_ctx o1)"

definition control_inv :: "saga_def \<Rightarrow> orch \<Rightarrow> bool" where
  "control_inv sg o1 \<longleftrightarrow>
     compute_layers (step_deps sg) = Inr (topology_layers (o_ctx o1)) \<and>
     dkeys (o_tasks o1) = current_layer o1 \<and>
     (o_index o1 < length (topology_layers (o_ctx o1)) \<or> o_outcome o1 \<noteq> None) \<and>
     (o_first_error o1 = None \<longrightarrow> o_cancelled o1 = {} \<and> Cancelled \<notin> set (dvals (o_tasks o1))) \<and>
     (\<forall>e. o_first_error o1 = Some e \<longrightarrow> Crashed e \<in> set (dvals (o_tasks o1))) \<and>
     (\<forall>ids. o_outcome o1 = Some (Inr ids) \<longrightarrow> ids = o_completed o1 \<and> o_first_error o1 = None \<and>
        set ids = set (dkeys (steps sg))) \<and>
     (\<forall>e. o_outcome o1 = Some (Inl e) \<longrightarrow> o_first_error o1 = Some e \<and> all_ended o1)"

definition permits_inv :: "saga_def \<Rightarrow> orch \<Rightarrow> bool" where
  "permits_inv sg o1 \<longleftrightarrow>
     (if 0 < layer_concurrency sg
      then \<exists>k. o_permits o1 = Some k \<and> 0 \<le> k \<and>
             k + sum_list (map (\<lambda>(n, p). holds_permit p) (o_tasks o1)) = layer_concurrency sg
      else o_permits o1 = None)"

definition orch_inv :: "saga_def \<Rightarrow> orch \<Rightarrow> bool" where
  "orch_inv sg o1 \<longleftrightarrow> control_inv sg o1 \<and> steps_inv sg o1 \<and> permits_inv sg o1 \<and>
     (\<forall>e \<in> set (o_sleeps o1). sleep_ok sg e)"

lemma sum_dput:
  fixes f :: "'k \<Rightarrow> 'v \<Rightarrow> 'a::comm_monoid_add"
  shows "dict_ok d \<Longrightarrow> dget d n = Some p \<Longrightarrow>
     sum_list (map (\<lambda>(n, p). f n p) (dput n p' d)) + f n p = sum_list (map (\<lambda>(n, p). f n p) d) + f n p'"
proof (induction d)
  case (Cons e d)
  obtain k v where e: "e = (k, v)" by (cases e)
  show ?case
  proof (cases "k = n")
    case True
    with Cons.prems e show ?thesis by (simp add: ac_simps)
  next
    case False
    with Cons e show ?thesis by (simp add: add.assoc)
  qed
qed simp

lemma in_dput_iff:
  assumes "dict_ok d"
  shows "(m, q) \<in> set (dput k v d) \<longleftrightarrow> (if m = k then q = v else (m, q) \<in> set d)"
  unfolding in_dict_dget [OF dict_ok_dput [OF assms]] in_dict_dget [OF assms] by auto

lemma control_task:
  assumes ok: "saga_def_ok sg" and inv: "control_inv sg o1" and n: "dget (o_tasks o1) n = Some p"
  shows "dict_ok (o_tasks o1)" "n \<in> set (current_layer o1)" "n \<notin> set (before_layer o1)"
    "set (preds (step_deps sg) n) \<subseteq> set (before_layer o1)"
    "n \<in> set (dkeys (steps sg))"
proof -
  let ?L = "topology_layers (o_ctx o1)" and ?i = "o_index o1"
  have dep: "dict_ok (step_deps sg)" using ok by (rule saga_def_ok_deps)
  have L: "compute_layers (step_deps sg) = Inr ?L" using inv by (simp add: control_inv_def)
  have keys: "dkeys (o_tasks o1) = current_layer o1" using inv by (simp add: control_inv_def)
  show n': "n \<in> set (current_layer o1)" using dget_in_keys [OF n] unfolding keys .
  then have i: "?i < length ?L" and ni: "n \<in> set (?L ! ?i)"
    by (auto simp: current_layer_def Let_def split: if_splits)
  have split: "?L = take ?i ?L @ ?L ! ?i # drop (Suc ?i) ?L" using i by (rule id_take_nth_drop)
  have L': "compute_layers (step_deps sg) = Inr (take ?i ?L @ ?L ! ?i # drop (Suc ?i) ?L)"
    unfolding split [symmetric] by (rule L)
  have "distinct (concat ?L)" by (rule kahn.layers_distinct [OF dep L])
  then have dis: "distinct (concat (take ?i ?L @ ?L ! ?i # drop (Suc ?i) ?L))"
    unfolding split [symmetric] .
  then have dis': "distinct (?L ! ?i)" "set (concat (take ?i ?L)) \<inter> set (?L ! ?i) = {}"
    by (simp_all only: concat_append concat.simps distinct_append set_append) blast
  show "dict_ok (o_tasks o1)" unfolding keys using i dis' by (simp add: current_layer_def)
  show "n \<notin> set (before_layer o1)" unfolding before_layer_def using dis' ni by blast
  show "set (preds (step_deps sg) n) \<subseteq> set (before_layer o1)"
    unfolding before_layer_def
    by (rule kahn.deps_in_earlier_layers [OF dep L' ni])
  have "n \<in> set (concat ?L)" unfolding set_concat using nth_mem [OF i] ni by (rule UN_I)
  then show "n \<in> set (dkeys (steps sg))" unfolding kahn.layer_nodes [OF dep L] dkeys_step_deps .
qed

lemma pc_ok_cong:
  assumes "dget (step_statuses c') (sd_id sd) = dget (step_statuses c) (sd_id sd)"
    "dget (step_attempts c') (sd_id sd) = dget (step_attempts c) (sd_id sd)"
    "dget (step_results c') (sd_id sd) = dget (step_results c) (sd_id sd)"
  shows "pc_ok sd c' p = pc_ok sd c p"
  by (simp add: pc_ok_def assms)

text \<open>Resuming one task preserves each part of the invariant.\<close>

lemma advance_inv:
  assumes ok: "saga_def_ok sg" and inv: "orch_inv sg o1" and n: "dget (o_tasks o1) n = Some p"
    and adv: "advance sg (step_of sg n) (holds_permit p) r o1 o2"
    and live: "o_outcome o1 = None" and p: "\<not> ended p"
  shows "orch_inv sg o2"
proof -
  note T = control_task [OF ok _ n]
  have C: "control_inv sg o1" and S: "steps_inv sg o1" and P: "permits_inv sg o1"
    and Z: "\<forall>e \<in> set (o_sleeps o1). sleep_ok sg e"
    using inv by (auto simp: orch_inv_def)
  obtain p' where mv: "moves n (holds_permit p) p' o1 o2" and pc: "pc_ok (step_of sg n) (o_ctx o2) p'"
    and can: "p' = Cancelled \<longrightarrow> n \<in> o_cancelled o1"
    and perm: "\<And>k. o_permits o1 = Some k \<Longrightarrow> 0 \<le> k \<Longrightarrow> \<exists>k'. o_permits o2 = Some k' \<and> 0 \<le> k'"
    and sl: "\<forall>e \<in> set (o_sleeps o2) - set (o_sleeps o1). sleep_ok sg e"
    using adv ok by (auto simp: advance_def)
  have d: "dict_ok (o_tasks o1)" and nk: "n \<in> set (dkeys (o_tasks o1))"
    using T(1) [OF C] dget_in_keys [OF n] by simp_all
  have tasks: "o_tasks o2 = dput n p' (o_tasks o1)" and keys: "dkeys (o_tasks o2) = dkeys (o_tasks o1)"
    using mv nk by (simp_all add: moves_def dkeys_dput)
  have lay: "current_layer o2 = current_layer o1" "before_layer o2 = before_layer o1"
    using mv by (auto simp: moves_def current_layer_def before_layer_def Let_def)
  have "control_inv sg o2"
  proof -
    have vals: "set (dvals (o_tasks o2)) \<subseteq> insert p' (set (dvals (o_tasks o1)))"
      unfolding tasks using in_dput_iff [OF d] by (auto split: if_splits)
    have keep: "Crashed e \<in> set (dvals (o_tasks o2))" if "Crashed e \<in> set (dvals (o_tasks o1))" for e
    proof -
      from that obtain m where "(m, Crashed e) \<in> set (o_tasks o1)" by auto
      moreover from this have "m \<noteq> n" using p n unfolding in_dict_dget [OF d] by (auto simp: ended_def)
      ultimately have "(m, Crashed e) \<in> set (o_tasks o2)" unfolding tasks in_dput_iff [OF d] by simp
      then show ?thesis by force
    qed
    have "o_first_error o2 = None \<longrightarrow> o_cancelled o2 = {} \<and> Cancelled \<notin> set (dvals (o_tasks o2))"
      using C mv can vals by (auto simp: control_inv_def moves_def)
    with C mv keep live show ?thesis
      unfolding control_inv_def keys lay by (simp add: moves_def)
  qed
  moreover have "steps_inv sg o2"
  proof -
    have nb: "n \<notin> set (before_layer o1)" and nc: "n \<in> set (current_layer o1)" using T(2,3) [OF C] by simp_all
    have "(n, p) \<in> set (o_tasks o1)" using n by (rule map_of_SomeD)
    then have "task_inv sg o1 n p" using S by (auto simp: steps_inv_def)
    then have fresh: "n \<notin> set (o_completed o1)" using p by (auto simp: task_inv_def ended_def)
    have other: "task_inv sg o2 m q = task_inv sg o1 m q" if "m \<noteq> n" for m q
      using mv that ok unfolding task_inv_def moves_def
      by (subst pc_ok_cong [of "o_ctx o2" "step_of sg m" "o_ctx o1"]) auto
    have self: "task_inv sg o2 n p'" using pc mv fresh by (auto simp: task_inv_def moves_def)
    have "set (before_layer o1) \<subseteq> set (o_completed o1)" using S by (auto simp: steps_inv_def task_inv_def)
    then have "set (preds (step_deps sg) n) \<subseteq> set (o_completed o1)" using T(4) [OF C] by blast
    then have comp: "distinct (o_completed o2)"
        "deps_before (step_deps sg) (map (\<lambda>n. [n]) (o_completed o2))"
      using S mv fresh by (auto simp: steps_inv_def moves_def deps_before_snoc)
    have started: "set (before_layer o1) \<subseteq> set (dkeys (step_statuses (o_ctx o1)))"
    proof
      fix m assume "m \<in> set (before_layer o1)"
      with S ok have "dget (step_statuses (o_ctx o1)) m = Some DONE"
        by (auto simp: steps_inv_def task_inv_def pc_ok_def Let_def)
      then show "m \<in> set (dkeys (step_statuses (o_ctx o1)))" by (rule dget_in_keys)
    qed
    have order: "start_order sg (o_ctx o2)"
      using S mv T(4) [OF C] started
      unfolding start_order_def moves_def grows_def steps_inv_def
      by (elim conjE disjE) (simp_all, blast?)
    have "\<forall>m \<in> set (before_layer o1). task_inv sg o1 m Finished"
      "\<forall>m. m \<notin> set (before_layer o1) \<union> set (current_layer o1) \<longrightarrow> task_inv sg o1 m Waiting"
      using S unfolding steps_inv_def by blast+
    then have "\<forall>m \<in> set (before_layer o2). task_inv sg o2 m Finished"
      and "\<forall>m. m \<notin> set (before_layer o2) \<union> set (current_layer o2) \<longrightarrow> task_inv sg o2 m Waiting"
      using other nb nc unfolding lay by (metis, metis UnI2)
    moreover have "\<forall>(m, q) \<in> set (o_tasks o2). task_inv sg o2 m q"
    proof (intro ballI, clarify)
      fix m q assume "(m, q) \<in> set (o_tasks o2)"
      then show "task_inv sg o2 m q"
        using S self other unfolding tasks in_dput_iff [OF d] by (auto simp: steps_inv_def split: if_splits)
    qed
    ultimately show ?thesis using comp order by (simp add: steps_inv_def)
  qed
  moreover have "permits_inv sg o2"
    using P mv perm sum_dput [OF d n, of "\<lambda>n. holds_permit" p']
    by (auto simp: permits_inv_def tasks moves_def)
  moreover have "\<forall>e \<in> set (o_sleeps o2). sleep_ok sg e" using Z sl by blast
  ultimately show ?thesis by (simp add: orch_inv_def)
qed

text \<open>A state in which the next layer, or the end, is about to be reached.\<close>

definition ready :: "saga_def \<Rightarrow> nat \<Rightarrow> orch \<Rightarrow> bool" where
  "ready sg i o1 \<longleftrightarrow>
     (let L = topology_layers (o_ctx o1) in
      compute_layers (step_deps sg) = Inr L \<and> i \<le> length L \<and>
      o_index o1 = i - 1 \<and> (i = length L \<longrightarrow> dkeys (o_tasks o1) = current_layer o1) \<and>
      (\<forall>(n, p) \<in> set (o_tasks o1). p = Finished) \<and>
      o_first_error o1 = None \<and> o_cancelled o1 = {} \<and> o_outcome o1 = None \<and>
      (\<forall>n. task_inv sg o1 n (if n \<in> set (concat (take i L)) then Finished else Waiting)) \<and>
      distinct (o_completed o1) \<and> deps_before (step_deps sg) (map (\<lambda>n. [n]) (o_completed o1)) \<and>
      start_order sg (o_ctx o1) \<and>
      o_permits o1 = (if 0 < layer_concurrency sg then Some (layer_concurrency sg) else None) \<and>
      (\<forall>e \<in> set (o_sleeps o1). sleep_ok sg e))"

lemma sum_list_zero: "(\<And>x. x \<in> set xs \<Longrightarrow> f x = (0::int)) \<Longrightarrow> sum_list (map f xs) = 0"
  by (induction xs) auto

lemma task_inv_update:
  "task_inv sg (o1\<lparr>o_index := i, o_tasks := ts\<rparr>) n p = task_inv sg o1 n p"
  "task_inv sg (o1\<lparr>o_outcome := r\<rparr>) n p = task_inv sg o1 n p"
  "task_inv sg (o1\<lparr>o_first_error := e\<rparr>) n p = task_inv sg o1 n p"
  "task_inv sg (o1\<lparr>o_cancelled := c\<rparr>) n p = task_inv sg o1 n p"
  by (simp_all add: task_inv_def)

lemma start_next_layer:
  assumes ok: "saga_def_ok sg" and r: "ready sg i o1" and True: "i < length (topology_layers (o_ctx o1))"
  shows "orch_inv sg (start_layer i o1)"
proof -
  let ?L = "topology_layers (o_ctx o1)"
  have dep: "dict_ok (step_deps sg)" using ok by (rule saga_def_ok_deps)
  have L: "compute_layers (step_deps sg) = Inr ?L" and i: "i \<le> length ?L"
    and ts: "\<forall>n. task_inv sg o1 n (if n \<in> set (concat (take i ?L)) then Finished else Waiting)"
    using r by (simp_all add: ready_def Let_def)
  let ?o = "o1\<lparr>o_index := i, o_tasks := map (\<lambda>n. (n, Waiting)) (?L ! i)\<rparr>"
  have lay: "current_layer ?o = ?L ! i" "before_layer ?o = concat (take i ?L)"
    using True by (simp_all add: current_layer_def before_layer_def)
  have split: "?L = take i ?L @ ?L ! i # drop (Suc i) ?L" using True by (rule id_take_nth_drop)
  have "distinct (concat ?L)" by (rule kahn.layers_distinct [OF dep L])
  then have "distinct (concat (take i ?L @ ?L ! i # drop (Suc i) ?L))" unfolding split [symmetric] .
  then have disj: "set (concat (take i ?L)) \<inter> set (?L ! i) = {}"
    by (simp only: concat_append concat.simps distinct_append set_append) blast
  have wait: "task_inv sg o1 n Waiting" if "n \<notin> set (concat (take i ?L))" for n
    using ts that by metis
  have "control_inv sg ?o"
    unfolding control_inv_def lay using r True by (auto simp: ready_def Let_def comp_def)
  moreover have "steps_inv sg ?o"
    unfolding steps_inv_def lay task_inv_update
  proof (intro conjI)
    show "\<forall>n \<in> set (concat (take i ?L)). task_inv sg o1 n Finished" using ts by metis
    show "\<forall>(n, p) \<in> set (o_tasks ?o). task_inv sg o1 n p"
      using wait disj by (auto simp del: set_concat)
    show "\<forall>n. n \<notin> set (concat (take i ?L)) \<union> set (?L ! i) \<longrightarrow> task_inv sg o1 n Waiting"
      using wait by blast
  qed (use r in \<open>simp_all add: ready_def Let_def\<close>)
  moreover have "permits_inv sg ?o"
    using r by (auto simp: permits_inv_def ready_def Let_def comp_def holds_permit_def sum_list_zero)
  ultimately show ?thesis
    using r True by (simp add: start_layer_def Let_def orch_inv_def ready_def)
qed

lemma start_no_layer:
  assumes ok: "saga_def_ok sg" and r: "ready sg i o1" and False: "\<not> i < length (topology_layers (o_ctx o1))"
  shows "orch_inv sg (start_layer i o1)"
proof -
  let ?L = "topology_layers (o_ctx o1)"
  have dep: "dict_ok (step_deps sg)" using ok by (rule saga_def_ok_deps)
  have L: "compute_layers (step_deps sg) = Inr ?L" and i: "i \<le> length ?L"
    and ts: "\<forall>n. task_inv sg o1 n (if n \<in> set (concat (take i ?L)) then Finished else Waiting)"
    using r by (simp_all add: ready_def Let_def)
  let ?o = "o1\<lparr>o_outcome := Some (Inr (o_completed o1))\<rparr>"
  have all: "set (concat (take i ?L)) = set (dkeys (steps sg))"
    using kahn.layer_nodes [OF dep L] False i by simp
  have fin: "task_inv sg o1 n (if n \<in> set (dkeys (steps sg)) then Finished else Waiting)" for n
    using ts unfolding all by blast
  then have comp: "n \<in> set (o_completed o1) \<longleftrightarrow> n \<in> set (dkeys (steps sg))" for n
    by (simp add: task_inv_def split: if_splits)
  have lay: "current_layer ?o = current_layer o1" "before_layer ?o = before_layer o1"
    by (simp_all add: current_layer_def before_layer_def)
  have nodes: "set (before_layer o1) \<union> set (current_layer o1) = set (dkeys (steps sg))"
  proof (cases "?L = []")
    case True
    then show ?thesis using all by (auto simp: before_layer_def current_layer_def)
  next
    case ne: False
    then have "?L = take (i - 1) ?L @ [?L ! (i - 1)]"
      using False i by (cases ?L rule: rev_cases) (auto simp: nth_append)
    then have "concat ?L = concat (take (i - 1) ?L) @ ?L ! (i - 1)"
      by (metis concat.simps(1) concat.simps(2) concat_append append_Nil2)
    then show ?thesis
      using all False i ne r by (simp add: before_layer_def current_layer_def ready_def Let_def)
  qed
  have "control_inv sg ?o"
    unfolding control_inv_def lay using r False comp by (auto simp: ready_def Let_def)
  moreover have "steps_inv sg ?o"
    unfolding steps_inv_def lay task_inv_update
  proof (intro conjI)
    show "\<forall>n \<in> set (before_layer o1). task_inv sg o1 n Finished" using fin nodes by (metis UnI1)
    show "\<forall>n. n \<notin> set (before_layer o1) \<union> set (current_layer o1) \<longrightarrow> task_inv sg o1 n Waiting"
      using fin unfolding nodes by metis
    have keys: "dkeys (o_tasks o1) = current_layer o1" using r False i by (simp add: ready_def Let_def)
    show "\<forall>(n, p) \<in> set (o_tasks ?o). task_inv sg o1 n p"
    proof (intro ballI, clarify)
      fix n p assume np: "(n, p) \<in> set (o_tasks ?o)"
      then have "n \<in> set (dkeys (o_tasks o1))" by force
      then have "n \<in> set (dkeys (steps sg))" unfolding keys using nodes by blast
      moreover have "p = Finished" using np r by (auto simp: ready_def Let_def)
      ultimately show "task_inv sg o1 n p" using fin [of n] by simp
    qed
  qed (use r in \<open>simp_all add: ready_def Let_def\<close>)
  moreover have "permits_inv sg ?o"
  proof -
    have "sum_list (map (\<lambda>(n, p). holds_permit p) (o_tasks o1)) = 0"
      using r by (intro sum_list_zero) (auto simp: ready_def Let_def holds_permit_def)
    with r show ?thesis by (simp add: permits_inv_def ready_def Let_def)
  qed
  ultimately show ?thesis
    using r False by (simp add: start_layer_def Let_def orch_inv_def ready_def)
qed

lemma start_layer_inv: "saga_def_ok sg \<Longrightarrow> ready sg i o1 \<Longrightarrow> orch_inv sg (start_layer i o1)"
  using start_next_layer start_no_layer by blast

lemma orch_init_inv:
  assumes ok: "saga_def_ok sg" and fresh: "step_statuses ctx = []" "step_attempts ctx = []"
    and init: "orch_init sg ctx = Inr o1"
  shows "orch_inv sg o1"
proof -
  from init obtain L where L: "compute_layers (step_deps sg) = Inr L"
    and o1: "o1 = start_layer 0 \<lparr>o_ctx = ctx\<lparr>topology_layers := L\<rparr>, o_completed = [],
      o_permits = (if 0 < layer_concurrency sg then Some (layer_concurrency sg) else None),
      o_index = 0, o_tasks = [], o_cancelled = {}, o_first_error = None, o_outcome = None, o_sleeps = []\<rparr>"
    by (auto simp: orch_init_def split: sum.splits)
  show ?thesis
    unfolding o1 using L fresh
    by (intro start_layer_inv ok)
      (auto simp: ready_def Let_def current_layer_def task_inv_def pc_ok_def deps_before_def start_order_def)
qed

lemma layer_done_inv:
  assumes ok: "saga_def_ok sg" and inv: "orch_inv sg o1" and live: "o_outcome o1 = None"
    and step: "layer_done o1 = Some o2"
  shows "orch_inv sg o2"
proof -
  let ?L = "topology_layers (o_ctx o1)" and ?i = "o_index o1"
  have C: "control_inv sg o1" and S: "steps_inv sg o1" and P: "permits_inv sg o1"
    and Z: "\<forall>e \<in> set (o_sleeps o1). sleep_ok sg e" using inv by (auto simp: orch_inv_def)
  have o2: "o2 = start_layer (Suc ?i) o1" and err: "o_first_error o1 = None"
    and ends: "\<forall>p \<in> set (dvals (o_tasks o1)). ended p \<and> \<not> crashed p"
    using step by (auto simp: layer_done_def all_ended_def list_all_iff list_ex_iff split: if_splits)
  have can: "o_cancelled o1 = {}" "Cancelled \<notin> set (dvals (o_tasks o1))"
    using C err by (auto simp: control_inv_def)
  have fin: "p = Finished" if "(n, p) \<in> set (o_tasks o1)" for n p
  proof -
    from that have "p \<in> set (dvals (o_tasks o1))" by force
    with ends can(2) have "ended p" "\<not> crashed p" "p \<noteq> Cancelled" by blast+
    then show ?thesis by (cases p) (auto simp: ended_def crashed_def)
  qed
  have i: "?i < length ?L" using C live by (simp add: control_inv_def)
  have take: "set (concat (take (Suc ?i) ?L)) = set (before_layer o1) \<union> set (current_layer o1)"
    using i by (simp add: take_Suc_conv_app_nth before_layer_def current_layer_def)
  have keys: "dkeys (o_tasks o1) = current_layer o1" using C by (simp add: control_inv_def)
  have cur: "task_inv sg o1 n Finished" if "n \<in> set (current_layer o1)" for n
  proof -
    from that obtain p where np: "(n, p) \<in> set (o_tasks o1)" unfolding keys [symmetric] by auto
    with S have "task_inv sg o1 n p" by (auto simp: steps_inv_def)
    with fin [OF np] show ?thesis by simp
  qed
  have "ready sg (Suc ?i) o1"
    unfolding ready_def Let_def
  proof (intro conjI)
    show "\<forall>n. task_inv sg o1 n (if n \<in> set (concat (take (Suc ?i) ?L)) then Finished else Waiting)"
      unfolding take using S cur unfolding steps_inv_def by (metis UnE)
    have "sum_list (map (\<lambda>(n, p). holds_permit p) (o_tasks o1)) = 0"
      using fin by (intro sum_list_zero) (fastforce simp: holds_permit_def)
    with P show "o_permits o1 = (if 0 < layer_concurrency sg then Some (layer_concurrency sg) else None)"
      by (auto simp: permits_inv_def)
  qed (use C S Z err can fin i live in \<open>auto simp: control_inv_def steps_inv_def\<close>)
  with ok show ?thesis unfolding o2 by (rule start_layer_inv)
qed

lemma orch_inv_control:
  assumes "orch_inv sg o1" "control_inv sg o2"
    "o_ctx o2 = o_ctx o1" "o_tasks o2 = o_tasks o1" "o_index o2 = o_index o1"
    "o_completed o2 = o_completed o1" "o_permits o2 = o_permits o1" "o_sleeps o2 = o_sleeps o1"
  shows "orch_inv sg o2"
  using assms by (simp add: orch_inv_def steps_inv_def task_inv_def permits_inv_def before_layer_def
      current_layer_def)

lemma layer_failed_inv:
  assumes inv: "orch_inv sg o1" and live: "o_outcome o1 = None" and step: "layer_failed n o1 = Some o2"
  shows "orch_inv sg o2"
proof -
  from step obtain e where e: "o_first_error o1 = None" "dget (o_tasks o1) n = Some (Crashed e)"
    and o2: "o2 = (let pending = set (map fst (filter (\<lambda>(_, p). \<not> ended p) (o_tasks o1)))
       in if pending = {} then o1\<lparr>o_first_error := Some e, o_outcome := Some (Inl e)\<rparr>
          else o1\<lparr>o_first_error := Some e, o_cancelled := pending\<rparr>)"
    by (auto simp: layer_failed_def split: option.splits pc.splits)
  have "Crashed e \<in> set (dvals (o_tasks o1))" using map_of_SomeD [OF e(2)] by force
  then have "control_inv sg o2"
    using inv live e(1) unfolding o2 
    by (auto simp: control_inv_def orch_inv_def Let_def current_layer_def all_ended_def list_all_iff
        filter_empty_conv split: if_splits)
  with inv show ?thesis by (rule orch_inv_control) (simp_all add: o2 Let_def)
qed

lemma drained_inv:
  assumes inv: "orch_inv sg o1" and step: "drained o1 = Some o2"
  shows "orch_inv sg o2"
proof -
  from step obtain e where "o_first_error o1 = Some e" "all_ended o1" "o2 = o1\<lparr>o_outcome := Some (Inl e)\<rparr>"
    by (auto simp: drained_def split: option.splits if_splits)
  then have "control_inv sg o2" using inv
    by (auto simp: control_inv_def orch_inv_def current_layer_def all_ended_def)
  with inv show ?thesis by (rule orch_inv_control) (use step in \<open>auto simp: drained_def split: option.splits if_splits\<close>)
qed

text \<open>A step of the machine is a resumption of a live task or one of the three moves of the loop.\<close>

lemma orch_step_cases:
  assumes "orch_step port inp sg ev o1 = Some o2"
  obtains (task) n p where "o_outcome o1 = None" "dget (o_tasks o1) n = Some p"
      "resume port inp sg ev n p o1 = Some o2" "\<not> ended p"
  | (layer) "o_outcome o1 = None" "layer_done o1 = Some o2"
  | (failed) n where "o_outcome o1 = None" "layer_failed n o1 = Some o2"
  | (drained) "o_outcome o1 = None" "drained o1 = Some o2"
proof (cases "event_task ev")
  case None
  with assms that show ?thesis
    by (cases ev) (auto simp: orch_step_def event_task_def split: if_splits)
next
  case (Some n)
  with assms obtain p where n: "o_outcome o1 = None" "dget (o_tasks o1) n = Some p"
    "resume port inp sg ev n p o1 = Some o2"
    by (auto simp: orch_step_def split: if_splits option.splits)
  have "\<not> ended p"
    using n(3) by (cases p) (auto simp: resume_def Let_def ended_def split: orch_event.splits option.splits)
  with n that show ?thesis by blast
qed

lemma task_pc_ok:
  "orch_inv sg o1 \<Longrightarrow> dget (o_tasks o1) n = Some p \<Longrightarrow> pc_ok (step_of sg n) (o_ctx o1) p"
  by (drule map_of_SomeD) (auto simp: orch_inv_def steps_inv_def task_inv_def)

lemma orch_step_inv [inv_intros]:
  assumes ok: "saga_def_ok sg" and inv: "orch_inv sg o1" and step: "orch_step port inp sg ev o1 = Some o2"
  shows "orch_inv sg o2"
  using step
proof (cases rule: orch_step_cases)
  case (task n p)
  from resume_advance [OF ok task_pc_ok [OF inv task(2)] task(3)] task show ?thesis
    using advance_inv [OF ok inv] by blast
next
  case layer
  with ok inv show ?thesis by (metis layer_done_inv)
next
  case (failed n)
  with inv show ?thesis by (metis layer_failed_inv)
next
  case drained
  with inv show ?thesis by (metis drained_inv)
qed

lemma orch_reach_inv:
  assumes "saga_def_ok sg" "step_statuses ctx = []" "step_attempts ctx = []"
    "orch_reach port inp sg ctx o1"
  shows "orch_inv sg o1"
  using assms(4) by induction (use assms in \<open>auto intro: orch_init_inv orch_step_inv\<close>)

lemma orch_run_reach:
  "orch_run port inp sg evs o1 = Some o2 \<Longrightarrow> orch_reach port inp sg ctx o1 \<Longrightarrow> orch_reach port inp sg ctx o2"
  by (induction port inp sg evs o1 rule: orch_run.induct) (auto intro: orch_reach.step split: option.splits)

section \<open>Termination and progress\<close>

definition layer_rank :: "saga_def \<Rightarrow> string list \<Rightarrow> nat" where
  "layer_rank sg layer = sum_list (map (\<lambda>n. rank (step_of sg n) Waiting) layer)"

definition orch_measure :: "saga_def \<Rightarrow> orch \<Rightarrow> nat" where
  "orch_measure sg o1 =
     sum_list (map (\<lambda>(n, p). rank (step_of sg n) p) (o_tasks o1)) +
     sum_list (map (\<lambda>l. Suc (layer_rank sg l)) (drop (Suc (o_index o1)) (topology_layers (o_ctx o1)))) +
     (if o_first_error o1 = None then 1 else 0) + (if o_outcome o1 = None then 1 else 0)"

lemma layer_done_measure:
  assumes "control_inv sg o1" "layer_done o1 = Some o2" "o_outcome o1 = None"
  shows "orch_measure sg o2 < orch_measure sg o1"
proof (cases "Suc (o_index o1) < length (topology_layers (o_ctx o1))")
  case True
  have "drop (Suc (o_index o1)) (topology_layers (o_ctx o1)) =
      topology_layers (o_ctx o1) ! Suc (o_index o1) # drop (Suc (Suc (o_index o1))) (topology_layers (o_ctx o1))"
    using True by (simp add: Cons_nth_drop_Suc)
  with assms True show ?thesis
    by (auto simp: layer_done_def start_layer_def Let_def orch_measure_def layer_rank_def comp_def
        split: if_splits)
next
  case False
  with assms show ?thesis
    by (auto simp: layer_done_def start_layer_def Let_def orch_measure_def split: if_splits)
qed

lemma orch_step_measure:
  assumes ok: "saga_def_ok sg" and inv: "orch_inv sg o1" and step: "orch_step port inp sg ev o1 = Some o2"
  shows "orch_measure sg o2 < orch_measure sg o1"
  using step
proof (cases rule: orch_step_cases)
  case (task n p)
  have C: "control_inv sg o1" using inv by (simp add: orch_inv_def)
  from resume_advance [OF ok task_pc_ok [OF inv task(2)] task(3)] ok
  obtain p' where mv: "moves n (holds_permit p) p' o1 o2"
    and less: "rank (step_of sg n) p' < rank (step_of sg n) p"
    by (auto simp: advance_def)
  from sum_dput [OF control_task(1) [OF ok C task(2)] task(2), of "\<lambda>n. rank (step_of sg n)" p'] less mv
  show ?thesis by (simp add: orch_measure_def moves_def)
next
  case layer
  with inv show ?thesis by (intro layer_done_measure) (simp_all add: orch_inv_def)
next
  case (failed n)
  then obtain e where "o_first_error o1 = None"
    "o2 = o1\<lparr>o_first_error := Some e, o_outcome := Some (Inl e)\<rparr> \<or>
     (\<exists>c. o2 = o1\<lparr>o_first_error := Some e, o_cancelled := c\<rparr>)"
    by (auto simp: layer_failed_def Let_def split: option.splits pc.splits if_splits)
  with failed(1) show ?thesis by (auto simp: orch_measure_def)
next
  case drained
  then show ?thesis by (auto simp: drained_def orch_measure_def split: option.splits if_splits)
qed

lemma orch_run_bounded:
  assumes "saga_def_ok sg" "orch_inv sg o1" "orch_run port inp sg evs o1 = Some o2"
  shows "length evs + orch_measure sg o2 \<le> orch_measure sg o1"
  using assms
proof (induction port inp sg evs o1 rule: orch_run.induct)
  case (2 port inp sg ev evs o1)
  then obtain o' where o': "orch_step port inp sg ev o1 = Some o'" "orch_run port inp sg evs o' = Some o2"
    by (auto split: option.splits)
  from 2(1) [OF o'(1) 2(2) orch_step_inv [OF 2(2,3) o'(1)] o'(2)] orch_step_measure [OF 2(2,3) o'(1)]
  show ?case by simp
qed simp

lemma uniform_ok_zero [simp]: "uniform_ok sd 0"
  by (simp add: uniform_ok_def)

text \<open>A task that holds a permit can always move on.\<close>

lemma holder_progress:
  assumes pc: "pc_ok (step_of sg n) (o_ctx o1) p" and n: "dget (o_tasks o1) n = Some p"
    and h: "holds_permit p = 1" and live: "o_outcome o1 = None"
  shows "\<exists>ev o2. orch_step port inp sg ev o1 = Some o2"
proof -
  have "\<exists>ev o2. event_task ev = Some n \<and> resume port inp sg ev n p o1 = Some o2"
  proof (cases p)
    case (Calling k b)
    then obtain m where "step_method (step_of sg n) = Some m" using pc by (auto simp: pc_ok_def Let_def)
    then have "may_return (step_of sg n) (VCoroutine (m_id m))" by (simp add: may_return_def)
    with Calling show ?thesis
      by (intro exI [of _ "EvReturn n (VCoroutine (m_id m)) 0"]) (simp add: resume_def Let_def event_task_def)
  next
    case (NotifyingOk k b)
    then show ?thesis
      by (intro exI [of _ "EvNotified n None 0"]) (simp add: resume_def Let_def event_task_def)
  next
    case (Sleeping k b)
    then show ?thesis
      by (intro exI [of _ "if n \<in> o_cancelled o1 then EvCancel n else EvWake n 0"])
        (simp add: resume_def Let_def event_task_def)
  next
    case (NotifyingFail e)
    then show ?thesis
      by (intro exI [of _ "EvNotified n None 0"]) (simp add: resume_def Let_def event_task_def)
  qed (use h in \<open>simp_all add: holds_permit_def\<close>)
  then obtain ev o2 where ev: "event_task ev = Some n" "resume port inp sg ev n p o1 = Some o2" by blast
  show ?thesis by (intro exI [of _ ev] exI [of _ o2]) (use n live ev in \<open>simp add: orch_step_def\<close>)
qed

lemma waiting_progress:
  assumes n: "dget (o_tasks o1) n = Some Waiting" and live: "o_outcome o1 = None"
    and free: "\<And>k. o_permits o1 = Some k \<Longrightarrow> 0 < k"
  shows "\<exists>ev o2. orch_step port inp sg ev o1 = Some o2"
proof -
  have "\<exists>o1'. acquire o1 = Some o1'" using free by (auto simp: acquire_def split: option.splits)
  then have "\<exists>o2. resume port inp sg (if n \<in> o_cancelled o1 then EvCancel n else EvStart n 0) n Waiting o1
      = Some o2"
    by (auto simp: resume_def Let_def)
  with n live show ?thesis
    by (intro exI [of _ "if n \<in> o_cancelled o1 then EvCancel n else EvStart n 0"])
      (auto simp: orch_step_def event_task_def)
qed

lemma ended_progress:
  assumes "all_ended o1" "o_outcome o1 = None" "dict_ok (o_tasks o1)"
  shows "\<exists>ev o2. orch_step port inp sg ev o1 = Some o2"
proof (cases "o_first_error o1")
  case None
  show ?thesis
  proof (cases "list_ex crashed (dvals (o_tasks o1))")
    case True
    then obtain n p where "(n, p) \<in> set (o_tasks o1)" "crashed p" by (auto simp: list_ex_iff)
    then obtain e where "dget (o_tasks o1) n = Some (Crashed e)"
      using assms(3) by (cases p) (auto simp: in_dict_dget [symmetric] crashed_def)
    with None assms show ?thesis
      by (intro exI [of _ "EvLayerFailed n"])
        (simp add: orch_step_def event_task_def layer_failed_def Let_def)
  next
    case False
    with None assms show ?thesis
      by (intro exI [of _ EvLayerDone]) (simp add: orch_step_def event_task_def layer_done_def)
  qed
next
  case (Some e)
  with assms show ?thesis
    by (intro exI [of _ EvDrained]) (simp add: orch_step_def event_task_def drained_def)
qed

lemma orch_progress:
  assumes ok: "saga_def_ok sg" and inv: "orch_inv sg o1" and live: "o_outcome o1 = None"
  shows "\<exists>ev o2. orch_step port inp sg ev o1 = Some o2"
proof -
  have C: "control_inv sg o1" and P: "permits_inv sg o1" using inv by (simp_all add: orch_inv_def)
  have "dkeys (o_tasks o1) = current_layer o1" using C by (simp add: control_inv_def)
  have d: "dict_ok (o_tasks o1)"
  proof (cases "o_tasks o1")
    case (Cons e es)
    then have "dget (o_tasks o1) (fst e) = Some (snd e)" by (cases e) simp
    then show ?thesis by (rule control_task(1) [OF ok C])
  qed simp
  consider (holder) n p where "dget (o_tasks o1) n = Some p" "holds_permit p = 1"
    | (waiting) n where "dget (o_tasks o1) n = Some Waiting"
        "\<And>n p. (n, p) \<in> set (o_tasks o1) \<Longrightarrow> holds_permit p = 0"
    | (ended) "all_ended o1"
  proof (cases "all_ended o1")
    case False
    then obtain n p where np: "(n, p) \<in> set (o_tasks o1)" "\<not> ended p"
      by (auto simp: all_ended_def list_all_iff)
    then have "p = Waiting \<or> holds_permit p = 1" by (cases p) (simp_all add: ended_def holds_permit_def)
    moreover have "holds_permit q = 0 \<or> holds_permit q = 1" for q by (simp add: holds_permit_def split: pc.split)
    ultimately show ?thesis using that np unfolding in_dict_dget [OF d] by metis
  qed
  then show ?thesis
  proof cases
    case holder
    with live show ?thesis using holder_progress task_pc_ok [OF inv] by metis
  next
    case waiting
    then have "sum_list (map (\<lambda>(n, p). holds_permit p) (o_tasks o1)) = 0" by (intro sum_list_zero) auto
    with P have "0 < k" if "o_permits o1 = Some k" for k using that by (auto simp: permits_inv_def split: if_splits)
    with waiting(1) live show ?thesis by (rule waiting_progress)
  next
    case ended
    then show ?thesis using live d by (rule ended_progress)
  qed
qed

lemma orch_completes:
  assumes ok: "saga_def_ok sg" and inv: "orch_inv sg o1"
  shows "\<exists>evs o2. orch_run port inp sg evs o1 = Some o2 \<and> o_outcome o2 \<noteq> None"
  using inv
proof (induction "orch_measure sg o1" arbitrary: o1 rule: less_induct)
  case less
  show ?case
  proof (cases "o_outcome o1")
    case None
    obtain ev o' where st: "orch_step port inp sg ev o1 = Some o'"
      using orch_progress [OF ok less(2) None] by blast
    obtain evs o2 where "orch_run port inp sg evs o' = Some o2" "o_outcome o2 \<noteq> None"
      using less(1) [OF orch_step_measure [OF ok less(2) st] orch_step_inv [OF ok less(2) st]] by blast
    with st show ?thesis by (intro exI [of _ "ev # evs"]) auto
  next
    case (Some r)
    then show ?thesis by (intro exI [of _ "[]"]) auto
  qed
qed

section \<open>What an execution promises its caller\<close>

lemma start_layer_ctx [simp]: "o_ctx (start_layer i o1) = o_ctx o1"
  by (simp add: start_layer_def Let_def)

lemma orch_step_base:
  assumes ok: "saga_def_ok sg" and inv: "orch_inv sg o1" and step: "orch_step port inp sg ev o1 = Some o2"
  shows "same_base o1 o2"
  using step
proof (cases rule: orch_step_cases)
  case (task n p)
  from resume_advance [OF ok task_pc_ok [OF inv task(2)] task(3)] show ?thesis by (simp add: advance_def)
next
  case layer
  then show ?thesis by (auto simp: layer_done_def same_base_def split: if_splits)
next
  case (failed n)
  then show ?thesis by (auto simp: layer_failed_def Let_def same_base_def split: option.splits pc.splits)
next
  case drained
  then show ?thesis by (auto simp: drained_def same_base_def split: option.splits if_splits)
qed

lemma orch_run_base:
  assumes "saga_def_ok sg" "orch_inv sg o1" "orch_run port inp sg evs o1 = Some o2"
  shows "same_base o1 o2"
  using assms
proof (induction port inp sg evs o1 rule: orch_run.induct)
  case (2 port inp sg ev evs o1)
  then obtain o' where o': "orch_step port inp sg ev o1 = Some o'" "orch_run port inp sg evs o' = Some o2"
    by (auto split: option.splits)
  from 2(1) [OF o'(1) 2(2) orch_step_inv [OF 2(2,3) o'(1)] o'(2)] orch_step_base [OF 2(2,3) o'(1)]
  show ?case by (simp add: same_base_def)
qed (simp add: same_base_def)

lemma orch_inv_status:
  assumes ok: "saga_def_ok sg" and inv: "orch_inv sg o1"
  shows "\<exists>p. task_inv sg o1 n p \<and> (p \<noteq> Waiting \<longrightarrow> n \<in> set (before_layer o1) \<union> set (current_layer o1)) \<and>
    (p \<noteq> Waiting \<longrightarrow> p \<noteq> Finished \<longrightarrow> (n, p) \<in> set (o_tasks o1))"
proof -
  have keys: "dkeys (o_tasks o1) = current_layer o1"
    using inv by (simp add: orch_inv_def control_inv_def)
  consider "n \<in> set (before_layer o1)" | "n \<in> set (current_layer o1)"
    | "n \<notin> set (before_layer o1) \<union> set (current_layer o1)" by blast
  then show ?thesis
  proof cases
    case 2
    then obtain p where "(n, p) \<in> set (o_tasks o1)" unfolding keys [symmetric] by auto
    moreover from this have "task_inv sg o1 n p" using inv by (auto simp: orch_inv_def steps_inv_def)
    ultimately show ?thesis using 2 by blast
  qed (use inv in \<open>unfold orch_inv_def steps_inv_def, blast+\<close>)
qed

lemma orch_inv_never_compensated:
  assumes "saga_def_ok sg" "orch_inv sg o1"
  shows "dget (step_statuses (o_ctx o1)) n \<noteq> Some COMPENSATED"
  using orch_inv_status [OF assms, of n] assms(1) by (auto simp: task_inv_def pc_ok_def Let_def)

lemma preds_step_of: "preds (step_deps sg) n = depends_on (step_of sg n)"
  by (simp add: preds_def dget_default_def dget_step_deps step_of_def step_default_def split: option.splits)

lemma started_deps_done:
  assumes ok: "saga_def_ok sg" and inv: "orch_inv sg o1"
    and st: "dget (step_statuses (o_ctx o1)) n \<noteq> None" and p: "p \<in> set (depends_on (step_of sg n))"
  shows "p \<in> set (o_completed o1)" "dget (step_statuses (o_ctx o1)) p = Some DONE"
proof -
  have C: "control_inv sg o1" and S: "steps_inv sg o1" using inv by (simp_all add: orch_inv_def)
  obtain q where q: "task_inv sg o1 n q" "q \<noteq> Waiting \<longrightarrow> n \<in> set (before_layer o1) \<union> set (current_layer o1)"
    using orch_inv_status [OF ok inv] by blast
  have "q \<noteq> Waiting" using q(1) st ok by (auto simp: task_inv_def pc_ok_def Let_def)
  with q have n: "n \<in> set (before_layer o1) \<union> set (current_layer o1)" by blast
  have dep: "dict_ok (step_deps sg)" using ok by (rule saga_def_ok_deps)
  have L: "valid_layers (step_deps sg) (topology_layers (o_ctx o1))"
    using C by (intro kahn.layers_valid [OF dep]) (simp add: control_inv_def)
  note pr = preds_step_of
  have "p \<in> set (before_layer o1)"
  proof (cases "n \<in> set (before_layer o1)")
    case True
    have "deps_before (step_deps sg) (take (o_index o1) (topology_layers (o_ctx o1)))"
      using L by (auto simp: valid_layers_def deps_before_def)
    from deps_before_concat [OF this True [unfolded before_layer_def]] p
    show ?thesis unfolding before_layer_def pr by (rule subsetD)
  next
    case False
    with n have "n \<in> set (dkeys (o_tasks o1))" using C by (simp add: control_inv_def)
    then obtain r where "dget (o_tasks o1) n = Some r" using in_keys_dget by metis
    from control_task(4) [OF ok C this] p pr show ?thesis by auto
  qed
  then have "task_inv sg o1 p Finished" using S unfolding steps_inv_def by blast
  then show "p \<in> set (o_completed o1)" "dget (step_statuses (o_ctx o1)) p = Some DONE"
    using ok by (auto simp: task_inv_def pc_ok_def Let_def)
qed

text \<open>
  The interface the engine relies on: an executor runs a saga on a context under some schedule and
  answers with a result and the context it leaves.
\<close>

definition completed_ok :: "saga_def \<Rightarrow> saga_context \<Rightarrow> string \<Rightarrow> bool" where
  "completed_ok sg ctx n \<longleftrightarrow> dget (step_statuses ctx) n = Some DONE \<and>
     dget (step_results ctx) n \<noteq> None \<and>
     (\<exists>k. dget (step_attempts ctx) n = Some (int k) \<and> attempt_in_range (step_of sg n) k)"

lemma finished_completed_ok:
  "saga_def_ok sg \<Longrightarrow> pc_ok (step_of sg n) ctx Finished \<Longrightarrow> completed_ok sg ctx n"
  by (auto simp: pc_ok_def completed_ok_def Let_def)

locale saga_executor =
  fixes exec :: "saga_def \<Rightarrow> 'sched \<Rightarrow> saga_context \<Rightarrow> ((exn + string list) \<times> saga_context) option"
  assumes exec_frame: "\<lbrakk>saga_def_ok sg; step_statuses ctx = []; step_attempts ctx = [];
      exec sg sch ctx = Some (r, ctx')\<rbrakk> \<Longrightarrow>
        correlation_id ctx' = correlation_id ctx \<and> saga_name ctx' = saga_name ctx \<and>
        headers ctx' = headers ctx \<and> compensation_results ctx' = compensation_results ctx \<and>
        compensation_errors ctx' = compensation_errors ctx"
    and exec_status: "\<lbrakk>saga_def_ok sg; step_statuses ctx = []; step_attempts ctx = [];
      exec sg sch ctx = Some (r, ctx')\<rbrakk> \<Longrightarrow> dget (step_statuses ctx') n \<noteq> Some COMPENSATED"
    and exec_success: "\<lbrakk>saga_def_ok sg; step_statuses ctx = []; step_attempts ctx = [];
      exec sg sch ctx = Some (Inr ids, ctx')\<rbrakk> \<Longrightarrow>
        distinct ids \<and> set ids = set (dkeys (steps sg)) \<and> (\<forall>n \<in> set ids. completed_ok sg ctx' n)"
    and exec_failure: "\<lbrakk>saga_def_ok sg; step_statuses ctx = []; step_attempts ctx = [];
      exec sg sch ctx = Some (Inl e, ctx'); is_dag (step_deps sg)\<rbrakk> \<Longrightarrow>
        \<exists>n \<in> set (dkeys (steps sg)). dget (step_statuses ctx') n = Some FAILED"
    and exec_deps: "\<lbrakk>saga_def_ok sg; step_statuses ctx = []; step_attempts ctx = [];
      exec sg sch ctx = Some (r, ctx'); dget (step_statuses ctx') n \<noteq> None;
      p \<in> set (depends_on (step_of sg n))\<rbrakk> \<Longrightarrow> dget (step_statuses ctx') p = Some DONE"
    and exec_order: "\<lbrakk>saga_def_ok sg; step_statuses ctx = []; step_attempts ctx = [];
      exec sg sch ctx = Some (r, ctx')\<rbrakk> \<Longrightarrow> start_order sg ctx'"
    and exec_layers: "\<lbrakk>saga_def_ok sg; step_statuses ctx = []; step_attempts ctx = [];
      exec sg sch ctx = Some (r, ctx'); step_statuses ctx' \<noteq> []\<rbrakk> \<Longrightarrow>
        compute_layers (step_deps sg) = Inr (topology_layers ctx')"
begin

text \<open>A failed execution leaves every step that depends on an unfinished one unstarted.\<close>

lemma blocked_not_started:
  assumes "saga_def_ok sg" "step_statuses ctx = []" "step_attempts ctx = []"
    "exec sg sch ctx = Some (r, ctx')" "p \<in> set (depends_on (step_of sg n))"
    "dget (step_statuses ctx') p \<noteq> Some DONE"
  shows "dget (step_statuses ctx') n = None"
  using exec_deps assms by blast

lemma success_all_done:
  assumes "saga_def_ok sg" "step_statuses ctx = []" "step_attempts ctx = []"
    "exec sg sch ctx = Some (Inr ids, ctx')" "n \<in> set (dkeys (steps sg))"
  shows "completed_ok sg ctx' n"
  using exec_success [OF assms(1-4)] assms(5) by blast

end

lemma orch_execute_cases:
  assumes ok: "saga_def_ok sg" and fresh: "step_statuses ctx = []" "step_attempts ctx = []"
    and ex: "orch_execute port inp sg sch ctx = Some (r, ctx')"
  obtains (no_layers) e where "compute_layers (step_deps sg) = Inl e" "r = Inl e" "ctx' = ctx"
  | (run) o1 o2 where "orch_init sg ctx = Inr o1" "orch_run port inp sg sch o1 = Some o2"
      "orch_inv sg o1" "orch_inv sg o2" "o_outcome o2 = Some r" "ctx' = o_ctx o2"
proof (cases "orch_init sg ctx")
  case (Inl e)
  with ex that(1) show ?thesis by (auto simp: orch_execute_def orch_init_def split: sum.splits)
next
  case (Inr o1)
  with ex obtain o2 where o2: "orch_run port inp sg sch o1 = Some o2" "o_outcome o2 = Some r" "ctx' = o_ctx o2"
    by (auto simp: orch_execute_def split: option.splits)
  have "orch_reach port inp sg ctx o2" using Inr o2(1) by (metis orch_reach.init orch_run_reach)
  then have "orch_inv sg o2" by (rule orch_reach_inv [OF ok fresh])
  with Inr o2 that(2) orch_init_inv [OF ok fresh Inr] show ?thesis by blast
qed

lemma orch_init_base: "orch_init sg ctx = Inr o1 \<Longrightarrow> \<exists>L. o_ctx o1 = ctx\<lparr>topology_layers := L\<rparr>"
  by (auto simp: orch_init_def split: sum.splits)

lemma orch_frame:
  assumes ok: "saga_def_ok sg" and fresh: "step_statuses ctx = []" "step_attempts ctx = []"
    and ex: "orch_execute port inp sg sch ctx = Some (r, ctx')"
  shows "correlation_id ctx' = correlation_id ctx \<and> saga_name ctx' = saga_name ctx \<and>
         headers ctx' = headers ctx \<and> compensation_results ctx' = compensation_results ctx \<and>
         compensation_errors ctx' = compensation_errors ctx"
  using ok fresh ex
proof (cases rule: orch_execute_cases)
  case (run o1 o2)
  obtain L where "o_ctx o1 = ctx\<lparr>topology_layers := L\<rparr>" using orch_init_base [OF run(1)] by blast
  with orch_run_base [OF ok run(3,2)] run(6) show ?thesis by (simp add: same_base_def)
qed simp

lemma orch_success:
  assumes "saga_def_ok sg" "orch_inv sg o1" "o_outcome o1 = Some (Inr ids)"
  shows "distinct ids \<and> set ids = set (dkeys (steps sg)) \<and> (\<forall>n \<in> set ids. completed_ok sg (o_ctx o1) n) \<and>
         deps_before (step_deps sg) (map (\<lambda>n. [n]) ids)"
proof -
  have ids: "ids = o_completed o1" "set ids = set (dkeys (steps sg))"
    and S: "distinct (o_completed o1)" "deps_before (step_deps sg) (map (\<lambda>n. [n]) (o_completed o1))"
    using assms by (auto simp: orch_inv_def control_inv_def steps_inv_def)
  have "completed_ok sg (o_ctx o1) n" if "n \<in> set ids" for n
    using that orch_inv_status [OF assms(1,2), of n] assms(1) ids(1)
    by (auto simp: task_inv_def intro: finished_completed_ok)
  with ids S show ?thesis by blast
qed

lemma orch_failure:
  assumes "saga_def_ok sg" "orch_inv sg o1" "o_outcome o1 = Some (Inl e)"
  shows "\<exists>n \<in> set (current_layer o1). n \<in> set (dkeys (steps sg)) \<and> dget (o_tasks o1) n = Some (Crashed e) \<and>
           dget (step_statuses (o_ctx o1)) n = Some FAILED \<and>
           dget (step_attempts (o_ctx o1)) n = Some (int (max_retries (step_of sg n)))"
proof -
  have C: "control_inv sg o1" using assms(2) by (simp add: orch_inv_def)
  then have "Crashed e \<in> set (dvals (o_tasks o1))" using assms(3) by (auto simp: control_inv_def)
  then obtain n where n: "(n, Crashed e) \<in> set (o_tasks o1)" by auto
  then obtain p where p: "dget (o_tasks o1) n = Some p" using in_keys_dget [of n "o_tasks o1"] by force
  note T = control_task [OF assms(1) C p]
  have d: "dget (o_tasks o1) n = Some (Crashed e)" using n unfolding in_dict_dget [OF T(1)] .
  from T(2,5) d task_pc_ok [OF assms(2) d] assms(1) show ?thesis
    by (intro bexI [of _ n]) (auto simp: pc_ok_def Let_def)
qed

interpretation orchestrator: saga_executor "orch_execute port inp"
proof
  show "correlation_id ctx' = correlation_id ctx \<and> saga_name ctx' = saga_name ctx \<and>
      headers ctx' = headers ctx \<and> compensation_results ctx' = compensation_results ctx \<and>
      compensation_errors ctx' = compensation_errors ctx"
    if "saga_def_ok sg" "step_statuses ctx = []" "step_attempts ctx = []"
      "orch_execute port inp sg sch ctx = Some (r, ctx')" for sg ctx sch r ctx'
    using that by (rule orch_frame)
  show "dget (step_statuses ctx') n \<noteq> Some COMPENSATED"
    if "saga_def_ok sg" "step_statuses ctx = []" "step_attempts ctx = []"
      "orch_execute port inp sg sch ctx = Some (r, ctx')" for sg ctx sch r ctx' n
    using that
  proof (cases rule: orch_execute_cases)
    case (run o1 o2)
    with orch_inv_never_compensated [OF that(1) run(4)] show ?thesis by simp
  qed (use that in simp)
  show "distinct ids \<and> set ids = set (dkeys (steps sg)) \<and> (\<forall>n \<in> set ids. completed_ok sg ctx' n)"
    if "saga_def_ok sg" "step_statuses ctx = []" "step_attempts ctx = []"
      "orch_execute port inp sg sch ctx = Some (Inr ids, ctx')" for sg ctx sch ids ctx'
    using that by (cases rule: orch_execute_cases) (use orch_success that(1) in auto)
  show "\<exists>n \<in> set (dkeys (steps sg)). dget (step_statuses ctx') n = Some FAILED"
    if "saga_def_ok sg" "step_statuses ctx = []" "step_attempts ctx = []"
      "orch_execute port inp sg sch ctx = Some (Inl e, ctx')" "is_dag (step_deps sg)" for sg ctx sch e ctx'
    using that(1-4)
  proof (cases rule: orch_execute_cases)
    case (no_layers e')
    with kahn.no_layers_not_dag [OF saga_def_ok_deps [OF that(1)]] that(5) show ?thesis by blast
  next
    case (run o1 o2)
    with orch_failure [OF that(1) run(4)] show ?thesis by auto
  qed
  show "dget (step_statuses ctx') p = Some DONE"
    if "saga_def_ok sg" "step_statuses ctx = []" "step_attempts ctx = []"
      "orch_execute port inp sg sch ctx = Some (r, ctx')" "dget (step_statuses ctx') n \<noteq> None"
      "p \<in> set (depends_on (step_of sg n))" for sg ctx sch r ctx' n p
    using that(1-4)
  proof (cases rule: orch_execute_cases)
    case (run o1 o2)
    with started_deps_done [OF that(1) run(4)] that(5,6) show ?thesis by simp
  qed (use that in simp)
  show "start_order sg ctx'"
    if "saga_def_ok sg" "step_statuses ctx = []" "step_attempts ctx = []"
      "orch_execute port inp sg sch ctx = Some (r, ctx')" for sg ctx sch r ctx'
    using that
  proof (cases rule: orch_execute_cases)
    case (run o1 o2)
    then show ?thesis by (simp add: orch_inv_def steps_inv_def)
  qed (use that in \<open>simp add: start_order_def\<close>)
  show "compute_layers (step_deps sg) = Inr (topology_layers ctx')"
    if "saga_def_ok sg" "step_statuses ctx = []" "step_attempts ctx = []"
      "orch_execute port inp sg sch ctx = Some (r, ctx')" "step_statuses ctx' \<noteq> []" for sg ctx sch r ctx'
    using that(1-4)
  proof (cases rule: orch_execute_cases)
    case (run o1 o2)
    then show ?thesis by (simp add: orch_inv_def control_inv_def)
  qed (use that in simp)
qed

section \<open>Properties\<close>

definition charge :: py_method where
  "charge = \<lparr>m_id = 1, m_qualname = ''Checkout.charge'', m_params = [''self''], m_hints = [],
     m_async = True, m_coro = True\<rparr>"

definition checkout :: saga_def where
  "checkout = \<lparr>sg_name = ''checkout'', sg_bean = VNone, layer_concurrency = 1,
     steps = [(''b'', (step_default ''b'')\<lparr>step_method := Some charge, depends_on := [''a''], retry := 2,
                         backoff_ms := 100\<rparr>),
              (''a'', (step_default ''a'')\<lparr>step_method := Some charge\<rparr>),
              (''c'', (step_default ''c'')\<lparr>step_method := Some charge\<rparr>)]\<rparr>"

definition checkout_ctx :: saga_context where
  "checkout_ctx = new_saga_context ''c1'' ''checkout'' []"

definition good_run :: "orch_event list" where
  "good_run = [EvStart ''a'' 0, EvReturn ''a'' (VInt 1) 5, EvStart ''c'' 0, EvReturn ''c'' (VInt 3) 5,
     EvLayerDone, EvStart ''b'' 0, EvRaise ''b'' (Exn RuntimeErrorC ''busy'' []) 0, EvWake ''b'' 0,
     EvReturn ''b'' (VInt 2) 7, EvLayerDone]"

definition bad_run :: "orch_event list" where
  "bad_run = [EvStart ''a'' 0, EvRaise ''a'' (Exn RuntimeErrorC ''refused'' []) 0, EvLayerFailed ''a'',
     EvCancel ''c'', EvDrained]"

text \<open>The state a schedule leads to from the initial one.\<close>

definition run_from :: "saga_def \<Rightarrow> saga_context \<Rightarrow> orch_event list \<Rightarrow> orch option" where
  "run_from sg ctx evs = (case orch_init sg ctx of Inl _ \<Rightarrow> None | Inr o1 \<Rightarrow> orch_run False VNone sg evs o1)"

lemma run_from_reach: "run_from sg ctx evs = Some o1 \<Longrightarrow> orch_reach False VNone sg ctx o1"
  unfolding run_from_def by (auto intro: orch_reach.init orch_run_reach split: sum.splits)

lemma checkout_ok: "saga_def_ok checkout"
  by (simp add: saga_def_ok_def checkout_def step_default_def)

lemma checkout_fresh: "step_statuses checkout_ctx = []" "step_attempts checkout_ctx = []"
  by (simp_all add: checkout_ctx_def new_saga_context_def)

lemma good_run_end:
  "map_option (\<lambda>o1. (o_outcome o1, step_statuses (o_ctx o1), o_sleeps o1)) (run_from checkout checkout_ctx good_run) =
     Some (Some (Inr [''a'', ''c'', ''b'']), [(''a'', DONE), (''c'', DONE), (''b'', DONE)], [(''b'', 1, 1 / 10)])"
  by code_simp

lemma bad_run_end:
  "map_option (\<lambda>o1. (o_outcome o1, step_statuses (o_ctx o1))) (run_from checkout checkout_ctx bad_run) =
     Some (Some (Inl (Exn RuntimeErrorC ''refused'' [])), [(''a'', FAILED)])"
  by code_simp

text \<open>
  Claim C1. Dependency safety, in every reachable state of every schedule: once a step has been started, each of
  its predecessors is done and has been completed before it.
\<close>

theorem steps_respect_dependencies:
  assumes "saga_def_ok sg" "step_statuses ctx = []" "step_attempts ctx = []"
    and "orch_reach port inp sg ctx o1"
    and "dget (step_statuses (o_ctx o1)) n \<noteq> None" "p \<in> set (depends_on (step_of sg n))"
  shows "p \<in> set (o_completed o1) \<and> dget (step_statuses (o_ctx o1)) p = Some DONE"
  using started_deps_done [OF assms(1) orch_reach_inv [OF assms(1-4)] assms(5,6)] by blast

theorem steps_respect_dependencies_witness:
  "\<exists>o1. orch_reach False VNone checkout checkout_ctx o1 \<and>
        dget (step_statuses (o_ctx o1)) ''b'' = Some DONE \<and>
        ''a'' \<in> set (o_completed o1) \<and> dget (step_statuses (o_ctx o1)) ''a'' = Some DONE"
proof -
  from good_run_end obtain o1 where o1: "run_from checkout checkout_ctx good_run = Some o1"
    "step_statuses (o_ctx o1) = [(''a'', DONE), (''c'', DONE), (''b'', DONE)]" by auto
  have "''a'' \<in> set (depends_on (step_of checkout ''b''))" by (simp add: step_of_def checkout_def)
  with steps_respect_dependencies [OF checkout_ok checkout_fresh run_from_reach [OF o1(1)], of "''b''" "''a''"] o1
  show ?thesis using run_from_reach [OF o1(1)] by (intro exI [of _ o1]) simp
qed

text \<open>
  Claim C2. A successful execution: the list returned holds every step exactly once, in an order in which each
  comes after its predecessors; every step is done, with a result and a number of attempts between one and the
  configured maximum.
\<close>

theorem execution_success:
  assumes "saga_def_ok sg" "step_statuses ctx = []" "step_attempts ctx = []"
    and "orch_reach port inp sg ctx o1" "o_outcome o1 = Some (Inr ids)"
  shows "distinct ids \<and> set ids = set (dkeys (steps sg)) \<and> (\<forall>n \<in> set ids. completed_ok sg (o_ctx o1) n) \<and>
         deps_before (step_deps sg) (map (\<lambda>n. [n]) ids)"
  using orch_success [OF assms(1) orch_reach_inv [OF assms(1-4)] assms(5)] .

theorem execution_success_witness:
  "\<exists>o1 :: orch. o_outcome o1 = Some (Inr [''a'', ''c'', ''b'']) \<and>
        (\<forall>n \<in> {''a'', ''b'', ''c''}. completed_ok checkout (o_ctx o1) n)"
proof -
  from good_run_end obtain o1 where o1: "run_from checkout checkout_ctx good_run = Some o1"
    "o_outcome o1 = Some (Inr [''a'', ''c'', ''b''])" by auto
  from execution_success [OF checkout_ok checkout_fresh run_from_reach [OF o1(1)] o1(2)] o1(2)
  show ?thesis by (intro exI [of _ o1]) simp
qed

text \<open>
  Claim C3. A failed execution: the error is that of a step of the current layer, which is marked failed after
  its last attempt; every task of the layer has ended; the steps of the layers before are completed; and no step of a later
  layer has been started.
\<close>

theorem execution_failure:
  assumes "saga_def_ok sg" "step_statuses ctx = []" "step_attempts ctx = []"
    and "orch_reach port inp sg ctx o1" "o_outcome o1 = Some (Inl e)"
  shows "(\<exists>n \<in> set (current_layer o1). dget (o_tasks o1) n = Some (Crashed e) \<and>
            dget (step_statuses (o_ctx o1)) n = Some FAILED \<and>
            dget (step_attempts (o_ctx o1)) n = Some (int (max_retries (step_of sg n)))) \<and>
         all_ended o1 \<and> (\<forall>n \<in> set (before_layer o1). completed_ok sg (o_ctx o1) n) \<and>
         (\<forall>n. n \<notin> set (before_layer o1) \<union> set (current_layer o1) \<longrightarrow>
            dget (step_statuses (o_ctx o1)) n = None)"
proof -
  have inv: "orch_inv sg o1" by (rule orch_reach_inv [OF assms(1-4)])
  then have S: "steps_inv sg o1" and "all_ended o1"
    using assms(5) by (auto simp: orch_inv_def control_inv_def)
  moreover have "completed_ok sg (o_ctx o1) n" if "n \<in> set (before_layer o1)" for n
    using S that finished_completed_ok [OF assms(1)] unfolding steps_inv_def task_inv_def by blast
  moreover have "dget (step_statuses (o_ctx o1)) n = None"
    if "n \<notin> set (before_layer o1) \<union> set (current_layer o1)" for n
  proof -
    have "task_inv sg o1 n Waiting" using S that unfolding steps_inv_def by blast
    then show ?thesis using assms(1) by (simp add: task_inv_def pc_ok_def Let_def)
  qed
  ultimately show ?thesis using orch_failure [OF assms(1) inv assms(5)] by blast
qed

theorem execution_failure_witness:
  "\<exists>o1 :: orch. o_outcome o1 = Some (Inl (Exn RuntimeErrorC ''refused'' [])) \<and>
        step_statuses (o_ctx o1) = [(''a'', FAILED)] \<and> all_ended o1"
proof -
  from bad_run_end obtain o1 where o1: "run_from checkout checkout_ctx bad_run = Some o1"
    "o_outcome o1 = Some (Inl (Exn RuntimeErrorC ''refused'' []))"
    "step_statuses (o_ctx o1) = [(''a'', FAILED)]" by auto
  from execution_failure [OF checkout_ok checkout_fresh run_from_reach [OF o1(1)] o1(2)] o1
  show ?thesis by (intro exI [of _ o1]) simp
qed

text \<open>
  Claim C6. The semaphore: with a positive layer concurrency, the number of steps that are past the semaphore
  and not yet ended never exceeds it, back-off sleeps included.
\<close>

theorem concurrency_bounded:
  assumes "saga_def_ok sg" "step_statuses ctx = []" "step_attempts ctx = []"
    and "orch_reach port inp sg ctx o1" "0 < layer_concurrency sg"
  shows "int (length (filter (\<lambda>(n, p). holds_permit p = 1) (o_tasks o1))) \<le> layer_concurrency sg"
proof -
  have "sum_list (map (\<lambda>(n, p). holds_permit p) ts) = int (length (filter (\<lambda>(n, p). holds_permit p = 1) ts))"
    for ts :: "(string, pc) dict"
    by (induction ts) (auto simp: holds_permit_def split: pc.splits)
  moreover have "permits_inv sg o1"
    using orch_reach_inv [OF assms(1-4)] by (simp add: orch_inv_def)
  ultimately show ?thesis using assms(5) by (auto simp: permits_inv_def)
qed

theorem concurrency_bounded_witness:
  "\<exists>o1 :: orch. o_tasks o1 = [(''a'', Calling 1 0), (''c'', Waiting)] \<and> o_permits o1 = Some 0 \<and>
        length (filter (\<lambda>(n, p). holds_permit p = 1) (o_tasks o1)) \<le> 1"
proof -
  have "map_option (\<lambda>o1. (o_tasks o1, o_permits o1)) (run_from checkout checkout_ctx [EvStart ''a'' 0]) =
      Some ([(''a'', Calling 1 0), (''c'', Waiting)], Some 0)" by code_simp
  then obtain o1 where o1: "run_from checkout checkout_ctx [EvStart ''a'' 0] = Some o1"
    "o_tasks o1 = [(''a'', Calling 1 0), (''c'', Waiting)]" "o_permits o1 = Some 0" by auto
  from concurrency_bounded [OF checkout_ok checkout_fresh run_from_reach [OF o1(1)]] o1
  show ?thesis by (intro exI [of _ o1]) (simp add: checkout_def)
qed

text \<open>
  Retries and back-off: a step sleeps only after an attempt that is not its last, the delay after attempt
  \<open>k\<close> is the base doubled \<open>k - 1\<close> times, and jitter moves it by at most the configured fraction.
\<close>

theorem backoff_schedule:
  assumes "saga_def_ok sg" "step_statuses ctx = []" "step_attempts ctx = []"
    and "orch_reach port inp sg ctx o1" "(n, k, delay) \<in> set (o_sleeps o1)"
  shows "1 \<le> k \<and> k < max_retries (step_of sg n) \<and>
         \<bar>delay - of_int (backoff_ms (step_of sg n)) * 2 ^ (k - 1) / 1000\<bar>
           \<le> (if jitter (step_of sg n) then \<bar>jitter_factor (step_of sg n)\<bar> else 0) *
              (\<bar>of_int (backoff_ms (step_of sg n))\<bar> * 2 ^ (k - 1) / 1000)"
proof -
  let ?sd = "step_of sg n"
  have "sleep_ok sg (n, k, delay)"
    using orch_reach_inv [OF assms(1-4)] assms(5) by (auto simp: orch_inv_def)
  then obtain u where k: "1 \<le> k" "k < max_retries ?sd" and u: "uniform_ok ?sd u"
    and d: "delay = backoff_delay ?sd (nth_backoff ?sd k) u" by (auto simp: sleep_ok_def)
  have "delay - nth_backoff ?sd k / 1000 = (if jitter ?sd then u else 0) * (nth_backoff ?sd k / 1000)"
    by (simp add: d backoff_delay_def algebra_simps)
  then have "\<bar>delay - nth_backoff ?sd k / 1000\<bar> = \<bar>if jitter ?sd then u else 0\<bar> * \<bar>nth_backoff ?sd k / 1000\<bar>"
    by (simp only: abs_mult)
  also have "\<dots> \<le> (if jitter ?sd then \<bar>jitter_factor ?sd\<bar> else 0) * \<bar>nth_backoff ?sd k / 1000\<bar>"
    using u by (intro mult_right_mono) (auto simp: uniform_ok_def)
  also have "\<bar>nth_backoff ?sd k / 1000\<bar> = \<bar>of_int (backoff_ms ?sd)\<bar> * 2 ^ (k - 1) / 1000"
    by (simp add: nth_backoff_def abs_mult)
  finally show ?thesis using k by (simp add: nth_backoff_def)
qed

theorem backoff_schedule_witness:
  "\<exists>o1 :: orch. o_sleeps o1 = [(''b'', 1, 1 / 10)] \<and> (1::nat) < max_retries (step_of checkout ''b'')"
proof -
  from good_run_end obtain o1 where o1: "run_from checkout checkout_ctx good_run = Some o1"
    "o_sleeps o1 = [(''b'', 1, 1 / 10)]" by auto
  from backoff_schedule [OF checkout_ok checkout_fresh run_from_reach [OF o1(1)], of "''b''" 1 "1 / 10"] o1(2)
  show ?thesis by (intro exI [of _ o1]) simp
qed

text \<open>
  Claim C5. Executions end: from every reachable state every run is at most as long as a bound computed from the
  definition and the state, no state without a result is stuck, and some run reaches a result.
\<close>

theorem execution_terminates:
  assumes "saga_def_ok sg" "step_statuses ctx = []" "step_attempts ctx = []"
    and "orch_reach port inp sg ctx o1"
  shows "(\<forall>evs o2. orch_run port inp sg evs o1 = Some o2 \<longrightarrow> length evs \<le> orch_measure sg o1) \<and>
         (o_outcome o1 = None \<longrightarrow> (\<exists>ev o2. orch_step port inp sg ev o1 = Some o2)) \<and>
         (\<exists>evs o2. orch_run port inp sg evs o1 = Some o2 \<and> o_outcome o2 \<noteq> None)"
proof -
  note inv = orch_reach_inv [OF assms]
  show ?thesis
    using orch_run_bounded [OF assms(1) inv] orch_progress [OF assms(1) inv] orch_completes [OF assms(1) inv]
    by (meson add_leD1)
qed

theorem execution_terminates_witness:
  "\<exists>o1 evs o2. orch_reach False VNone checkout checkout_ctx o1 \<and> o_outcome o1 = None \<and>
     orch_run False VNone checkout evs o1 = Some o2 \<and> o_outcome o2 \<noteq> None"
proof -
  have "map_option o_outcome (run_from checkout checkout_ctx []) = Some None" by code_simp
  then obtain o1 where o1: "run_from checkout checkout_ctx [] = Some o1" "o_outcome o1 = None" by auto
  from execution_terminates [OF checkout_ok checkout_fresh run_from_reach [OF o1(1)]] o1 run_from_reach [OF o1(1)]
  show ?thesis by blast
qed

definition notified_run :: "orch_event list" where
  "notified_run = [EvStart ''a'' 0, EvReturn ''a'' (VInt 1) 5, EvNotified ''a'' None 0,
     EvStart ''c'' 0, EvReturn ''c'' (VInt 3) 5, EvNotified ''c'' None 0, EvLayerDone,
     EvStart ''b'' 0, EvReturn ''b'' (VInt 2) 7, EvNotified ''b'' (Some (Exn RuntimeErrorC ''sink'' [])) 0,
     EvWake ''b'' 0]"

text \<open>
  An event listener that raises from \<^verbatim>\<open>on_step_success\<close> makes the orchestrator run a step again
  that is done: its result is recorded, its status goes back from done to running, and the method is called once more.
\<close>

theorem listener_failure_reruns_step:
  "map_option (\<lambda>o1. (dget (step_statuses (o_ctx o1)) ''b'', dget (step_results (o_ctx o1)) ''b'',
                     dget (o_tasks o1) ''b''))
     (case orch_init checkout checkout_ctx of Inl _ \<Rightarrow> None
      | Inr o1 \<Rightarrow> orch_run True VNone checkout notified_run o1) =
   Some (Some RUNNING, Some (VInt 2), Some (Calling 2 200))"
  by code_simp

end
