(* ===== verification/Compensator.thy ===== *)
theory Compensator
  imports ArgResolver Topology
begin

text \<open>
  \<^verbatim>\<open>saga/engine/compensator.py\<close>: the five compensation policies. What user code, the events port and
  the error handler do is the environment, which may depend on everything that happened before: its
  answers are functions of the log of what the compensator did.
\<close>

section \<open>Environment and log\<close>

datatype comp_event =
    Invoked string "exn option"
  | Emitted string "exn option"
  | Handled string exn
  | Slept string rat
  | CircuitOpened

type_synonym comp_log = "comp_event list"

text \<open>
  \<open>ce_events\<close> and \<open>ce_handler\<close> are the optional ports: what \<^verbatim>\<open>on_compensated\<close> and \<^verbatim>\<open>handle\<close> raise,
  if anything. \<open>ce_order\<close> is the order in which the tasks of one \<^verbatim>\<open>asyncio.gather\<close> run; a task's own
  actions are taken to be adjacent in the log.
\<close>

record comp_env =
  ce_call :: "comp_log \<Rightarrow> user_call"
  ce_events :: "(comp_log \<Rightarrow> string \<Rightarrow> exn option \<Rightarrow> exn option) option"
  ce_handler :: "(comp_log \<Rightarrow> string \<Rightarrow> exn \<Rightarrow> exn option) option"
  ce_order :: "step_def list \<Rightarrow> step_def list"

type_synonym comp_result = "exn option \<times> comp_log"

section \<open>One compensation\<close>

definition emit_compensated :: "comp_env \<Rightarrow> string \<Rightarrow> exn option \<Rightarrow> comp_log \<Rightarrow> comp_result" where
  "emit_compensated env step_id error lg =
     (case ce_events env of
        None \<Rightarrow> (None, lg)
      | Some port \<Rightarrow> (port lg step_id error, lg @ [Emitted step_id error]))"

definition run_handler :: "comp_env \<Rightarrow> string \<Rightarrow> exn \<Rightarrow> comp_log \<Rightarrow> comp_result" where
  "run_handler env step_id exc lg =
     (case ce_handler env of
        None \<Rightarrow> (None, lg)
      | Some h \<Rightarrow> (h lg step_id exc, lg @ [Handled step_id exc]))"

definition call_compensation :: "comp_env \<Rightarrow> saga_context \<Rightarrow> step_def \<Rightarrow> comp_log \<Rightarrow> comp_result" where
  "call_compensation env ctx sd lg =
     (let r = (case invoke_compensation (ce_call env lg) sd ctx VNone of Inl e \<Rightarrow> Some e | Inr _ \<Rightarrow> None)
      in (r, lg @ [Invoked (sd_id sd) r]))"

text \<open>\<^verbatim>\<open>_invoke_one\<close> and its \<^verbatim>\<open>except\<close> branch, which also catches what the emission of the success raises.\<close>

definition compensation_failed ::
  "comp_env \<Rightarrow> bool \<Rightarrow> bool \<Rightarrow> step_def \<Rightarrow> exn \<Rightarrow> comp_log \<Rightarrow> comp_result"
where
  "compensation_failed env raise_on_error skip_error_handler sd exc lg =
     (case emit_compensated env (sd_id sd) (Some exc) lg of
        (Some e, lg) \<Rightarrow> (Some e, lg)
      | (None, lg) \<Rightarrow>
          (case (if skip_error_handler then (None, lg) else run_handler env (sd_id sd) exc lg) of
             (Some e, lg) \<Rightarrow> (Some e, lg)
           | (None, lg) \<Rightarrow> (if raise_on_error then Some exc else None, lg)))"

definition invoke_one ::
  "comp_env \<Rightarrow> saga_context \<Rightarrow> bool \<Rightarrow> bool \<Rightarrow> step_def \<Rightarrow> comp_log \<Rightarrow> comp_result"
where
  "invoke_one env ctx raise_on_error skip_error_handler sd lg =
     (case call_compensation env ctx sd lg of
        (Some exc, lg) \<Rightarrow> compensation_failed env raise_on_error skip_error_handler sd exc lg
      | (None, lg) \<Rightarrow>
          (case emit_compensated env (sd_id sd) None lg of
             (Some exc, lg) \<Rightarrow> compensation_failed env raise_on_error skip_error_handler sd exc lg
           | (None, lg) \<Rightarrow> (None, lg)))"

text \<open>The steps a policy acts on: known ones with a compensation method.\<close>

definition compensable :: "saga_def \<Rightarrow> string \<Rightarrow> step_def option" where
  "compensable sg step_id =
     (case dget (steps sg) step_id of
        None \<Rightarrow> None
      | Some sd \<Rightarrow> if compensate_method sd = None then None else Some sd)"

section \<open>The policies\<close>

text \<open>The sequential policies take the completed steps already reversed.\<close>

fun strict_sequential :: "comp_env \<Rightarrow> saga_def \<Rightarrow> saga_context \<Rightarrow> string list \<Rightarrow> comp_log \<Rightarrow> comp_result" where
  "strict_sequential env sg ctx [] lg = (None, lg)"
| "strict_sequential env sg ctx (step_id # step_ids) lg =
     (case compensable sg step_id of
        None \<Rightarrow> strict_sequential env sg ctx step_ids lg
      | Some sd \<Rightarrow>
          (case invoke_one env ctx True False sd lg of
             (Some e, lg) \<Rightarrow> (Some e, lg)
           | (None, lg) \<Rightarrow> strict_sequential env sg ctx step_ids lg))"

text \<open>
  \<^verbatim>\<open>gather\<close> runs every task; it raises the first exception, and the tasks still running go on. The
  log has all of them; what the caller does next may in reality come before the last of them.
\<close>

fun gather_all :: "comp_env \<Rightarrow> saga_context \<Rightarrow> step_def list \<Rightarrow> exn option \<Rightarrow> comp_log \<Rightarrow> comp_result" where
  "gather_all env ctx [] err lg = (err, lg)"
| "gather_all env ctx (sd # sds) err lg =
     (case invoke_one env ctx True False sd lg of
        (r, lg) \<Rightarrow> gather_all env ctx sds (case err of None \<Rightarrow> r | Some e \<Rightarrow> Some e) lg)"

definition layer_steps :: "saga_def \<Rightarrow> string set \<Rightarrow> string list \<Rightarrow> step_def list" where
  "layer_steps sg completed_set layer =
     List.map_filter (\<lambda>step_id. if step_id \<notin> completed_set then None else compensable sg step_id) layer"

fun grouped_parallel ::
  "comp_env \<Rightarrow> saga_def \<Rightarrow> saga_context \<Rightarrow> string set \<Rightarrow> string list list \<Rightarrow> comp_log \<Rightarrow> comp_result"
where
  "grouped_parallel env sg ctx completed_set [] lg = (None, lg)"
| "grouped_parallel env sg ctx completed_set (layer # layers) lg =
     (case gather_all env ctx (ce_order env (layer_steps sg completed_set layer)) None lg of
        (Some e, lg) \<Rightarrow> (Some e, lg)
      | (None, lg) \<Rightarrow> grouped_parallel env sg ctx completed_set layers lg)"

definition comp_retries :: "step_def \<Rightarrow> int" where
  "comp_retries sd = (case compensation_retry sd of None \<Rightarrow> 3 | Some n \<Rightarrow> n)"

definition comp_backoff :: "step_def \<Rightarrow> int" where
  "comp_backoff sd = (case compensation_backoff_ms sd of None \<Rightarrow> 1000 | Some n \<Rightarrow> n)"

text \<open>The attempt loop: \<open>n\<close> attempts are left, \<open>attempt\<close> have been made.\<close>

fun try_compensation ::
  "comp_env \<Rightarrow> saga_context \<Rightarrow> step_def \<Rightarrow> nat \<Rightarrow> nat \<Rightarrow> exn option \<Rightarrow> comp_log \<Rightarrow> comp_result"
where
  "try_compensation env ctx sd 0 attempt last_error lg = (last_error, lg)"
| "try_compensation env ctx sd (Suc n) attempt last_error lg =
     (case invoke_one env ctx True True sd lg of
        (None, lg) \<Rightarrow> (None, lg)
      | (Some e, lg) \<Rightarrow>
          try_compensation env ctx sd n (Suc attempt) (Some e)
            (if 0 < n then lg @ [Slept (sd_id sd) (of_int (comp_backoff sd) * 2 ^ attempt / 1000)] else lg))"

fun retry_with_backoff :: "comp_env \<Rightarrow> saga_def \<Rightarrow> saga_context \<Rightarrow> string list \<Rightarrow> comp_log \<Rightarrow> comp_result" where
  "retry_with_backoff env sg ctx [] lg = (None, lg)"
| "retry_with_backoff env sg ctx (step_id # step_ids) lg =
     (case compensable sg step_id of
        None \<Rightarrow> retry_with_backoff env sg ctx step_ids lg
      | Some sd \<Rightarrow>
          (case try_compensation env ctx sd (nat (comp_retries sd)) 0 None lg of
             (None, lg) \<Rightarrow> retry_with_backoff env sg ctx step_ids lg
           | (Some last_error, lg) \<Rightarrow> compensation_failed env True False sd last_error lg))"

definition circuit_breaker_threshold :: nat where
  "circuit_breaker_threshold = 3"

fun circuit_breaker ::
  "comp_env \<Rightarrow> saga_def \<Rightarrow> saga_context \<Rightarrow> nat \<Rightarrow> string list \<Rightarrow> comp_log \<Rightarrow> comp_result"
where
  "circuit_breaker env sg ctx consecutive_failures [] lg = (None, lg)"
| "circuit_breaker env sg ctx consecutive_failures (step_id # step_ids) lg =
     (if circuit_breaker_threshold \<le> consecutive_failures then (None, lg @ [CircuitOpened])
      else case compensable sg step_id of
        None \<Rightarrow> circuit_breaker env sg ctx consecutive_failures step_ids lg
      | Some sd \<Rightarrow>
          (case invoke_one env ctx True False sd lg of
             (None, lg) \<Rightarrow> circuit_breaker env sg ctx 0 step_ids lg
           | (Some _, lg) \<Rightarrow> circuit_breaker env sg ctx (Suc consecutive_failures) step_ids lg))"

text \<open>
  \<^verbatim>\<open>_compensate_one\<close> returns or raises an exception; \<^verbatim>\<open>gather(return_exceptions=True)\<close> collects
  both, and they are only logged.
\<close>

definition compensate_one :: "comp_env \<Rightarrow> saga_context \<Rightarrow> step_def \<Rightarrow> comp_log \<Rightarrow> comp_result" where
  "compensate_one env ctx sd lg =
     (case call_compensation env ctx sd lg of
        (Some exc, lg) \<Rightarrow> compensation_failed env True False sd exc lg
      | (None, lg) \<Rightarrow>
          (case emit_compensated env (sd_id sd) None lg of
             (Some exc, lg) \<Rightarrow> compensation_failed env True False sd exc lg
           | (None, lg) \<Rightarrow> (None, lg)))"

fun gather_exceptions :: "comp_env \<Rightarrow> saga_context \<Rightarrow> step_def list \<Rightarrow> comp_log \<Rightarrow> exn list \<times> comp_log" where
  "gather_exceptions env ctx [] lg = ([], lg)"
| "gather_exceptions env ctx (sd # sds) lg =
     (case compensate_one env ctx sd lg of
        (r, lg) \<Rightarrow>
          (case gather_exceptions env ctx sds lg of
             (errors, lg) \<Rightarrow> (case r of None \<Rightarrow> errors | Some e \<Rightarrow> e # errors, lg)))"

definition best_effort_parallel ::
  "comp_env \<Rightarrow> saga_def \<Rightarrow> saga_context \<Rightarrow> string list \<Rightarrow> comp_log \<Rightarrow> comp_result"
where
  "best_effort_parallel env sg ctx completed_step_ids lg =
     (case gather_exceptions env ctx
             (ce_order env (List.map_filter (compensable sg) completed_step_ids)) lg of
        (errors, lg) \<Rightarrow> (None, lg))"

definition compensate ::
  "comp_env \<Rightarrow> compensation_policy \<Rightarrow> string list \<Rightarrow> saga_def \<Rightarrow> saga_context \<Rightarrow> string list list \<Rightarrow>
     comp_log \<Rightarrow> comp_result"
where
  "compensate env policy completed_step_ids sg ctx layers lg =
     (if completed_step_ids = [] then (None, lg)
      else case policy of
        STRICT_SEQUENTIAL \<Rightarrow> strict_sequential env sg ctx (rev completed_step_ids) lg
      | GROUPED_PARALLEL \<Rightarrow> grouped_parallel env sg ctx (set completed_step_ids) (rev layers) lg
      | RETRY_WITH_BACKOFF \<Rightarrow> retry_with_backoff env sg ctx (rev completed_step_ids) lg
      | CIRCUIT_BREAKER \<Rightarrow> circuit_breaker env sg ctx 0 (rev completed_step_ids) lg
      | BEST_EFFORT_PARALLEL \<Rightarrow> best_effort_parallel env sg ctx completed_step_ids lg)"

section \<open>What the log records\<close>

definition outcomes :: "comp_log \<Rightarrow> (string \<times> exn option) list" where
  "outcomes lg = List.map_filter (\<lambda>ev. case ev of Invoked sid r \<Rightarrow> Some (sid, r) | _ \<Rightarrow> None) lg"

definition invoked :: "comp_log \<Rightarrow> string list" where
  "invoked lg = map fst (outcomes lg)"

lemma outcomes_append [simp]: "outcomes (xs @ ys) = outcomes xs @ outcomes ys"
  by (induction xs) (auto simp: outcomes_def map_filter_simps split: option.splits)

lemma outcomes_simps [simp]:
  "outcomes [] = []" "outcomes [Invoked sid r] = [(sid, r)]" "outcomes [Emitted sid x] = []"
  "outcomes [Handled sid e] = []" "outcomes [Slept sid d] = []" "outcomes [CircuitOpened] = []"
  by (simp_all add: outcomes_def map_filter_simps)

lemma invoked_append [simp]: "invoked (xs @ ys) = invoked xs @ invoked ys"
  by (simp add: invoked_def)

text \<open>An environment whose ports never raise.\<close>

definition quiet :: "comp_env \<Rightarrow> bool" where
  "quiet env \<longleftrightarrow> (\<forall>f. ce_events env = Some f \<longrightarrow> (\<forall>l s e. f l s e = None)) \<and>
                 (\<forall>h. ce_handler env = Some h \<longrightarrow> (\<forall>l s e. h l s e = None))"

lemma emit_outcomes [simp]: "outcomes (snd (emit_compensated env sid err lg)) = outcomes lg"
  by (simp add: emit_compensated_def split: option.splits)

lemma handler_outcomes [simp]: "outcomes (snd (run_handler env sid err lg)) = outcomes lg"
  by (simp add: run_handler_def split: option.splits)

lemma port_outcomes:
  "emit_compensated env sid err lg = (r, lg') \<Longrightarrow> outcomes lg' = outcomes lg"
  "run_handler env sid e lg = (r, lg') \<Longrightarrow> outcomes lg' = outcomes lg"
  using emit_outcomes [of env sid err lg] handler_outcomes [of env sid e lg] by simp_all

lemma failed_outcomes [simp]: "outcomes (snd (compensation_failed env r k sd exc lg)) = outcomes lg"
  by (auto simp: compensation_failed_def dest!: port_outcomes split: prod.splits option.splits if_splits)

lemma invoke_one_outcomes:
  "\<exists>r. outcomes (snd (invoke_one env ctx re sk sd lg)) = outcomes lg @ [(sd_id sd, r)] \<and>
       (quiet env \<longrightarrow> re \<longrightarrow> fst (invoke_one env ctx re sk sd lg) = r)"
proof -
  have q: "quiet env \<Longrightarrow> fst (emit_compensated env sid err l) = None" for sid err l
    by (auto simp: quiet_def emit_compensated_def split: option.splits)
  have h: "quiet env \<Longrightarrow> fst (run_handler env sid e l) = None" for sid e l
    by (auto simp: quiet_def run_handler_def split: option.splits)
  have f: "quiet env \<Longrightarrow> fst (compensation_failed env True sk sd e l) = Some e" for e l
    using q [of "sd_id sd" "Some e" l] h [of "sd_id sd" e]
    by (auto simp: compensation_failed_def split: prod.splits option.splits) (metis fst_conv option.distinct(1))+
  obtain r where r: "call_compensation env ctx sd lg = (r, lg @ [Invoked (sd_id sd) r])"
    by (simp add: call_compensation_def Let_def)
  show ?thesis
  proof (cases r)
    case (Some e)
    with r f show ?thesis by (auto simp: invoke_one_def)
  next
    case None
    obtain x l where e: "emit_compensated env (sd_id sd) None (lg @ [Invoked (sd_id sd) r]) = (x, l)"
      by (cases "emit_compensated env (sd_id sd) None (lg @ [Invoked (sd_id sd) r])")
    then have "outcomes l = outcomes lg @ [(sd_id sd, r)]"
      using emit_outcomes [of env "sd_id sd" None "lg @ [Invoked (sd_id sd) r]"] by simp
    with r e None q [of "sd_id sd" None "lg @ [Invoked (sd_id sd) r]"] show ?thesis
      by (cases x) (auto simp: invoke_one_def)
  qed
qed

lemma compensate_one_eq: "compensate_one env ctx sd lg = invoke_one env ctx True False sd lg"
  by (simp add: compensate_one_def invoke_one_def)

lemma invoke_one_cases:
  assumes "invoke_one env ctx re sk sd lg = (x, lg')"
  obtains r where "outcomes lg' = outcomes lg @ [(sd_id sd, r)]" "quiet env \<Longrightarrow> re \<Longrightarrow> x = r"
proof -
  obtain r where *: "outcomes (snd (invoke_one env ctx re sk sd lg)) = outcomes lg @ [(sd_id sd, r)]"
    "quiet env \<longrightarrow> re \<longrightarrow> fst (invoke_one env ctx re sk sd lg) = r"
    using invoke_one_outcomes by blast
  show ?thesis by (rule that [of r]) (use * assms in auto)
qed

section \<open>The strict policy\<close>

lemma compensable_id: "saga_def_ok sg \<Longrightarrow> compensable sg sid = Some sd \<Longrightarrow> sd_id sd = sid"
  by (auto simp: compensable_def dest: saga_def_ok_id split: option.splits if_splits)

definition todo :: "saga_def \<Rightarrow> string list \<Rightarrow> string list" where
  "todo sg sids = filter (\<lambda>sid. compensable sg sid \<noteq> None) sids"

lemma todo_simps [simp]:
  "todo sg [] = []"
  "todo sg (sid # sids) = (if compensable sg sid = None then todo sg sids else sid # todo sg sids)"
  by (simp_all add: todo_def)

lemma strict_outcomes:
  assumes ok: "saga_def_ok sg" and res: "strict_sequential env sg ctx sids lg = (x, lg')"
  shows "\<exists>os. outcomes lg' = outcomes lg @ os \<and>
    (case x of
       None \<Rightarrow> map fst os = todo sg sids \<and> (quiet env \<longrightarrow> (\<forall>o1 \<in> set os. snd o1 = None))
     | Some e \<Rightarrow> (\<exists>pre sid rest. todo sg sids = pre @ sid # rest \<and> map fst os = pre @ [sid] \<and>
         (quiet env \<longrightarrow> os = map (\<lambda>s. (s, None)) pre @ [(sid, Some e)])))"
  using res
proof (induction sids arbitrary: lg)
  case (Cons sid sids)
  show ?case
  proof (cases "compensable sg sid")
    case None
    then have t: "todo sg (sid # sids) = todo sg sids" by simp
    show ?thesis unfolding t using Cons.IH [of lg] Cons.prems None by simp
  next
    case (Some sd)
    obtain y l where inv: "invoke_one env ctx True False sd lg = (y, l)" by fastforce
    then obtain r where r: "outcomes l = outcomes lg @ [(sid, r)]" "quiet env \<Longrightarrow> y = r"
      using compensable_id [OF ok Some] by (auto elim: invoke_one_cases)
    show ?thesis
    proof (cases y)
      case None
      with Some inv Cons.prems have "strict_sequential env sg ctx sids l = (x, lg')" by simp
      from Cons.IH [OF this] obtain os where os: "outcomes lg' = outcomes l @ os"
        "case x of
           None \<Rightarrow> map fst os = todo sg sids \<and> (quiet env \<longrightarrow> (\<forall>o1 \<in> set os. snd o1 = None))
         | Some e \<Rightarrow> (\<exists>pre sid rest. todo sg sids = pre @ sid # rest \<and> map fst os = pre @ [sid] \<and>
             (quiet env \<longrightarrow> os = map (\<lambda>s. (s, None)) pre @ [(sid, Some e)]))" by blast
      have o1: "outcomes lg' = outcomes lg @ (sid, r) # os" using os(1) r(1) by simp
      show ?thesis
      proof (cases x)
        case None
        with os(2) r(2) Some \<open>y = None\<close> o1 show ?thesis by (intro exI [of _ "(sid, r) # os"]) auto
      next
        case (Some e)
        with os(2) obtain pre s rest where p: "todo sg sids = pre @ s # rest" "map fst os = pre @ [s]"
          "quiet env \<longrightarrow> os = map (\<lambda>s. (s, None)) pre @ [(s, Some e)]" by auto
        have a: "todo sg (sid # sids) = (sid # pre) @ s # rest" using \<open>compensable sg sid = Some sd\<close> p by simp
        have b: "map fst ((sid, r) # os) = (sid # pre) @ [s]" using p by simp
        have c: "quiet env \<longrightarrow> (sid, r) # os = map (\<lambda>s. (s, None)) (sid # pre) @ [(s, Some e)]"
          using p r(2) None by auto
        show ?thesis
          unfolding Some option.case using o1 a b c by (intro exI [of _ "(sid, r) # os"] conjI) blast+
      qed
    next
      case y: (Some e)
      with Some inv Cons.prems have "x = Some e" "lg' = l" by auto
      with r y Some show ?thesis
        by (intro exI [of _ "[(sid, r)]"]) (auto intro!: exI [of _ "[]"])
    qed
  qed
qed simp

section \<open>The circuit breaker\<close>

fun failures_at_end :: "nat \<Rightarrow> (string \<times> exn option) list \<Rightarrow> nat" where
  "failures_at_end k [] = k"
| "failures_at_end k ((_, r) # os) = failures_at_end (case r of None \<Rightarrow> 0 | Some _ \<Rightarrow> Suc k) os"

lemma failures_at_end_append: "failures_at_end k (xs @ ys) = failures_at_end (failures_at_end k xs) ys"
  by (induction k xs rule: failures_at_end.induct) auto

text \<open>
  The circuit breaker never raises. It goes through the steps in reverse order until the end, or
  until three compensations in a row have failed for the first time.
\<close>

lemma circuit_outcomes:
  assumes ok: "saga_def_ok sg" and q: "quiet env"
    and res: "circuit_breaker env sg ctx k sids lg = (x, lg')" and k: "k \<le> 3"
  shows "x = None \<and> (\<exists>os rest. outcomes lg' = outcomes lg @ os \<and> todo sg sids = map fst os @ rest \<and>
           (rest \<noteq> [] \<longrightarrow> failures_at_end k os = 3) \<and>
           (\<forall>pre post. os = pre @ post \<longrightarrow> post \<noteq> [] \<longrightarrow> failures_at_end k pre < 3))"
  using res k
proof (induction sids arbitrary: lg k)
  case (Cons sid sids)
  show ?case
  proof (cases "k = 3")
    case True
    with Cons.prems have "x = None" "lg' = lg @ [CircuitOpened]" by (simp_all add: circuit_breaker_threshold_def)
    with True show ?thesis by (auto intro!: exI [of _ "[]"])
  next
    case False
    with Cons.prems have k3: "k < 3" by simp
    show ?thesis
    proof (cases "compensable sg sid")
      case None
      with Cons.prems k3 Cons.IH [of k lg] show ?thesis by (simp add: circuit_breaker_threshold_def)
    next
      case (Some sd)
      obtain y l where inv: "invoke_one env ctx True False sd lg = (y, l)" by fastforce
      then have r: "outcomes l = outcomes lg @ [(sid, y)]"
        using compensable_id [OF ok Some] q by (auto elim: invoke_one_cases)
      let ?k = "case y of None \<Rightarrow> 0 | Some _ \<Rightarrow> Suc k"
      have "circuit_breaker env sg ctx ?k sids l = (x, lg')"
        using Cons.prems(1) k3 Some inv by (simp add: circuit_breaker_threshold_def split: option.splits)
      moreover have "?k \<le> 3" using k3 by (simp split: option.split)
      ultimately obtain os rest where os: "x = None" "outcomes lg' = outcomes l @ os"
        "todo sg sids = map fst os @ rest" "rest \<noteq> [] \<longrightarrow> failures_at_end ?k os = 3"
        "\<forall>pre post. os = pre @ post \<longrightarrow> post \<noteq> [] \<longrightarrow> failures_at_end ?k pre < 3"
        using Cons.IH by blast
      have "failures_at_end k pre < 3" if "(sid, y) # os = pre @ post" "post \<noteq> []" for pre post
        using that k3 os(5) by (cases pre) auto
      with os r Some show ?thesis
        by (intro conjI exI [of _ "(sid, y) # os"] exI [of _ rest]) auto
    qed
  qed
qed simp

section \<open>The parallel policies\<close>

lemma gather_all_outcomes:
  "gather_all env ctx sds err lg = (x, lg') \<Longrightarrow>
     \<exists>os. outcomes lg' = outcomes lg @ os \<and> map fst os = map sd_id sds \<and>
       (quiet env \<longrightarrow> (x = None \<longleftrightarrow> err = None \<and> (\<forall>o1 \<in> set os. snd o1 = None)))"
proof (induction sds arbitrary: err lg)
  case (Cons sd sds)
  obtain y l where inv: "invoke_one env ctx True False sd lg = (y, l)" by fastforce
  then obtain r where r: "outcomes l = outcomes lg @ [(sd_id sd, r)]" "quiet env \<Longrightarrow> y = r"
    by (auto elim: invoke_one_cases)
  let ?err = "case err of None \<Rightarrow> y | Some e \<Rightarrow> Some e"
  from Cons.prems inv have "gather_all env ctx sds ?err l = (x, lg')" by simp
  from Cons.IH [OF this] obtain os where os: "outcomes lg' = outcomes l @ os" "map fst os = map sd_id sds"
    "quiet env \<longrightarrow> (x = None \<longleftrightarrow> ?err = None \<and> (\<forall>o1 \<in> set os. snd o1 = None))" by blast
  with r show ?case by (intro exI [of _ "(sd_id sd, r) # os"]) (auto split: option.splits)
qed simp

definition layer_ids :: "comp_env \<Rightarrow> saga_def \<Rightarrow> string set \<Rightarrow> string list \<Rightarrow> string list" where
  "layer_ids env sg C layer = map sd_id (ce_order env (layer_steps sg C layer))"

lemma grouped_outcomes:
  "grouped_parallel env sg ctx C layers lg = (x, lg') \<Longrightarrow>
     \<exists>os k. outcomes lg' = outcomes lg @ os \<and> map fst os = concat (map (layer_ids env sg C) (take k layers)) \<and>
       (x = None \<longrightarrow> length layers \<le> k) \<and>
       (quiet env \<longrightarrow> x = None \<longrightarrow> (\<forall>o1 \<in> set os. snd o1 = None)) \<and>
       (quiet env \<longrightarrow> x \<noteq> None \<longrightarrow> (\<exists>o1 \<in> set os. snd o1 \<noteq> None))"
proof (induction layers arbitrary: lg)
  case Nil
  then show ?case by (intro exI [of _ "[]"] exI [of _ 0]) auto
next
  case (Cons layer layers)
  obtain y l where g: "gather_all env ctx (ce_order env (layer_steps sg C layer)) None lg = (y, l)" by fastforce
  from gather_all_outcomes [OF g] obtain os where os: "outcomes l = outcomes lg @ os"
    "map fst os = layer_ids env sg C layer"
    and q: "quiet env \<longrightarrow> (y = None \<longleftrightarrow> (None :: exn option) = None \<and> (\<forall>o1 \<in> set os. snd o1 = None))"
    unfolding layer_ids_def by blast
  show ?case
  proof (cases y)
    case None
    with Cons.prems g have "grouped_parallel env sg ctx C layers l = (x, lg')" by simp
    from Cons.IH [OF this] obtain os' k where os': "outcomes lg' = outcomes l @ os'"
      "map fst os' = concat (map (layer_ids env sg C) (take k layers))" "x = None \<longrightarrow> length layers \<le> k"
      "quiet env \<longrightarrow> x = None \<longrightarrow> (\<forall>o1 \<in> set os'. snd o1 = None)"
      "quiet env \<longrightarrow> x \<noteq> None \<longrightarrow> (\<exists>o1 \<in> set os'. snd o1 \<noteq> None)"
      by (elim exE conjE) (rule that)
    show ?thesis
    proof (intro exI [of _ "os @ os'"] exI [of _ "Suc k"] conjI)
      show "outcomes lg' = outcomes lg @ os @ os'" using os(1) os'(1) by simp
      show "map fst (os @ os') = concat (map (layer_ids env sg C) (take (Suc k) (layer # layers)))"
        using os(2) os'(2) by simp
      show "x = None \<longrightarrow> length (layer # layers) \<le> Suc k" using os'(3) by simp
      show "quiet env \<longrightarrow> x = None \<longrightarrow> (\<forall>o1 \<in> set (os @ os'). snd o1 = None)"
        using os'(4) q None unfolding set_append by blast
      show "quiet env \<longrightarrow> x \<noteq> None \<longrightarrow> (\<exists>o1 \<in> set (os @ os'). snd o1 \<noteq> None)"
        using os'(5) unfolding set_append by blast
    qed
  next
    case (Some e)
    with Cons.prems g have x: "x = Some e" "lg' = l" by auto
    show ?thesis
    proof (intro exI [of _ os] exI [of _ "Suc 0"] conjI)
      show "outcomes lg' = outcomes lg @ os" using os(1) x by simp
      show "map fst os = concat (map (layer_ids env sg C) (take (Suc 0) (layer # layers)))"
        using os(2) by simp
      show "quiet env \<longrightarrow> x \<noteq> None \<longrightarrow> (\<exists>o1 \<in> set os. snd o1 \<noteq> None)" using q Some by blast
    qed (simp_all add: x)
  qed
qed

lemma gather_exceptions_outcomes:
  "\<exists>os. outcomes (snd (gather_exceptions env ctx sds lg)) = outcomes lg @ os \<and> map fst os = map sd_id sds"
proof (induction sds arbitrary: lg)
  case (Cons sd sds)
  obtain y l where inv: "invoke_one env ctx True False sd lg = (y, l)" by fastforce
  then obtain r where r: "outcomes l = outcomes lg @ [(sd_id sd, r)]" by (auto elim: invoke_one_cases)
  obtain os where "outcomes (snd (gather_exceptions env ctx sds l)) = outcomes l @ os" "map fst os = map sd_id sds"
    using Cons.IH by blast
  with r inv show ?case
    by (intro exI [of _ "(sd_id sd, r) # os"]) (simp add: compensate_one_eq split_beta)
qed simp

section \<open>Retries\<close>

definition success_block :: "int \<Rightarrow> exn option list \<Rightarrow> bool" where
  "success_block n rs \<longleftrightarrow> (\<exists>es. rs = map Some es @ [None] \<and> int (length es) < n)"

definition failure_block :: "int \<Rightarrow> exn \<Rightarrow> exn option list \<Rightarrow> bool" where
  "failure_block n e rs \<longleftrightarrow> (\<exists>es. rs = map Some es @ [Some e] \<and> int (length es) + 1 = n)"

lemma try_outcomes:
  assumes q: "quiet env" and "try_compensation env ctx sd n k err lg = (x, lg')"
  shows "\<exists>rs. outcomes lg' = outcomes lg @ map (Pair (sd_id sd)) rs \<and>
    (if n = 0 then rs = [] \<and> x = err
     else case x of None \<Rightarrow> success_block (int n) rs | Some e \<Rightarrow> failure_block (int n) e rs)"
  using assms(2)
proof (induction n arbitrary: k err lg)
  case (Suc n)
  obtain y l where inv: "invoke_one env ctx True True sd lg = (y, l)" by fastforce
  then have r: "outcomes l = outcomes lg @ [(sd_id sd, y)]" using q by (auto elim: invoke_one_cases)
  show ?case
  proof (cases y)
    case None
    with Suc.prems inv have "x = None" "lg' = l" by auto
    with r None show ?thesis by (intro exI [of _ "[None]"]) (auto simp: success_block_def)
  next
    case (Some e)
    let ?l = "if 0 < n then l @ [Slept (sd_id sd) (of_int (comp_backoff sd) * 2 ^ k / 1000)] else l"
    have "try_compensation env ctx sd n (Suc k) (Some e) ?l = (x, lg')"
      using Suc.prems inv Some by simp
    from Suc.IH [OF this] obtain rs where rs: "outcomes lg' = outcomes ?l @ map (Pair (sd_id sd)) rs"
      "if n = 0 then rs = [] \<and> x = Some e
       else case x of None \<Rightarrow> success_block (int n) rs | Some e \<Rightarrow> failure_block (int n) e rs" by blast
    have "outcomes lg' = outcomes lg @ map (Pair (sd_id sd)) (Some e # rs)" using rs(1) r Some by simp
    moreover have "case x of None \<Rightarrow> success_block (int (Suc n)) (Some e # rs)
        | Some e' \<Rightarrow> failure_block (int (Suc n)) e' (Some e # rs)"
    proof (cases "n = 0")
      case True
      with rs(2) show ?thesis by (auto simp: failure_block_def)
    next
      case False
      show ?thesis
      proof (cases x)
        case None
        with False rs(2) obtain es where "rs = map Some es @ [None]" "length es < n"
          by (auto simp: success_block_def)
        with None show ?thesis by (auto simp: success_block_def intro!: exI [of _ "e # es"])
      next
        case (Some e')
        with False rs(2) obtain es where "rs = map Some es @ [Some e']" "length es + 1 = n"
          by (auto simp: failure_block_def)
        with Some show ?thesis by (auto simp: failure_block_def intro!: exI [of _ "e # es"])
      qed
    qed
    ultimately show ?thesis by (intro exI [of _ "Some e # rs"]) simp
  qed
qed simp

definition flatten_blocks :: "(string \<times> exn option list) list \<Rightarrow> (string \<times> exn option) list" where
  "flatten_blocks blocks = concat (map (\<lambda>(s, rs). map (Pair s) rs) blocks)"

definition retries_of :: "saga_def \<Rightarrow> string \<Rightarrow> int" where
  "retries_of sg s = (case compensable sg s of None \<Rightarrow> 0 | Some sd \<Rightarrow> comp_retries sd)"

definition done_block :: "saga_def \<Rightarrow> string \<times> exn option list \<Rightarrow> bool" where
  "done_block sg b = (case b of (s, rs) \<Rightarrow>
     if retries_of sg s \<le> 0 then rs = [] else success_block (retries_of sg s) rs)"

lemma retry_outcomes:
  assumes ok: "saga_def_ok sg" and q: "quiet env"
    and "retry_with_backoff env sg ctx sids lg = (x, lg')"
  shows "\<exists>blocks. outcomes lg' = outcomes lg @ flatten_blocks blocks \<and>
    (case x of
       None \<Rightarrow> map fst blocks = todo sg sids \<and> list_all (done_block sg) blocks
     | Some e \<Rightarrow> \<exists>pre s rs rest. blocks = pre @ [(s, rs)] \<and> todo sg sids = map fst pre @ s # rest \<and>
         list_all (done_block sg) pre \<and> failure_block (retries_of sg s) e rs)"
  using assms(3)
proof (induction sids arbitrary: lg)
  case Nil
  then show ?case by (intro exI [of _ "[]"]) (auto simp: flatten_blocks_def)
next
  case (Cons sid sids)
  show ?case
  proof (cases "compensable sg sid")
    case None
    then have t: "todo sg (sid # sids) = todo sg sids" by simp
    show ?thesis unfolding t using Cons.IH [of lg] Cons.prems None by simp
  next
    case (Some sd)
    have id: "sd_id sd = sid" by (rule compensable_id [OF ok Some])
    have n: "retries_of sg sid = comp_retries sd" by (simp add: retries_of_def Some)
    have t: "todo sg (sid # sids) = sid # todo sg sids" using Some by simp
    obtain y l where tc: "try_compensation env ctx sd (nat (comp_retries sd)) 0 None lg = (y, l)" by fastforce
    from try_outcomes [OF q this] obtain rs where rs: "outcomes l = outcomes lg @ map (Pair sid) rs"
      "if nat (comp_retries sd) = 0 then rs = [] \<and> y = None
       else case y of None \<Rightarrow> success_block (int (nat (comp_retries sd))) rs
                    | Some e \<Rightarrow> failure_block (int (nat (comp_retries sd))) e rs"
      unfolding id by blast
    show ?thesis
    proof (cases y)
      case None
      with Some tc Cons.prems have "retry_with_backoff env sg ctx sids l = (x, lg')" by simp
      from Cons.IH [OF this] obtain blocks where b: "outcomes lg' = outcomes l @ flatten_blocks blocks"
        "case x of
           None \<Rightarrow> map fst blocks = todo sg sids \<and> list_all (done_block sg) blocks
         | Some e \<Rightarrow> \<exists>pre s rs rest. blocks = pre @ [(s, rs)] \<and> todo sg sids = map fst pre @ s # rest \<and>
             list_all (done_block sg) pre \<and> failure_block (retries_of sg s) e rs" by blast
      have d: "done_block sg (sid, rs)" using rs(2) None by (auto simp: done_block_def n split: if_splits)
      have o1: "outcomes lg' = outcomes lg @ flatten_blocks ((sid, rs) # blocks)"
        using b(1) rs(1) by (simp add: flatten_blocks_def)
      show ?thesis
      proof (cases x)
        case None
        with b(2) d o1 t show ?thesis by (intro exI [of _ "(sid, rs) # blocks"]) simp
      next
        case (Some e)
        with b(2) obtain pre s rs' rest where p: "blocks = pre @ [(s, rs')]" "todo sg sids = map fst pre @ s # rest"
          "list_all (done_block sg) pre" "failure_block (retries_of sg s) e rs'" by auto
        show ?thesis
          unfolding Some option.case t
          by (intro exI [of _ "(sid, rs) # blocks"] conjI exI [of _ "(sid, rs) # pre"] exI [of _ s]
              exI [of _ rs'] exI [of _ rest]) (use o1 p d in simp_all)
      qed
    next
      case y: (Some e)
      then obtain n' where n': "nat (comp_retries sd) = Suc n'" using rs(2) by (cases "nat (comp_retries sd)") auto
      have "quiet env \<Longrightarrow> fst (compensation_failed env True False sd e l) = Some e"
        by (auto simp: compensation_failed_def quiet_def emit_compensated_def run_handler_def split: option.splits)
      with y Some tc Cons.prems q have "x = Some e" and o2: "outcomes lg' = outcomes l"
        using failed_outcomes [of env True False sd e l] by auto
      moreover have "int (nat (comp_retries sd)) = comp_retries sd" using n' by simp
      then have "failure_block (retries_of sg sid) e rs" using rs(2) y n' unfolding n by (metis nat.distinct(1) option.case(2))
      ultimately show ?thesis
        unfolding t
        by (intro exI [of _ "[(sid, rs)]"] conjI)
          (use rs(1) in \<open>auto simp: flatten_blocks_def intro!: exI [of _ "[]"]\<close>)
    qed
  qed
qed

text \<open>The sleeps between the attempts.\<close>

definition sleep_event :: "comp_event \<Rightarrow> bool" where
  "sleep_event ev = (case ev of Slept _ _ \<Rightarrow> True | _ \<Rightarrow> False)"

lemma sleep_event_simps [simp]:
  "\<not> sleep_event (Invoked sid r)" "\<not> sleep_event (Emitted sid x)" "\<not> sleep_event (Handled sid e)"
  "sleep_event (Slept sid d)" "\<not> sleep_event CircuitOpened"
  by (simp_all add: sleep_event_def)

lemma port_no_sleep:
  "emit_compensated env sid err l = (r, l') \<Longrightarrow> filter sleep_event l' = filter sleep_event l"
  "run_handler env sid e l = (r, l') \<Longrightarrow> filter sleep_event l' = filter sleep_event l"
  by (auto simp: emit_compensated_def run_handler_def split: option.splits)

lemma failed_no_sleep [simp]:
  "filter sleep_event (snd (compensation_failed env re sk sd exc l)) = filter sleep_event l"
  by (auto simp: compensation_failed_def dest!: port_no_sleep split: prod.splits option.splits if_splits)

lemma invoke_one_no_sleep [simp]:
  "filter sleep_event (snd (invoke_one env ctx re sk sd lg)) = filter sleep_event lg"
  by (auto simp: invoke_one_def call_compensation_def Let_def dest!: port_no_sleep
      split: prod.splits option.splits)

definition backoff_sleep :: "step_def \<Rightarrow> nat \<Rightarrow> comp_event" where
  "backoff_sleep sd i = Slept (sd_id sd) (of_int (comp_backoff sd) * 2 ^ i / 1000)"

lemma subset_chain: "A \<subseteq> B \<union> C \<Longrightarrow> B \<subseteq> L \<union> D \<Longrightarrow> C \<subseteq> E \<Longrightarrow> D \<subseteq> E \<Longrightarrow> A \<subseteq> L \<union> E"
  by blast

lemma try_sleeps:
  "set (filter sleep_event (snd (try_compensation env ctx sd n k err lg))) \<subseteq>
     set (filter sleep_event lg) \<union> backoff_sleep sd ` {k ..< k + (n - 1)}"
proof (induction n arbitrary: k err lg)
  case (Suc n)
  obtain y l where inv: "invoke_one env ctx True True sd lg = (y, l)" by fastforce
  have l: "filter sleep_event l = filter sleep_event lg"
    using invoke_one_no_sleep [of env ctx True True sd lg] inv by (simp only: snd_conv)
  show ?case
  proof (cases y)
    case None
    with inv l show ?thesis by (simp del: set_filter)
  next
    case (Some e)
    let ?l = "if 0 < n then l @ [backoff_sleep sd k] else l"
    let ?D = "if 0 < n then {backoff_sleep sd k} else {}"
    have "snd (try_compensation env ctx sd (Suc n) k err lg) =
        snd (try_compensation env ctx sd n (Suc k) (Some e) ?l)"
      using inv Some by (simp add: backoff_sleep_def)
    moreover have "set (filter sleep_event (snd (try_compensation env ctx sd n (Suc k) (Some e) ?l))) \<subseteq>
        set (filter sleep_event lg) \<union> backoff_sleep sd ` {k ..< k + (Suc n - 1)}"
    proof (rule subset_chain)
      show "set (filter sleep_event (snd (try_compensation env ctx sd n (Suc k) (Some e) ?l)))
          \<subseteq> set (filter sleep_event ?l) \<union> backoff_sleep sd ` {Suc k ..< Suc k + (n - 1)}" by (rule Suc.IH)
      show "set (filter sleep_event ?l) \<subseteq> set (filter sleep_event lg) \<union> ?D"
        using l by (auto simp del: set_filter simp: backoff_sleep_def)
    qed auto
    ultimately show ?thesis by (simp only:)
  qed
qed simp

definition allowed_sleeps :: "saga_def \<Rightarrow> string list \<Rightarrow> comp_event set" where
  "allowed_sleeps sg sids = {ev. \<exists>sid sd i. sid \<in> set sids \<and> compensable sg sid = Some sd \<and>
     int i + 1 < comp_retries sd \<and> ev = backoff_sleep sd i}"

lemma allowed_sleeps_Cons: "allowed_sleeps sg sids \<subseteq> allowed_sleeps sg (sid # sids)"
  by (fastforce simp: allowed_sleeps_def)

lemma retry_sleeps:
  "set (filter sleep_event (snd (retry_with_backoff env sg ctx sids lg))) \<subseteq>
     set (filter sleep_event lg) \<union> allowed_sleeps sg sids"
proof (induction sids arbitrary: lg)
  case (Cons sid sids)
  note mono = allowed_sleeps_Cons [of sg sids sid]
  show ?case
  proof (cases "compensable sg sid")
    case None
    then have "retry_with_backoff env sg ctx (sid # sids) lg = retry_with_backoff env sg ctx sids lg" by simp
    with subset_trans [OF Cons.IH [of lg] Un_mono [OF order_refl mono]] show ?thesis by (simp only:)
  next
    case (Some sd)
    obtain y l where tc: "try_compensation env ctx sd (nat (comp_retries sd)) 0 None lg = (y, l)" by fastforce
    have l: "set (filter sleep_event l) \<subseteq> set (filter sleep_event lg) \<union>
        backoff_sleep sd ` {0 ..< nat (comp_retries sd) - 1}"
      using try_sleeps [of env ctx sd "nat (comp_retries sd)" 0 None lg] tc by simp
    have own: "backoff_sleep sd ` {0 ..< nat (comp_retries sd) - 1} \<subseteq> allowed_sleeps sg (sid # sids)"
    proof (rule image_subsetI)
      fix i assume "i \<in> {0 ..< nat (comp_retries sd) - 1}"
      with Some show "backoff_sleep sd i \<in> allowed_sleeps sg (sid # sids)"
        unfolding allowed_sleeps_def
        by (intro CollectI exI [of _ sid] exI [of _ sd] exI [of _ i] conjI) auto
    qed
    show ?thesis
    proof (cases y)
      case None
      with Some tc have "retry_with_backoff env sg ctx (sid # sids) lg = retry_with_backoff env sg ctx sids l"
        by simp
      with subset_chain [OF Cons.IH [of l] l mono own] show ?thesis by (simp only:)
    next
      case e: (Some e)
      have "set (filter sleep_event (snd (compensation_failed env True False sd e l))) = set (filter sleep_event l)"
        by (simp only: failed_no_sleep)
      moreover have "retry_with_backoff env sg ctx (sid # sids) lg = compensation_failed env True False sd e l"
        using Some tc e by simp
      ultimately show ?thesis using subset_trans [OF l Un_mono [OF order_refl own]] by (simp only:)
    qed
  qed
qed simp

section \<open>The order of compensation\<close>

lemma passed_before:
  assumes "A @ B = ys @ s # zs" "s \<notin> set A"
  shows "set A \<subseteq> set ys"
proof -
  from assms(1) obtain us where "A = ys @ us \<and> us @ B = s # zs \<or> A @ us = ys \<and> B = us @ s # zs"
    unfolding append_eq_append_conv2 by blast
  with assms(2) show ?thesis by (cases us) auto
qed

lemma deps_before_split:
  assumes "deps_before deps (map (\<lambda>n. [n]) (as @ d # bs))"
  shows "set (preds deps d) \<subseteq> set as"
proof -
  have "d \<in> set (map (\<lambda>n. [n]) (as @ d # bs) ! length as)" by (simp add: nth_append)
  from deps_before_take [OF assms _ this] show ?thesis by simp
qed

lemma reversed_before:
  assumes dis: "distinct cs" and dep: "deps_before deps (map (\<lambda>n. [n]) cs)"
    and d: "d \<in> set cs" "P d" and s: "s \<in> set (preds deps d)"
    and ys: "filter P (rev cs) = ys @ s # zs"
  shows "d \<in> set ys"
proof -
  obtain as bs where cs: "cs = as @ d # bs" using d(1) by (auto simp: in_set_conv_decomp)
  have "s \<in> set as" using deps_before_split [of deps as d bs] dep s unfolding cs by blast
  then have new: "s \<notin> set (filter P (rev bs) @ [d])" using dis unfolding cs by auto
  have "(filter P (rev bs) @ [d]) @ filter P (rev as) = ys @ s # zs" using ys d(2) unfolding cs by simp
  from passed_before [OF this new] show ?thesis by simp
qed

text \<open>The tasks of a gather each run, once, in some order.\<close>

definition order_ok :: "comp_env \<Rightarrow> bool" where
  "order_ok env \<longleftrightarrow> (\<forall>xs. set (ce_order env xs) = set xs \<and> length (ce_order env xs) = length xs)"

lemma in_map_filter: "y \<in> set (List.map_filter f xs) \<longleftrightarrow> (\<exists>x \<in> set xs. f x = Some y)"
  by (induction xs) (auto simp: map_filter_simps split: option.splits)

lemma layer_ids_set:
  assumes "saga_def_ok sg" "order_ok env"
  shows "set (layer_ids env sg C layer) = {n \<in> set layer. n \<in> C \<and> compensable sg n \<noteq> None}"
proof -
  have "set (ce_order env xs) = set xs" for xs using assms(2) by (simp add: order_ok_def)
  then have "set (layer_ids env sg C layer) = sd_id ` set (layer_steps sg C layer)" by (simp add: layer_ids_def)
  also have "\<dots> = {n \<in> set layer. n \<in> C \<and> compensable sg n \<noteq> None}"
    using compensable_id [OF assms(1)]
    by (fastforce simp: layer_steps_def in_map_filter image_iff split: if_splits)
  finally show ?thesis .
qed

lemma grouped_order:
  assumes ok: "saga_def_ok sg" and ord: "order_ok env"
    and val: "valid_layers (step_deps sg) layers"
    and xs: "ys @ s # zs = concat (map (layer_ids env sg C) (take k (rev layers)))"
    and d: "d \<in> C" "compensable sg d \<noteq> None" "d \<in> set (dkeys (steps sg))" "s \<in> set (preds (step_deps sg) d)"
  shows "d \<in> set ys"
proof -
  let ?f = "layer_ids env sg C"
  note ids = layer_ids_set [OF ok ord]
  have "d \<in> set (concat layers)" using val d(3) by (simp add: valid_layers_def)
  then obtain l where "l \<in> set layers" "d \<in> set l" by auto
  then obtain before after where lay: "layers = before @ l # after"
    by (auto simp: in_set_conv_decomp)
  have "deps_before (step_deps sg) layers" using val by (simp add: valid_layers_def)
  from deps_before_take [OF this, of "length before" d] d(4) \<open>d \<in> set l\<close>
  have s: "s \<in> set (concat before)" by (auto simp: lay)
  have "distinct (concat layers)" using val by (simp add: valid_layers_def)
  then have new: "s \<notin> set (concat (l # after))" using s unfolding lay by auto
  let ?A = "concat (map ?f (rev after @ [l]))"
  have "set ?A \<subseteq> set (concat (l # after))" using ids by auto
  with new have sA: "s \<notin> set ?A" by blast
  have dA: "d \<in> set ?A" using ids d \<open>d \<in> set l\<close> by simp
  obtain rest where rest: "concat (map ?f (rev layers)) = concat (map ?f (take k (rev layers))) @ rest"
    by (metis append_take_drop_id concat_append map_append)
  have "concat (map ?f (rev layers)) = (ys @ s # zs) @ rest" unfolding rest xs by (rule refl)
  then have "?A @ concat (map ?f (rev before)) = ys @ s # zs @ rest" unfolding lay by simp
  from passed_before [OF this sA] dA show ?thesis by blast
qed

lemma compensate_reversed:
  assumes ok: "saga_def_ok sg" and q: "quiet env" and ord: "order_ok env"
    and cs: "distinct completed"
      "deps_before (step_deps sg) (map (\<lambda>n. [n]) completed)"
    and val: "valid_layers (step_deps sg) layers"
    and pol: "policy \<in> {STRICT_SEQUENTIAL, CIRCUIT_BREAKER, GROUPED_PARALLEL}"
    and res: "compensate env policy completed sg ctx layers [] = (x, lg)" "invoked lg = ys @ s # zs"
    and d: "d \<in> set completed" "compensable sg d \<noteq> None" "s \<in> set (preds (step_deps sg) d)"
  shows "d \<in> set ys"
proof -
  have ne: "completed \<noteq> []" using d(1) by auto
  have known: "d \<in> set (dkeys (steps sg))"
    using d(2) dget_None_iff [of "steps sg" d] by (auto simp: compensable_def)
  have prefix: "d \<in> set ys" if "todo sg (rev completed) = invoked lg @ rest" for rest
    using reversed_before [OF cs d(1), of "\<lambda>n. compensable sg n \<noteq> None" s ys "zs @ rest"] d that res(2)
    by (simp add: todo_def)
  consider "policy = STRICT_SEQUENTIAL" | "policy = CIRCUIT_BREAKER" | "policy = GROUPED_PARALLEL" using pol by blast
  then show ?thesis
  proof cases
    case 1
    with res(1) ne have "strict_sequential env sg ctx (rev completed) [] = (x, lg)" by (simp add: compensate_def)
    from strict_outcomes [OF ok this] obtain rest where "todo sg (rev completed) = invoked lg @ rest"
      by (cases x) (auto simp: invoked_def)
    then show ?thesis by (rule prefix)
  next
    case 2
    with res(1) ne have "circuit_breaker env sg ctx 0 (rev completed) [] = (x, lg)" by (simp add: compensate_def)
    from circuit_outcomes [OF ok q this] obtain rest where "todo sg (rev completed) = invoked lg @ rest"
      by (auto simp: invoked_def)
    then show ?thesis by (rule prefix)
  next
    case 3
    with res(1) ne have "grouped_parallel env sg ctx (set completed) (rev layers) [] = (x, lg)"
      by (simp add: compensate_def)
    from grouped_outcomes [OF this] obtain k where
      "invoked lg = concat (map (layer_ids env sg (set completed)) (take k (rev layers)))"
      by (auto simp: invoked_def)
    then show ?thesis
      using grouped_order [OF ok ord val, of ys s zs "set completed" k d] res(2) d known by auto
  qed
qed

section \<open>Properties\<close>

text \<open>
  The strict policy, when the ports do not raise: compensations run one at a time in reverse order of the
  completed steps; without error each ran once and succeeded; otherwise the error is that of the first failing one, and none after
  it ran, whatever error handler is installed.
\<close>

theorem strict_policy_correct:
  assumes "saga_def_ok sg" "quiet env"
    and "compensate env STRICT_SEQUENTIAL completed sg ctx layers [] = (x, lg)"
  shows "case x of
           None \<Rightarrow> outcomes lg = map (\<lambda>s. (s, None)) (todo sg (rev completed))
         | Some e \<Rightarrow> \<exists>pre s rest. todo sg (rev completed) = pre @ s # rest \<and>
             outcomes lg = map (\<lambda>s. (s, None)) pre @ [(s, Some e)]"
proof (cases "completed = []")
  case True
  with assms(3) show ?thesis by (simp add: compensate_def)
next
  case False
  with assms(3) have "strict_sequential env sg ctx (rev completed) [] = (x, lg)"
    by (simp add: compensate_def)
  from strict_outcomes [OF assms(1) this] obtain os where os: "outcomes lg = os"
    "case x of
       None \<Rightarrow> map fst os = todo sg (rev completed) \<and> (quiet env \<longrightarrow> (\<forall>o1 \<in> set os. snd o1 = None))
     | Some e \<Rightarrow> (\<exists>pre sid rest. todo sg (rev completed) = pre @ sid # rest \<and> map fst os = pre @ [sid] \<and>
         (quiet env \<longrightarrow> os = map (\<lambda>s. (s, None)) pre @ [(sid, Some e)]))" by auto
  have all: "os = map (\<lambda>s. (s, None)) (map fst os)" if "\<forall>o1 \<in> set os. snd o1 = None"
    using that by (induction os) auto
  show ?thesis
  proof (cases x)
    case None
    then have "map fst os = todo sg (rev completed)" "\<forall>o1 \<in> set os. snd o1 = None" using os(2) assms(2) by simp_all
    with all None os(1) show ?thesis by simp
  next
    case (Some e)
    then show ?thesis using os assms(2) by auto
  qed
qed

definition undo :: "nat \<Rightarrow> py_method" where
  "undo n = \<lparr>m_id = n, m_qualname = ''Checkout.undo'', m_params = [''self''], m_hints = [],
     m_async = True, m_coro = True\<rparr>"

definition shop :: saga_def where
  "shop = \<lparr>sg_name = ''shop'', sg_bean = VNone, layer_concurrency = 0,
     steps = [(''a'', (step_default ''a'')\<lparr>compensate_method := Some (undo 1)\<rparr>),
              (''b'', (step_default ''b'')\<lparr>compensate_method := Some (undo 2), depends_on := [''a'']\<rparr>),
              (''c'', (step_default ''c'')\<lparr>depends_on := [''b'']\<rparr>),
              (''d'', (step_default ''d'')\<lparr>compensate_method := Some (undo 4), depends_on := [''c'']\<rparr>)]\<rparr>"

text \<open>An environment in which one method fails, with a handler that only logs.\<close>

definition refused :: exn where
  "refused = Exn RuntimeErrorC ''refused'' []"

definition shop_env :: "nat \<Rightarrow> comp_env" where
  "shop_env bad = \<lparr>ce_call = (\<lambda>lg mode m kw. if m_id m = bad then Inl refused else Inr VNone),
     ce_events = None, ce_handler = Some (\<lambda>_ _ _. None), ce_order = (\<lambda>xs. xs)\<rparr>"

lemma shop_ok: "saga_def_ok shop"
  by (simp add: saga_def_ok_def shop_def step_default_def)

lemma shop_quiet: "quiet (shop_env bad)"
  by (simp add: quiet_def shop_env_def)

abbreviation shop_ctx :: saga_context where
  "shop_ctx \<equiv> new_saga_context ''c1'' ''shop'' []"

theorem strict_policy_correct_witness:
  "\<exists>lg. compensate (shop_env 2) STRICT_SEQUENTIAL [''a'', ''b'', ''c'', ''d''] shop shop_ctx [] [] =
          (Some refused, lg) \<and> outcomes lg = [(''d'', None), (''b'', Some refused)]"
proof -
  have e: "compensate (shop_env 2) STRICT_SEQUENTIAL [''a'', ''b'', ''c'', ''d''] shop shop_ctx [] [] =
      (Some refused, [Invoked ''d'' None, Invoked ''b'' (Some refused), Handled ''b'' refused])"
    by code_simp
  from strict_policy_correct [OF shop_ok shop_quiet e] e show ?thesis
    by (simp add: outcomes_def map_filter_simps)
qed

text \<open>
  Claim C9. The order of compensation: under the strict, the circuit-breaker and the layered policy, when a step's
  compensation runs, those of all completed steps that depend on it have run before.
\<close>

theorem compensation_reverses_dependencies:
  assumes ok: "saga_def_ok sg" and q: "quiet env" and ord: "order_ok env"
    and cs: "distinct completed"
      "deps_before (step_deps sg) (map (\<lambda>n. [n]) completed)"
    and val: "valid_layers (step_deps sg) layers"
    and pol: "policy \<in> {STRICT_SEQUENTIAL, CIRCUIT_BREAKER, GROUPED_PARALLEL}"
    and res: "compensate env policy completed sg ctx layers [] = (x, lg)" "invoked lg = ys @ s # zs"
    and d: "d \<in> set completed" "compensable sg d \<noteq> None" "s \<in> set (preds (step_deps sg) d)"
  shows "d \<in> set ys"
  by (rule compensate_reversed [OF assms])

theorem compensation_reverses_dependencies_witness:
  "\<exists>x lg. compensate (shop_env 0) GROUPED_PARALLEL [''a'', ''b''] shop shop_ctx
            [[''a''], [''b''], [''c''], [''d'']] [] = (x, lg) \<and>
     invoked lg = [''b''] @ ''a'' # [] \<and> ''b'' \<in> set [''b'']"
proof -
  have e: "compensate (shop_env 0) GROUPED_PARALLEL [''a'', ''b''] shop shop_ctx
      [[''a''], [''b''], [''c''], [''d'']] [] = (None, [Invoked ''b'' None, Invoked ''a'' None])"
    by code_simp
  have i: "invoked [Invoked ''b'' None, Invoked ''a'' None] = [''b''] @ ''a'' # []"
    by (simp add: invoked_def outcomes_def map_filter_simps)
  have val: "valid_layers (step_deps shop) [[''a''], [''b''], [''c''], [''d'']]"
    by (auto simp: valid_layers_def deps_before_def earliest_def shop_def step_deps_def step_default_def
        preds_def dget_default_def All_less_Suc nth_Cons' numeral_3_eq_3)
  have "''b'' \<in> set [''b'']"
  proof (rule compensation_reverses_dependencies [OF shop_ok shop_quiet _ _ _ val _ e i])
    show "deps_before (step_deps shop) (map (\<lambda>n. [n]) [''a'', ''b''])"
      by (simp add: deps_before_def shop_def step_deps_def step_default_def preds_def dget_default_def
          All_less_Suc nth_Cons')
  qed (simp_all add: order_ok_def shop_def shop_env_def compensable_def step_default_def step_deps_def preds_def dget_default_def)
  with e i show ?thesis by blast
qed

text \<open>
  The retrying policy, when the ports do not raise: every step in reverse order is tried until its first success, at
  most \<^verbatim>\<open>compensation_retry\<close> times (3 by default, and not at all, silently, when it is 0 or less); a step that fails
  that many times ends the compensation with its last error. The sleeps are the base doubled after each failed attempt.
\<close>

theorem retry_policy_correct:
  assumes "saga_def_ok sg" "quiet env"
    and "compensate env RETRY_WITH_BACKOFF completed sg ctx layers [] = (x, lg)"
  shows "(\<exists>blocks. outcomes lg = flatten_blocks blocks \<and>
           (case x of
              None \<Rightarrow> map fst blocks = todo sg (rev completed) \<and> list_all (done_block sg) blocks
            | Some e \<Rightarrow> \<exists>pre s rs rest. blocks = pre @ [(s, rs)] \<and>
                todo sg (rev completed) = map fst pre @ s # rest \<and>
                list_all (done_block sg) pre \<and> failure_block (retries_of sg s) e rs)) \<and>
         (\<forall>s delay. Slept s delay \<in> set lg \<longrightarrow> (\<exists>sd i. compensable sg s = Some sd \<and>
            int i + 1 < comp_retries sd \<and> delay = of_int (comp_backoff sd) * 2 ^ i / 1000))"
proof (cases "completed = []")
  case True
  with assms(3) show ?thesis by (auto simp: compensate_def flatten_blocks_def intro!: exI [of _ "[]"])
next
  case False
  with assms(3) have r: "retry_with_backoff env sg ctx (rev completed) [] = (x, lg)"
    by (simp add: compensate_def)
  have "\<exists>sd i. compensable sg s = Some sd \<and> int i + 1 < comp_retries sd \<and>
      delay = of_int (comp_backoff sd) * 2 ^ i / 1000" if "Slept s delay \<in> set lg" for s delay
  proof -
    have "Slept s delay \<in> set (filter sleep_event lg)" using that by (simp add: sleep_event_def)
    then obtain sid sd i where sd: "compensable sg sid = Some sd" "int i + 1 < comp_retries sd"
      "Slept s delay = backoff_sleep sd i"
      using retry_sleeps [of env sg ctx "rev completed" "[]"] r by (auto simp: allowed_sleeps_def)
    then have "s = sid" using compensable_id [OF assms(1) sd(1)] by (simp add: backoff_sleep_def)
    with sd show ?thesis by (auto simp: backoff_sleep_def)
  qed
  with retry_outcomes [OF assms(1,2) r] show ?thesis by simp
qed

theorem retry_policy_correct_witness:
  "\<exists>lg. compensate (shop_env 2) RETRY_WITH_BACKOFF [''a'', ''b'', ''d''] shop shop_ctx [] [] = (Some refused, lg) \<and>
     (\<exists>blocks. outcomes lg = flatten_blocks blocks) \<and> Slept ''b'' 2 \<in> set lg"
proof -
  have e: "compensate (shop_env 2) RETRY_WITH_BACKOFF [''a'', ''b'', ''d''] shop shop_ctx [] [] =
      (Some refused, [Invoked ''d'' None, Invoked ''b'' (Some refused), Slept ''b'' 1,
        Invoked ''b'' (Some refused), Slept ''b'' 2, Invoked ''b'' (Some refused), Handled ''b'' refused])"
    by code_simp
  from retry_policy_correct [OF shop_ok shop_quiet e] e show ?thesis by auto
qed

text \<open>
  The circuit breaker, when the ports do not raise: it never raises; it compensates in reverse order until the end or until the
  first time three compensations in a row have failed, and skips the rest.
\<close>

theorem circuit_breaker_policy_correct:
  assumes "saga_def_ok sg" "quiet env"
    and "compensate env CIRCUIT_BREAKER completed sg ctx layers [] = (x, lg)"
  shows "x = None \<and> (\<exists>rest. todo sg (rev completed) = invoked lg @ rest \<and>
           (rest \<noteq> [] \<longrightarrow> failures_at_end 0 (outcomes lg) = 3) \<and>
           (\<forall>pre post. outcomes lg = pre @ post \<longrightarrow> post \<noteq> [] \<longrightarrow> failures_at_end 0 pre < 3))"
proof (cases "completed = []")
  case True
  with assms(3) show ?thesis by (simp add: compensate_def invoked_def)
next
  case False
  with assms(3) have "circuit_breaker env sg ctx 0 (rev completed) [] = (x, lg)" by (simp add: compensate_def)
  from circuit_outcomes [OF assms(1,2) this] show ?thesis by (auto simp: invoked_def)
qed

theorem circuit_breaker_policy_correct_witness:
  "\<exists>lg. compensate (shop_env 4) CIRCUIT_BREAKER [''a'', ''b'', ''d''] shop shop_ctx [] [] = (None, lg) \<and>
     (\<exists>rest. todo shop [''d'', ''b'', ''a''] = invoked lg @ rest)"
proof -
  obtain x lg where e: "compensate (shop_env 4) CIRCUIT_BREAKER [''a'', ''b'', ''d''] shop shop_ctx [] [] = (x, lg)"
    by fastforce
  from circuit_breaker_policy_correct [OF shop_ok shop_quiet e] e show ?thesis by auto
qed

text \<open>
  Best effort, whatever the methods, the listener and the handler do: every completed step with a
  compensation is compensated once, and the policy never raises.
\<close>

theorem best_effort_policy_correct:
  assumes "saga_def_ok sg" "order_ok env"
    and "compensate env BEST_EFFORT_PARALLEL completed sg ctx layers [] = (x, lg)"
  shows "x = None \<and> set (invoked lg) = set (todo sg completed) \<and> length (invoked lg) = length (todo sg completed)"
proof -
  let ?sds = "List.map_filter (compensable sg) completed"
  have ids: "map sd_id ?sds = todo sg completed"
    using compensable_id [OF assms(1)]
    by (induction completed) (auto simp: map_filter_simps split: option.splits)
  show ?thesis
  proof (cases "completed = []")
    case True
    with assms(3) show ?thesis by (simp add: compensate_def invoked_def)
  next
    case False
    with assms(3) have r: "x = None" "lg = snd (gather_exceptions env ctx (ce_order env ?sds) [])"
      by (simp_all add: compensate_def best_effort_parallel_def split_beta)
    then have inv: "invoked lg = map sd_id (ce_order env ?sds)"
      using gather_exceptions_outcomes [of env ctx "ce_order env ?sds" "[]"] by (auto simp: invoked_def)
    have "set (ce_order env ?sds) = set ?sds" "length (ce_order env ?sds) = length ?sds"
      using assms(2) by (simp_all add: order_ok_def)
    then show ?thesis using r(1) inv ids by (metis length_map list.set_map)
  qed
qed

theorem best_effort_policy_correct_witness:
  "\<exists>lg. compensate (shop_env 2) BEST_EFFORT_PARALLEL [''a'', ''b'', ''d''] shop shop_ctx [] [] = (None, lg) \<and>
     set (invoked lg) = {''a'', ''b'', ''d''}"
proof -
  obtain x lg where e: "compensate (shop_env 2) BEST_EFFORT_PARALLEL [''a'', ''b'', ''d''] shop shop_ctx [] [] = (x, lg)"
    by fastforce
  have "order_ok (shop_env 2)" by (simp add: order_ok_def shop_env_def)
  moreover have "todo shop [''a'', ''b'', ''d''] = [''a'', ''b'', ''d'']" by code_simp
  ultimately show ?thesis using best_effort_policy_correct [OF shop_ok _ e] e by auto
qed

end
