(* ===== verification/SagaEngine.thy ===== *)
theory SagaEngine
  imports SagaRegistry SagaOrch Compensator Persistence
begin

text \<open>
  \<^verbatim>\<open>saga/engine/saga_engine.py\<close>: the saga engine, which looks a saga up, runs it with the
  orchestrator, compensates the completed steps when it fails, persists and announces both ends, and builds
  the result. It rests on the interfaces of its parts: the executor, the compensator and the persistence port.
\<close>

section \<open>The engine\<close>

datatype engine_event = OnStart string string | OnCompleted string string bool

record 's persistence =
  pp_persist :: "datetime \<Rightarrow> pstate \<Rightarrow> 's \<Rightarrow> exn + 's"
  pp_mark :: "datetime \<Rightarrow> string \<Rightarrow> bool \<Rightarrow> 's \<Rightarrow> exn + 's"

text \<open>
  The ports are optional; an events port is what its methods raise, if anything. \<open>eng_step_events\<close>
  says whether the orchestrator has one, whose answers are part of its schedule.
\<close>

record 's saga_engine =
  eng_registry :: saga_registry
  eng_step_events :: bool
  eng_comp :: comp_env
  eng_persistence :: "'s persistence option"
  eng_events :: "(engine_event \<Rightarrow> exn option) option"

text \<open>What the world supplies to one execution: clock readings, a fresh identifier and the schedule.\<close>

record engine_run =
  run_uuid :: string
  run_started :: datetime
  run_marked :: datetime
  run_completed :: datetime
  run_schedule :: "orch_event list"

definition announce :: "(engine_event \<Rightarrow> exn option) option \<Rightarrow> engine_event \<Rightarrow> exn option" where
  "announce port ev = (case port of None \<Rightarrow> None | Some f \<Rightarrow> f ev)"

definition initial_state :: "string \<Rightarrow> string \<Rightarrow> (string, string) dict \<Rightarrow> datetime \<Rightarrow> pstate" where
  "initial_state name cid hdrs started_at =
     [(''saga_name'', VStr name), (''correlation_id'', VStr cid),
      (''headers'', VDict (map (\<lambda>(k, h). (k, VStr h)) hdrs)),
      (''started_at'', VStr (isoformat started_at))]"

definition persist_initial :: "'s persistence option \<Rightarrow> datetime \<Rightarrow> pstate \<Rightarrow> 's \<Rightarrow> exn + 's" where
  "persist_initial port now state s = (case port of None \<Rightarrow> Inr s | Some p \<Rightarrow> pp_persist p now state s)"

definition persist_final :: "'s persistence option \<Rightarrow> datetime \<Rightarrow> string \<Rightarrow> bool \<Rightarrow> 's \<Rightarrow> exn + 's" where
  "persist_final port now cid ok s = (case port of None \<Rightarrow> Inr s | Some p \<Rightarrow> pp_mark p now cid ok s)"

definition done_steps :: "saga_context \<Rightarrow> string list" where
  "done_steps ctx = map fst (filter (\<lambda>e. snd e = DONE) (step_statuses ctx))"

definition build_outcome :: "saga_context \<Rightarrow> datetime \<Rightarrow> bool \<Rightarrow> exn option \<Rightarrow> string \<Rightarrow> step_outcome" where
  "build_outcome ctx started_at success error step_id =
     \<lparr>so_status = dget_default (step_statuses ctx) step_id PENDING,
      so_attempts = dget_default (step_attempts ctx) step_id 0,
      so_latency_ms = dget_default (step_latencies_ms ctx) step_id 0,
      so_result = opt_val (dget (step_results ctx) step_id),
      so_error = (if success then None
                  else if dget (step_statuses ctx) step_id = Some FAILED then error else None),
      so_compensated = dmem step_id (compensation_results ctx),
      so_started_at = dget_default (step_started_at ctx) step_id started_at,
      so_compensation_result = opt_val (dget (compensation_results ctx) step_id),
      so_compensation_error = dget (compensation_errors ctx) step_id\<rparr>"

definition build_result ::
  "string \<Rightarrow> saga_def \<Rightarrow> saga_context \<Rightarrow> datetime \<Rightarrow> datetime \<Rightarrow> bool \<Rightarrow> exn option \<Rightarrow> saga_result"
where
  "build_result name sg ctx started_at completed_at success error =
     \<lparr>sr_saga_name = name, sr_correlation_id = correlation_id ctx, sr_started_at = started_at,
      sr_completed_at = completed_at, sr_success = success, sr_error = error,
      sr_headers = headers ctx,
      sr_steps = map (\<lambda>step_id. (step_id, build_outcome ctx started_at success error step_id))
                   (dkeys (steps sg))\<rparr>"

text \<open>
  The \<^verbatim>\<open>try\<close> statement: the error, if the orchestrator raised, and the log of the
  compensation, whose own exception is only logged.
\<close>

definition run_or_compensate ::
  "'s saga_engine \<Rightarrow> compensation_policy \<Rightarrow> saga_def \<Rightarrow> pyval \<Rightarrow> orch_event list \<Rightarrow> saga_context \<Rightarrow>
     (exn option \<times> saga_context \<times> comp_log) option"
where
  "run_or_compensate eng policy sg input sch ctx =
     (case orch_execute (eng_step_events eng) input sg sch ctx of
        None \<Rightarrow> None
      | Some (Inr completed_step_ids, ctx) \<Rightarrow> Some (None, ctx, [])
      | Some (Inl e, ctx) \<Rightarrow>
          Some (Some e, ctx,
            snd (compensate (eng_comp eng) policy (done_steps ctx) sg ctx (topology_layers ctx) [])))"

definition finish_saga ::
  "'s saga_engine \<Rightarrow> engine_run \<Rightarrow> string \<Rightarrow> saga_def \<Rightarrow> exn option \<Rightarrow> saga_context \<Rightarrow> 's \<Rightarrow> (exn + saga_result) \<times> 's"
where
  "finish_saga eng run name sg error ctx s =
     (let success = (error = None)
      in case announce (eng_events eng) (OnCompleted name (correlation_id ctx) success) of
           Some e \<Rightarrow> (Inl e, s)
         | None \<Rightarrow>
             (case persist_final (eng_persistence eng) (run_marked run) (correlation_id ctx) success s of
                Inl e \<Rightarrow> (Inl e, s)
              | Inr s \<Rightarrow>
                  (Inr (build_result name sg ctx (run_started run) (run_completed run) success error), s)))"

definition engine_context :: "engine_run \<Rightarrow> string \<Rightarrow> (string, string) dict option \<Rightarrow> string option \<Rightarrow> saga_context" where
  "engine_context run name hdrs cid =
     new_saga_context (case cid of Some (c # cs) \<Rightarrow> c # cs | _ \<Rightarrow> run_uuid run) name
       (case hdrs of None \<Rightarrow> [] | Some h \<Rightarrow> h)"

text \<open>The result is \<open>None\<close> when the schedule does not take the orchestrator to its end.\<close>

definition engine_execute ::
  "'s saga_engine \<Rightarrow> engine_run \<Rightarrow> string \<Rightarrow> pyval \<Rightarrow> (string, string) dict option \<Rightarrow> string option \<Rightarrow>
     compensation_policy \<Rightarrow> 's \<Rightarrow> ((exn + saga_result) \<times> comp_log \<times> 's) option"
where
  "engine_execute eng run name input hdrs cid policy s =
     (case registry_get (eng_registry eng) name of
        None \<Rightarrow> Some (Inl (Exn ValueErrorC ''Saga {} is not registered'' [VStr name]), [], s)
      | Some sg \<Rightarrow>
          (let ctx = engine_context run name hdrs cid
           in case announce (eng_events eng) (OnStart name (correlation_id ctx)) of
                Some e \<Rightarrow> Some (Inl e, [], s)
              | None \<Rightarrow>
                  (case persist_initial (eng_persistence eng) (run_started run)
                          (initial_state name (correlation_id ctx) (headers ctx) (run_started run)) s of
                     Inl e \<Rightarrow> Some (Inl e, [], s)
                   | Inr s \<Rightarrow>
                       (case run_or_compensate eng policy sg input (run_schedule run) ctx of
                          None \<Rightarrow> None
                        | Some (error, ctx, lg) \<Rightarrow>
                            (case finish_saga eng run name sg error ctx s of (r, s) \<Rightarrow> Some (r, lg, s))))))"

section \<open>What the executor's interface gives\<close>

lemma deps_first_filter:
  "deps_first deps ns \<Longrightarrow> (\<And>n p. n \<in> set ns \<Longrightarrow> P n \<Longrightarrow> p \<in> set (preds deps n) \<Longrightarrow> P p) \<Longrightarrow>
     deps_first deps (filter P ns)"
proof (induction ns rule: rev_induct)
  case (snoc n ns)
  then have IH: "deps_first deps (filter P ns)" and sub: "set (preds deps n) \<subseteq> set ns" by auto
  show ?case
  proof (cases "P n")
    case True
    have "set (preds deps n) \<subseteq> set (filter P ns)" using sub snoc.prems(2) [of n] True by auto
    with IH True show ?thesis by simp
  qed (use IH in simp)
qed simp

lemma done_steps_eq:
  assumes d: "dict_ok (step_statuses ctx)"
  shows "done_steps ctx = filter (\<lambda>n. (n, DONE) \<in> set (step_statuses ctx)) (dkeys (step_statuses ctx))"
proof -
  have "snd e = DONE \<longleftrightarrow> (fst e, DONE) \<in> set (step_statuses ctx)" if "e \<in> set (step_statuses ctx)" for e
    using that in_dict_dget [OF d, of "fst e" "snd e"] in_dict_dget [OF d, of "fst e" DONE] by simp
  then have "filter (\<lambda>e. snd e = DONE) (step_statuses ctx) =
      filter (\<lambda>e. (fst e, DONE) \<in> set (step_statuses ctx)) (step_statuses ctx)"
    by (intro filter_cong refl)
  then show ?thesis unfolding done_steps_def filter_map by (simp only: comp_def)
qed

context saga_executor
begin

text \<open>
  When an execution has failed, the steps handed to the compensator are distinct steps of the saga, listed
  after those they depend on.
\<close>

lemma done_steps_order:
  assumes "saga_def_ok sg" "step_statuses ctx = []" "step_attempts ctx = []"
    "exec sg sch ctx = Some (r, ctx')"
  shows "distinct (done_steps ctx')" "deps_first (step_deps sg) (done_steps ctx')"
proof -
  have ord: "start_order sg ctx'" by (rule exec_order [OF assms])
  then have d: "dict_ok (step_statuses ctx')" by (simp add: start_order_def)
  show "distinct (done_steps ctx')" unfolding done_steps_eq [OF d] using d by simp
  show "deps_first (step_deps sg) (done_steps ctx')"
    unfolding done_steps_eq [OF d]
  proof (rule deps_first_filter)
    show "deps_first (step_deps sg) (dkeys (step_statuses ctx'))" using ord by (simp add: start_order_def)
    fix n p assume "(n, DONE) \<in> set (step_statuses ctx')" "p \<in> set (preds (step_deps sg) n)"
    then have "dget (step_statuses ctx') n \<noteq> None" "p \<in> set (depends_on (step_of sg n))"
      using in_dict_dget [OF d, of n DONE] by (simp_all add: preds_step_of)
    from exec_deps [OF assms this] show "(p, DONE) \<in> set (step_statuses ctx')"
      using in_dict_dget [OF d, of p DONE] by simp
  qed
qed

end

section \<open>The engine's executions\<close>

lemma engine_context_fresh [simp]:
  "step_statuses (engine_context run name hdrs cid) = []" "step_attempts (engine_context run name hdrs cid) = []"
  "compensation_results (engine_context run name hdrs cid) = []"
  "compensation_errors (engine_context run name hdrs cid) = []"
  "saga_name (engine_context run name hdrs cid) = name"
  by (simp_all add: engine_context_def new_saga_context_def)

text \<open>An execution that returns went through all its stages.\<close>

lemma engine_execute_Inr:
  assumes "engine_execute eng run name input hdrs cid policy s = Some (Inr r, lg, s')"
  obtains sg s1 res ctx' where "registry_get (eng_registry eng) name = Some sg"
    "persist_initial (eng_persistence eng) (run_started run)
       (initial_state name (correlation_id (engine_context run name hdrs cid))
          (headers (engine_context run name hdrs cid)) (run_started run)) s = Inr s1"
    "orch_execute (eng_step_events eng) input sg (run_schedule run) (engine_context run name hdrs cid) = Some (res, ctx')"
    "lg = (case res of Inr _ \<Rightarrow> []
           | Inl _ \<Rightarrow> snd (compensate (eng_comp eng) policy (done_steps ctx') sg ctx' (topology_layers ctx') []))"
    "r = build_result name sg ctx' (run_started run) (run_completed run) (is_ok res)
           (case res of Inl e \<Rightarrow> Some e | Inr _ \<Rightarrow> None)"
    "persist_final (eng_persistence eng) (run_marked run) (correlation_id ctx') (is_ok res) s1 = Inr s'"
  using assms
  by (auto simp: engine_execute_def run_or_compensate_def finish_saga_def Let_def is_ok_def
      split: option.splits sum.splits prod.splits)


lemma engine_outcomes:
  assumes reg: "registry_get (eng_registry eng) name = Some sg" and ok: "saga_def_ok sg"
    and ex: "engine_execute eng run name input hdrs cid policy s = Some (Inr r, lg, s')"
  obtains ctx' where "dkeys (sr_steps r) = dkeys (steps sg)"
    "\<And>n o1. (n, o1) \<in> set (sr_steps r) \<Longrightarrow>
       o1 = build_outcome ctx' (run_started run) (sr_success r) (sr_error r) n"
    "sr_success r \<longleftrightarrow> sr_error r = None"
    "sr_success r \<Longrightarrow> (\<forall>n \<in> set (dkeys (steps sg)). completed_ok sg ctx' n) \<and> lg = []"
    "\<not> sr_success r \<Longrightarrow> is_dag (step_deps sg) \<Longrightarrow>
       \<exists>n \<in> set (dkeys (steps sg)). dget (step_statuses ctx') n = Some FAILED"
    "\<And>n. dget (step_statuses ctx') n \<noteq> Some COMPENSATED"
    "compensation_results ctx' = []" "compensation_errors ctx' = []"
proof -
  from ex obtain sg' s1 res ctx' where st: "registry_get (eng_registry eng) name = Some sg'"
    "orch_execute (eng_step_events eng) input sg' (run_schedule run) (engine_context run name hdrs cid) = Some (res, ctx')"
    "lg = (case res of Inr _ \<Rightarrow> []
           | Inl _ \<Rightarrow> snd (compensate (eng_comp eng) policy (done_steps ctx') sg' ctx' (topology_layers ctx') []))"
    "r = build_result name sg' ctx' (run_started run) (run_completed run) (is_ok res)
           (case res of Inl e \<Rightarrow> Some e | Inr _ \<Rightarrow> None)"
    by (rule engine_execute_Inr)
  note sg [simp] = st(1) [unfolded reg, simplified]
  note fresh = engine_context_fresh(1,2) [of run name hdrs cid]
  note ex = st(2) [folded sg]
  show thesis
  proof (rule that)
    show "dkeys (sr_steps r) = dkeys (steps sg)" by (simp add: st(4) build_result_def comp_def)
    show "o1 = build_outcome ctx' (run_started run) (sr_success r) (sr_error r) n"
      if "(n, o1) \<in> set (sr_steps r)" for n o1
      using that by (auto simp: st(4) build_result_def)
    show "sr_success r \<longleftrightarrow> sr_error r = None" by (simp add: st(4) build_result_def is_ok_def split: sum.splits)
    show "(\<forall>n \<in> set (dkeys (steps sg)). completed_ok sg ctx' n) \<and> lg = []" if "sr_success r"
    proof -
      from that obtain ids where res: "res = Inr ids" by (auto simp: st(4) build_result_def is_ok_iff)
      with orchestrator.exec_success [OF ok fresh] ex st(3) show ?thesis by auto
    qed
    show "\<exists>n \<in> set (dkeys (steps sg)). dget (step_statuses ctx') n = Some FAILED"
      if "\<not> sr_success r" "is_dag (step_deps sg)"
    proof -
      from that obtain e where "res = Inl e" by (cases res) (simp_all add: st(4) build_result_def)
      with orchestrator.exec_failure [OF ok fresh _ that(2)] ex show ?thesis by blast
    qed
    show "dget (step_statuses ctx') n \<noteq> Some COMPENSATED" for n
      by (rule orchestrator.exec_status [OF ok fresh ex])
    show "compensation_results ctx' = []" "compensation_errors ctx' = []"
      using orchestrator.exec_frame [OF ok fresh ex] by simp_all
  qed
qed

lemma engine_stored:
  assumes "registry_get (eng_registry eng) name = Some sg" "saga_def_ok sg"
    and "eng_persistence eng = Some \<lparr>pp_persist = persist_state, pp_mark = mark_completed\<rparr>"
    and "engine_execute eng run name input hdrs cid policy store = Some (Inr r, lg, store')"
  shows "get_state store' c = (if c = sr_correlation_id r
      then Some (marked (run_marked run) (sr_success r) (with_defaults (run_started run)
             (initial_state name (sr_correlation_id r) (sr_headers r) (run_started run))))
      else get_state store c)"
proof -
  let ?ctx = "engine_context run name hdrs cid"
  let ?state = "initial_state name (correlation_id ?ctx) (headers ?ctx) (run_started run)"
  from assms(4) obtain sg' s1 res ctx' where st: "registry_get (eng_registry eng) name = Some sg'"
    "persist_initial (eng_persistence eng) (run_started run) ?state store = Inr s1"
    "orch_execute (eng_step_events eng) input sg' (run_schedule run) ?ctx = Some (res, ctx')"
    "r = build_result name sg' ctx' (run_started run) (run_completed run) (is_ok res)
           (case res of Inl e \<Rightarrow> Some e | Inr _ \<Rightarrow> None)"
    "persist_final (eng_persistence eng) (run_marked run) (correlation_id ctx') (is_ok res) s1 = Inr store'"
    by (rule engine_execute_Inr)
  have "sg' = sg" using st(1) assms(1) by simp
  then have frame: "correlation_id ctx' = correlation_id ?ctx" "headers ctx' = headers ?ctx"
    using orchestrator.exec_frame [OF assms(2) engine_context_fresh(1,2) st(3) [unfolded \<open>sg' = sg\<close>]] by simp_all
  have p: "persist_state (run_started run) ?state store = Inr s1"
    "mark_completed (run_marked run) (correlation_id ?ctx) (is_ok res) s1 = Inr store'"
    using st(2,5) assms(3) frame by (simp_all add: persist_initial_def persist_final_def)
  have "dget ?state ''correlation_id'' = Some (VStr (correlation_id ?ctx))" by (simp add: initial_state_def)
  from memory.persist_then_mark [OF this, of "run_started run" store "run_marked run" "is_ok res"] p
  show ?thesis by (auto simp: st(4) build_result_def frame)
qed

section \<open>Properties\<close>

text \<open>
  The result of an execution: it reports every step of the saga in the order of the definition; a success carries no
  error, all its steps are done after one attempt or more, and nothing is compensated; a failure carries an error,
  which is the error of the failed steps and of no other, and when the dependencies are acyclic there is one.
\<close>

theorem engine_result_correct:
  assumes "registry_get (eng_registry eng) name = Some sg" "saga_def_ok sg"
    and "engine_execute eng run name input hdrs cid policy s = Some (Inr r, lg, s')"
  shows "dkeys (sr_steps r) = dkeys (steps sg) \<and> (sr_success r \<longleftrightarrow> sr_error r = None) \<and>
        (if sr_success r
         then lg = [] \<and> (\<forall>(n, o1) \<in> set (sr_steps r). so_status o1 = DONE \<and> 1 \<le> so_attempts o1 \<and> so_error o1 = None)
         else (\<forall>(n, o1) \<in> set (sr_steps r). so_error o1 = (if so_status o1 = FAILED then sr_error r else None)) \<and>
              (is_dag (step_deps sg) \<longrightarrow> failed_steps r \<noteq> []))"
    (is "_ \<and> _ \<and> ?cases")
proof -
  from assms obtain ctx' where c: "dkeys (sr_steps r) = dkeys (steps sg)"
    "\<And>n o1. (n, o1) \<in> set (sr_steps r) \<Longrightarrow>
       o1 = build_outcome ctx' (run_started run) (sr_success r) (sr_error r) n"
    "sr_success r \<longleftrightarrow> sr_error r = None"
    "sr_success r \<Longrightarrow> (\<forall>n \<in> set (dkeys (steps sg)). completed_ok sg ctx' n) \<and> lg = []"
    "\<not> sr_success r \<Longrightarrow> is_dag (step_deps sg) \<Longrightarrow>
       \<exists>n \<in> set (dkeys (steps sg)). dget (step_statuses ctx') n = Some FAILED"
    by (rule engine_outcomes) (rule that; assumption)
  have k: "n \<in> set (dkeys (steps sg))" if "(n, o1) \<in> set (sr_steps r)" for n o1
    using that c(1) by (metis fst_conv image_eqI list.set_map)
  have ?cases
  proof (cases "sr_success r")
    case True
    have "so_status o1 = DONE \<and> 1 \<le> so_attempts o1 \<and> so_error o1 = None" if "(n, o1) \<in> set (sr_steps r)" for n o1
      using c(4) [OF True] k [OF that] c(2) [OF that] True
      by (auto simp: completed_ok_def build_outcome_def dget_default_def attempt_in_range_def)
    with True c(4) show ?thesis by auto
  next
    case False
    have "so_error o1 = (if so_status o1 = FAILED then sr_error r else None)" if "(n, o1) \<in> set (sr_steps r)" for n o1
      using c(2) [OF that] False by (auto simp: build_outcome_def dget_default_def split: option.splits)
    moreover have "failed_steps r \<noteq> []" if dag: "is_dag (step_deps sg)"
    proof -
      obtain n where n: "n \<in> set (dkeys (sr_steps r))" "dget (step_statuses ctx') n = Some FAILED"
        using c(5) [OF False dag] unfolding c(1) by blast
      then obtain o1 where o1: "(n, o1) \<in> set (sr_steps r)" by auto
      then have "so_status o1 = FAILED"
        using c(2) [OF o1] n(2) by (simp add: build_outcome_def dget_default_def)
      with o1 have "(n, o1) \<in> set (failed_steps r)" by (simp add: failed_steps_def)
      then show ?thesis by auto
    qed
    ultimately show ?thesis using False by auto
  qed  with c(1,3) show ?thesis by blast
qed

text \<open>
  A saga whose last step fails: its first two steps have compensations. The engine runs it with a memory
  adapter and listeners that do not raise.
\<close>

definition trip :: saga_def where
  "trip = \<lparr>sg_name = ''trip'', sg_bean = VNone, layer_concurrency = 0,
     steps = [(''hotel'', (step_default ''hotel'')\<lparr>step_method := Some charge, compensate_method := Some (undo 1)\<rparr>),
              (''car'', (step_default ''car'')\<lparr>step_method := Some charge, compensate_method := Some (undo 2),
                          depends_on := [''hotel'']\<rparr>),
              (''pay'', (step_default ''pay'')\<lparr>step_method := Some charge, depends_on := [''car'']\<rparr>)]\<rparr>"

definition trip_engine :: "pstore saga_engine" where
  "trip_engine = \<lparr>eng_registry = [(''trip'', trip)], eng_step_events = False, eng_comp = shop_env 0,
     eng_persistence = Some \<lparr>pp_persist = persist_state, pp_mark = mark_completed\<rparr>, eng_events = Some (\<lambda>_. None)\<rparr>"

definition trip_run :: engine_run where
  "trip_run = \<lparr>run_uuid = ''u1'', run_started = noon 1, run_marked = noon 2, run_completed = noon 2,
     run_schedule = [EvStart ''hotel'' 0, EvReturn ''hotel'' (VInt 1) 5, EvLayerDone,
       EvStart ''car'' 0, EvReturn ''car'' (VInt 2) 5, EvLayerDone,
       EvStart ''pay'' 0, EvRaise ''pay'' refused 0, EvLayerFailed ''pay'']\<rparr>"

lemma trip_ok: "saga_def_ok trip"
  by (simp add: saga_def_ok_def trip_def step_default_def)

lemma trip_reg: "registry_get (eng_registry trip_engine) ''trip'' = Some trip"
  by (simp add: registry_get_def trip_engine_def)

lemma trip_executes:
  obtains r s' where "engine_execute trip_engine trip_run ''trip'' VNone None None STRICT_SEQUENTIAL [] =
      Some (Inr r, [Invoked ''car'' None, Invoked ''hotel'' None], s')"
    "sr_success r = False" "sr_error r = Some refused"
    "map (\<lambda>(n, o1). (n, so_status o1)) (sr_steps r) = [(''hotel'', DONE), (''car'', DONE), (''pay'', FAILED)]"
    "dkeys s' = [''u1'']"
proof -
  have c: "(case engine_execute trip_engine trip_run ''trip'' VNone None None STRICT_SEQUENTIAL [] of
      Some (Inr r, lg, s') \<Rightarrow> lg = [Invoked ''car'' None, Invoked ''hotel'' None] \<and> sr_success r = False \<and>
        sr_error r = Some refused \<and>
        map (\<lambda>(n, o1). (n, so_status o1)) (sr_steps r) = [(''hotel'', DONE), (''car'', DONE), (''pay'', FAILED)] \<and>
        dkeys s' = [''u1'']
    | _ \<Rightarrow> False)"
    by code_simp
  obtain x where x: "engine_execute trip_engine trip_run ''trip'' VNone None None STRICT_SEQUENTIAL [] = x" by blast
  with c have "case x of Some (Inr r, lg, s') \<Rightarrow> lg = [Invoked ''car'' None, Invoked ''hotel'' None] \<and>
      sr_success r = False \<and> sr_error r = Some refused \<and>
      map (\<lambda>(n, o1). (n, so_status o1)) (sr_steps r) = [(''hotel'', DONE), (''car'', DONE), (''pay'', FAILED)] \<and>
      dkeys s' = [''u1''] | _ \<Rightarrow> False" by (simp only:)
  then obtain r lg s' where "x = Some (Inr r, lg, s')" by (cases x; cases "fst (the x)") auto
  with c x that show thesis by simp
qed

theorem engine_result_correct_witness:
  "\<exists>r lg s'. engine_execute trip_engine trip_run ''trip'' VNone None None STRICT_SEQUENTIAL [] = Some (Inr r, lg, s') \<and>
     dkeys (sr_steps r) = [''hotel'', ''car'', ''pay''] \<and> sr_error r = Some refused \<and>
     (\<forall>(n, o1) \<in> set (sr_steps r). so_error o1 = (if so_status o1 = FAILED then Some refused else None))"
proof -
  obtain r s' where e: "engine_execute trip_engine trip_run ''trip'' VNone None None STRICT_SEQUENTIAL [] =
      Some (Inr r, [Invoked ''car'' None, Invoked ''hotel'' None], s')" "sr_success r = False" "sr_error r = Some refused"
    by (rule trip_executes)
  have "dkeys (steps trip) = [''hotel'', ''car'', ''pay'']" by (simp add: trip_def)
  with engine_result_correct [OF trip_reg trip_ok e(1)] e(2,3)
  have "dkeys (sr_steps r) = [''hotel'', ''car'', ''pay'']"
    "\<forall>(n, o1) \<in> set (sr_steps r). so_error o1 = (if so_status o1 = FAILED then Some refused else None)"
    by auto
  with e(1,3) show ?thesis
    by (intro exI [of _ r] exI [of _ "[Invoked ''car'' None, Invoked ''hotel'' None]"] exI [of _ s'] conjI)
qed

text \<open>
  The result never shows a compensation: no outcome has the status \<open>COMPENSATED\<close>, none is flagged as
  compensated or carries a compensation result or error, and \<^verbatim>\<open>compensated_steps()\<close> is empty, even when compensations ran.
\<close>

theorem compensation_not_reported:
  assumes "registry_get (eng_registry eng) name = Some sg" "saga_def_ok sg"
    and "engine_execute eng run name input hdrs cid policy s = Some (Inr r, lg, s')"
  shows "compensated_steps r = [] \<and>
         (\<forall>(n, o1) \<in> set (sr_steps r). \<not> so_compensated o1 \<and> so_compensation_result o1 = VNone \<and>
            so_compensation_error o1 = None)"
proof -
  from assms obtain ctx' where c:
    "\<And>n o1. (n, o1) \<in> set (sr_steps r) \<Longrightarrow>
       o1 = build_outcome ctx' (run_started run) (sr_success r) (sr_error r) n"
    "\<And>n. dget (step_statuses ctx') n \<noteq> Some COMPENSATED"
    "compensation_results ctx' = []" "compensation_errors ctx' = []"
    by (rule engine_outcomes) (rule that; assumption)
  have "so_status o1 \<noteq> COMPENSATED" if "(n, o1) \<in> set (sr_steps r)" for n o1
    using c(1) [OF that] c(2) [of n] by (simp add: build_outcome_def dget_default_def split: option.splits)
  moreover have "\<not> so_compensated o1 \<and> so_compensation_result o1 = VNone \<and> so_compensation_error o1 = None"
    if "(n, o1) \<in> set (sr_steps r)" for n o1
    using c(1) [OF that] c(3,4) by (simp add: build_outcome_def dmem_def opt_val_def)
  ultimately show ?thesis by (auto simp: compensated_steps_def filter_empty_conv)
qed

theorem compensation_not_reported_witness:
  "\<exists>r lg s'. engine_execute trip_engine trip_run ''trip'' VNone None None STRICT_SEQUENTIAL [] = Some (Inr r, lg, s') \<and>
     Invoked ''car'' None \<in> set lg \<and> compensated_steps r = []"
proof -
  obtain r s' where e: "engine_execute trip_engine trip_run ''trip'' VNone None None STRICT_SEQUENTIAL [] =
      Some (Inr r, [Invoked ''car'' None, Invoked ''hotel'' None], s')"
    by (rule trip_executes)
  from compensation_not_reported [OF trip_reg trip_ok e] e show ?thesis by auto
qed

text \<open>
  Claim C12. Persistence: with the memory adapter, when an execution has returned, the store holds the state of its
  correlation id, marked completed or failed as the result says, with the name and the headers of the execution, and is
  unchanged at every other key.
\<close>

theorem engine_persists_outcome:
  assumes "registry_get (eng_registry eng) name = Some sg" "saga_def_ok sg"
    and "eng_persistence eng = Some \<lparr>pp_persist = persist_state, pp_mark = mark_completed\<rparr>"
    and "engine_execute eng run name input hdrs cid policy store = Some (Inr r, lg, store')"
  shows "(\<forall>c. c \<noteq> sr_correlation_id r \<longrightarrow> get_state store' c = get_state store c) \<and>
         (\<exists>st. get_state store' (sr_correlation_id r) = Some st \<and>
            status_is (if sr_success r then ''COMPLETED'' else ''FAILED'') st \<and>
            dget st ''saga_name'' = Some (VStr name) \<and>
            dget st ''successful'' = Some (VBool (sr_success r)) \<and>
            dget st ''headers'' = Some (VDict (map (\<lambda>(k, h). (k, VStr h)) (sr_headers r))))"
  using engine_stored [OF assms]
  by (simp add: marked_get with_defaults_def setdefault_get initial_state_def)

theorem engine_persists_outcome_witness:
  "\<exists>r lg store' st. engine_execute trip_engine trip_run ''trip'' VNone None None STRICT_SEQUENTIAL [] =
       Some (Inr r, lg, store') \<and> get_state store' (sr_correlation_id r) = Some st \<and> status_is ''FAILED'' st"
proof -
  obtain r s' where e: "engine_execute trip_engine trip_run ''trip'' VNone None None STRICT_SEQUENTIAL [] =
      Some (Inr r, [Invoked ''car'' None, Invoked ''hotel'' None], s')" "sr_success r = False"
    by (rule trip_executes)
  have "eng_persistence trip_engine = Some \<lparr>pp_persist = persist_state, pp_mark = mark_completed\<rparr>"
    by (simp add: trip_engine_def)
  from engine_persists_outcome [OF trip_reg trip_ok this e(1)] e show ?thesis by auto
qed



text \<open>
  What the engine stores stops recovery: once an execution on the memory adapter has returned, every later recovery
  raises a \<^verbatim>\<open>TypeError\<close> and changes nothing, since the engine writes \<^verbatim>\<open>started_at\<close> as text.
\<close>

theorem engine_state_stops_recovery:
  assumes "eng_persistence eng = Some \<lparr>pp_persist = persist_state, pp_mark = mark_completed\<rparr>"
    and "registry_get (eng_registry eng) name = Some sg" "saga_def_ok sg"
    and "engine_execute eng run name input hdrs cid policy store = Some (Inr r, lg, store')"
  shows "\<exists>e. recover_stale now notify secs store' = (Inl e, store') \<and> exc_cls e = TypeErrorC"
proof -
  obtain st where st: "get_state store' (sr_correlation_id r) = Some st"
    "dget st ''started_at'' = Some (VStr (isoformat (run_started run)))"
    using engine_stored [OF assms(2,3,1,4)]
    by (auto simp: marked_get with_defaults_def setdefault_get initial_state_def)
  then have "st \<in> set (dvals store')" "\<not> comparable ''started_at'' st"
    by (auto simp: get_state_def comparable_def opt_val_def dest!: map_of_SomeD) force
  from get_stale_bad [OF this, of "dt_minus_seconds now secs"] show ?thesis
    by (auto simp: recover_stale_def get_stale_def)
qed

theorem engine_state_stops_recovery_witness:
  "\<exists>store' e. recover_stale (noon 9) None 600 store' = (Inl e, store') \<and> exc_cls e = TypeErrorC \<and> dkeys store' = [''u1'']"
proof -
  obtain r s' where e: "engine_execute trip_engine trip_run ''trip'' VNone None None STRICT_SEQUENTIAL [] =
      Some (Inr r, [Invoked ''car'' None, Invoked ''hotel'' None], s')" "dkeys s' = [''u1'']"
    by (rule trip_executes)
  have "eng_persistence trip_engine = Some \<lparr>pp_persist = persist_state, pp_mark = mark_completed\<rparr>"
    by (simp add: trip_engine_def)
  from engine_state_stops_recovery [OF this trip_reg trip_ok e(1), of "noon 9" None 600] e(2) show ?thesis
    by (intro exI [of _ s']) simp
qed

end
