(* ===== verification/TccEngine.thy ===== *)
theory TccEngine
  imports TccOrch SagaEngine
begin

text \<open>
  \<^verbatim>\<open>tcc/engine/tcc_engine.py\<close>: the TCC engine, which looks a transaction up, runs it with the coordinator,
  persists and announces both ends, and builds the result. The ports are those of the saga engine.
\<close>

section \<open>The engine\<close>

record 's tcc_engine =
  te_registry :: tcc_registry
  te_user :: tcc_user
  te_persistence :: "'s persistence option"
  te_events :: "(engine_event \<Rightarrow> exn option) option"

record tcc_run =
  tn_uuid :: string
  tn_started :: datetime
  tn_marked :: datetime
  tn_completed :: datetime

definition tcc_initial_state :: "string \<Rightarrow> string \<Rightarrow> (string, string) dict \<Rightarrow> datetime \<Rightarrow> pstate" where
  "tcc_initial_state name cid hdrs started_at =
     [(''tcc_name'', VStr name), (''correlation_id'', VStr cid),
      (''headers'', VDict (map (\<lambda>(k, h). (k, VStr h)) hdrs)),
      (''started_at'', VStr (isoformat started_at))]"

definition participant_outcome :: "tcc_context \<Rightarrow> string \<Rightarrow> participant_result" where
  "participant_outcome ctx pid =
     \<lparr>pr_participant_id = pid, pr_try_result = opt_val (dget (try_results ctx) pid),
      pr_try_error = None, pr_confirm_error = None, pr_cancel_error = None,
      pr_final_phase = dget_default (participant_statuses ctx) pid TRY, pr_latency_ms = 0\<rparr>"

definition tcc_build_result ::
  "string \<Rightarrow> tcc_def \<Rightarrow> tcc_context \<Rightarrow> datetime \<Rightarrow> datetime \<Rightarrow> bool \<Rightarrow> exn option \<Rightarrow> string option \<Rightarrow> tcc_result"
where
  "tcc_build_result name d ctx started_at completed_at success error failed_participant_id =
     \<lparr>tr_correlation_id = tx_correlation_id ctx, tr_name = name, tr_success = success,
      tr_final_phase = current_phase ctx, tr_try_results = try_results ctx,
      tr_participants = map (\<lambda>pid. (pid, participant_outcome ctx pid)) (dkeys (participants d)),
      tr_started_at = started_at, tr_completed_at = completed_at, tr_error = error,
      tr_failed_id = failed_participant_id\<rparr>"

definition tcc_engine_context :: "tcc_run \<Rightarrow> string \<Rightarrow> (string, string) dict option \<Rightarrow> string option \<Rightarrow> tcc_context" where
  "tcc_engine_context run name hdrs cid =
     new_tcc_context (case cid of Some (c # cs) \<Rightarrow> c # cs | _ \<Rightarrow> tn_uuid run) name
       (case hdrs of None \<Rightarrow> [] | Some h \<Rightarrow> h)"

text \<open>The \<^verbatim>\<open>finally\<close> block and the result; the coordinator itself raises nothing.\<close>

definition tcc_finish ::
  "'s tcc_engine \<Rightarrow> tcc_run \<Rightarrow> string \<Rightarrow> tcc_def \<Rightarrow> bool \<times> string option \<Rightarrow> tcc_context \<Rightarrow> 's \<Rightarrow>
     (exn + tcc_result) \<times> 's"
where
  "tcc_finish eng run name d outcome ctx s =
     (case announce (te_events eng) (OnCompleted name (tx_correlation_id ctx) (fst outcome)) of
        Some e \<Rightarrow> (Inl e, s)
      | None \<Rightarrow>
          (case persist_final (te_persistence eng) (tn_marked run) (tx_correlation_id ctx) (fst outcome) s of
             Inl e \<Rightarrow> (Inl e, s)
           | Inr s \<Rightarrow>
               (Inr (tcc_build_result name d ctx (tn_started run) (tn_completed run) (fst outcome) None (snd outcome)), s)))"

definition tcc_engine_execute ::
  "'s tcc_engine \<Rightarrow> tcc_run \<Rightarrow> string \<Rightarrow> pyval \<Rightarrow> (string, string) dict option \<Rightarrow> string option \<Rightarrow> 's \<Rightarrow>
     (exn + tcc_result) \<times> tcc_log \<times> 's"
where
  "tcc_engine_execute eng run name input_data hdrs cid s =
     (case tcc_get (te_registry eng) name of
        None \<Rightarrow> (Inl (Exn ValueErrorC ''TCC {} is not registered'' [VStr name]), [], s)
      | Some d \<Rightarrow>
          (let ctx = tcc_engine_context run name hdrs cid
           in case announce (te_events eng) (OnStart name (tx_correlation_id ctx)) of
                Some e \<Rightarrow> (Inl e, [], s)
              | None \<Rightarrow>
                  (case persist_initial (te_persistence eng) (tn_started run)
                          (tcc_initial_state name (tx_correlation_id ctx) (tx_headers ctx) (tn_started run)) s of
                     Inl e \<Rightarrow> (Inl e, [], s)
                   | Inr s \<Rightarrow>
                       (case tcc_execute (te_user eng) d input_data ctx of
                          (outcome, ctx, lg) \<Rightarrow>
                            (case tcc_finish eng run name d outcome ctx s of (r, s) \<Rightarrow> (r, lg, s))))))"

section \<open>What the coordinator keeps\<close>

text \<open>The phases change statuses, results and the current phase of a context, nothing else.\<close>

definition same_tx :: "tcc_context \<Rightarrow> tcc_context \<Rightarrow> bool" where
  "same_tx c c' \<longleftrightarrow> tx_correlation_id c' = tx_correlation_id c \<and> tx_name c' = tx_name c \<and> tx_headers c' = tx_headers c \<and>
     tx_variables c' = tx_variables c"

lemma same_tx_ops [simp]:
  "same_tx c c" "same_tx c (set_participant_status pid ph c') = same_tx c c'"
  "same_tx c (set_try_result pid v c') = same_tx c c'" "same_tx c (set_phase ph c') = same_tx c c'"
  by (simp_all add: same_tx_def step_simps)

lemma try_phase_frame: "try_phase user inp ps T ctx lg = (f, T', ctx', lg') \<Longrightarrow> same_tx c ctx \<Longrightarrow> same_tx c ctx'"
  by (induction ps arbitrary: T ctx lg) (auto split: prod.splits sum.splits if_splits)

lemma confirm_phase_frame: "confirm_phase user T ps ctx lg = (f, ctx', lg') \<Longrightarrow> same_tx c ctx \<Longrightarrow> same_tx c ctx'"
  by (induction ps arbitrary: ctx lg) (auto split: prod.splits sum.splits if_splits)

lemma cancel_frame: "cancel_participants user d pids ctx lg = (ctx', lg') \<Longrightarrow> same_tx c ctx \<Longrightarrow> same_tx c ctx'"
  by (induction pids arbitrary: ctx lg) (auto split: prod.splits sum.splits if_splits option.splits)

lemma tcc_execute_frame: "tcc_execute user d inp ctx = (res, ctx', lg) \<Longrightarrow> same_tx ctx ctx'"
  by (auto simp: tcc_execute_def split: prod.splits option.splits
      dest!: try_phase_frame [where c = ctx] confirm_phase_frame [where c = ctx] cancel_frame [where c = ctx])

lemma tcc_context_fresh [simp]:
  "participant_statuses (tcc_engine_context run name hdrs cid) = []"
  by (simp add: tcc_engine_context_def new_tcc_context_def)

lemma tcc_engine_Inr:
  assumes "tcc_engine_execute eng run name inp hdrs cid s = (Inr r, lg, s')"
  obtains d s1 res ctx' where "tcc_get (te_registry eng) name = Some d"
    "persist_initial (te_persistence eng) (tn_started run)
       (tcc_initial_state name (tx_correlation_id (tcc_engine_context run name hdrs cid))
          (tx_headers (tcc_engine_context run name hdrs cid)) (tn_started run)) s = Inr s1"
    "tcc_execute (te_user eng) d inp (tcc_engine_context run name hdrs cid) = (res, ctx', lg)"
    "r = tcc_build_result name d ctx' (tn_started run) (tn_completed run) (fst res) None (snd res)"
    "persist_final (te_persistence eng) (tn_marked run) (tx_correlation_id ctx') (fst res) s1 = Inr s'"
  using assms
  by (auto simp: tcc_engine_execute_def tcc_finish_def Let_def split: option.splits sum.splits prod.splits)

lemma tcc_stored:
  assumes "te_persistence eng = Some \<lparr>pp_persist = persist_state, pp_mark = mark_completed\<rparr>"
    and "tcc_engine_execute eng run name inp hdrs cid store = (Inr r, lg, store')"
  shows "get_state store' c = (if c = tr_correlation_id r
      then Some (marked (tn_marked run) (tr_success r) (with_defaults (tn_started run)
             (tcc_initial_state name (tr_correlation_id r) (tx_headers (tcc_engine_context run name hdrs cid)) (tn_started run))))
      else get_state store c)"
proof -
  let ?ctx = "tcc_engine_context run name hdrs cid"
  let ?state = "tcc_initial_state name (tx_correlation_id ?ctx) (tx_headers ?ctx) (tn_started run)"
  from assms(2) obtain d s1 res ctx' where st:
    "persist_initial (te_persistence eng) (tn_started run) ?state store = Inr s1"
    "tcc_execute (te_user eng) d inp ?ctx = (res, ctx', lg)"
    "r = tcc_build_result name d ctx' (tn_started run) (tn_completed run) (fst res) None (snd res)"
    "persist_final (te_persistence eng) (tn_marked run) (tx_correlation_id ctx') (fst res) s1 = Inr store'"
    by (rule tcc_engine_Inr)
  have frame: "tx_correlation_id ctx' = tx_correlation_id ?ctx" using tcc_execute_frame [OF st(2)] by (simp add: same_tx_def)
  have p: "persist_state (tn_started run) ?state store = Inr s1"
    "mark_completed (tn_marked run) (tx_correlation_id ?ctx) (fst res) s1 = Inr store'"
    using st(1,4) assms(1) frame by (simp_all add: persist_initial_def persist_final_def)
  have "dget ?state ''correlation_id'' = Some (VStr (tx_correlation_id ?ctx))" by (simp add: tcc_initial_state_def)
  from memory.persist_then_mark [OF this, of "tn_started run" store "tn_marked run" "fst res"] p
  show ?thesis by (auto simp: st(3) tcc_build_result_def frame)
qed

section \<open>Properties\<close>

definition transfer_engine :: "pstore tcc_engine" where
  "transfer_engine = \<lparr>te_registry = [(''transfer'', transfer)], te_user = transfer_user 5,
     te_persistence = Some \<lparr>pp_persist = persist_state, pp_mark = mark_completed\<rparr>, te_events = None\<rparr>"

definition transfer_run :: tcc_run where
  "transfer_run = \<lparr>tn_uuid = ''u2'', tn_started = noon 1, tn_marked = noon 2, tn_completed = noon 2\<rparr>"

lemma transfer_registered: "tcc_get (te_registry transfer_engine) ''transfer'' = Some transfer"
  by (simp add: tcc_get_def transfer_engine_def)

lemma transfer_executes:
  obtains r lg s' where "tcc_engine_execute transfer_engine transfer_run ''transfer'' VNone None None [] = (Inr r, lg, s')"
    "tr_success r = False" "tr_failed_id r = Some ''credit''" "tr_correlation_id r = ''u2''"
    "((CONFIRM, ''credit''), Some (Exn RuntimeErrorC ''busy'' [])) \<in> set (attempts lg)"
proof -
  obtain x lg s' where x: "tcc_engine_execute transfer_engine transfer_run ''transfer'' VNone None None [] = (x, lg, s')"
    by (rule prod_cases3)
  have "(case tcc_engine_execute transfer_engine transfer_run ''transfer'' VNone None None [] of
      (Inr r, lg, s') \<Rightarrow> tr_success r = False \<and> tr_failed_id r = Some ''credit'' \<and> tr_correlation_id r = ''u2'' \<and>
        ((CONFIRM, ''credit''), Some (Exn RuntimeErrorC ''busy'' [])) \<in> set (attempts lg)
    | _ \<Rightarrow> False)" by code_simp
  with x have c: "case x of Inr r \<Rightarrow> tr_success r = False \<and> tr_failed_id r = Some ''credit'' \<and> tr_correlation_id r = ''u2'' \<and>
        ((CONFIRM, ''credit''), Some (Exn RuntimeErrorC ''busy'' [])) \<in> set (attempts lg) | Inl _ \<Rightarrow> False"
    by (simp only: prod.case)
  then obtain r where "x = Inr r" by (cases x) simp_all
  with c x that show thesis by simp
qed

text \<open>
  The result of a TCC execution: every participant is reported, in order; the phase is the confirmation after a success and
  the cancellation after a failure, which names the participant that failed; after a success every mandatory
  participant's phase is the confirmation. With the memory adapter the transaction is on record, marked as the result says,
  and the store is otherwise unchanged.
\<close>

theorem tcc_engine_result_correct:
  assumes "tcc_get (te_registry eng) name = Some d" "tcc_ok d"
    and "te_persistence eng = Some \<lparr>pp_persist = persist_state, pp_mark = mark_completed\<rparr>"
    and "tcc_engine_execute eng run name inp hdrs cid store = (Inr r, lg, store')"
  shows "dkeys (tr_participants r) = dkeys (participants d) \<and>
         (if tr_success r
          then tr_failed_id r = None \<and> tr_final_phase r = CONFIRM \<and>
            (\<forall>(pid, p) \<in> set (participants d). \<not> pd_optional p \<longrightarrow>
               map_option pr_final_phase (dget (tr_participants r) pid) = Some CONFIRM)
          else tr_failed_id r \<in> Some ` set (dkeys (participants d)) \<and> tr_final_phase r = CANCEL) \<and>
         (\<forall>c. c \<noteq> tr_correlation_id r \<longrightarrow> get_state store' c = get_state store c) \<and>
         (\<exists>st. get_state store' (tr_correlation_id r) = Some st \<and>
            status_is (if tr_success r then ''COMPLETED'' else ''FAILED'') st \<and>
            dget st ''tcc_name'' = Some (VStr name))"
proof -
  let ?ctx = "tcc_engine_context run name hdrs cid"
  from assms(4) obtain d' res ctx' where st: "tcc_get (te_registry eng) name = Some d'"
    "tcc_execute (te_user eng) d' inp ?ctx = (res, ctx', lg)"
    "r = tcc_build_result name d' ctx' (tn_started run) (tn_completed run) (fst res) None (snd res)"
    by (rule tcc_engine_Inr)
  have [simp]: "d' = d" using st(1) assms(1) by simp
  have fresh: "statuses ?ctx = (\<lambda>_. None)" by (simp add: statuses_def)
  have ex: "tcc_execute (te_user eng) d inp ?ctx = (res, ctx', lg)" using st(2) by simp
  obtain bs where spec: "tcc_spec (verdict_of bs) (dvals (participants d)) =
      \<lparr>sm_result = res, sm_phase = current_phase ctx', sm_status = statuses ctx', sm_calls = map fst bs\<rparr>"
    by (rule tcc_execute_spec [OF assms(2) fresh ex]) (rule that)
  have keys: "dkeys (tr_participants r) = dkeys (participants d)" by (simp add: st(3) tcc_build_result_def comp_def)
  have known: "pd_id p = pid" if "(pid, p) \<in> set (participants d)" for pid p
    using that assms(2) by (auto simp: tcc_ok_def)
  have ids: "pd_id ` set (dvals (participants d)) = set (dkeys (participants d))"
    unfolding set_map image_image by (rule image_cong [OF refl]) (use known in auto)
  have "if tr_success r
      then tr_failed_id r = None \<and> tr_final_phase r = CONFIRM \<and>
        (\<forall>(pid, p) \<in> set (participants d). \<not> pd_optional p \<longrightarrow>
           map_option pr_final_phase (dget (tr_participants r) pid) = Some CONFIRM)
      else tr_failed_id r \<in> Some ` set (dkeys (participants d)) \<and> tr_final_phase r = CANCEL"
  proof (cases "fst res")
    case True
    then have s: "sm_result (tcc_spec (verdict_of bs) (dvals (participants d))) = (True, snd res)"
      unfolding spec by (cases res) simp
    have "map_option pr_final_phase (dget (tr_participants r) pid) = Some CONFIRM"
      if p: "(pid, p) \<in> set (participants d)" "\<not> pd_optional p" for pid p
    proof -
      have pid: "pd_id p = pid" by (rule known [OF p(1)])
      have mem: "p \<in> set (dvals (participants d))" using p(1) by (simp add: image_iff) (rule bexI [OF _ p(1)], simp)
      have "dget (participant_statuses ctx') pid = Some CONFIRM"
        using spec_success(3) [OF s mem p(2)] unfolding spec by (simp add: statuses_def pid)
      moreover have "pid \<in> set (dkeys (participants d))" using p(1) by (metis fst_conv image_eqI list.set_map)
      ultimately have "dget (tr_participants r) pid = Some (participant_outcome ctx' pid)"
        "pr_final_phase (participant_outcome ctx' pid) = CONFIRM"
        using dget_tabulate [of pid "dkeys (participants d)" "participant_outcome ctx'"]
        by (simp_all add: st(3) tcc_build_result_def del: map_map)
          (simp add: participant_outcome_def dget_default_def)
      then show ?thesis by simp
    qed
    with True spec_success(1,2) [OF s] spec show ?thesis
      by (auto simp: st(3) tcc_build_result_def)
  next
    case False
    then have s: "sm_result (tcc_spec (verdict_of bs) (dvals (participants d))) = (False, snd res)"
      unfolding spec by (cases res) simp
    from spec_failure(1,2) [OF s] False spec show ?thesis unfolding ids by (simp add: st(3) tcc_build_result_def)
  qed
  moreover have "(\<forall>c. c \<noteq> tr_correlation_id r \<longrightarrow> get_state store' c = get_state store c) \<and>
      (\<exists>st. get_state store' (tr_correlation_id r) = Some st \<and>
         status_is (if tr_success r then ''COMPLETED'' else ''FAILED'') st \<and> dget st ''tcc_name'' = Some (VStr name))"
    using tcc_stored [OF assms(3,4)]
    by (simp add: marked_get with_defaults_def setdefault_get tcc_initial_state_def)
  ultimately show ?thesis using keys by blast
qed

theorem tcc_engine_result_correct_witness:
  "\<exists>r lg store' st. tcc_engine_execute transfer_engine transfer_run ''transfer'' VNone None None [] = (Inr r, lg, store') \<and>
     tr_final_phase r = CANCEL \<and> get_state store' ''u2'' = Some st \<and> status_is ''FAILED'' st"
proof -
  obtain r lg s' where e: "tcc_engine_execute transfer_engine transfer_run ''transfer'' VNone None None [] = (Inr r, lg, s')"
    "tr_success r = False" "tr_correlation_id r = ''u2''" by (rule transfer_executes)
  have "te_persistence transfer_engine = Some \<lparr>pp_persist = persist_state, pp_mark = mark_completed\<rparr>"
    by (simp add: transfer_engine_def)
  from tcc_engine_result_correct [OF transfer_registered transfer_ok this e(1)] e show ?thesis by auto
qed

text \<open>
  The errors of a TCC execution are lost: whatever the participants raised, no result carries an exception, and
  \<^verbatim>\<open>failed_participants()\<close> is empty.
\<close>

theorem tcc_errors_not_reported:
  assumes "tcc_engine_execute eng run name inp hdrs cid store = (Inr r, lg, store')"
  shows "tr_error r = None \<and> failed_participants r = []"
proof -
  from assms obtain d ctx' res where
    "r = tcc_build_result name d ctx' (tn_started run) (tn_completed run) (fst res) None (snd res)"
    by (rule tcc_engine_Inr)
  then show ?thesis
    by (simp add: tcc_build_result_def failed_participants_def participant_outcome_def filter_empty_conv split_beta)
qed

theorem tcc_errors_not_reported_witness:
  "\<exists>r lg store'. tcc_engine_execute transfer_engine transfer_run ''transfer'' VNone None None [] = (Inr r, lg, store') \<and>
     tr_failed_id r = Some ''credit'' \<and> failed_participants r = [] \<and>
     ((CONFIRM, ''credit''), Some (Exn RuntimeErrorC ''busy'' [])) \<in> set (attempts lg)"
proof -
  obtain r lg s' where e: "tcc_engine_execute transfer_engine transfer_run ''transfer'' VNone None None [] = (Inr r, lg, s')"
    "tr_failed_id r = Some ''credit''"
    "((CONFIRM, ''credit''), Some (Exn RuntimeErrorC ''busy'' [])) \<in> set (attempts lg)" by (rule transfer_executes)
  from tcc_errors_not_reported [OF e(1)] e show ?thesis by blast
qed

end
