(* ===== verification/Composition.thy ===== *)
theory Composition
  imports SagaEngine
begin

text \<open>
  Compositions of sagas, \<^verbatim>\<open>saga/composition/\<close>: their definitions, builder and validator, the data flows between
  sagas, the compositor that runs them layer by layer, and the manager that compensates them.
\<close>

section \<open>Definitions\<close>

record data_flow =
  df_source_saga :: string
  df_source_step :: "string option"
  df_target_key :: "string option"

record composition_entry =
  en_saga_name :: string
  en_depends_on :: "string list"
  en_data_flows :: "data_flow list"

record composition =
  cn_name :: string
  cn_entries :: "(string, composition_entry) dict"
  cn_policy :: compensation_policy

record composition_context =
  cc_correlation_id :: string
  cc_name :: string
  cc_results :: "(string, saga_result) dict"
  cc_inputs :: "(string, pyval) dict"
  cc_compensated :: "string list"
  cc_error :: "exn option"

definition new_composition_context :: "string \<Rightarrow> string \<Rightarrow> composition_context" where
  "new_composition_context cid name =
     \<lparr>cc_correlation_id = cid, cc_name = name, cc_results = [], cc_inputs = [], cc_compensated = [], cc_error = None\<rparr>"

definition composition_deps :: "composition \<Rightarrow> (string, string list) dict" where
  "composition_deps c = map (\<lambda>(name, entry). (name, en_depends_on entry)) (cn_entries c)"

section \<open>Validation and builder\<close>

fun missing_entry :: "string set \<Rightarrow> (string \<times> string list) list \<Rightarrow> (string \<times> string) option" where
  "missing_entry entry_names [] = None"
| "missing_entry entry_names ((name, refs) # rest) =
     (case find (\<lambda>r. r \<notin> entry_names) refs of
        Some r \<Rightarrow> Some (name, r)
      | None \<Rightarrow> missing_entry entry_names rest)"

definition composition_flows :: "composition \<Rightarrow> (string \<times> string list) list" where
  "composition_flows c = map (\<lambda>(name, entry). (name, map df_source_saga (en_data_flows entry))) (cn_entries c)"

definition composition_validate :: "composition \<Rightarrow> exn option" where
  "composition_validate c =
     (let entry_names = set (dkeys (cn_entries c))
      in case missing_entry entry_names (composition_deps c) of
           Some (name, dep) \<Rightarrow>
             Some (Exn ValueErrorC ''Entry {} depends on {} which does not exist in composition {}''
               [VStr name, VStr dep, VStr (cn_name c)])
         | None \<Rightarrow>
             (case missing_entry entry_names (composition_flows c) of
                Some (name, src) \<Rightarrow>
                  Some (Exn ValueErrorC
                    ''Entry {} has a data flow referencing source saga {} which does not exist in composition {}''
                    [VStr name, VStr src, VStr (cn_name c)])
              | None \<Rightarrow>
                  (case compute_layers (composition_deps c) of Inl e \<Rightarrow> Some e | Inr _ \<Rightarrow> None)))"

record composition_builder =
  cb_name :: string
  cb_entries :: "(string, composition_entry) dict"
  cb_policy :: compensation_policy

definition new_composition_builder :: "string \<Rightarrow> composition_builder" where
  "new_composition_builder name = \<lparr>cb_name = name, cb_entries = [], cb_policy = STRICT_SEQUENTIAL\<rparr>"

text \<open>\<^verbatim>\<open>saga(name)\<close> begins an entry; its setters fill it and \<^verbatim>\<open>add\<close> stores it.\<close>

definition begin_entry :: "string \<Rightarrow> composition_entry" where
  "begin_entry saga = \<lparr>en_saga_name = saga, en_depends_on = [], en_data_flows = []\<rparr>"

definition entry_depends_on :: "string list \<Rightarrow> composition_entry \<Rightarrow> composition_entry" where
  "entry_depends_on saga_names eb = eb\<lparr>en_depends_on := saga_names\<rparr>"

definition entry_data_flow ::
  "string \<Rightarrow> string option \<Rightarrow> string option \<Rightarrow> composition_entry \<Rightarrow> composition_entry"
where
  "entry_data_flow source_saga source_step target_key eb =
     eb\<lparr>en_data_flows := en_data_flows eb @
          [\<lparr>df_source_saga = source_saga, df_source_step = source_step, df_target_key = target_key\<rparr>]\<rparr>"

definition add_entry :: "composition_entry \<Rightarrow> composition_builder \<Rightarrow> composition_builder" where
  "add_entry eb b = b\<lparr>cb_entries := dput (en_saga_name eb) eb (cb_entries b)\<rparr>"

definition set_composition_policy :: "compensation_policy \<Rightarrow> composition_builder \<Rightarrow> composition_builder" where
  "set_composition_policy policy b = b\<lparr>cb_policy := policy\<rparr>"

definition build_composition :: "composition_builder \<Rightarrow> exn + composition" where
  "build_composition b =
     (if cb_entries b = []
      then Inl (Exn ValueErrorC ''Composition must contain at least one saga entry'' [])
      else let c = \<lparr>cn_name = cb_name b, cn_entries = cb_entries b, cn_policy = cb_policy b\<rparr>
           in case composition_validate c of Some e \<Rightarrow> Inl e | None \<Rightarrow> Inr c)"

section \<open>Data flows\<close>

text \<open>A saga's result as the value it is when it flows into another saga as a whole.\<close>

definition status_val :: "step_status \<Rightarrow> pyval" where
  "status_val st = VStr (case st of PENDING \<Rightarrow> ''PENDING'' | RUNNING \<Rightarrow> ''RUNNING'' | DONE \<Rightarrow> ''DONE''
                         | FAILED \<Rightarrow> ''FAILED'' | COMPENSATED \<Rightarrow> ''COMPENSATED'')"

definition exn_val :: "exn option \<Rightarrow> pyval" where
  "exn_val e = (case e of None \<Rightarrow> VNone | Some x \<Rightarrow> VExn x)"

definition outcome_val :: "step_outcome \<Rightarrow> pyval" where
  "outcome_val o1 = VObj 0
     [(''status'', status_val (so_status o1)), (''attempts'', VInt (so_attempts o1)),
      (''latency_ms'', VFloat (so_latency_ms o1)), (''result'', so_result o1), (''error'', exn_val (so_error o1)),
      (''compensated'', VBool (so_compensated o1)), (''started_at'', VTime (so_started_at o1)),
      (''compensation_result'', so_compensation_result o1),
      (''compensation_error'', exn_val (so_compensation_error o1))]"

definition result_val :: "saga_result \<Rightarrow> pyval" where
  "result_val r = VObj 0
     [(''saga_name'', VStr (sr_saga_name r)), (''correlation_id'', VStr (sr_correlation_id r)),
      (''started_at'', VTime (sr_started_at r)), (''completed_at'', VTime (sr_completed_at r)),
      (''success'', VBool (sr_success r)), (''error'', exn_val (sr_error r)),
      (''headers'', VDict (map (\<lambda>(k, h). (k, VStr h)) (sr_headers r))),
      (''steps'', VDict (map (\<lambda>(k, o1). (k, outcome_val o1)) (sr_steps r)))]"

fun apply_flows :: "composition_context \<Rightarrow> data_flow list \<Rightarrow> (string, pyval) dict \<Rightarrow> (string, pyval) dict" where
  "apply_flows ctx [] resolved = resolved"
| "apply_flows ctx (flow # flows) resolved =
     (case dget (cc_results ctx) (df_source_saga flow) of
        None \<Rightarrow> apply_flows ctx flows resolved
      | Some source_result \<Rightarrow>
          (let v = (case df_source_step flow of
                      Some step \<Rightarrow> result_of source_result step
                    | None \<Rightarrow> result_val source_result)
           in apply_flows ctx flows
                (case df_target_key flow of
                   Some key \<Rightarrow> dput key v resolved
                 | None \<Rightarrow> (case v of
                      VDict d \<Rightarrow> dupdate resolved d
                    | _ \<Rightarrow> dput (df_source_saga flow) v resolved))))"

definition resolve_input :: "composition_entry \<Rightarrow> composition_context \<Rightarrow> pyval \<Rightarrow> pyval" where
  "resolve_input entry ctx initial_input =
     (if en_data_flows entry = [] then initial_input
      else VDict (apply_flows ctx (en_data_flows entry) (case initial_input of VDict d \<Rightarrow> d | _ \<Rightarrow> [])))"

section \<open>Compensation of completed sagas\<close>

text \<open>
  The logs of the compensations, with the saga each belongs to; the environment of a compensation may depend on
  those before. An exception of the compensator is only logged by the manager.
\<close>

type_synonym manager_log = "(string \<times> comp_log) list"

definition build_saga_context :: "string \<Rightarrow> string \<Rightarrow> saga_result option \<Rightarrow> saga_context" where
  "build_saga_context uuid name result =
     (case result of
        None \<Rightarrow> new_saga_context uuid name []
      | Some r \<Rightarrow>
          (new_saga_context (sr_correlation_id r) name (sr_headers r))
             \<lparr>step_statuses := map (\<lambda>(step_id, o1). (step_id, so_status o1)) (sr_steps r),
              step_results := map (\<lambda>(step_id, o1). (step_id, so_result o1))
                                (filter (\<lambda>(step_id, o1). so_result o1 \<noteq> VNone) (sr_steps r))\<rparr>)"

definition result_done_steps :: "saga_result option \<Rightarrow> string list" where
  "result_done_steps result =
     (case result of None \<Rightarrow> [] | Some r \<Rightarrow> map fst (filter (\<lambda>(step_id, o1). so_status o1 = DONE) (sr_steps r)))"

record compositor =
  co_run :: "string \<Rightarrow> pyval \<Rightarrow> (string, string) dict option \<Rightarrow> string \<Rightarrow> (exn + saga_result) option"
  co_registry :: saga_registry
  co_comp :: "manager_log \<Rightarrow> comp_env"
  co_uuid :: string

fun compensate_completed ::
  "compositor \<Rightarrow> composition \<Rightarrow> string list \<Rightarrow> composition_context \<Rightarrow> manager_log \<Rightarrow>
     composition_context \<times> manager_log"
where
  "compensate_completed co c [] ctx lg = (ctx, lg)"
| "compensate_completed co c (saga # names) ctx lg =
     (let saga_result = dget (cc_results ctx) saga;
          completed_step_ids = result_done_steps saga_result;
          lg' = (case registry_get (co_registry co) saga of
                   None \<Rightarrow> lg
                 | Some sg \<Rightarrow>
                     if completed_step_ids = [] then lg
                     else lg @ [(saga, snd (compensate (co_comp co lg) (cn_policy c) completed_step_ids sg
                                 (build_saga_context (co_uuid co) saga saga_result) [] []))])
      in compensate_completed co c names (ctx\<lparr>cc_compensated := cc_compensated ctx @ [saga]\<rparr>) lg')"

section \<open>The compositor\<close>

text \<open>
  \<open>co_run\<close> is the engine's \<^verbatim>\<open>execute\<close>: what an execution of a saga on an input returns or raises, or
  \<open>None\<close> when it does not return. The sagas of a layer run at the same time; each resolves its input when it starts,
  before any of them is recorded, and \<^verbatim>\<open>gather\<close> starts them in the order of the layer.
\<close>

definition execute_saga ::
  "compositor \<Rightarrow> composition \<Rightarrow> pyval \<Rightarrow> (string, string) dict option \<Rightarrow> string \<Rightarrow> composition_context \<Rightarrow>
     (exn + saga_result) option \<times> composition_context"
where
  "execute_saga co c initial_input hdrs saga ctx =
     (case dget (cn_entries c) saga of
        None \<Rightarrow> (Some (Inl (key_error saga)), ctx)
      | Some entry \<Rightarrow>
          (let resolved_input = resolve_input entry ctx initial_input
           in (co_run co saga resolved_input hdrs (cc_correlation_id ctx),
               ctx\<lparr>cc_inputs := dput saga resolved_input (cc_inputs ctx)\<rparr>)))"

fun gather_sagas ::
  "compositor \<Rightarrow> composition \<Rightarrow> pyval \<Rightarrow> (string, string) dict option \<Rightarrow> string list \<Rightarrow> composition_context \<Rightarrow>
     ((exn + saga_result) list \<times> composition_context) option"
where
  "gather_sagas co c initial_input hdrs [] ctx = Some ([], ctx)"
| "gather_sagas co c initial_input hdrs (saga # names) ctx =
     (case execute_saga co c initial_input hdrs saga ctx of
        (None, _) \<Rightarrow> None
      | (Some result, ctx) \<Rightarrow>
          (case gather_sagas co c initial_input hdrs names ctx of
             None \<Rightarrow> None
           | Some (results, ctx) \<Rightarrow> Some (result # results, ctx)))"

fun process_results ::
  "composition \<Rightarrow> (string \<times> (exn + saga_result)) list \<Rightarrow> composition_context \<Rightarrow> string list \<Rightarrow>
     exn option \<times> composition_context \<times> string list"
where
  "process_results c [] ctx completed = (None, ctx, completed)"
| "process_results c ((saga, Inl e) # rest) ctx completed = (Some e, ctx, completed)"
| "process_results c ((saga, Inr result) # rest) ctx completed =
     (let ctx' = ctx\<lparr>cc_results := dput saga result (cc_results ctx)\<rparr>; completed' = completed @ [saga]
      in if \<not> sr_success result
         then (Some (Exn RuntimeErrorC ''Saga {} failed in composition {}'' [VStr saga, VStr (cn_name c)]),
               ctx', completed')
         else process_results c rest ctx' completed')"

fun run_layers ::
  "compositor \<Rightarrow> composition \<Rightarrow> pyval \<Rightarrow> (string, string) dict option \<Rightarrow> string list list \<Rightarrow>
     composition_context \<Rightarrow> string list \<Rightarrow> (exn option \<times> composition_context \<times> string list) option"
where
  "run_layers co c initial_input hdrs [] ctx completed = Some (None, ctx, completed)"
| "run_layers co c initial_input hdrs (layer # layers) ctx completed =
     (case gather_sagas co c initial_input hdrs layer ctx of
        None \<Rightarrow> None
      | Some (results, ctx) \<Rightarrow>
          (case process_results c (zip layer results) ctx completed of
             (Some e, ctx, completed) \<Rightarrow> Some (Some e, ctx, completed)
           | (None, ctx, completed) \<Rightarrow> run_layers co c initial_input hdrs layers ctx completed))"

definition composition_execute ::
  "compositor \<Rightarrow> composition \<Rightarrow> pyval \<Rightarrow> (string, string) dict option \<Rightarrow> string \<Rightarrow>
     (exn + composition_context \<times> manager_log) option"
where
  "composition_execute co c initial_input hdrs cid =
     (case compute_layers (composition_deps c) of
        Inl e \<Rightarrow> Some (Inl e)
      | Inr layers \<Rightarrow>
          (case run_layers co c initial_input hdrs layers (new_composition_context cid (cn_name c)) [] of
             None \<Rightarrow> None
           | Some (None, ctx, completed) \<Rightarrow> Some (Inr (ctx, []))
           | Some (Some e, ctx, completed) \<Rightarrow>
               Some (Inr (compensate_completed co c (rev completed) (ctx\<lparr>cc_error := Some e\<rparr>) []))))"

section \<open>Execution order\<close>

definition succeeded :: "composition_context \<Rightarrow> string \<Rightarrow> bool" where
  "succeeded ctx n \<longleftrightarrow> (\<exists>r. dget (cc_results ctx) n = Some r \<and> sr_success r)"

definition entry_deps :: "composition \<Rightarrow> string \<Rightarrow> string set" where
  "entry_deps c n = set (preds (composition_deps c) n)"

text \<open>Every node of a layer has its dependencies among the nodes done and the layers before.\<close>

definition follows :: "composition \<Rightarrow> string list \<Rightarrow> string list list \<Rightarrow> bool" where
  "follows c done_sagas layers \<longleftrightarrow> (\<forall>pre l post. layers = pre @ l # post \<longrightarrow>
     (\<forall>n \<in> set l. entry_deps c n \<subseteq> set done_sagas \<union> set (concat pre)))"

lemma follows_Cons:
  assumes "follows c ds (l # ls)"
  shows "n \<in> set l \<Longrightarrow> entry_deps c n \<subseteq> set ds" "follows c (ds @ l) ls"
proof -
  show "entry_deps c n \<subseteq> set ds" if "n \<in> set l"
    using assms that unfolding follows_def by (metis append_Nil concat.simps(1) list.set(1) sup_bot.right_neutral)
  have "entry_deps c n \<subseteq> set (ds @ l) \<union> set (concat pre)" if "ls = pre @ k # post" "n \<in> set k" for pre k post n
  proof -
    have "l # ls = (l # pre) @ k # post" using that(1) by simp
    then have "entry_deps c n \<subseteq> set ds \<union> set (concat (l # pre))" using assms that(2) unfolding follows_def by blast
    then show ?thesis by auto
  qed
  then show "follows c (ds @ l) ls" unfolding follows_def by blast
qed

lemma follows_init: "deps_before (composition_deps c) layers \<Longrightarrow> follows c [] layers"
  unfolding follows_def entry_deps_def
proof (intro allI impI ballI)
  fix pre l post n
  assume d: "deps_before (composition_deps c) layers" and l: "layers = pre @ l # post" and n: "n \<in> set l"
  have "n \<in> set (layers ! length pre)" using n by (simp add: l nth_append)
  from deps_before_take [OF d _ this] show "set (preds (composition_deps c) n) \<subseteq> set [] \<union> set (concat pre)"
    by (simp add: l)
qed

lemma gather_sagas_frame:
  "gather_sagas co c inp hdrs names ctx = Some (rs, ctx') \<Longrightarrow>
     length rs = length names \<and> cc_results ctx' = cc_results ctx \<and>
     set (dkeys (cc_inputs ctx')) \<subseteq> set (dkeys (cc_inputs ctx)) \<union> set names \<and>
     cc_compensated ctx' = cc_compensated ctx \<and> cc_error ctx' = cc_error ctx"
proof (induction names arbitrary: ctx rs)
  case (Cons n names)
  obtain r ctx1 where e: "execute_saga co c inp hdrs n ctx = (r, ctx1)" by fastforce
  then have f: "cc_results ctx1 = cc_results ctx" "set (dkeys (cc_inputs ctx1)) \<subseteq> insert n (set (dkeys (cc_inputs ctx)))"
    "cc_compensated ctx1 = cc_compensated ctx" "cc_error ctx1 = cc_error ctx"
    by (cases "dget (cn_entries c) n"; auto simp: execute_saga_def Let_def simp del: set_map; simp)+
  from Cons.prems e obtain v rs' where g: "r = Some v" "gather_sagas co c inp hdrs names ctx1 = Some (rs', ctx')" "rs = v # rs'"
    by (auto split: option.splits)
  note IH = Cons.IH [OF g(2)]
  have "set (dkeys (cc_inputs ctx')) \<subseteq> set (dkeys (cc_inputs ctx)) \<union> set (n # names)"
    using IH f(2) unfolding list.set by blast
  with IH f g(3) show ?case by simp
qed simp

lemma process_results_frame:
  "process_results c xs ctx cs = (err, ctx', cs') \<Longrightarrow> distinct (map fst xs) \<Longrightarrow>
     cc_inputs ctx' = cc_inputs ctx \<and> cc_compensated ctx' = cc_compensated ctx \<and> cc_error ctx' = cc_error ctx \<and>
     (\<forall>n. n \<notin> set (map fst xs) \<longrightarrow> dget (cc_results ctx') n = dget (cc_results ctx) n) \<and>
     (err = None \<longrightarrow> (\<forall>n \<in> set (map fst xs). succeeded ctx' n)) \<and>
     (dkeys (cc_results ctx) = cs \<longrightarrow> set (map fst xs) \<inter> set cs = {} \<longrightarrow> dkeys (cc_results ctx') = cs') \<and>
     (\<exists>ys. cs' = cs @ ys \<and> set ys \<subseteq> set (map fst xs) \<and> (err = None \<longrightarrow> ys = map fst xs))"
proof (induction c xs ctx cs rule: process_results.induct)
  case (3 c n r rest ctx cs)
  show ?case
  proof (cases "sr_success r")
    case True
    let ?ctx = "ctx\<lparr>cc_results := dput n r (cc_results ctx)\<rparr>"
    from 3 True have IH:
      "cc_inputs ctx' = cc_inputs ?ctx \<and> cc_compensated ctx' = cc_compensated ?ctx \<and> cc_error ctx' = cc_error ?ctx \<and>
       (\<forall>n. n \<notin> set (map fst rest) \<longrightarrow> dget (cc_results ctx') n = dget (cc_results ?ctx) n) \<and>
       (err = None \<longrightarrow> (\<forall>n \<in> set (map fst rest). succeeded ctx' n)) \<and>
       (dkeys (cc_results ?ctx) = cs @ [n] \<longrightarrow> set (map fst rest) \<inter> set (cs @ [n]) = {} \<longrightarrow> dkeys (cc_results ctx') = cs') \<and>
       (\<exists>ys. cs' = (cs @ [n]) @ ys \<and> set ys \<subseteq> set (map fst rest) \<and> (err = None \<longrightarrow> ys = map fst rest))"
      by (simp add: Let_def)
    then have "succeeded ctx' n" using 3(3) True by (simp add: succeeded_def)
    moreover obtain ys where ys: "cs' = (cs @ [n]) @ ys" "set ys \<subseteq> set (map fst rest)" "err = None \<longrightarrow> ys = map fst rest"
      using IH by blast
    ultimately show ?thesis using IH 3(3)
      by (intro conjI exI [of _ "n # ys"]) (auto simp: update_keys)
  next
    case False
    with 3(2,3) have "err \<noteq> None" "ctx' = ctx\<lparr>cc_results := dput n r (cc_results ctx)\<rparr>" "cs' = cs @ [n]"
      by (auto simp: Let_def)
    then show ?thesis by (auto simp: update_keys)
  qed
qed auto

text \<open>
  The layers not yet run extend those done: what starts has its dependencies among the successes, and
  successes stay.
\<close>

lemma run_layers_order:
  assumes "run_layers co c inp hdrs layers ctx cs = Some (err, ctx', cs')"
    and "distinct (done_sagas @ concat layers)" "\<forall>n \<in> set done_sagas. succeeded ctx n"
    and "follows c done_sagas layers"
    and "dkeys (cc_results ctx) = cs" "cs = done_sagas"
  shows "cc_compensated ctx' = cc_compensated ctx \<and> cc_error ctx' = cc_error ctx \<and>
    (\<forall>n \<in> set done_sagas. succeeded ctx' n) \<and> (err = None \<longrightarrow> (\<forall>n \<in> set (concat layers). succeeded ctx' n)) \<and>
    (\<forall>n \<in> set (dkeys (cc_inputs ctx')). n \<in> set (dkeys (cc_inputs ctx)) \<or> (\<forall>d \<in> entry_deps c n. succeeded ctx' d)) \<and>
    dkeys (cc_results ctx') = cs'"
  using assms
proof (induction layers arbitrary: ctx cs done_sagas)
  case (Cons layer layers)
  obtain rs c1 where g: "gather_sagas co c inp hdrs layer ctx = Some (rs, c1)"
    using Cons.prems(1) by (auto split: option.splits)
  obtain e1 c2 cs2 where p: "process_results c (zip layer rs) c1 cs = (e1, c2, cs2)" by (rule prod_cases3)
  from gather_sagas_frame [OF g] have f: "map fst (zip layer rs) = layer" "cc_results c1 = cc_results ctx"
    "set (dkeys (cc_inputs c1)) \<subseteq> set (dkeys (cc_inputs ctx)) \<union> set layer"
    "cc_compensated c1 = cc_compensated ctx" "cc_error c1 = cc_error ctx" by auto
  have dl: "distinct layer" "set layer \<inter> set done_sagas = {}" using Cons.prems(2) by auto
  from process_results_frame [OF p] dl(1) f(1) have h: "cc_inputs c2 = cc_inputs c1" "cc_compensated c2 = cc_compensated c1"
    "cc_error c2 = cc_error c1"
    "\<forall>n. n \<notin> set layer \<longrightarrow> dget (cc_results c2) n = dget (cc_results c1) n"
    "e1 = None \<longrightarrow> (\<forall>n \<in> set layer. succeeded c2 n)"
    "dkeys (cc_results c1) = cs \<longrightarrow> set layer \<inter> set cs = {} \<longrightarrow> dkeys (cc_results c2) = cs2"
    "\<exists>ys. cs2 = cs @ ys \<and> set ys \<subseteq> set layer \<and> (e1 = None \<longrightarrow> ys = layer)" by simp_all
  have keep: "\<forall>n \<in> set done_sagas. succeeded c2 n"
    using Cons.prems(3) dl(2) h(4) f(2) by (auto simp: succeeded_def)
  note deps = follows_Cons(1) [OF Cons.prems(4)]
  have keys: "dkeys (cc_results c2) = cs2" using h(6) Cons.prems(5,6) dl(2) f(2) by simp
  show ?case
  proof (cases e1)
    case (Some e)
    with Cons.prems(1) g p have out: "err = Some e" "ctx' = c2" "cs' = cs2" by auto
    have "n \<in> set (dkeys (cc_inputs ctx)) \<or> (\<forall>d \<in> entry_deps c n. succeeded c2 d)"
      if "n \<in> set (dkeys (cc_inputs c2))" for n
      using that f(3) deps [of n] keep unfolding h(1) by blast
    with out keep keys h(2,3) f(4,5) show ?thesis by simp
  next
    case None
    with Cons.prems(1) g p have r: "run_layers co c inp hdrs layers c2 cs2 = Some (err, ctx', cs')" by auto
    have cs2: "cs2 = done_sagas @ layer" using h(7) None Cons.prems(6) by auto
    note ind = follows_Cons(2) [OF Cons.prems(4)]
    have "distinct ((done_sagas @ layer) @ concat layers)" "\<forall>n \<in> set (done_sagas @ layer). succeeded c2 n"
      using Cons.prems(2) keep h(5) None by auto
    from Cons.IH [OF r this ind keys cs2] have IH: "cc_compensated ctx' = cc_compensated c2" "cc_error ctx' = cc_error c2"
      "\<forall>n \<in> set (done_sagas @ layer). succeeded ctx' n" "err = None \<longrightarrow> (\<forall>n \<in> set (concat layers). succeeded ctx' n)"
      "\<forall>n \<in> set (dkeys (cc_inputs ctx')). n \<in> set (dkeys (cc_inputs c2)) \<or> (\<forall>d \<in> entry_deps c n. succeeded ctx' d)"
      "dkeys (cc_results ctx') = cs'" by simp_all
    have "n \<in> set (dkeys (cc_inputs ctx)) \<or> (\<forall>d \<in> entry_deps c n. succeeded ctx' d)"
      if "n \<in> set (dkeys (cc_inputs ctx'))" for n
      using that IH(3,5) f(3) deps [of n] unfolding h(1) set_append by blast
    moreover have "err = None \<longrightarrow> (\<forall>n \<in> set (concat (layer # layers)). succeeded ctx' n)" using IH(3,4) by auto
    ultimately show ?thesis using IH(1,2,3,6) h(2,3) f(4,5) by (intro conjI) auto
  qed
qed auto

section \<open>The manager\<close>

text \<open>The sagas whose compensation the manager starts: registered ones with a step that is done.\<close>

definition undoable :: "compositor \<Rightarrow> composition_context \<Rightarrow> string \<Rightarrow> bool" where
  "undoable co ctx n \<longleftrightarrow> registry_get (co_registry co) n \<noteq> None \<and> result_done_steps (dget (cc_results ctx) n) \<noteq> []"

lemma compensate_completed_frame:
  "compensate_completed co c names ctx lg = (ctx', lg') \<Longrightarrow>
     cc_results ctx' = cc_results ctx \<and> cc_inputs ctx' = cc_inputs ctx \<and> cc_error ctx' = cc_error ctx \<and>
     cc_compensated ctx' = cc_compensated ctx @ names \<and> map fst lg' = map fst lg @ filter (undoable co ctx) names"
proof (induction names arbitrary: ctx lg)
  case (Cons n names)
  let ?ctx = "ctx\<lparr>cc_compensated := cc_compensated ctx @ [n]\<rparr>"
  have same: "undoable co ?ctx = undoable co ctx" by (simp add: undoable_def fun_eq_iff)
  obtain l where "compensate_completed co c names ?ctx l = (ctx', lg')"
    "map fst l = map fst lg @ (if undoable co ctx n then [n] else [])"
    using Cons.prems by (auto simp: Let_def undoable_def split: option.splits if_splits)
  with Cons.IH [of ?ctx l] same show ?case by auto
qed simp

lemma grouped_no_layers: "compensate env GROUPED_PARALLEL ids sg ctx [] lg = (None, lg)"
  by (simp add: compensate_def)

lemma missing_entry_None: "missing_entry E xs = None \<longleftrightarrow> (\<forall>(n, refs) \<in> set xs. set refs \<subseteq> E)"
proof (induction xs)
  case (Cons x xs)
  obtain n refs where x: "x = (n, refs)" by fastforce
  have "find (\<lambda>r. r \<notin> E) refs = None \<longleftrightarrow> set refs \<subseteq> E" by (auto simp: find_None_iff)
  with Cons.IH show ?case by (auto simp: x split: option.splits)
qed simp

definition flows_closed :: "composition \<Rightarrow> bool" where
  "flows_closed c \<longleftrightarrow> (\<forall>(n, refs) \<in> set (composition_flows c). set refs \<subseteq> set (dkeys (cn_entries c)))"

lemma composition_deps_keys [simp]: "dkeys (composition_deps c) = dkeys (cn_entries c)"
  by (simp add: composition_deps_def comp_def case_prod_unfold)

lemma deps_closed_iff:
  assumes "dict_ok (cn_entries c)"
  shows "closed_deps (composition_deps c) \<longleftrightarrow>
    (\<forall>(n, refs) \<in> set (composition_deps c). set refs \<subseteq> set (dkeys (cn_entries c)))"
proof -
  have d: "dict_ok (composition_deps c)" using assms by simp
  have "(n, refs) \<in> set (composition_deps c) \<longleftrightarrow>
      n \<in> set (dkeys (composition_deps c)) \<and> refs = preds (composition_deps c) n" for n refs
    using in_dict_dget [OF d] in_keys_dget [of n "composition_deps c"] dget_in_keys [of "composition_deps c" n]
    unfolding preds_def dget_default_def by (force split: option.splits)
  then have "(\<forall>(n, refs) \<in> set (composition_deps c). set refs \<subseteq> set (dkeys (cn_entries c))) \<longleftrightarrow>
      (\<forall>n \<in> set (dkeys (composition_deps c)). set (preds (composition_deps c) n) \<subseteq> set (dkeys (cn_entries c)))"
    unfolding split_paired_Ball_Sigma Ball_def by (simp only: split_paired_All prod.case) blast
  then show ?thesis unfolding closed_deps_def composition_deps_keys by blast
qed

lemma validate_iff:
  assumes "dict_ok (cn_entries c)"
  shows "composition_validate c = None \<longleftrightarrow> flows_closed c \<and> is_dag (composition_deps c)"
proof -
  have d: "dict_ok (composition_deps c)" using assms by simp
  have "(\<exists>ls. compute_layers (composition_deps c) = Inr ls) \<longleftrightarrow> is_dag (composition_deps c)"
    using kahn.layers_exist [OF d] by (simp add: is_ok_iff)
  then have t: "(case compute_layers (composition_deps c) of Inl e \<Rightarrow> Some e | Inr _ \<Rightarrow> None) = None \<longleftrightarrow>
      is_dag (composition_deps c)" by (auto split: sum.splits)
  have m: "missing_entry (set (dkeys (cn_entries c))) (composition_deps c) = None \<longleftrightarrow> closed_deps (composition_deps c)"
    unfolding missing_entry_None deps_closed_iff [OF assms] ..
  have f: "missing_entry (set (dkeys (cn_entries c))) (composition_flows c) = None \<longleftrightarrow> flows_closed c"
    unfolding missing_entry_None flows_closed_def ..
  have "is_dag (composition_deps c) \<Longrightarrow> closed_deps (composition_deps c)" by (simp add: is_dag_def)
  with t m f show ?thesis
    unfolding composition_validate_def Let_def
    by (cases "missing_entry (set (dkeys (cn_entries c))) (composition_deps c)";
        cases "missing_entry (set (dkeys (cn_entries c))) (composition_flows c)") auto
qed

section \<open>Properties\<close>

text \<open>
  The builder: it builds exactly the compositions that have an entry, whose dependencies are acyclic and refer to
  entries, and whose data flows come from entries; what it builds has the entries and the policy given to it, and
  can be laid out in layers.
\<close>

theorem build_composition_correct:
  assumes "dict_ok (cb_entries b)"
  shows "case build_composition b of
           Inr c \<Rightarrow> c = \<lparr>cn_name = cb_name b, cn_entries = cb_entries b, cn_policy = cb_policy b\<rparr> \<and>
             cb_entries b \<noteq> [] \<and> flows_closed c \<and> is_dag (composition_deps c) \<and>
             is_ok (compute_layers (composition_deps c))
         | Inl e \<Rightarrow> cb_entries b = [] \<or>
             \<not> (let c = \<lparr>cn_name = cb_name b, cn_entries = cb_entries b, cn_policy = cb_policy b\<rparr>
                in flows_closed c \<and> is_dag (composition_deps c))"
proof -
  let ?c = "\<lparr>cn_name = cb_name b, cn_entries = cb_entries b, cn_policy = cb_policy b\<rparr>"
  have ok: "dict_ok (cn_entries ?c)" using assms by simp
  then have "is_ok (compute_layers (composition_deps ?c)) \<longleftrightarrow> is_dag (composition_deps ?c)"
    by (intro kahn.layers_exist) simp
  with validate_iff [OF ok] show ?thesis
    by (cases "composition_validate ?c") (auto simp: build_composition_def Let_def)
qed

definition two_entries :: composition_builder where
  "two_entries =
     add_entry (entry_data_flow ''stock'' None (Some ''stock'') (entry_depends_on [''stock''] (begin_entry ''pay'')))
       (add_entry (begin_entry ''stock'') (new_composition_builder ''order''))"

theorem build_composition_correct_witness:
  "\<exists>c. build_composition two_entries = Inr c \<and> is_dag (composition_deps c)"
proof -
  have ok: "dict_ok (cb_entries two_entries)"
    by (simp add: two_entries_def add_entry_def new_composition_builder_def)
  have "is_ok (build_composition two_entries)" by code_simp
  then obtain c where c: "build_composition two_entries = Inr c" by (auto simp: is_ok_iff)
  from build_composition_correct [OF ok] have "is_dag (composition_deps c)" unfolding c sum.case by blast
  with c show ?thesis by blast
qed

text \<open>
  Claim C17. An execution of a composition: a saga is started only when every saga it depends on has succeeded; without
  an error all sagas have succeeded and nothing is compensated; with one, exactly the recorded sagas, the failed one
  included, are listed as compensated, last first, and those of them that are registered and have a step that is done have
  been handed to the compensator in that order.
\<close>

theorem composition_execution:
  assumes "dict_ok (cn_entries c)" "composition_execute co c inp hdrs cid = Some (Inr (ctx, lg))"
  shows "(\<forall>n \<in> set (dkeys (cc_inputs ctx)). \<forall>d \<in> entry_deps c n. succeeded ctx d) \<and>
         (if cc_error ctx = None
          then (\<forall>n \<in> set (dkeys (cn_entries c)). succeeded ctx n) \<and> cc_compensated ctx = [] \<and> lg = []
          else cc_compensated ctx = rev (dkeys (cc_results ctx)) \<and>
            map fst lg = filter (undoable co ctx) (rev (dkeys (cc_results ctx))))"
proof -
  let ?new = "new_composition_context cid (cn_name c)"
  obtain layers err c1 cs where l: "compute_layers (composition_deps c) = Inr layers"
    and r: "run_layers co c inp hdrs layers ?new [] = Some (err, c1, cs)"
    and out: "case err of None \<Rightarrow> ctx = c1 \<and> lg = []
      | Some e \<Rightarrow> compensate_completed co c (rev cs) (c1\<lparr>cc_error := Some e\<rparr>) [] = (ctx, lg)"
    using assms(2) by (auto simp: composition_execute_def split: sum.splits option.splits prod.splits)
  have d: "dict_ok (composition_deps c)" using assms(1) by simp
  have v: "valid_layers (composition_deps c) layers" by (rule kahn.layers_valid [OF d l])
  have "distinct ([] @ concat layers)" "follows c [] layers"
    using v follows_init [of c layers] by (simp_all add: valid_layers_def)
  from run_layers_order [OF r this(1) _ this(2)] have s:
    "cc_compensated c1 = []" "cc_error c1 = None" "err = None \<longrightarrow> (\<forall>n \<in> set (concat layers). succeeded c1 n)"
    "\<forall>n \<in> set (dkeys (cc_inputs c1)). \<forall>d \<in> entry_deps c n. succeeded c1 d" "dkeys (cc_results c1) = cs"
    by (simp_all add: new_composition_context_def)
  have nodes: "set (concat layers) = set (dkeys (cn_entries c))"
    using kahn.layer_nodes [OF d l] unfolding composition_deps_keys .
  show ?thesis
  proof (cases err)
    case None
    with out have "ctx = c1" "lg = []" by simp_all
    moreover have "\<forall>n \<in> set (dkeys (cn_entries c)). succeeded c1 n" using s(3) None unfolding nodes by blast
    ultimately show ?thesis using s(1,2,4) by simp
  next
    case (Some e)
    let ?e = "c1\<lparr>cc_error := Some e\<rparr>"
    from out Some have comp: "compensate_completed co c (rev cs) ?e [] = (ctx, lg)" by simp
    note f = compensate_completed_frame [OF comp]
    have "succeeded ctx = succeeded c1" "undoable co ctx = undoable co ?e"
      using f by (simp_all add: succeeded_def undoable_def fun_eq_iff)
    with f s show ?thesis by simp
  qed
qed

text \<open>A composition of two sagas, whose second fails after its first step.\<close>

definition order_result :: "string \<Rightarrow> bool \<Rightarrow> saga_result" where
  "order_result n ok = \<lparr>sr_saga_name = n, sr_correlation_id = ''k1'', sr_started_at = noon 1, sr_completed_at = noon 1,
     sr_success = ok, sr_error = (if ok then None else Some refused), sr_headers = [],
     sr_steps = map (\<lambda>s. (s, \<lparr>so_status = (if s = ''pay'' then FAILED else DONE), so_attempts = 1, so_latency_ms = 0,
        so_result = VNone, so_error = None, so_compensated = False, so_started_at = noon 1,
        so_compensation_result = VNone, so_compensation_error = None\<rparr>)) (dkeys (steps trip))\<rparr>"

definition order_compositor :: compositor where
  "order_compositor = \<lparr>co_run = (\<lambda>n inp hdrs cid. Some (Inr (order_result n (n = ''stock'')))),
     co_registry = [(''pay'', trip)], co_comp = (\<lambda>_. shop_env 0), co_uuid = ''u3''\<rparr>"

definition order_composition :: "compensation_policy \<Rightarrow> composition" where
  "order_composition pol = \<lparr>cn_name = ''order'', cn_entries = cb_entries two_entries, cn_policy = pol\<rparr>"

lemma order_runs:
  obtains ctx where "composition_execute order_compositor (order_composition STRICT_SEQUENTIAL) VNone None ''k1'' =
      Some (Inr (ctx, [(''pay'', [Invoked ''car'' None, Invoked ''hotel'' None])]))"
    "cc_error ctx \<noteq> None" "cc_compensated ctx = [''pay'', ''stock'']"
proof -
  let ?x = "composition_execute order_compositor (order_composition STRICT_SEQUENTIAL) VNone None ''k1''"
  have c: "(case ?x of Some (Inr (ctx, lg)) \<Rightarrow> lg = [(''pay'', [Invoked ''car'' None, Invoked ''hotel'' None])] \<and>
      cc_error ctx \<noteq> None \<and> cc_compensated ctx = [''pay'', ''stock''] | _ \<Rightarrow> False)" by code_simp
  then obtain y where y: "?x = Some y" by (cases ?x) simp_all
  with c obtain z where "y = Inr z" by (cases y) simp_all
  with c y that show thesis by (cases z) simp
qed

theorem composition_execution_witness:
  "\<exists>ctx lg. composition_execute order_compositor (order_composition STRICT_SEQUENTIAL) VNone None ''k1'' = Some (Inr (ctx, lg)) \<and>
     cc_compensated ctx = rev (dkeys (cc_results ctx)) \<and> map fst lg = [''pay'']"
proof -
  obtain ctx where e: "composition_execute order_compositor (order_composition STRICT_SEQUENTIAL) VNone None ''k1'' =
      Some (Inr (ctx, [(''pay'', [Invoked ''car'' None, Invoked ''hotel'' None])]))" "cc_error ctx \<noteq> None"
    by (rule order_runs)
  have "dict_ok (cn_entries (order_composition STRICT_SEQUENTIAL))"
    by (simp add: order_composition_def two_entries_def add_entry_def new_composition_builder_def)
  from composition_execution [OF this e(1)] e show ?thesis
    by (intro exI [of _ ctx] exI [of _ "[(''pay'', [Invoked ''car'' None, Invoked ''hotel'' None])]"]) auto
qed

text \<open>
  Under the layered policy the manager compensates nothing: it hands the compensator no layers, so every log is
  empty, and the sagas are listed as compensated all the same.
\<close>

theorem layered_policy_compensates_nothing:
  assumes "cn_policy c = GROUPED_PARALLEL" "compensate_completed co c names ctx [] = (ctx', lg)"
  shows "(\<forall>(n, l) \<in> set lg. l = []) \<and> cc_compensated ctx' = cc_compensated ctx @ names"
proof -
  have "\<forall>(n, l) \<in> set lg'. l = []"
    if "compensate_completed co c names ctx l0 = (ctx', lg')" "\<forall>(n, l) \<in> set l0. l = []" for l0 lg' ctx
    using that
  proof (induction names arbitrary: ctx l0)
    case (Cons n names)
    obtain l1 where "compensate_completed co c names (ctx\<lparr>cc_compensated := cc_compensated ctx @ [n]\<rparr>) l1 = (ctx', lg')"
      "\<forall>(n, l) \<in> set l1. l = []"
      using Cons.prems by (auto simp: Let_def assms(1) grouped_no_layers split: option.splits if_splits)
    then show ?case by (rule Cons.IH)
  qed simp
  from this [OF assms(2)] compensate_completed_frame [OF assms(2)] show ?thesis by simp
qed

theorem layered_policy_compensates_nothing_witness:
  "\<exists>ctx' lg. compensate_completed order_compositor (order_composition GROUPED_PARALLEL) [''pay'']
       ((new_composition_context ''k1'' ''order'')\<lparr>cc_results := [(''pay'', order_result ''pay'' False)]\<rparr>) [] = (ctx', lg) \<and>
     map fst lg = [''pay''] \<and> (\<forall>(n, l) \<in> set lg. l = []) \<and> cc_compensated ctx' = [''pay'']"
proof -
  let ?ctx = "(new_composition_context ''k1'' ''order'')\<lparr>cc_results := [(''pay'', order_result ''pay'' False)]\<rparr>"
  obtain ctx' lg where e: "compensate_completed order_compositor (order_composition GROUPED_PARALLEL) [''pay''] ?ctx [] = (ctx', lg)"
    by fastforce
  have "cn_policy (order_composition GROUPED_PARALLEL) = GROUPED_PARALLEL" by (simp add: order_composition_def)
  from layered_policy_compensates_nothing [OF this e] have "(\<forall>(n, l) \<in> set lg. l = [])" "cc_compensated ctx' = [''pay'']"
    by (simp_all add: new_composition_context_def)
  moreover have "map fst (snd (compensate_completed order_compositor (order_composition GROUPED_PARALLEL) [''pay''] ?ctx [])) = [''pay'']"
    by code_simp
  ultimately show ?thesis using e by (intro exI [of _ ctx'] exI [of _ lg]) simp
qed

text \<open>
  The manager does not respect the dependencies between the steps of a saga: it compensates the steps in the
  reverse of the order the definition lists them, so a step listed before the one it depends on is compensated after it.
\<close>

theorem composition_compensates_in_definition_order:
  "let sg = trip\<lparr>steps := rev (steps trip)\<rparr>;
       r = (order_result ''pay'' False)\<lparr>sr_steps := rev (sr_steps (order_result ''pay'' False))\<rparr>;
       co = order_compositor\<lparr>co_registry := [(''pay'', sg)]\<rparr>
   in ''hotel'' \<in> set (preds (step_deps sg) ''car'') \<and>
      snd (compensate_completed co (order_composition STRICT_SEQUENTIAL) [''pay'']
        ((new_composition_context ''k1'' ''order'')\<lparr>cc_results := [(''pay'', r)]\<rparr>) []) =
      [(''pay'', [Invoked ''hotel'' None, Invoked ''car'' None])]"
  by code_simp

end
