(* ===== verification/Spec2Isabelle.thy ===== *)
theory Spec2Isabelle
  imports AppContext Config WebFilters OAuth2Login SecurityExpr OAuth2 Container Cqrs Caching ServiceClient Resilience SagaState TccEngine Composition
begin

text \<open>
  A verification development for PyFly, a Python application framework in the style of Spring
  (\<^verbatim>\<open>src/src/pyfly\<close>). It models the transactional engine, that is sagas, TCC
  transactions, their composition and their persistence (\<^verbatim>\<open>pyfly/transactional\<close>), and the packages around it named below.

  \<^bold>\<open>The program.\<close> A saga is a set of steps with dependencies. A user declares it with decorators or with
  a builder; the registry validates it; the engine runs it: the orchestrator executes the steps
  layer by layer with retries, back-off, timeouts and a semaphore, and when a step fails the compensator undoes what was done
  under one of five policies. A TCC transaction runs every participant's try phase, then confirms all of
  them or cancels those that were reserved. A composition runs several sagas as one, with data flowing between them. The
  engines report through a result object, an events port and a persistence port; a recovery service looks for
  transactions that have been in flight too long.

  \<^bold>\<open>Theories\<close>, in the order of their dependencies:
  \<^item> \<open>Prelude\<close>: dictionaries as association lists in insertion order, exceptions, Python values, results.
    \<open>Datetime\<close>: UTC instants, their order and ISO-8601 text, with the round trip of the text.
  \<^item> \<open>Topology\<close> (\<^verbatim>\<open>saga/engine/topology.py\<close>): the layering of a dependency graph; it is the earliest valid one, and exists
    exactly for closed acyclic graphs.
  \<^item> \<open>SagaCore\<close> (\<^verbatim>\<open>shared/types.py\<close>, \<^verbatim>\<open>saga/core\<close>, \<^verbatim>\<open>saga/registry/*_definition.py\<close>): definitions, the execution
    context and results.
  \<^item> \<open>ArgResolver\<close> (\<^verbatim>\<open>saga/engine/argument_resolver.py\<close>, \<^verbatim>\<open>step_invoker.py\<close>): how a step's parameters are filled and its
    method called.
  \<^item> \<open>SagaRegistry\<close> (\<^verbatim>\<open>saga/annotations.py\<close>, \<^verbatim>\<open>saga/registry\<close>): decoration, registration and the builder; which definitions they
    accept and what they produce.
  \<^item> \<open>SagaOrch\<close> (\<^verbatim>\<open>saga/engine/execution_orchestrator.py\<close>): a state machine over scheduling events; ordering, success,
    failure, termination, concurrency and back-off for every schedule.
  \<^item> \<open>Compensator\<close> (\<^verbatim>\<open>saga/engine/compensator.py\<close>): the five policies. \<open>SagaEngine\<close> (\<^verbatim>\<open>saga_engine.py\<close>): the whole
    execution, its result, its compensation order and what it stores.
  \<^item> \<open>Persistence\<close> (\<^verbatim>\<open>shared/persistence/memory.py\<close>, \<^verbatim>\<open>saga/persistence/recovery.py\<close>) and \<open>SagaState\<close>
    (\<^verbatim>\<open>saga/persistence/state.py\<close>, \<^verbatim>\<open>tcc/persistence/state.py\<close>): the store, recovery, cleanup and the round trips of the
    state classes.
  \<^item> \<open>TccCore\<close>, \<open>TccOrch\<close>, \<open>TccEngine\<close> (\<^verbatim>\<open>pyfly/transactional/tcc\<close>): registration, the coordinator as a refinement of an abstract
    protocol, and the engine.
  \<^item> \<open>Composition\<close> (\<^verbatim>\<open>saga/composition\<close>): builder, validation, data flows, execution and compensation of compositions.
  \<^item> \<open>Exceptions\<close> (\<^verbatim>\<open>kernel/exceptions.py\<close>) and \<open>Resilience\<close> (\<^verbatim>\<open>pyfly/resilience\<close>): the exception hierarchy, the token bucket, the
    bulkhead, fallbacks and timeouts.
  \<^item> \<open>ServiceClient\<close> (\<^verbatim>\<open>pyfly/client\<close>): circuit breaker, retry policy and how the post-processor wraps the methods of a service client.
  \<^item> \<open>Caching\<close> (\<^verbatim>\<open>pyfly/cache\<close>, \<^verbatim>\<open>cqrs/cache/adapter.py\<close>): the caches as implementations of one interface (locale \<open>cache_port\<close>), which
    is interpreted on each of them, and the caching decorators.
  \<^item> \<open>Cqrs\<close> (\<^verbatim>\<open>pyfly/cqrs\<close>): messages, handlers and their registry, validation and authorization, the command and the query
    bus; the lemmas about cached answers are proved for every cache of the locale \<open>cache_port\<close>.
  \<^item> \<open>Container\<close> (\<^verbatim>\<open>pyfly/container\<close>): registrations, scopes, creation with constructor and field injection, cycle detection;
    the depth of the recursion is bounded by the number of registrations.
  \<^item> \<open>SecurityExpr\<close> (\<^verbatim>\<open>security/context.py\<close>, \<^verbatim>\<open>security/decorators.py\<close>): the security context and the evaluation of security expressions,
    with Python's grammar for the tokens the code lets through (the parser's fuel is shown to be enough).
  \<^item> \<open>OAuth2\<close> (\<^verbatim>\<open>security/oauth2\<close>, \<^verbatim>\<open>security/jwt.py\<close>): client registrations, the authorization server with its token store, and how
    tokens become security contexts; the library that signs tokens is a parameter.
  \<^item> \<open>WebFilters\<close> (\<^verbatim>\<open>web/filters.py\<close>, \<^verbatim>\<open>web/adapters/starlette\<close>, \<^verbatim>\<open>session\<close>, \<^verbatim>\<open>security/http_security.py\<close>, \<^verbatim>\<open>security/method_security.py\<close>): glob
    patterns, the chain of filters in its order, sessions in a heap shared with the memory store, the filters that make a security context, URL
    rules, CSRF, status codes and method security.
  \<^item> \<open>OAuth2Login\<close> (\<^verbatim>\<open>security/oauth2/login.py\<close>): the login routes over sessions, and the soundness of logins in every history of requests.
  \<^item> \<open>Config\<close> (\<^verbatim>\<open>core/config.py\<close>, \<^verbatim>\<open>context/environment.py\<close>): configuration files merged in order, reading of keys, placeholders (the depth bound is
    the code's own), binding and profiles.
  \<^item> \<open>AppContext\<close> (\<^verbatim>\<open>context/application_context.py\<close>, \<^verbatim>\<open>context/condition_evaluator.py\<close>, \<^verbatim>\<open>context/events.py\<close>): profiles, conditions, factory methods,
    life cycle and events of a context over the container; the actions of beans are functions on a world, which the theorems about order instantiate with the list of calls.
  This theory holds the properties that span components.

  \<^bold>\<open>Conventions.\<close> Definitions keep the source's names; a suffix or prefix avoids a clash. A Python object with
  attributes is a record, an enumeration a datatype, \<^verbatim>\<open>None\<close> is \<open>None\<close>; strings are HOL strings, floats are
  rationals (rounding is not modelled), integers are unbounded as in Python. A dictionary keeps its order; where the code
  iterates over a set, the order is a parameter. An exception is a value: its class, the template of its message and the
  values in it; an operation that may raise returns a sum with the exception on the left. Code that user programs
  supply (step methods, event listeners, stores) is a parameter, mostly a function of what has happened so
  far; it may return or raise anything, and changes an execution context only through what the engine offers.
  Raising a \<^verbatim>\<open>BaseException\<close> that is not an \<^verbatim>\<open>Exception\<close>, cancellation from outside and
  threads are not modelled. Log messages are not modelled.

  \<^bold>\<open>Concurrency.\<close> The orchestrator is a step function on an explicit state, and every theorem about it
  quantifies over all schedules, which include all interleavings of asyncio; the tasks a policy gathers
  complete in an arbitrary order. The TCC coordinator runs its participants one at a time, so it is a function.

  \<^bold>\<open>Bounds.\<close> No definition has fuel: loops recurse on lists or have a termination proof; an execution of the
  orchestrator is bounded by its number of attempts.

  \<^bold>\<open>Properties.\<close> Each stands after a text block with its claim number. Hypotheses such as \<open>saga_def_ok\<close> are what the
  registries establish; a property with hypotheses is followed by a witness, a concrete execution to which it applies.
  Several properties state behaviour that looks unintended, for example that the bodies of decorated coroutine functions are
  never awaited; they are theorems about the code as it is.

  \<^bold>\<open>Not modelled.\<close> Configuration records, port declarations and auto-configuration of the transactional package have
  no operation of their own. The other packages of the framework (the container, the web layer, data access,
  CQRS, resilience, security and so on) do not take part in a transaction and are listed in the manifest.
\<close>

section \<open>What the engines store and what the state classes read\<close>

text \<open>
  While a saga is in flight, the dictionary the engine stored is one \<^verbatim>\<open>SagaExecutionState.from_dict\<close>
  reads; the one it has after \<^verbatim>\<open>mark_completed\<close> holds a \<^verbatim>\<open>datetime\<close> where \<^verbatim>\<open>from_dict\<close> expects text.
\<close>

lemma in_flight_state_readable:
  assumes "dt_ok started"
  shows "\<exists>x. saga_from_dict (with_defaults now (initial_state name cid hdrs started)) = Inr x \<and>
           sx_status x = SX_IN_FLIGHT \<and> sx_started_at x = started \<and> sx_completed_at x = None \<and>
           sx_saga_name x = VStr name \<and> sx_correlation_id x = VStr cid"
  using assms
  by (simp add: saga_from_dict_def with_defaults_def initial_state_def setdefault_get dget_default_def
      as_dict_def getitem_def get_or_none_def opt_val_def time_if_true_def saga_status_of_def enum_of_def)

lemma marked_state_unreadable:
  assumes "dt_ok started"
  shows "\<exists>e. saga_from_dict (marked t ok (with_defaults now (initial_state name cid hdrs started))) = Inl e \<and>
           exc_cls e = TypeErrorC"
  using assms
  by (simp add: saga_from_dict_def marked_get with_defaults_def initial_state_def setdefault_get dget_default_def
      as_dict_def getitem_def get_or_none_def opt_val_def time_if_true_def saga_status_of_def enum_of_def
      parse_time_def)

lemma marked_tcc_state_unreadable:
  "\<exists>e. tcc_from_dict (marked t ok (with_defaults now (tcc_initial_state name cid hdrs started))) = Inl e \<and>
      exc_cls e = TypeErrorC"
  by (simp add: tcc_from_dict_def marked_get get_or_none_def opt_val_def time_if_given_def parse_time_def)

text \<open>
  Claim C19. What an engine leaves behind cannot be read back: after an execution on the memory adapter has returned, the state classes
  raise a \<^verbatim>\<open>TypeError\<close> on the stored dictionary, while a saga still in flight is read as such.
\<close>

theorem stored_state_unreadable:
  assumes "registry_get (eng_registry eng) name = Some sg" "saga_def_ok sg"
    and "eng_persistence eng = Some \<lparr>pp_persist = persist_state, pp_mark = mark_completed\<rparr>"
    and "engine_execute eng run name input hdrs cid policy store = Some (Inr r, lg, store')"
    and "dt_ok (run_started run)"
  shows "(\<exists>st e. get_state store' (sr_correlation_id r) = Some st \<and> saga_from_dict st = Inl e \<and> exc_cls e = TypeErrorC) \<and>
         (\<exists>x. saga_from_dict (with_defaults (run_started run)
                (initial_state name (sr_correlation_id r) (sr_headers r) (run_started run))) = Inr x \<and>
            sx_status x = SX_IN_FLIGHT \<and> sx_started_at x = run_started run)"
proof -
  note stored = engine_stored [OF assms(1-4), of "sr_correlation_id r"]
  let ?st = "with_defaults (run_started run)
      (initial_state name (sr_correlation_id r) (sr_headers r) (run_started run))"
  have "\<exists>e. saga_from_dict (marked (run_marked run) (sr_success r) ?st) = Inl e \<and> exc_cls e = TypeErrorC"
    by (rule marked_state_unreadable [OF assms(5)])
  then obtain e where e: "saga_from_dict (marked (run_marked run) (sr_success r) ?st) = Inl e" "exc_cls e = TypeErrorC"
    by (elim exE conjE) (rule that)
  have "\<exists>x. saga_from_dict ?st = Inr x \<and> sx_status x = SX_IN_FLIGHT \<and> sx_started_at x = run_started run \<and>
      sx_completed_at x = None \<and> sx_saga_name x = VStr name \<and> sx_correlation_id x = VStr (sr_correlation_id r)"
    by (rule in_flight_state_readable [OF assms(5)])
  then obtain x where x: "saga_from_dict ?st = Inr x" "sx_status x = SX_IN_FLIGHT" "sx_started_at x = run_started run"
    by (elim exE conjE) (rule that)
  show ?thesis using stored e x by simp
qed

theorem stored_state_unreadable_witness:
  "\<exists>r lg s' st e. engine_execute trip_engine trip_run ''trip'' VNone None None STRICT_SEQUENTIAL [] =
       Some (Inr r, lg, s') \<and> get_state s' (sr_correlation_id r) = Some st \<and>
       saga_from_dict st = Inl e \<and> exc_cls e = TypeErrorC"
proof -
  obtain r s' where e: "engine_execute trip_engine trip_run ''trip'' VNone None None STRICT_SEQUENTIAL [] =
      Some (Inr r, [Invoked ''car'' None, Invoked ''hotel'' None], s')"
    by (rule trip_executes)
  have p: "eng_persistence trip_engine = Some \<lparr>pp_persist = persist_state, pp_mark = mark_completed\<rparr>"
    by (simp add: trip_engine_def)
  have d: "dt_ok (run_started trip_run)" 
    by (simp add: trip_run_def noon_def dt_ok_def days_in_month_def)
  from stored_state_unreadable [OF trip_reg trip_ok p e d]
  obtain st ex where st: "get_state s' (sr_correlation_id r) = Some st" "saga_from_dict st = Inl ex" "exc_cls ex = TypeErrorC"
    by (elim conjE exE) (rule that)
  show ?thesis by (intro exI conjI) (rule e, rule st(1), rule st(2), rule st(3))
qed

end
